(* ===== verification/Prelude.thy ===== *)
theory Prelude
  imports Main "HOL-Library.Word" "HOL-Library.Sublist"
begin

text \<open>
  Shared vocabulary of the development: the fixed-width integers of the i386 ABI, the outcome
  of kernel code that may panic or touch memory it does not own, the named collections the
  components fill, and the generic lemmas on lists, options and words they share.
\<close>

unbundle bit_operations_syntax

section \<open>Machine integers and bytes\<close>

type_synonym u8 = "8 word"
type_synonym u16 = "16 word"
type_synonym u32 = "32 word"
type_synonym u64 = "64 word"

text \<open>
  A C \<^verbatim>\<open>char\<close> is an Isabelle \<^typ>\<open>char\<close>: eight bits. On i386 gcc it is signed, so reading it
  as a number needs a choice: \<open>uchar\<close> is \<^verbatim>\<open>(unsigned char)c\<close>, \<open>schar\<close> the promotion of the
  plain \<^verbatim>\<open>char\<close> to \<^verbatim>\<open>int\<close>.
\<close>

abbreviation NUL :: char where
  "NUL \<equiv> CHR 0x00"

definition uchar :: "char \<Rightarrow> int" where
  "uchar c = of_char c"

definition schar :: "char \<Rightarrow> int" where
  "schar c = (if uchar c < 128 then uchar c else uchar c - 256)"

text \<open>Addresses are 32-bit; memory is what a byte load returns.\<close>

type_synonym addr = u32
type_synonym mem = "addr \<Rightarrow> char"

abbreviation NULL :: addr where
  "NULL \<equiv> 0"

section \<open>Outcomes\<close>

text \<open>
  \<open>Ok v\<close>: the code returned \<open>v\<close>. \<open>Panic msg\<close>: it called \<^verbatim>\<open>panic\<close> (kernel/panic.c), which prints
  and halts. \<open>Fault\<close>: it dereferenced a pointer to no live object or indexed outside an array,
  which C leaves undefined. A \<open>run\<close> is the outcome of code with loops that need not end:
  \<open>None\<close> is a run that never returns.
\<close>

datatype 'a outcome = Ok 'a | Panic string | Fault

type_synonym 'a run = "'a outcome option"

definition ret :: "'a \<Rightarrow> 'a run" where
  "ret x = Some (Ok x)"

definition panic_run :: "string \<Rightarrow> 'a run" where
  "panic_run msg = Some (Panic msg)"

definition fault_run :: "'a run" where
  "fault_run = Some Fault"

definition run_bind :: "'a run \<Rightarrow> ('a \<Rightarrow> 'b run) \<Rightarrow> 'b run" where
  "run_bind m f = Option.bind m
     (\<lambda>r. case r of Ok a \<Rightarrow> f a | Panic msg \<Rightarrow> Some (Panic msg) | Fault \<Rightarrow> Some Fault)"

named_theorems run_simps \<open>evaluation of the outcome monad\<close>

lemma run_bind_simps [simp, run_simps]:
  "run_bind (ret a) f = f a"
  "run_bind (panic_run msg) f = panic_run msg"
  "run_bind fault_run f = fault_run"
  "run_bind None f = None"
  by (simp_all add: run_bind_def ret_def panic_run_def fault_run_def)

lemma ret_inject [simp]: "ret a = ret b \<longleftrightarrow> a = b"
  by (simp add: ret_def)

lemma ret_distinct [simp]:
  "ret a \<noteq> panic_run msg" "panic_run msg \<noteq> ret a" "ret a \<noteq> fault_run" "fault_run \<noteq> ret a"
  "ret a \<noteq> None" "None \<noteq> ret a" "fault_run \<noteq> panic_run msg" "panic_run msg \<noteq> fault_run"
  "fault_run \<noteq> None" "panic_run msg \<noteq> None" "None \<noteq> fault_run" "None \<noteq> panic_run msg"
  by (simp_all add: ret_def panic_run_def fault_run_def)

lemma run_bind_eq_ret:
  "run_bind m f = ret b \<longleftrightarrow> (\<exists>a. m = ret a \<and> f a = ret b)"
  by (cases m; cases "the m") (auto simp: run_bind_def ret_def)

lemma run_bind_assoc: "run_bind (run_bind m f) g = run_bind m (\<lambda>x. run_bind (f x) g)"
  by (cases m; cases "the m") (auto simp: run_bind_def)

text \<open>Binding is monotone, so that loops in the monad can be defined by \<open>partial_function\<close>.\<close>

lemma run_bind_mono [partial_function_mono]:
  assumes "mono_option B" and "\<And>y. mono_option (\<lambda>f. C y f)"
  shows "mono_option (\<lambda>f. run_bind (B f) (\<lambda>y. C y f))"
proof -
  have "mono_option (\<lambda>f. Option.bind (B f)
      (\<lambda>r. case r of Ok a \<Rightarrow> C a f | Panic msg \<Rightarrow> Some (Panic msg) | Fault \<Rightarrow> Some Fault))"
  proof (rule bind_mono [OF assms(1)])
    show "mono_option (\<lambda>f. case r of Ok a \<Rightarrow> C a f | Panic msg \<Rightarrow> Some (Panic msg) | Fault \<Rightarrow> Some Fault)"
      for r by (cases r) (simp_all add: assms(2) option.const_mono)
  qed
  then show ?thesis by (simp add: run_bind_def)
qed

section \<open>Lists, characters, words\<close>

lemma uchar_nat: "uchar c = int (of_char c)"
  by (simp add: uchar_def of_nat_of_char)

lemma uchar_bounds: "0 \<le> uchar c" "uchar c < 256"
  using nat_of_char_less_256 [of c] by (simp_all add: uchar_nat)

lemma uchar_inject [simp]: "uchar a = uchar b \<longleftrightarrow> a = b"
  by (simp add: uchar_def)

lemma uchar_NUL [simp]: "uchar NUL = 0"
  by (simp add: uchar_def)

lemma uchar_eq_0_iff: "uchar c = 0 \<longleftrightarrow> c = NUL"
  by (metis uchar_NUL uchar_inject)

named_theorems word_nat \<open>moving 32-bit arithmetic to the naturals\<close>

lemma of_nat_inj_u32: "i < 2 ^ 32 \<Longrightarrow> j < 2 ^ 32 \<Longrightarrow> (of_nat i :: u32) = of_nat j \<longleftrightarrow> i = j"
  by (auto simp: word_of_nat_eq_iff take_bit_nat_eq_self)

lemma addr_offset_inj:
  "i < 2 ^ 32 \<Longrightarrow> j < 2 ^ 32 \<Longrightarrow> (p :: u32) + of_nat i = p + of_nat j \<longleftrightarrow> i = j"
  by (simp add: of_nat_inj_u32)

lemma addr_minus_neq: "0 < k \<Longrightarrow> k < 2 ^ 32 \<Longrightarrow> (p :: u32) \<noteq> p - of_nat k"
  using of_nat_inj_u32 [of 0 k] by (auto simp: eq_diff_eq)

lemma unat_of_nat_u32 [word_nat]: "n < 2 ^ 32 \<Longrightarrow> unat (of_nat n :: u32) = n"
  by (simp add: unat_of_nat take_bit_nat_eq_self)

lemma unat_u32_lt: "unat (w :: u32) < 2 ^ 32"
  using unsigned_less [of w] by simp

lemma unat_add_offset [word_nat]:
  "unat (p :: u32) + n < 2 ^ 32 \<Longrightarrow> unat (p + of_nat n) = unat p + n"
  by (subst unat_add_lem [THEN iffD1]) (simp_all add: unat_of_nat_u32)

lemma u32_eq_iff: "(a :: u32) = b \<longleftrightarrow> unat a = unat b"
  by (simp add: word_unat_eq_iff)

text \<open>Clearing low bits rounds down to a multiple of a power of two.\<close>

lemma and_not_mask_split: "(w AND NOT (mask k)) + take_bit k w = (w :: 'a::len word)"
proof -
  have "w AND NOT (mask k) = push_bit k (drop_bit k w)"
    by (rule bit_eqI) (auto simp: bit_simps dest: bit_imp_le_length)
  then show ?thesis by (simp add: bits_ident)
qed

lemma unat_and_not_mask: "unat (w AND NOT (mask k)) = unat (w :: 'a::len word) div 2 ^ k * 2 ^ k"
proof -
  have "w AND NOT (mask k) = w - take_bit k w"
    using and_not_mask_split [of w k] by (metis add_diff_cancel_right')
  moreover have "unat (take_bit k w) = unat w mod 2 ^ k"
    by (simp only: unsigned_take_bit_eq take_bit_eq_mod [where 'a = nat])
  moreover have "take_bit k w \<le> w"
    using calculation by (simp add: word_le_nat_alt)
  ultimately show ?thesis
    by (simp add: unat_sub minus_mod_eq_div_mult)
qed

end
