(* ===== verification/Io.thy ===== *)
theory Io
  imports Prelude
begin

text \<open>
  Port I/O (include/raptor/io.h) and the two polled devices, the UART (drivers/serial.c) and the
  real-time clock (drivers/rtc.c). Devices are a parameter: what a read returns is a function of
  the whole history of port accesses and interrupts so far, so every deterministic device is
  covered. The properties name what they rely on as predicates on that function.
\<close>

section \<open>Ports\<close>

datatype pevent =
    In8 u16 | In16 u16 | In32 u16
  | Out8 u16 u8 | Out16 u16 u16 | Out32 u16 u32
  | Irq nat

text \<open>
  \<open>port_in\<close> answers the read at the head of the history; \<open>wake\<close> is the IRQ line that ends a
  \<^verbatim>\<open>hlt\<close> at that point of the history, if one ever does. Both are fixed by the hardware.
  \<open>trace\<close> is the history, newest event first.
\<close>

record io =
  port_in :: "pevent list \<Rightarrow> u32"
  wake :: "pevent list \<Rightarrow> nat option"
  trace :: "pevent list"

definition outb :: "u16 \<Rightarrow> u8 \<Rightarrow> 'a io_scheme \<Rightarrow> 'a io_scheme" where
  "outb port val s = s\<lparr>trace := Out8 port val # trace s\<rparr>"

definition inb :: "u16 \<Rightarrow> 'a io_scheme \<Rightarrow> 'a io_scheme \<times> u8" where
  "inb port s = (s\<lparr>trace := In8 port # trace s\<rparr>, ucast (port_in s (In8 port # trace s)))"

definition outw :: "u16 \<Rightarrow> u16 \<Rightarrow> 'a io_scheme \<Rightarrow> 'a io_scheme" where
  "outw port val s = s\<lparr>trace := Out16 port val # trace s\<rparr>"

definition inw :: "u16 \<Rightarrow> 'a io_scheme \<Rightarrow> 'a io_scheme \<times> u16" where
  "inw port s = (s\<lparr>trace := In16 port # trace s\<rparr>, ucast (port_in s (In16 port # trace s)))"

definition outl :: "u16 \<Rightarrow> u32 \<Rightarrow> 'a io_scheme \<Rightarrow> 'a io_scheme" where
  "outl port val s = s\<lparr>trace := Out32 port val # trace s\<rparr>"

definition inl :: "u16 \<Rightarrow> 'a io_scheme \<Rightarrow> 'a io_scheme \<times> u32" where
  "inl port s = (s\<lparr>trace := In32 port # trace s\<rparr>, port_in s (In32 port # trace s))"

definition io_wait :: "'a io_scheme \<Rightarrow> 'a io_scheme" where
  "io_wait s = outb 0x80 0 s"

text \<open>All a driver does to the I/O state is extend the history.\<close>

definition log_events :: "pevent list \<Rightarrow> 'a io_scheme \<Rightarrow> 'a io_scheme" where
  "log_events es s = s\<lparr>trace := es @ trace s\<rparr>"

lemma log_events_simps [simp]:
  "port_in (log_events es s) = port_in s" "wake (log_events es s) = wake s"
  "trace (log_events es s) = es @ trace s" "log_events [] s = s"
  "log_events es (log_events fs s) = log_events (es @ fs) s"
  by (simp_all add: log_events_def)

lemma io_log:
  "outb p v s = log_events [Out8 p v] s"
  "inb p s = (log_events [In8 p] s, ucast (port_in s (In8 p # trace s)))"
  "io_wait s = log_events [Out8 0x80 0] s"
  by (simp_all add: outb_def inb_def io_wait_def log_events_def)

section \<open>Serial port\<close>

definition COM1 :: u16 where "COM1 = 0x3F8"
definition REG_DATA :: u16 where "REG_DATA = COM1 + 0"
definition REG_INT_ENABLE :: u16 where "REG_INT_ENABLE = COM1 + 1"
definition REG_FIFO_CTRL :: u16 where "REG_FIFO_CTRL = COM1 + 2"
definition REG_LINE_CTRL :: u16 where "REG_LINE_CTRL = COM1 + 3"
definition REG_MODEM_CTRL :: u16 where "REG_MODEM_CTRL = COM1 + 4"
definition REG_LINE_STATUS :: u16 where "REG_LINE_STATUS = COM1 + 5"
definition LSR_DATA_READY :: u8 where "LSR_DATA_READY = 0x01"
definition LSR_TX_EMPTY :: u8 where "LSR_TX_EMPTY = 0x20"

lemmas com1_defs = COM1_def REG_DATA_def REG_INT_ENABLE_def REG_FIFO_CTRL_def REG_LINE_CTRL_def
  REG_MODEM_CTRL_def REG_LINE_STATUS_def

definition serial_init :: "'a io_scheme \<Rightarrow> 'a io_scheme" where
  "serial_init s =
     (let s = outb REG_INT_ENABLE 0x00 s;
          s = outb REG_LINE_CTRL 0x80 s;
          s = outb REG_DATA 0x01 s;
          s = outb REG_INT_ENABLE 0x00 s;
          s = outb REG_LINE_CTRL 0x03 s;
          s = outb REG_FIFO_CTRL 0xC7 s
      in outb REG_MODEM_CTRL 0x0B s)"

partial_function (option) serial_wait :: "'a io_scheme \<Rightarrow> 'a io_scheme run" where
  "serial_wait s =
     (let r = inb REG_LINE_STATUS s in
      if snd r AND LSR_TX_EMPTY = 0 then serial_wait (fst r) else ret (fst r))"

definition serial_putc :: "char \<Rightarrow> 'a io_scheme \<Rightarrow> 'a io_scheme run" where
  "serial_putc c s = run_bind (serial_wait s) (\<lambda>s. ret (outb REG_DATA (of_char c) s))"

definition serial_read :: "'a io_scheme \<Rightarrow> 'a io_scheme \<times> int" where
  "serial_read s =
     (case inb REG_LINE_STATUS s of (s, lsr) \<Rightarrow>
        if lsr AND LSR_DATA_READY = 0 then (s, - 1)
        else case inb REG_DATA s of (s, v) \<Rightarrow> (s, uint v))"

text \<open>
  The wire's view of a history: the data register addresses the baud divisor while the
  divisor latch bit of the line control register is set, and transmits otherwise.
\<close>

fun dlab :: "pevent list \<Rightarrow> bool" where
  "dlab [] = False"
| "dlab (Out8 p v # tr) = (if p = REG_LINE_CTRL then bit v 7 else dlab tr)"
| "dlab (_ # tr) = dlab tr"

fun uart_sent :: "pevent list \<Rightarrow> u8 list" where
  "uart_sent [] = []"
| "uart_sent (Out8 p v # tr) = uart_sent tr @ (if p = REG_DATA \<and> \<not> dlab tr then [v] else [])"
| "uart_sent (_ # tr) = uart_sent tr"

fun uart_divisor_low :: "pevent list \<Rightarrow> u8" where
  "uart_divisor_low [] = 0"
| "uart_divisor_low (Out8 p v # tr) = (if p = REG_DATA \<and> dlab tr then v else uart_divisor_low tr)"
| "uart_divisor_low (_ # tr) = uart_divisor_low tr"

fun uart_line_ctrl :: "pevent list \<Rightarrow> u8" where
  "uart_line_ctrl [] = 0"
| "uart_line_ctrl (Out8 p v # tr) = (if p = REG_LINE_CTRL then v else uart_line_ctrl tr)"
| "uart_line_ctrl (_ # tr) = uart_line_ctrl tr"

text \<open>Polling the line status long enough sees the transmitter empty: the UART makes progress.\<close>

definition uart_drains :: "(pevent list \<Rightarrow> u32) \<Rightarrow> bool" where
  "uart_drains dev \<longleftrightarrow>
     (\<forall>tr. \<exists>n. (ucast (dev (replicate (Suc n) (In8 REG_LINE_STATUS) @ tr)) :: u8) AND LSR_TX_EMPTY \<noteq> 0)"

lemma serial_wait_run:
  assumes "\<exists>n. (ucast (port_in s (replicate (Suc n) (In8 REG_LINE_STATUS) @ trace s)) :: u8) AND LSR_TX_EMPTY \<noteq> 0"
  shows "\<exists>n. serial_wait s = ret (log_events (replicate n (In8 REG_LINE_STATUS)) s)"
proof -
  from assms obtain n where
    "(ucast (port_in s (replicate (Suc n) (In8 REG_LINE_STATUS) @ trace s)) :: u8) AND LSR_TX_EMPTY \<noteq> 0" ..
  then show ?thesis
  proof (induction n arbitrary: s)
    case 0
    then have "serial_wait s = ret (log_events (replicate 1 (In8 REG_LINE_STATUS)) s)"
      by (subst serial_wait.simps) (simp add: io_log)
    then show ?case ..
  next
    case (Suc n)
    let ?s = "log_events [In8 REG_LINE_STATUS] s"
    show ?case
    proof (cases "(ucast (port_in s (In8 REG_LINE_STATUS # trace s)) :: u8) AND LSR_TX_EMPTY = 0")
      case True
      then have "serial_wait s = serial_wait ?s"
        by (subst serial_wait.simps) (simp add: io_log)
      moreover have "\<exists>n. serial_wait ?s = ret (log_events (replicate n (In8 REG_LINE_STATUS)) ?s)"
        using Suc(2) by (intro Suc(1)) (simp add: replicate_app_Cons_same)
      ultimately show ?thesis by (metis log_events_simps(5) replicate_append_same replicate_Suc)
    next
      case False
      then have "serial_wait s = ret (log_events (replicate 1 (In8 REG_LINE_STATUS)) s)"
        by (subst serial_wait.simps) (simp add: io_log)
      then show ?thesis ..
    qed
  qed
qed

lemma serial_putc_run:
  assumes "uart_drains (port_in s)"
  shows "\<exists>n. serial_putc c s =
    ret (log_events (Out8 REG_DATA (of_char c) # replicate n (In8 REG_LINE_STATUS)) s)"
proof -
  obtain n where "serial_wait s = ret (log_events (replicate n (In8 REG_LINE_STATUS)) s)"
    using serial_wait_run assms unfolding uart_drains_def by blast
  then have "serial_putc c s = ret (log_events (Out8 REG_DATA (of_char c) # replicate n (In8 REG_LINE_STATUS)) s)"
    by (simp add: serial_putc_def io_log)
  then show ?thesis ..
qed

lemma uart_polls [simp]:
  "dlab (replicate n (In8 p) @ tr) = dlab tr" "uart_sent (replicate n (In8 p) @ tr) = uart_sent tr"
  by (induction n) simp_all

lemma serial_init_line:
  "\<not> dlab (trace (serial_init s))" "uart_sent (trace (serial_init s)) = uart_sent (trace s)"
  "uart_divisor_low (trace (serial_init s)) = 1" "uart_line_ctrl (trace (serial_init s)) = 3"
  by (simp_all add: serial_init_def io_log Let_def com1_defs)

section \<open>Real-time clock\<close>

definition CMOS_INDEX :: u16 where "CMOS_INDEX = 0x70"
definition CMOS_DATA :: u16 where "CMOS_DATA = 0x71"

record rtc_time =
  year :: u16
  month :: u8
  day :: u8
  hour :: u8
  minute :: u8
  second :: u8

definition cmos_read :: "u8 \<Rightarrow> 'a io_scheme \<Rightarrow> 'a io_scheme \<times> u8" where
  "cmos_read reg s = inb CMOS_DATA (outb CMOS_INDEX reg s)"

definition update_in_progress :: "'a io_scheme \<Rightarrow> 'a io_scheme \<times> bool" where
  "update_in_progress s = (case cmos_read 0x0A s of (s, v) \<Rightarrow> (s, v AND 0x80 \<noteq> 0))"

partial_function (option) read_raw_wait :: "'a io_scheme \<Rightarrow> 'a io_scheme run" where
  "read_raw_wait s =
     (let r = update_in_progress s in if snd r then read_raw_wait (fst r) else ret (fst r))"

definition read_raw :: "'a io_scheme \<Rightarrow> ('a io_scheme \<times> rtc_time) run" where
  "read_raw s = run_bind (read_raw_wait s) (\<lambda>s.
     let (s, sec) = cmos_read 0x00 s;
         (s, min) = cmos_read 0x02 s;
         (s, hr) = cmos_read 0x04 s;
         (s, d) = cmos_read 0x07 s;
         (s, mon) = cmos_read 0x08 s;
         (s, yr) = cmos_read 0x09 s
     in ret (s, \<lparr>year = ucast yr, month = mon, day = d, hour = hr, minute = min, second = sec\<rparr>))"

definition bcd_to_bin :: "u8 \<Rightarrow> u8" where
  "bcd_to_bin v = (v AND 0x0f) + drop_bit 4 v * 10"

text \<open>
  The \<^verbatim>\<open>do ... while (memcmp(&prev, t, sizeof(prev)) != 0)\<close> loop; the structure assignment
  copies the structure whole, so the comparison is of the fields.
\<close>

partial_function (option) rtc_settle :: "rtc_time \<Rightarrow> 'a io_scheme \<Rightarrow> ('a io_scheme \<times> rtc_time) run" where
  "rtc_settle prev s = run_bind (read_raw s)
     (\<lambda>r. if snd r = prev then ret r else rtc_settle (snd r) (fst r))"

definition rtc_decode :: "u8 \<Rightarrow> rtc_time \<Rightarrow> rtc_time" where
  "rtc_decode status_b t =
     (let t = (if status_b AND 0x04 = 0
               then t\<lparr>second := bcd_to_bin (second t),
                      minute := bcd_to_bin (minute t),
                      hour := bcd_to_bin (hour t AND 0x7f) OR (hour t AND 0x80),
                      day := bcd_to_bin (day t),
                      month := bcd_to_bin (month t),
                      year := ucast (bcd_to_bin (ucast (year t)))\<rparr>
               else t);
          t = (if status_b AND 0x02 = 0 \<and> hour t AND 0x80 \<noteq> 0
               then t\<lparr>hour := ((hour t AND 0x7f) + 12) mod 24\<rparr>
               else t)
      in t\<lparr>year := year t + 2000\<rparr>)"

definition rtc_read :: "'a io_scheme \<Rightarrow> ('a io_scheme \<times> rtc_time) run" where
  "rtc_read s = run_bind (read_raw s) (\<lambda>(s, t).
     run_bind (rtc_settle t s) (\<lambda>(s, t).
     case cmos_read 0x0B s of (s, status_b) \<Rightarrow> ret (s, rtc_decode status_b t)))"

text \<open>A clock chip that is not updating and shows the registers \<open>r\<close>, whatever happened before.\<close>

definition cmos_shows :: "(pevent list \<Rightarrow> u32) \<Rightarrow> (u8 \<Rightarrow> u8) \<Rightarrow> bool" where
  "cmos_shows dev r \<longleftrightarrow> \<not> bit (r 0x0A) 7 \<and>
     (\<forall>reg tr. ucast (dev (In8 CMOS_DATA # Out8 CMOS_INDEX reg # tr)) = r reg)"

definition raw_time :: "(u8 \<Rightarrow> u8) \<Rightarrow> rtc_time" where
  "raw_time r = \<lparr>year = ucast (r 0x09), month = r 0x08, day = r 0x07,
                 hour = r 0x04, minute = r 0x02, second = r 0x00\<rparr>"

lemma cmos_read_shows:
  "cmos_shows (port_in s) r \<Longrightarrow>
     cmos_read reg s = (log_events [In8 CMOS_DATA, Out8 CMOS_INDEX reg] s, r reg)"
  by (simp add: cmos_read_def io_log cmos_shows_def)

lemma and_bit7: "(v :: u8) AND 0x80 \<noteq> 0 \<longleftrightarrow> bit v 7"
  using and_exp_eq_0_iff_not_bit [of v 7] by simp

lemma read_raw_shows:
  assumes "cmos_shows (port_in s) r"
  shows "\<exists>es. read_raw s = ret (log_events es s, raw_time r)"
proof -
  have "update_in_progress s = (log_events [In8 CMOS_DATA, Out8 CMOS_INDEX 0x0A] s, False)"
    using assms and_bit7 [of "r 0x0A"]
    by (simp add: update_in_progress_def cmos_read_shows) (simp add: cmos_shows_def)
  then have "read_raw_wait s = ret (log_events [In8 CMOS_DATA, Out8 CMOS_INDEX 0x0A] s)"
    by (subst read_raw_wait.simps) simp
  then show ?thesis
    using assms by (auto simp: read_raw_def cmos_read_shows raw_time_def)
qed

lemma rtc_read_shows:
  assumes "cmos_shows (port_in s) r"
  shows "\<exists>es. rtc_read s = ret (log_events es s, rtc_decode (r 0x0B) (raw_time r))"
proof -
  obtain es where es: "read_raw s = ret (log_events es s, raw_time r)"
    using read_raw_shows [OF assms] ..
  obtain fs where "read_raw (log_events es s) = ret (log_events fs (log_events es s), raw_time r)"
    using read_raw_shows [of "log_events es s"] assms by auto
  then have "rtc_settle (raw_time r) (log_events es s) = ret (log_events fs (log_events es s), raw_time r)"
    by (subst rtc_settle.simps) simp
  with es show ?thesis using assms by (auto simp: rtc_read_def cmos_read_shows)
qed

text \<open>How the chip shows a number, in binary mode (bit 2 of status register B) or BCD.\<close>

definition bcd :: "nat \<Rightarrow> u8" where
  "bcd n = of_nat (16 * (n div 10) + n mod 10)"

definition rtc_enc :: "u8 \<Rightarrow> nat \<Rightarrow> u8" where
  "rtc_enc status_b n = (if bit status_b 2 then of_nat n else bcd n)"

lemma unat_of_nat_u8: "n < 256 \<Longrightarrow> unat (of_nat n :: u8) = n"
  by (simp add: unat_of_nat take_bit_nat_eq_self)

lemma unat_bcd: "n < 100 \<Longrightarrow> unat (bcd n) = 16 * (n div 10) + n mod 10"
  unfolding bcd_def by (rule unat_of_nat_u8) linarith

lemma bcd_to_bin_bcd: "n < 100 \<Longrightarrow> bcd_to_bin (bcd n) = of_nat n"
proof -
  assume n: "n < 100"
  have "unat (bcd n AND 0x0f) = n mod 10"
  proof -
    have "bcd n AND 0x0f = take_bit 4 (bcd n)" by (simp add: take_bit_eq_mask mask_numeral)
    then show ?thesis using n by (simp only: unsigned_take_bit_eq unat_bcd) (simp add: take_bit_eq_mod)
  qed
  moreover have "unat (drop_bit 4 (bcd n)) = n div 10"
    using n by (simp add: unat_drop_bit_eq unat_bcd) (simp add: drop_bit_eq_div)
  ultimately have "bcd n AND 0x0f = of_nat (n mod 10)" "drop_bit 4 (bcd n) = of_nat (n div 10)"
    using n by (simp_all add: word_unat_eq_iff unat_of_nat_u8)
  then have "bcd_to_bin (bcd n) = of_nat (n mod 10) + of_nat (n div 10) * of_nat 10"
    by (simp add: bcd_to_bin_def)
  also have "\<dots> = of_nat (n mod 10 + n div 10 * 10)" by (simp only: of_nat_add of_nat_mult)
  finally show ?thesis by (simp only: mod_div_mult_eq)
qed

lemma low_bits: "(v :: u8) AND 0x7f = v" "v AND 0x80 = 0" if "unat v < 128" for v
proof -
  have t: "take_bit 7 v = v"
    using that by (simp add: word_unat_eq_iff unsigned_take_bit_eq take_bit_nat_eq_self)
  then show "v AND 0x7f = v" by (simp add: take_bit_eq_mask mask_numeral)
  show "v AND 0x80 = 0" using t and_bit7 [of v] by (metis bit_take_bit_iff less_irrefl)
qed

lemma high_bit: "((v :: u8) OR 0x80) AND 0x7f = v" "(v OR 0x80) AND 0x80 = 0x80" if "unat v < 128" for v
proof -
  have "(v OR 0x80) AND 0x7f = (v AND 0x7f) OR (0x80 AND 0x7f)"
    by (simp only: and.commute bit.conj_disj_distrib)
  then show "(v OR 0x80) AND 0x7f = v" using low_bits(1) [OF that] by simp
  show "(v OR 0x80) AND 0x80 = 0x80" by (simp add: and.commute)
qed

lemma and_bit_tests: "(v :: u8) AND 0x04 = 0 \<longleftrightarrow> \<not> bit v 2" "v AND 0x02 = 0 \<longleftrightarrow> \<not> bit v 1"
  using and_exp_eq_0_iff_not_bit [of v 2] and_exp_eq_0_iff_not_bit [of v 1] by simp_all

lemma unat_rtc_enc: "n < 80 \<Longrightarrow> unat (rtc_enc sb n) < 128"
proof -
  assume "n < 80"
  then have "n div 10 < 8" "n mod 10 < 10" by (simp_all add: div_less_iff_less_mult)
  then have "16 * (n div 10) + n mod 10 < 128" by linarith
  with \<open>n < 80\<close> show ?thesis by (simp add: rtc_enc_def unat_of_nat_u8 unat_bcd)
qed

lemma ucast_u8_u16: "ucast (ucast (v :: u8) :: u16) = v"
  by (rule bit_eqI) (auto simp: bit_simps)

section \<open>Properties\<close>

text \<open>
  C38. Against a clock chip that is not in the middle of an update and keeps 24-hour time,
  \<^verbatim>\<open>rtc_read\<close> returns, having only accessed ports, and yields exactly the date and time the chip
  shows, whether the chip counts in BCD or in binary.\<close>

theorem rtc_read_exact:
  assumes "cmos_shows (port_in s) r" "bit (r 0x0B) 1"
    and "r 0x09 = rtc_enc (r 0x0B) y" "y < 100" "r 0x08 = rtc_enc (r 0x0B) mo" "mo < 100"
    and "r 0x07 = rtc_enc (r 0x0B) d" "d < 100" "r 0x04 = rtc_enc (r 0x0B) h" "h < 24"
    and "r 0x02 = rtc_enc (r 0x0B) mi" "mi < 60" "r 0x00 = rtc_enc (r 0x0B) se" "se < 60"
  shows "\<exists>es. rtc_read s = ret (log_events es s,
    \<lparr>year = of_nat (2000 + y), month = of_nat mo, day = of_nat d,
     hour = of_nat h, minute = of_nat mi, second = of_nat se\<rparr>)"
proof -
  have yr: "ucast (of_nat y :: u8) = (of_nat y :: u16)"
    using assms(4) by (simp add: word_unat_eq_iff unsigned_ucast_eq unat_of_nat_u8 unat_of_nat take_bit_nat_eq_self)
  have "rtc_decode (r 0x0B) (raw_time r) = \<lparr>year = of_nat (2000 + y), month = of_nat mo, day = of_nat d,
     hour = of_nat h, minute = of_nat mi, second = of_nat se\<rparr>"
    using assms(2-) low_bits [OF unat_rtc_enc, of h "r 0x0B"] yr
    by (cases "bit (r 0x0B) 2")
      (simp_all add: rtc_decode_def raw_time_def and_bit_tests rtc_enc_def bcd_to_bin_bcd ucast_u8_u16 Let_def)
  then show ?thesis using rtc_read_shows [OF assms(1)] by simp
qed

definition sample_cmos :: "u8 \<Rightarrow> u8" where
  "sample_cmos reg = (if reg = 0x00 then 0x30 else if reg = 0x02 then 0x59 else if reg = 0x04 then 0x23
     else if reg = 0x07 then 0x31 else if reg = 0x08 then 0x12 else if reg = 0x09 then 0x26
     else if reg = 0x0B then 0x02 else 0)"

text \<open>A device that answers every CMOS read with the register selected by the preceding write.\<close>

definition cmos_dev :: "(u8 \<Rightarrow> u8) \<Rightarrow> pevent list \<Rightarrow> u32" where
  "cmos_dev r tr = (case tr of e # Out8 p reg # _ \<Rightarrow> ucast (r reg) | _ \<Rightarrow> 0)"

lemma cmos_dev_shows: "\<not> bit (r 0x0A) 7 \<Longrightarrow> cmos_shows (cmos_dev r) r"
  by (auto simp: cmos_shows_def cmos_dev_def intro!: bit_eqI) (auto simp: bit_simps)

definition cmos_io :: "(u8 \<Rightarrow> u8) \<Rightarrow> io" where
  "cmos_io r = \<lparr>port_in = cmos_dev r, wake = (\<lambda>_. None), trace = []\<rparr>"

theorem rtc_read_exact_witness:
  "\<exists>s t. rtc_read (cmos_io sample_cmos) = ret (s, t) \<and>
     t = \<lparr>year = 2026, month = 12, day = 31, hour = 23, minute = 59, second = 30\<rparr>"
proof -
  have chip: "cmos_shows (port_in (cmos_io sample_cmos)) sample_cmos"
    using cmos_dev_shows [of sample_cmos] by (simp add: cmos_io_def sample_cmos_def)
  have b: "sample_cmos 0x0B = 0x02" "\<not> bit (0x02 :: u8) 2" "bit (0x02 :: u8) 1"
    by (simp_all add: sample_cmos_def bit_numeral_rec)
  show ?thesis
    using rtc_read_exact [OF chip, of 26 12 31 23 59 30] b
    by (auto simp: rtc_enc_def bcd_def sample_cmos_def)
qed

text \<open>
  In 12-hour mode \<^verbatim>\<open>rtc_read\<close> adds 12 modulo 24 to a PM hour and leaves an AM hour as it is.
  This agrees with the 24-hour reading of the chip for the hours 1 to 11 and disagrees for 12 AM
  (midnight, read as 12) and 12 PM (noon, read as 0).\<close>

theorem rtc_read_12h:
  assumes "cmos_shows (port_in s) r" "\<not> bit (r 0x0B) 1" "1 \<le> h" "h \<le> 12"
    and "r 0x04 = rtc_enc (r 0x0B) h OR (if pm then 0x80 else 0)"
  shows "\<exists>es t. rtc_read s = ret (log_events es s, t) \<and>
    unat (hour t) = (if pm then (h + 12) mod 24 else h) \<and>
    (unat (hour t) = h mod 12 + (if pm then 12 else 0) \<longleftrightarrow> h \<noteq> 12)"
proof -
  define e where "e = rtc_enc (r 0x0B) h"
  have e: "unat e < 128" "unat (of_nat h :: u8) < 128"
    using unat_rtc_enc assms(4) by (simp_all add: e_def unat_of_nat_u8)
  have bin: "bcd_to_bin e = of_nat h" if "\<not> bit (r 0x0B) 2" "e = bcd h"
    using that assms(4) by (simp add: bcd_to_bin_bcd)
  have "hour (rtc_decode (r 0x0B) (raw_time r)) = (if pm then (of_nat h + 12) mod 24 else of_nat h)"
    using assms(2,5) bin high_bit [OF e(1)] high_bit [OF e(2)] low_bits [OF e(1)] low_bits [OF e(2)]
    unfolding e_def [symmetric]
    by (cases pm; cases "bit (r 0x0B) 2")
      (simp_all add: rtc_decode_def raw_time_def and_bit_tests Let_def e_def rtc_enc_def)
  moreover have "unat ((of_nat h + 12 :: u8) mod 24) = (h + 12) mod 24"
    using assms(4) unat_of_nat_u8 [of "h + 12"] by (simp add: unat_mod_distrib)
  ultimately have "unat (hour (rtc_decode (r 0x0B) (raw_time r))) = (if pm then (h + 12) mod 24 else h)"
    using assms(4) by (simp add: unat_of_nat_u8)
  moreover have "(if pm then (h + 12) mod 24 else h) = h mod 12 + (if pm then 12 else 0) \<longleftrightarrow> h \<noteq> 12"
    using assms(3,4) by (cases "h = 12") simp_all
  ultimately show ?thesis using rtc_read_shows [OF assms(1)] by auto
qed

theorem rtc_read_12h_witness:
  "\<exists>s t. rtc_read (cmos_io ((\<lambda>_. 0)(4 := 0x92))) = ret (s, t) \<and> unat (hour t) = 0"
proof -
  let ?r = "(\<lambda>_. 0)(4 := 0x92 :: u8)"
  have "cmos_shows (port_in (cmos_io ?r)) ?r"
    using cmos_dev_shows [of ?r] by (simp add: cmos_io_def)
  from rtc_read_12h [OF this, of 12 True] show ?thesis
    by (auto simp: rtc_enc_def bcd_def)
qed

end
