(* ===== verification/Keyboard.thy ===== *)
theory Keyboard
  imports Io
begin

text \<open>
  The PS/2 keyboard driver (drivers/keyboard.c): scancode translation with Shift and Caps Lock,
  and the ring buffer between the interrupt handler and the console. The ring refines a bounded
  FIFO queue, stated as the locale \<open>bounded_queue\<close>; the translation refines a pure decoder.
\<close>

section \<open>State\<close>

definition KBD_DATA_PORT :: u16 where "KBD_DATA_PORT = 0x60"
definition BUF_SIZE :: u32 where "BUF_SIZE = 256"
definition KEY_UP :: int where "KEY_UP = 0x80"
definition KEY_DOWN :: int where "KEY_DOWN = 0x81"

record timer = io +
  ticks :: u64

record keyboard = timer +
  kbd_buf :: "u32 \<Rightarrow> char"
  kbd_head :: u32
  kbd_tail :: u32
  shift :: bool
  caps :: bool
  saw_e0 :: bool

definition map_lower :: string where
  "map_lower =
     [NUL, CHR 0x1B] @ ''1234567890-='' @ [CHR 0x08] @
     [CHR 0x09] @ ''qwertyuiop[]'' @ [CHR 0x0A] @
     [NUL] @ ''asdfghjkl;'' @ [CHR 0x27, CHR 0x60] @
     [NUL, CHR 0x5C] @ ''zxcvbnm,./'' @ [NUL] @
     ''*'' @ [NUL] @ '' '' @ replicate 70 NUL"

definition map_upper :: string where
  "map_upper =
     [NUL, CHR 0x1B] @ ''!@#$%^&*()_+'' @ [CHR 0x08] @
     [CHR 0x09] @ ''QWERTYUIOP{}'' @ [CHR 0x0A] @
     [NUL] @ ''ASDFGHJKL:'' @ [CHR 0x22, CHR 0x7E] @
     [NUL, CHR 0x7C] @ ''ZXCVBNM<>?'' @ [NUL] @
     ''*'' @ [NUL] @ '' '' @ replicate 70 NUL"

section \<open>Operations\<close>

definition push :: "char \<Rightarrow> 'a keyboard_scheme \<Rightarrow> 'a keyboard_scheme run" where
  "push c s =
     (let nxt = (kbd_head s + 1) AND (BUF_SIZE - 1) in
      if nxt \<noteq> kbd_tail s
      then if kbd_head s < BUF_SIZE
           then ret (s\<lparr>kbd_buf := (kbd_buf s)(kbd_head s := c), kbd_head := nxt\<rparr>)
           else fault_run
      else ret s)"

definition keyboard_irq :: "'a keyboard_scheme \<Rightarrow> 'a keyboard_scheme run" where
  "keyboard_irq s =
     (case inb KBD_DATA_PORT s of (s, sc) \<Rightarrow>
      if sc = 0xE0 then ret (s\<lparr>saw_e0 := True\<rparr>)
      else if saw_e0 s then
        let s = s\<lparr>saw_e0 := False\<rparr> in
        if sc = 0x48 then push (char_of KEY_UP) s
        else if sc = 0x50 then push (char_of KEY_DOWN) s
        else ret s
      else if sc AND 0x80 \<noteq> 0 then
        let sc = sc AND 0x7f in
        if sc = 0x2A \<or> sc = 0x36 then ret (s\<lparr>shift := False\<rparr>) else ret s
      else if sc = 0x2A \<or> sc = 0x36 then ret (s\<lparr>shift := True\<rparr>)
      else if sc = 0x3A then ret (s\<lparr>caps := \<not> caps s\<rparr>)
      else if sc \<ge> 128 then ret s
      else
        let c = (if shift s then map_upper ! unat sc else map_lower ! unat sc);
            c = (if caps s \<and> \<not> shift s \<and> schar c \<ge> schar CHR ''a'' \<and> schar c \<le> schar CHR ''z''
                 then char_of (schar c - schar CHR ''a'' + schar CHR ''A'')
                 else if caps s \<and> shift s \<and> schar c \<ge> schar CHR ''A'' \<and> schar c \<le> schar CHR ''Z''
                 then char_of (schar c - schar CHR ''A'' + schar CHR ''a'')
                 else c)
        in if c \<noteq> NUL then push c s else ret s)"

definition keyboard_read :: "'a keyboard_scheme \<Rightarrow> ('a keyboard_scheme \<times> int) run" where
  "keyboard_read s =
     (if kbd_head s = kbd_tail s then ret (s, - 1)
      else if kbd_tail s < BUF_SIZE
      then ret (s\<lparr>kbd_tail := (kbd_tail s + 1) AND (BUF_SIZE - 1)\<rparr>, uchar (kbd_buf s (kbd_tail s)))
      else fault_run)"

section \<open>The ring as a bounded queue\<close>

definition kbd_inv :: "'a keyboard_scheme \<Rightarrow> bool" where
  "kbd_inv s \<longleftrightarrow> unat (kbd_head s) < 256 \<and> unat (kbd_tail s) < 256"

definition kbd_len :: "'a keyboard_scheme \<Rightarrow> nat" where
  "kbd_len s = (if unat (kbd_tail s) \<le> unat (kbd_head s) then unat (kbd_head s) - unat (kbd_tail s)
                else unat (kbd_head s) + 256 - unat (kbd_tail s))"

definition kbd_queue :: "'a keyboard_scheme \<Rightarrow> char list" where
  "kbd_queue s = map (\<lambda>i. kbd_buf s (of_nat ((unat (kbd_tail s) + i) mod 256))) [0..<kbd_len s]"

lemma mod256: "n < 512 \<Longrightarrow> n mod 256 = (if n < 256 then n else n - 256)" for n :: nat
  by (simp add: mod_if)

lemma ring_step:
  assumes "unat w < 256"
  shows "unat ((w + 1) AND (BUF_SIZE - 1)) = (if unat w = 255 then 0 else unat w + 1)"
proof -
  have "unat (w + 1) = unat w + 1" using assms unat_add_offset [of w 1] by simp
  moreover have "(w + 1) AND (BUF_SIZE - 1) = take_bit 8 (w + 1)"
    by (simp add: BUF_SIZE_def take_bit_eq_mask mask_numeral)
  ultimately have "unat ((w + 1) AND (BUF_SIZE - 1)) = (unat w + 1) mod 256"
    by (simp only: unsigned_take_bit_eq) (simp add: take_bit_eq_mod)
  then show ?thesis using assms by (simp add: mod256)
qed

lemma kbd_len_bound: "kbd_inv s \<Longrightarrow> kbd_len s \<le> 255"
  by (auto simp: kbd_len_def kbd_inv_def)

lemma length_kbd_queue [simp]: "length (kbd_queue s) = kbd_len s"
  by (simp add: kbd_queue_def)

lemma kbd_len_0: "kbd_inv s \<Longrightarrow> kbd_len s = 0 \<longleftrightarrow> kbd_head s = kbd_tail s"
  by (auto simp: kbd_inv_def kbd_len_def u32_eq_iff)

lemma kbd_full:
  "kbd_inv s \<Longrightarrow> (kbd_head s + 1) AND (BUF_SIZE - 1) = kbd_tail s \<longleftrightarrow> kbd_len s = 255"
  unfolding kbd_inv_def kbd_len_def u32_eq_iff by (subst ring_step) auto

lemma unat_slot: "unat (of_nat ((t + i) mod 256) :: u32) = (t + i) mod 256"
proof (rule unat_of_nat_u32)
  have "(t + i) mod 256 < 256" by simp
  then show "(t + i) mod 256 < 2 ^ 32" by (rule order_less_trans) simp
qed

lemma push_spec:
  assumes "kbd_inv s"
  shows "\<exists>s'. push c s = ret s' \<and> kbd_inv s' \<and>
    kbd_queue s' = (if kbd_len s < 255 then kbd_queue s @ [c] else kbd_queue s) \<and>
    s' = s\<lparr>kbd_buf := kbd_buf s', kbd_head := kbd_head s'\<rparr>"
proof (cases "kbd_len s < 255")
  case False
  then have "push c s = ret s"
    using kbd_full [OF assms] kbd_len_bound [OF assms] by (simp add: push_def)
  then show ?thesis using False assms by simp
next
  case True
  define nxt where "nxt = (kbd_head s + 1) AND (BUF_SIZE - 1)"
  define s' where "s' = s\<lparr>kbd_buf := (kbd_buf s)(kbd_head s := c), kbd_head := nxt\<rparr>"
  have un: "unat nxt = (if unat (kbd_head s) = 255 then 0 else unat (kbd_head s) + 1)"
    using assms unfolding nxt_def kbd_inv_def by (intro ring_step) simp
  have "nxt \<noteq> kbd_tail s" using True kbd_full [OF assms] by (auto simp: nxt_def)
  moreover have "kbd_head s < BUF_SIZE" using assms by (simp add: kbd_inv_def BUF_SIZE_def word_less_nat_alt)
  ultimately have eq: "push c s = ret s'" by (simp add: push_def nxt_def s'_def)
  have inv: "kbd_inv s'" using assms un by (simp add: kbd_inv_def s'_def)
  have len: "kbd_len s' = Suc (kbd_len s)"
    using True assms un unfolding kbd_len_def kbd_inv_def s'_def by auto
  have idx: "(of_nat ((unat (kbd_tail s) + i) mod 256) :: u32) = kbd_head s \<longleftrightarrow> i = kbd_len s"
    if "i \<le> kbd_len s" for i
    using that assms unfolding u32_eq_iff unat_slot
    by (subst mod256) (auto simp: kbd_len_def kbd_inv_def split: if_splits)
  have "kbd_queue s' = kbd_queue s @ [c]"
    unfolding kbd_queue_def len using idx by (simp add: s'_def)
  with eq inv True show ?thesis by (intro exI [of _ s']) (simp add: s'_def)
qed

lemma upt0_Suc: "[0..<Suc n] = 0 # map Suc [0..<n]"
  by (simp add: upt_conv_Cons map_Suc_upt del: upt_Suc)

lemma keyboard_read_empty: "kbd_inv s \<Longrightarrow> kbd_queue s = [] \<Longrightarrow> keyboard_read s = ret (s, - 1)"
  using kbd_len_0 [of s] by (simp add: keyboard_read_def flip: length_0_conv)

lemma keyboard_read_cons:
  assumes "kbd_inv s" "kbd_queue s = c # cs"
  shows "\<exists>s'. keyboard_read s = ret (s', uchar c) \<and> kbd_inv s' \<and> kbd_queue s' = cs \<and>
    s' = s\<lparr>kbd_tail := kbd_tail s'\<rparr>"
proof -
  define s' where "s' = s\<lparr>kbd_tail := (kbd_tail s + 1) AND (BUF_SIZE - 1)\<rparr>"
  have pos: "kbd_len s = Suc (length cs)" using assms(2) by (metis length_Cons length_kbd_queue)
  then have ne: "kbd_head s \<noteq> kbd_tail s" using kbd_len_0 [OF assms(1)] by auto
  have "kbd_buf s (kbd_tail s) = c"
    using assms unfolding kbd_queue_def pos by (simp add: upt_rec kbd_inv_def)
  moreover have "kbd_tail s < BUF_SIZE" using assms by (simp add: kbd_inv_def BUF_SIZE_def word_less_nat_alt)
  ultimately have eq: "keyboard_read s = ret (s', uchar c)" using ne by (simp add: keyboard_read_def s'_def)
  have ut: "unat (kbd_tail s') = (if unat (kbd_tail s) = 255 then 0 else unat (kbd_tail s) + 1)"
    using assms(1) by (simp add: s'_def ring_step kbd_inv_def)
  have inv: "kbd_inv s'" using assms(1) ut by (simp add: kbd_inv_def s'_def)
  have len: "kbd_len s' = length cs"
    using pos assms(1) ut unfolding kbd_len_def kbd_inv_def by (auto simp: s'_def split: if_splits)
  have slot: "(unat (kbd_tail s') + i) mod 256 = (unat (kbd_tail s) + Suc i) mod 256" for i
    unfolding ut using mod_add_self1 [of 256 i] by simp
  have "kbd_queue s' = tl (kbd_queue s)"
    unfolding kbd_queue_def len pos slot upt0_Suc by (simp add: s'_def comp_def)
  with eq inv assms(2) show ?thesis by (intro exI [of _ s']) (simp add: s'_def)
qed

text \<open>
  A bounded queue of characters with a producer that drops what does not fit and a consumer
  that gets \<open>-1\<close> from an empty queue.
\<close>

primrec put_all :: "(char \<Rightarrow> 's \<Rightarrow> 's run) \<Rightarrow> char list \<Rightarrow> 's \<Rightarrow> 's run" where
  "put_all put [] s = ret s"
| "put_all put (c # cs) s = run_bind (put c s) (put_all put cs)"

primrec get_many :: "('s \<Rightarrow> ('s \<times> int) run) \<Rightarrow> nat \<Rightarrow> 's \<Rightarrow> ('s \<times> int list) run" where
  "get_many get 0 s = ret (s, [])"
| "get_many get (Suc n) s =
     run_bind (get s) (\<lambda>(s', v). run_bind (get_many get n s') (\<lambda>(s'', vs). ret (s'', v # vs)))"

locale bounded_queue =
  fixes inv :: "'s \<Rightarrow> bool"
    and contents :: "'s \<Rightarrow> char list"
    and cap :: nat
    and put :: "char \<Rightarrow> 's \<Rightarrow> 's run"
    and get :: "'s \<Rightarrow> ('s \<times> int) run"
  assumes bounded: "inv s \<Longrightarrow> length (contents s) \<le> cap"
    and put_law: "inv s \<Longrightarrow> \<exists>s'. put c s = ret s' \<and> inv s' \<and>
      contents s' = (if length (contents s) < cap then contents s @ [c] else contents s)"
    and get_none: "inv s \<Longrightarrow> contents s = [] \<Longrightarrow> get s = ret (s, - 1)"
    and get_some: "inv s \<Longrightarrow> contents s = c # cs \<Longrightarrow>
      \<exists>s'. get s = ret (s', uchar c) \<and> inv s' \<and> contents s' = cs"
begin

lemma put_all_contents:
  assumes "inv s"
  shows "\<exists>s'. put_all put cs s = ret s' \<and> inv s' \<and> contents s' = take cap (contents s @ cs)"
  using assms
proof (induction cs arbitrary: s)
  case Nil
  then show ?case using bounded by simp
next
  case (Cons c cs)
  obtain s1 where s1: "put c s = ret s1" "inv s1"
      "contents s1 = (if length (contents s) < cap then contents s @ [c] else contents s)"
    using put_law [OF Cons(2)] by blast
  obtain s2 where "put_all put cs s1 = ret s2" "inv s2" "contents s2 = take cap (contents s1 @ cs)"
    using Cons(1) [OF s1(2)] by blast
  moreover have "take cap (contents s1 @ cs) = take cap (contents s @ c # cs)"
    using s1(3) bounded [OF Cons(2)] by (auto simp: take_Cons' not_less_eq_eq Suc_diff_Suc)
  ultimately show ?case using s1(1) by auto
qed

lemma get_many_contents:
  assumes "inv s" "n \<le> length (contents s)"
  shows "\<exists>s'. get_many get n s = ret (s', map uchar (take n (contents s))) \<and> inv s' \<and>
    contents s' = drop n (contents s)"
  using assms
proof (induction n arbitrary: s)
  case 0
  then show ?case by simp
next
  case (Suc n)
  then obtain c cs where c: "contents s = c # cs" by (cases "contents s") auto
  then obtain s1 where s1: "get s = ret (s1, uchar c)" "inv s1" "contents s1 = cs"
    using get_some [OF Suc(2)] by blast
  obtain s2 where "get_many get n s1 = ret (s2, map uchar (take n (contents s1)))" "inv s2"
      "contents s2 = drop n (contents s1)"
    using Suc(1) [OF s1(2)] Suc(3) c s1(3) by auto
  then show ?case using s1 c by auto
qed

lemma fifo:
  assumes "inv s" "contents s = []" "length cs \<le> cap"
  shows "\<exists>s1 s2. put_all put cs s = ret s1 \<and> get_many get (length cs) s1 = ret (s2, map uchar cs) \<and>
    inv s2 \<and> contents s2 = []"
proof -
  obtain s1 where s1: "put_all put cs s = ret s1" "inv s1" "contents s1 = cs"
    using put_all_contents [OF assms(1), of cs] assms(2,3) by auto
  then show ?thesis using get_many_contents [OF s1(2), of "length cs"] by auto
qed

end

interpretation kq: bounded_queue kbd_inv kbd_queue 255 push keyboard_read
proof unfold_locales
  show "kbd_inv s \<Longrightarrow> length (kbd_queue s) \<le> 255" for s :: "'a keyboard_scheme"
    by (simp add: kbd_len_bound)
  show "\<exists>s'. push c s = ret s' \<and> kbd_inv s' \<and>
      kbd_queue s' = (if length (kbd_queue s) < 255 then kbd_queue s @ [c] else kbd_queue s)"
    if "kbd_inv s" for s :: "'a keyboard_scheme" and c
    using push_spec [OF that, of c] unfolding length_kbd_queue by blast
  show "kbd_inv s \<Longrightarrow> kbd_queue s = [] \<Longrightarrow> keyboard_read s = ret (s, - 1)" for s :: "'a keyboard_scheme"
    by (rule keyboard_read_empty)
  show "\<exists>s'. keyboard_read s = ret (s', uchar c) \<and> kbd_inv s' \<and> kbd_queue s' = cs"
    if "kbd_inv s" "kbd_queue s = c # cs" for s :: "'a keyboard_scheme" and c cs
    using keyboard_read_cons [OF that] by blast
qed

section \<open>What the keys mean\<close>

text \<open>
  The decoder the handler is meant to implement: a letter key gives the capital when exactly one
  of Shift and Caps Lock is active, any other key its shifted character when Shift is; extended
  keys give only the two arrows; releases only end Shift.
\<close>

record key_mods =
  m_shift :: bool
  m_caps :: bool
  m_e0 :: bool

definition is_letter :: "char \<Rightarrow> bool" where
  "is_letter c \<longleftrightarrow> c \<in> set ''abcdefghijklmnopqrstuvwxyz''"

definition key_char :: "key_mods \<Rightarrow> nat \<Rightarrow> char" where
  "key_char m k = (if (if is_letter (map_lower ! k) then m_shift m \<noteq> m_caps m else m_shift m)
     then map_upper ! k else map_lower ! k)"

definition decode_key :: "key_mods \<Rightarrow> u8 \<Rightarrow> key_mods \<times> char list" where
  "decode_key m sc =
     (if sc = 0xE0 then (m\<lparr>m_e0 := True\<rparr>, [])
      else if m_e0 m then
        (m\<lparr>m_e0 := False\<rparr>, if sc = 0x48 then [CHR 0x80] else if sc = 0x50 then [CHR 0x81] else [])
      else if bit sc 7 then (if sc = 0xAA \<or> sc = 0xB6 then m\<lparr>m_shift := False\<rparr> else m, [])
      else if sc = 0x2A \<or> sc = 0x36 then (m\<lparr>m_shift := True\<rparr>, [])
      else if sc = 0x3A then (m\<lparr>m_caps := \<not> m_caps m\<rparr>, [])
      else (m, if key_char m (unat sc) = NUL then [] else [key_char m (unat sc)]))"

definition kbd_mods :: "'a keyboard_scheme \<Rightarrow> key_mods" where
  "kbd_mods s = \<lparr>m_shift = shift s, m_caps = caps s, m_e0 = saw_e0 s\<rparr>"

text \<open>The two tables agree on letters, so that the handler's case arithmetic is the table lookup.\<close>

definition caps_fold :: "bool \<Rightarrow> bool \<Rightarrow> char \<Rightarrow> char \<Rightarrow> char" where
  "caps_fold cp sh l u =
     (let c = (if sh then u else l) in
      if cp \<and> \<not> sh \<and> schar c \<ge> schar CHR ''a'' \<and> schar c \<le> schar CHR ''z''
      then char_of (schar c - schar CHR ''a'' + schar CHR ''A'')
      else if cp \<and> sh \<and> schar c \<ge> schar CHR ''A'' \<and> schar c \<le> schar CHR ''Z''
      then char_of (schar c - schar CHR ''A'' + schar CHR ''a'')
      else c)"

definition tables_agree :: "char \<times> char \<Rightarrow> bool" where
  "tables_agree lu \<longleftrightarrow> (case lu of (l, u) \<Rightarrow>
     (\<forall>cp \<in> {True, False}. \<forall>sh \<in> {True, False}. caps_fold cp sh l u =
       (if (if is_letter l then sh \<noteq> cp else sh) then u else l)))"

lemma tables_ok: "list_all tables_agree (zip map_lower map_upper)"
  by code_simp

lemma table_lengths: "length map_lower = 128" "length map_upper = 128"
  by (simp_all add: map_lower_def map_upper_def)

lemma caps_fold_key:
  assumes "k < 128"
  shows "caps_fold (m_caps m) (m_shift m) (map_lower ! k) (map_upper ! k) = key_char m k"
proof -
  have "tables_agree (map_lower ! k, map_upper ! k)"
    using tables_ok assms table_lengths by (simp add: list_all_length)
  then show ?thesis
    by (cases "m_caps m"; cases "m_shift m") (simp_all add: tables_agree_def key_char_def)
qed

lemma kbd_frame [simp]:
  "kbd_inv (s\<lparr>shift := b\<rparr>) = kbd_inv s" "kbd_queue (s\<lparr>shift := b\<rparr>) = kbd_queue s"
  "kbd_inv (s\<lparr>caps := b\<rparr>) = kbd_inv s" "kbd_queue (s\<lparr>caps := b\<rparr>) = kbd_queue s"
  "kbd_inv (s\<lparr>saw_e0 := b\<rparr>) = kbd_inv s" "kbd_queue (s\<lparr>saw_e0 := b\<rparr>) = kbd_queue s"
  "kbd_inv (s\<lparr>trace := tr\<rparr>) = kbd_inv s" "kbd_queue (s\<lparr>trace := tr\<rparr>) = kbd_queue s"
  "kbd_inv (s\<lparr>ticks := t\<rparr>) = kbd_inv s" "kbd_queue (s\<lparr>ticks := t\<rparr>) = kbd_queue s"
  by (simp_all add: kbd_inv_def kbd_queue_def kbd_len_def)

lemma release_code:
  assumes "bit (sc :: u8) 7"
  shows "sc AND 0x7f = k \<longleftrightarrow> sc = k + 0x80"
proof -
  have "sc = (sc AND 0x7f) + 0x80"
  proof -
    have "sc AND 0x7f = take_bit 7 sc" by (simp add: take_bit_eq_mask mask_numeral)
    moreover have "sc = take_bit 7 sc OR push_bit 7 1"
    proof (rule bit_eqI)
      show "bit sc n \<longleftrightarrow> bit (take_bit 7 sc OR push_bit 7 1) n" if "possible_bit TYPE(u8) n" for n
        unfolding bit_or_iff bit_take_bit_iff bit_push_bit_iff bit_1_iff
        using assms that by (cases "n = 7") auto
    qed
    moreover have "take_bit 7 sc OR push_bit 7 1 = take_bit 7 sc + push_bit 7 1"
      by (rule disjunctive_add [symmetric]) (simp only: bit_take_bit_iff bit_push_bit_iff bit_1_iff, linarith)
    ultimately show ?thesis by simp
  qed
  then show ?thesis by (metis add_right_cancel)
qed

lemma no_high_bit: "\<not> bit (v :: u8) 7 \<Longrightarrow> unat v < 128"
proof -
  assume "\<not> bit v 7"
  then have "take_bit 7 v = v"
    by (intro bit_eqI) (subst bit_take_bit_iff, case_tac "n = 7", auto)
  moreover have "unat (take_bit 7 v) < 2 ^ 7"
    by (simp only: unsigned_take_bit_eq take_bit_nat_less_exp)
  ultimately show ?thesis by simp
qed

lemma keyboard_irq_push:
  assumes "kbd_inv s"
  shows "\<exists>s'. push c s = ret s' \<and> kbd_inv s' \<and> kbd_mods s' = kbd_mods s \<and>
    kbd_queue s' = take 255 (kbd_queue s @ [c]) \<and>
    s' = s\<lparr>kbd_buf := kbd_buf s', kbd_head := kbd_head s'\<rparr>"
proof -
  obtain s' where s': "push c s = ret s'" "kbd_inv s'"
    "kbd_queue s' = (if kbd_len s < 255 then kbd_queue s @ [c] else kbd_queue s)"
    "s' = s\<lparr>kbd_buf := kbd_buf s', kbd_head := kbd_head s'\<rparr>"
    using push_spec [OF assms, of c] by blast
  have "kbd_mods s' = kbd_mods s" by (subst s'(4)) (simp add: kbd_mods_def)
  moreover have "kbd_queue s' = take 255 (kbd_queue s @ [c])"
    using s'(3) kbd_len_bound [OF assms] by simp
  ultimately show ?thesis using s' by blast
qed

definition kbd_elsewhere :: "'a keyboard_scheme \<Rightarrow> 'a keyboard_scheme" where
  "kbd_elsewhere s = s\<lparr>trace := [], kbd_buf := (\<lambda>_. NUL), kbd_head := 0, shift := False, caps := False, saw_e0 := False\<rparr>"

lemma kbd_elsewhere_push:
  "s' = s\<lparr>kbd_buf := b, kbd_head := h\<rparr> \<Longrightarrow> kbd_elsewhere s' = kbd_elsewhere s \<and> trace s' = trace s"
  by (simp add: kbd_elsewhere_def)

lemma keyboard_irq_key:
  assumes "inb KBD_DATA_PORT s = (s0, sc)" "sc \<noteq> 0xE0" "\<not> saw_e0 s0" "sc AND 0x80 = 0"
    "sc \<noteq> 0x2A" "sc \<noteq> 0x36" "sc \<noteq> 0x3A" "\<not> sc \<ge> 128"
  shows "keyboard_irq s =
    (let c = caps_fold (caps s0) (shift s0) (map_lower ! unat sc) (map_upper ! unat sc)
     in if c \<noteq> NUL then push c s0 else ret s0)"
  unfolding keyboard_irq_def caps_fold_def Let_def
  by (simp only: assms prod.case if_False if_True simp_thms)

text \<open>The handler after its port read, the code it read, and what the pure decoder says of the result.\<close>

definition scanned :: "'a keyboard_scheme \<Rightarrow> 'a keyboard_scheme" where
  "scanned s = s\<lparr>trace := In8 KBD_DATA_PORT # trace s\<rparr>"

definition scancode :: "'a keyboard_scheme \<Rightarrow> u8" where
  "scancode s = ucast (port_in s (In8 KBD_DATA_PORT # trace s))"

definition decoded :: "'a keyboard_scheme \<Rightarrow> 'a keyboard_scheme run \<Rightarrow> bool" where
  "decoded s r \<longleftrightarrow> (\<exists>s'. r = ret s' \<and> kbd_inv s' \<and>
     kbd_mods s' = fst (decode_key (kbd_mods s) (scancode s)) \<and>
     kbd_queue s' = take 255 (kbd_queue s @ snd (decode_key (kbd_mods s) (scancode s))) \<and>
     trace s' = In8 KBD_DATA_PORT # trace s \<and> kbd_elsewhere s' = kbd_elsewhere s)"

lemma inb_scan: "inb KBD_DATA_PORT s = (scanned s, scancode s)"
  by (simp add: inb_def scanned_def scancode_def)

lemma scanned_same [simp]:
  "kbd_inv (scanned s) = kbd_inv s" "kbd_queue (scanned s) = kbd_queue s" "kbd_mods (scanned s) = kbd_mods s"
  "trace (scanned s) = In8 KBD_DATA_PORT # trace s" "kbd_elsewhere (scanned s) = kbd_elsewhere s"
  "shift (scanned s) = shift s" "caps (scanned s) = caps s" "saw_e0 (scanned s) = saw_e0 s"
  by (simp_all add: scanned_def kbd_mods_def kbd_elsewhere_def)

text \<open>The two ways the handler ends: without a character, or by pushing one.\<close>

lemma decoded_quiet:
  assumes "kbd_inv s" "decode_key (kbd_mods s) (scancode s) = (kbd_mods s', [])" "kbd_head s' = kbd_head s"
    "trace s' = In8 KBD_DATA_PORT # trace s" "kbd_elsewhere s' = kbd_elsewhere s" "kbd_buf s' = kbd_buf s"
  shows "decoded s (ret s')"
proof -
  have "kbd_tail s' = kbd_tail s" using arg_cong [OF assms(5), of kbd_tail] by (simp add: kbd_elsewhere_def)
  then have "kbd_inv s'" "kbd_queue s' = kbd_queue s"
    using assms(1,3,6) by (simp_all add: kbd_inv_def kbd_queue_def kbd_len_def)
  then show ?thesis using assms kbd_len_bound [OF assms(1)] by (simp add: decoded_def)
qed

lemma decoded_push:
  assumes "kbd_inv t" "kbd_queue t = kbd_queue s" "decode_key (kbd_mods s) (scancode s) = (kbd_mods t, [c])"
    "trace t = In8 KBD_DATA_PORT # trace s" "kbd_elsewhere t = kbd_elsewhere s"
  shows "decoded s (push c t)"
proof -
  obtain s' where s': "push c t = ret s'" "kbd_inv s'" "kbd_mods s' = kbd_mods t" "kbd_queue s' = take 255 (kbd_queue t @ [c])"
      "s' = t\<lparr>kbd_buf := kbd_buf s', kbd_head := kbd_head s'\<rparr>"
    using keyboard_irq_push [OF assms(1), of c] by blast
  then show ?thesis using assms kbd_elsewhere_push [OF s'(5)] by (simp add: decoded_def)
qed

lemma irq_extended:
  assumes "kbd_inv s" "scancode s \<noteq> 0xE0" "saw_e0 s"
  shows "decoded s (keyboard_irq s)"
proof -
  let ?sc = "scancode s" and ?t = "(scanned s)\<lparr>saw_e0 := False\<rparr>"
  have t: "kbd_inv ?t" "kbd_queue ?t = kbd_queue s" "trace ?t = In8 KBD_DATA_PORT # trace s" "kbd_elsewhere ?t = kbd_elsewhere s"
    "kbd_mods ?t = (kbd_mods s)\<lparr>m_e0 := False\<rparr>" "kbd_head ?t = kbd_head s" "kbd_buf ?t = kbd_buf s"
    using assms(1) by (simp_all add: scanned_def kbd_elsewhere_def kbd_mods_def)
  show ?thesis
  proof (cases "?sc = 0x48 \<or> ?sc = 0x50")
    case True
    define c where "c = (if ?sc = 0x48 then CHR 0x80 else CHR 0x81)"
    have "keyboard_irq s = push c ?t"
      using assms True unfolding c_def by (auto simp: keyboard_irq_def inb_scan KEY_UP_def KEY_DOWN_def char_of_def)
    moreover have "decode_key (kbd_mods s) ?sc = (kbd_mods ?t, [c])"
      using assms True unfolding c_def t(5) by (auto simp: decode_key_def kbd_mods_def)
    ultimately show ?thesis using decoded_push [OF t(1,2) _ t(3,4)] by simp
  next
    case False
    then have "keyboard_irq s = ret ?t" "decode_key (kbd_mods s) ?sc = (kbd_mods ?t, [])"
      using assms unfolding t(5) by (simp_all add: keyboard_irq_def inb_scan decode_key_def kbd_mods_def)
    then show ?thesis using decoded_quiet [OF assms(1) _ t(6,3,4,7)] by simp
  qed
qed

lemma irq_release:
  assumes "kbd_inv s" "scancode s \<noteq> 0xE0" "\<not> saw_e0 s" "bit (scancode s) 7"
  shows "decoded s (keyboard_irq s)"
proof -
  let ?sc = "scancode s"
  let ?t = "if ?sc = 0xAA \<or> ?sc = 0xB6 then (scanned s)\<lparr>shift := False\<rparr> else scanned s"
  have "keyboard_irq s = ret ?t"
    using assms release_code [OF assms(4), where k = "0x2A"] release_code [OF assms(4), where k = "0x36"]
    by (simp add: keyboard_irq_def inb_scan and_bit7)
  moreover have "decoded s (ret ?t)"
    by (rule decoded_quiet [OF assms(1)]) (use assms in \<open>auto simp: scanned_def kbd_elsewhere_def decode_key_def kbd_mods_def\<close>)
  ultimately show ?thesis by simp
qed

lemma irq_modifier:
  assumes "kbd_inv s" "\<not> saw_e0 s" "\<not> bit (scancode s) 7" "scancode s = 0x2A \<or> scancode s = 0x36 \<or> scancode s = 0x3A"
  shows "decoded s (keyboard_irq s)"
proof -
  let ?sc = "scancode s"
  let ?t = "if ?sc = 0x3A then (scanned s)\<lparr>caps := \<not> caps s\<rparr> else (scanned s)\<lparr>shift := True\<rparr>"
  have "?sc \<noteq> 0xE0" using assms(4) by auto
  then have "keyboard_irq s = ret ?t"
    using assms and_bit7 [of ?sc] by (auto simp: keyboard_irq_def inb_scan)
  moreover have "decoded s (ret ?t)"
    by (rule decoded_quiet [OF assms(1)]) (use assms in \<open>auto simp: scanned_def kbd_elsewhere_def decode_key_def kbd_mods_def\<close>)
  ultimately show ?thesis by simp
qed

lemma irq_key:
  assumes "kbd_inv s" "scancode s \<noteq> 0xE0" "\<not> saw_e0 s" "\<not> bit (scancode s) 7"
    "scancode s \<noteq> 0x2A" "scancode s \<noteq> 0x36" "scancode s \<noteq> 0x3A"
  shows "decoded s (keyboard_irq s)"
proof -
  let ?sc = "scancode s" and ?c = "key_char (kbd_mods s) (unat (scancode s))"
  have lt: "unat ?sc < 128" using assms(4) by (rule no_high_bit)
  have c: "caps_fold (caps (scanned s)) (shift (scanned s)) (map_lower ! unat ?sc) (map_upper ! unat ?sc) = ?c"
    using caps_fold_key [OF lt, of "kbd_mods s"] by (simp add: kbd_mods_def)
  have "\<not> saw_e0 (scanned s)" "?sc AND 0x80 = 0" "\<not> ?sc \<ge> 128"
    using assms(3,4) lt and_bit7 [of ?sc] by (simp_all add: word_le_nat_alt)
  from keyboard_irq_key [OF inb_scan assms(2) this(1,2) assms(5-7) this(3)]
  have irq: "keyboard_irq s = (if ?c \<noteq> NUL then push ?c (scanned s) else ret (scanned s))" unfolding c Let_def .
  have d: "decode_key (kbd_mods s) ?sc = (kbd_mods (scanned s), if ?c = NUL then [] else [?c])"
    using assms by (simp add: decode_key_def) (simp add: kbd_mods_def)
  show ?thesis
  proof (cases "?c = NUL")
    case True
    have "decoded s (ret (scanned s))" by (rule decoded_quiet [OF assms(1)]) (use d True in \<open>simp_all add: scanned_def kbd_elsewhere_def\<close>)
    then show ?thesis using irq True by simp
  next
    case False
    have "decoded s (push ?c (scanned s))" by (rule decoded_push) (use assms(1) d False in simp_all)
    then show ?thesis using irq False by simp
  qed
qed

lemma keyboard_irq_spec:
  fixes s :: "'a keyboard_scheme"
  defines "sc \<equiv> ucast (port_in s (In8 KBD_DATA_PORT # trace s)) :: u8"
  assumes "kbd_inv s"
  shows "\<exists>s'. keyboard_irq s = ret s' \<and> kbd_inv s' \<and>
    kbd_mods s' = fst (decode_key (kbd_mods s) sc) \<and>
    kbd_queue s' = take 255 (kbd_queue s @ snd (decode_key (kbd_mods s) sc)) \<and>
    trace s' = In8 KBD_DATA_PORT # trace s \<and> kbd_elsewhere s' = kbd_elsewhere s"
proof -
  have "decoded s (keyboard_irq s)"
  proof (cases "scancode s = 0xE0")
    case True
    then have "keyboard_irq s = ret ((scanned s)\<lparr>saw_e0 := True\<rparr>)" by (simp add: keyboard_irq_def inb_scan)
    moreover have "decoded s (ret ((scanned s)\<lparr>saw_e0 := True\<rparr>))"
      by (rule decoded_quiet [OF assms(2)]) (use True in \<open>auto simp: scanned_def kbd_elsewhere_def decode_key_def kbd_mods_def\<close>)
    ultimately show ?thesis by simp
  next
    case False
    then show ?thesis
      using irq_extended irq_release irq_modifier irq_key assms(2) by blast
  qed
  then show ?thesis by (simp add: decoded_def scancode_def sc_def)
qed

text \<open>
  C23. For a consistent ring, one keyboard interrupt reads exactly one byte from port 0x60,
  updates Shift, Caps Lock and the E0 prefix as the decoder says, appends the decoded character
  (if any) to the queue unless 255 characters are waiting, in which case it is dropped, and
  changes nothing else.\<close>

theorem keyboard_irq_decodes:
  assumes "kbd_inv s"
  shows "\<exists>s'. keyboard_irq s = ret s' \<and> kbd_inv s' \<and>
    (kbd_mods s', kbd_queue s') =
      (case decode_key (kbd_mods s) (ucast (port_in s (In8 KBD_DATA_PORT # trace s))) of
         (m, cs) \<Rightarrow> (m, take 255 (kbd_queue s @ cs))) \<and>
    trace s' = In8 KBD_DATA_PORT # trace s \<and> ticks s' = ticks s \<and> kbd_tail s' = kbd_tail s \<and>
    keyboard.more s' = keyboard.more s"
proof -
  obtain s' where s': "keyboard_irq s = ret s'" "kbd_inv s'"
    "kbd_mods s' = fst (decode_key (kbd_mods s) (ucast (port_in s (In8 KBD_DATA_PORT # trace s))))"
    "kbd_queue s' = take 255 (kbd_queue s @ snd (decode_key (kbd_mods s) (ucast (port_in s (In8 KBD_DATA_PORT # trace s)))))"
    "trace s' = In8 KBD_DATA_PORT # trace s" "kbd_elsewhere s' = kbd_elsewhere s"
    using keyboard_irq_spec [OF assms] by blast
  have "ticks s' = ticks s" "kbd_tail s' = kbd_tail s" "keyboard.more s' = keyboard.more s"
    using arg_cong [OF s'(6), of ticks] arg_cong [OF s'(6), of kbd_tail] arg_cong [OF s'(6), of keyboard.more]
    by (simp_all add: kbd_elsewhere_def)
  then show ?thesis using s' by (auto simp: case_prod_beta)
qed

definition kbd_boot :: "(pevent list \<Rightarrow> u32) \<Rightarrow> keyboard" where
  "kbd_boot dev = \<lparr>port_in = dev, wake = (\<lambda>_. None), trace = [], ticks = 0, kbd_buf = (\<lambda>_. NUL),
     kbd_head = 0, kbd_tail = 0, shift = False, caps = False, saw_e0 = False\<rparr>"

lemma kbd_boot_inv [simp]: "kbd_inv (kbd_boot dev)" "kbd_queue (kbd_boot dev) = []"
  by (simp_all add: kbd_inv_def kbd_queue_def kbd_len_def kbd_boot_def)

text \<open>Pressing the key with scancode 0x1E types an a.\<close>

theorem keyboard_irq_decodes_witness:
  "\<exists>s'. keyboard_irq (kbd_boot (\<lambda>_. 0x1E)) = ret s' \<and> kbd_queue s' = ''a''"
proof -
  have "decode_key (kbd_mods (kbd_boot (\<lambda>_. 0x1E))) 0x1E = (kbd_mods (kbd_boot (\<lambda>_. 0x1E)), ''a'')"
    by (simp add: decode_key_def kbd_mods_def kbd_boot_def key_char_def map_lower_def is_letter_def bit_numeral_rec)
  moreover have "ucast (port_in (kbd_boot (\<lambda>_. 0x1E)) tr) = (0x1E :: u8)" for tr
    by (simp add: kbd_boot_def)
  ultimately show ?thesis
    using keyboard_irq_decodes [OF kbd_boot_inv(1), of "\<lambda>_. 0x1E"] by auto
qed

text \<open>
  The ring buffer is a FIFO: up to 255 characters pushed into an empty ring come out of
  \<^verbatim>\<open>keyboard_read\<close> in the same order, after which it is empty again and reports \<open>-1\<close>.\<close>

theorem keyboard_ring_fifo:
  assumes "kbd_inv s" "kbd_queue s = []" "length cs \<le> 255"
  shows "\<exists>s1 s2. put_all push cs s = ret s1 \<and>
    get_many keyboard_read (length cs) s1 = ret (s2, map uchar cs) \<and> keyboard_read s2 = ret (s2, - 1)"
  using kq.fifo [OF assms] kq.get_none by blast

theorem keyboard_ring_fifo_witness:
  "\<exists>s1 s2. put_all push ''ls'' (kbd_boot (\<lambda>_. 0)) = ret s1 \<and>
     get_many keyboard_read 2 s1 = ret (s2, [108, 115]) \<and> keyboard_read s2 = ret (s2, - 1)"
  using keyboard_ring_fifo [of "kbd_boot (\<lambda>_. 0)" "''ls''"]
  by (simp add: uchar_def of_char_def numeral_2_eq_2)

end
