(* ===== verification/Interrupts.thy ===== *)
theory Interrupts
  imports Keyboard
begin

text \<open>
  Segment and interrupt descriptors (kernel/gdt.c, kernel/idt.c), PIC set-up, IRQ dispatch, and the
  timer (drivers/timer.c), whose sleep loop waits for dispatched interrupts. Function pointers to
  the two handlers of the kernel are the values of \<open>irq_fn\<close>; the addresses of the assembly stubs
  and of the static tables are parameters, fixed at link time.
\<close>

section \<open>Descriptors\<close>

record gdt_entry =
  limit_low :: u16
  gbase_low :: u16
  gbase_mid :: u8
  access :: u8
  granularity :: u8
  gbase_high :: u8

record idt_entry =
  ibase_low :: u16
  selector :: u16
  izero :: u8
  iflags :: u8
  ibase_high :: u16

record desc_ptr =
  dlimit :: u16
  dbase :: u32

datatype irq_fn = Timer_irq | Keyboard_irq

record interrupts = keyboard +
  gdt :: "nat \<Rightarrow> gdt_entry"
  gp :: desc_ptr
  idt :: "nat \<Rightarrow> idt_entry"
  ip :: desc_ptr
  irq_handlers :: "nat \<Rightarrow> irq_fn option"

definition IDT_ENTRIES :: nat where "IDT_ENTRIES = 256"
definition PIC1_CMD :: u16 where "PIC1_CMD = 0x20"
definition PIC1_DATA :: u16 where "PIC1_DATA = 0x21"
definition PIC2_CMD :: u16 where "PIC2_CMD = 0xA0"
definition PIC2_DATA :: u16 where "PIC2_DATA = 0xA1"
definition PIC_EOI :: u8 where "PIC_EOI = 0x20"

definition gdt_set :: "nat \<Rightarrow> u32 \<Rightarrow> u32 \<Rightarrow> u8 \<Rightarrow> u8 \<Rightarrow> 'a interrupts_scheme \<Rightarrow> 'a interrupts_scheme" where
  "gdt_set i base limit acc gran s = s\<lparr>gdt := (gdt s)(i :=
     \<lparr>limit_low = ucast (limit AND 0xffff),
      gbase_low = ucast (base AND 0xffff),
      gbase_mid = ucast (drop_bit 16 base AND 0xff),
      access = acc,
      granularity = ucast (drop_bit 16 limit AND 0x0f) OR (gran AND 0xf0),
      gbase_high = ucast (drop_bit 24 base AND 0xff)\<rparr>)\<rparr>"

definition gdt_init :: "u32 \<Rightarrow> 'a interrupts_scheme \<Rightarrow> 'a interrupts_scheme" where
  "gdt_init gdt_addr s =
     (let s = s\<lparr>gp := \<lparr>dlimit = 5 * 8 - 1, dbase = gdt_addr\<rparr>\<rparr>;
          s = gdt_set 0 0 0 0 0 s;
          s = gdt_set 1 0 0xfffff 0x9a 0xc0 s;
          s = gdt_set 2 0 0xfffff 0x92 0xc0 s;
          s = gdt_set 3 0 0xfffff 0xfa 0xc0 s
      in gdt_set 4 0 0xfffff 0xf2 0xc0 s)"

definition idt_set :: "nat \<Rightarrow> u32 \<Rightarrow> 'a interrupts_scheme \<Rightarrow> 'a interrupts_scheme" where
  "idt_set n handler s = s\<lparr>idt := (idt s)(n :=
     \<lparr>ibase_low = ucast (handler AND 0xffff),
      selector = 0x08,
      izero = 0,
      iflags = 0x8e,
      ibase_high = ucast (drop_bit 16 handler)\<rparr>)\<rparr>"

definition pic_remap :: "'a io_scheme \<Rightarrow> 'a io_scheme" where
  "pic_remap s =
     (let s = io_wait (outb PIC1_CMD 0x11 s);
          s = io_wait (outb PIC2_CMD 0x11 s);
          s = io_wait (outb PIC1_DATA 32 s);
          s = io_wait (outb PIC2_DATA 40 s);
          s = io_wait (outb PIC1_DATA 0x04 s);
          s = io_wait (outb PIC2_DATA 0x02 s);
          s = io_wait (outb PIC1_DATA 0x01 s);
          s = io_wait (outb PIC2_DATA 0x01 s);
          s = outb PIC1_DATA 0x00 s
      in outb PIC2_DATA 0x00 s)"

text \<open>\<open>isr n\<close> and \<open>irq n\<close> are the addresses of the stubs of isr.S.\<close>

definition idt_init :: "u32 \<Rightarrow> (nat \<Rightarrow> u32) \<Rightarrow> (nat \<Rightarrow> u32) \<Rightarrow> 'a interrupts_scheme \<Rightarrow> 'a interrupts_scheme" where
  "idt_init idt_addr isr irq s =
     (let s = s\<lparr>ip := \<lparr>dlimit = of_nat (IDT_ENTRIES * 8 - 1), dbase = idt_addr\<rparr>\<rparr>;
          s = fold (\<lambda>n. idt_set n (isr n)) [0..<32] s;
          s = fold (\<lambda>n. idt_set (32 + n) (irq n)) [0..<16] s
      in pic_remap s)"

definition irq_install_handler :: "int \<Rightarrow> irq_fn \<Rightarrow> 'a interrupts_scheme \<Rightarrow> 'a interrupts_scheme" where
  "irq_install_handler irq handler s =
     (if irq \<ge> 0 \<and> irq < 16 then s\<lparr>irq_handlers := (irq_handlers s)(nat irq := Some handler)\<rparr> else s)"

section \<open>Timer and dispatch\<close>

definition TIMER_HZ :: u64 where "TIMER_HZ = 100"
definition PIT_BASE_HZ :: u32 where "PIT_BASE_HZ = 1193182"
definition PIT_CH0 :: u16 where "PIT_CH0 = 0x40"
definition PIT_CMD :: u16 where "PIT_CMD = 0x43"

definition timer_irq :: "'a timer_scheme \<Rightarrow> 'a timer_scheme" where
  "timer_irq s = s\<lparr>ticks := ticks s + 1\<rparr>"

definition timer_init :: "'a interrupts_scheme \<Rightarrow> 'a interrupts_scheme" where
  "timer_init s =
     (let divisor = ucast (PIT_BASE_HZ div ucast TIMER_HZ) :: u16;
          s = outb PIT_CMD 0x36 s;
          s = outb PIT_CH0 (ucast (divisor AND 0xff)) s;
          s = outb PIT_CH0 (ucast (drop_bit 8 divisor)) s
      in irq_install_handler 0 Timer_irq s)"

definition keyboard_init :: "'a interrupts_scheme \<Rightarrow> 'a interrupts_scheme" where
  "keyboard_init s = irq_install_handler 1 Keyboard_irq s"

definition timer_ticks :: "'a timer_scheme \<Rightarrow> u64" where
  "timer_ticks s = ticks s"

definition timer_uptime_ms :: "'a timer_scheme \<Rightarrow> u64" where
  "timer_uptime_ms s = ticks s * (1000 div TIMER_HZ)"

definition irq_handler :: "u32 \<Rightarrow> 'a interrupts_scheme \<Rightarrow> 'a interrupts_scheme run" where
  "irq_handler int_no s =
     (let irq = sint int_no - 32 in
      run_bind
        (if irq \<ge> 0 \<and> irq < 16
         then case irq_handlers s (nat irq) of
                Some Timer_irq \<Rightarrow> ret (timer_irq s)
              | Some Keyboard_irq \<Rightarrow> keyboard_irq s
              | None \<Rightarrow> ret s
         else ret s)
        (\<lambda>s. let s = (if irq \<ge> 8 then outb PIC2_CMD PIC_EOI s else s)
             in ret (outb PIC1_CMD PIC_EOI s)))"

text \<open>
  \<^verbatim>\<open>sti; hlt\<close>: the processor stops until an interrupt arrives on line \<open>n\<close>, whose stub calls
  \<^verbatim>\<open>irq_handler\<close> with vector \<open>32 + n\<close>. If none ever arrives the instruction never completes.
\<close>

definition hlt :: "'a interrupts_scheme \<Rightarrow> 'a interrupts_scheme run" where
  "hlt s = (case wake s (trace s) of
      None \<Rightarrow> None
    | Some n \<Rightarrow> irq_handler (32 + of_nat n) (s\<lparr>trace := Irq n # trace s\<rparr>))"

partial_function (option) sleep_until :: "u64 \<Rightarrow> 'a interrupts_scheme \<Rightarrow> 'a interrupts_scheme run" where
  "sleep_until finish s =
     (if ticks s < finish then run_bind (hlt s) (sleep_until finish) else ret s)"

definition timer_sleep_ms :: "u64 \<Rightarrow> 'a interrupts_scheme \<Rightarrow> 'a interrupts_scheme run" where
  "timer_sleep_ms ms s = sleep_until (ticks s + (ms * TIMER_HZ + 999) div 1000) s"

section \<open>What descriptors mean\<close>

definition gdt_base :: "gdt_entry \<Rightarrow> u32" where
  "gdt_base e = ucast (gbase_low e) OR push_bit 16 (ucast (gbase_mid e)) OR push_bit 24 (ucast (gbase_high e))"

definition gdt_limit :: "gdt_entry \<Rightarrow> u32" where
  "gdt_limit e = ucast (limit_low e) OR push_bit 16 (ucast (granularity e AND 0x0f))"

definition idt_target :: "idt_entry \<Rightarrow> u32" where
  "idt_target e = ucast (ibase_low e) OR push_bit 16 (ucast (ibase_high e))"

lemma mask_consts: "(0xffff :: u32) = mask 16" "(0xff :: u32) = mask 8" "(0x0f :: u32) = mask 4"
  "(0x0f :: u8) = mask 4"
  by (simp_all add: mask_numeral)

lemma gdt_base_set: "gdt_base (gdt (gdt_set i base limit acc gran s) i) = base"
proof (rule bit_eqI)
  fix n assume "possible_bit TYPE(u32) n"
  then show "bit (gdt_base (gdt (gdt_set i base limit acc gran s) i)) n = bit base n"
    unfolding gdt_set_def gdt_base_def mask_consts
    by (cases "n < 24") (auto simp: bit_simps)
qed

lemma gdt_limit_set:
  assumes "unat limit < 2 ^ 20"
  shows "gdt_limit (gdt (gdt_set i base limit acc gran s) i) = limit"
proof (rule bit_eqI)
  fix n assume n: "possible_bit TYPE(u32) n"
  have "take_bit 20 limit = limit"
    using assms by (simp add: word_unat_eq_iff unsigned_take_bit_eq take_bit_nat_eq_self)
  then have hi: "bit limit n \<Longrightarrow> n < 20" for n by (metis bit_take_bit_iff)
  have f0: "(0xf0 :: u8) = push_bit 4 (mask 4)" by (simp add: mask_numeral)
  show "bit (gdt_limit (gdt (gdt_set i base limit acc gran s) i)) n = bit limit n"
    using n hi [of n] unfolding gdt_set_def gdt_limit_def f0 mask_consts
    by (cases "n < 16") (auto simp: bit_simps)
qed

lemma gdt_flags_set:
  "access (gdt (gdt_set i base limit acc gran s) i) = acc"
  "granularity (gdt (gdt_set i base limit acc gran s) i) AND 0xf0 = gran AND 0xf0"
proof -
  have f0: "(0xf0 :: u8) = push_bit 4 (mask 4)" by (simp add: mask_numeral)
  show "granularity (gdt (gdt_set i base limit acc gran s) i) AND 0xf0 = gran AND 0xf0"
    unfolding gdt_set_def f0 mask_consts by (rule bit_eqI) (auto simp: bit_simps)
qed (simp add: gdt_set_def)

lemma gdt_set_other: "j \<noteq> i \<Longrightarrow> gdt (gdt_set i base limit acc gran s) j = gdt s j"
  by (simp add: gdt_set_def)

lemma idt_target_set: "idt_target (idt (idt_set n handler s) n) = handler"
  unfolding idt_set_def idt_target_def mask_consts
  by (rule bit_eqI) (auto simp: bit_simps)

lemma idt_set_entry:
  "selector (idt (idt_set n h s) n) = 8" "iflags (idt (idt_set n h s) n) = 0x8e"
  "ip (idt_set n h s) = ip s" "trace (idt_set n h s) = trace s"
  by (simp_all add: idt_set_def)

definition gate_ok :: "idt_entry \<Rightarrow> u32 \<Rightarrow> bool" where
  "gate_ok e h \<longleftrightarrow> idt_target e = h \<and> selector e = 8 \<and> iflags e = 0x8e"

lemma idt_fold:
  "idt (fold (\<lambda>n. idt_set (k + n) (h n)) [0..<N] s) j =
     (if k \<le> j \<and> j < k + N then idt (idt_set j (h (j - k)) s) j else idt s j)"
  by (induction N) (auto simp: idt_set_def)

lemma pic_remap_idt [simp]: "idt (pic_remap s) = idt s" "ip (pic_remap s) = ip s"
  by (simp_all add: pic_remap_def io_wait_def outb_def Let_def)

section \<open>Dispatch\<close>

text \<open>
  What running code may rely on across an interrupt: the ring stays consistent, the timer's
  handler sits on line 0 only, and apart from the history, the tick counter and the keyboard
  nothing changes.
\<close>

definition irq_ok :: "'a interrupts_scheme \<Rightarrow> bool" where
  "irq_ok s \<longleftrightarrow> kbd_inv s \<and> (\<forall>n. irq_handlers s n = Some Timer_irq \<longleftrightarrow> n = 0)"

definition irq_same :: "'a interrupts_scheme \<Rightarrow> 'a interrupts_scheme \<Rightarrow> bool" where
  "irq_same s s' \<longleftrightarrow> port_in s' = port_in s \<and> wake s' = wake s \<and> kbd_tail s' = kbd_tail s \<and>
     interrupts.more s' = interrupts.more s \<and> irq_handlers s' = irq_handlers s \<and>
     gdt s' = gdt s \<and> gp s' = gp s \<and> idt s' = idt s \<and> ip s' = ip s"

lemma irq_same_refl [simp]: "irq_same s s"
  by (simp add: irq_same_def)

lemma irq_same_trans: "irq_same s t \<Longrightarrow> irq_same t u \<Longrightarrow> irq_same s u"
  by (simp add: irq_same_def)

definition eoi :: "nat \<Rightarrow> pevent list" where
  "eoi n = Out8 PIC1_CMD PIC_EOI # (if n \<ge> 8 then [Out8 PIC2_CMD PIC_EOI] else [])"

lemma vector_line:
  assumes "n < 16"
  shows "sint (32 + of_nat n :: u32) - 32 = int n"
proof -
  have "(32 + of_nat n :: u32) = of_nat (32 + n)" by simp
  moreover have "uint (of_nat (32 + n) :: u32) = int (32 + n)"
    using assms unat_of_nat_u32 [of "32 + n"] by (simp only: uint_nat) simp
  ultimately show ?thesis
    using assms by (simp add: sint_uint signed_take_bit_eq_if_positive take_bit_int_eq_self bit_iff_odd)
qed

lemma irq_handler_spec:
  fixes s :: "'a interrupts_scheme"
  assumes "irq_ok s" "n < 16"
  shows "\<exists>s'. irq_handler (32 + of_nat n) s = ret s' \<and> irq_ok s' \<and> irq_same s s' \<and>
    ticks s' = (if n = 0 then ticks s + 1 else ticks s) \<and>
    trace s' = eoi n @ (if irq_handlers s n = Some Keyboard_irq then [In8 KBD_DATA_PORT] else []) @ trace s \<and>
    kbd_queue s' = (if irq_handlers s n = Some Keyboard_irq
      then take 255 (kbd_queue s @ snd (decode_key (kbd_mods s) (ucast (port_in s (In8 KBD_DATA_PORT # trace s)))))
      else kbd_queue s)"
proof -
  let ?fin = "\<lambda>s :: 'a interrupts_scheme. let s = (if n \<ge> 8 then outb PIC2_CMD PIC_EOI s else s) in ret (outb PIC1_CMD PIC_EOI s)"
  have fin: "?fin t = ret (t\<lparr>trace := eoi n @ trace t\<rparr>)" for t
    by (simp add: outb_def eoi_def Let_def)
  have eq: "irq_handler (32 + of_nat n) s = run_bind
        (case irq_handlers s n of
           Some Timer_irq \<Rightarrow> ret (timer_irq s) | Some Keyboard_irq \<Rightarrow> keyboard_irq s | None \<Rightarrow> ret s) ?fin"
    unfolding irq_handler_def vector_line [OF assms(2)] using assms(2) by (simp add: Let_def)
  have inv: "kbd_inv s" and tm: "irq_handlers s n = Some Timer_irq \<longleftrightarrow> n = 0"
    using assms(1) by (auto simp: irq_ok_def)
  show ?thesis
  proof (cases "irq_handlers s n = Some Keyboard_irq")
    case True
    obtain t where t: "keyboard_irq s = ret t" "kbd_inv t" "trace t = In8 KBD_DATA_PORT # trace s"
        "kbd_elsewhere t = kbd_elsewhere s"
        "kbd_queue t = take 255 (kbd_queue s @ snd (decode_key (kbd_mods s) (ucast (port_in s (In8 KBD_DATA_PORT # trace s)))))"
      using keyboard_irq_spec [OF inv] by blast
    have el: "f (kbd_elsewhere t) = f (kbd_elsewhere s)" for f :: "'a interrupts_scheme \<Rightarrow> 'b"
      using t(4) by simp
    have same: "irq_same s t" "ticks t = ticks s"
      using el [of port_in] el [of wake] el [of kbd_tail] el [of interrupts.more] el [of irq_handlers]
        el [of gdt] el [of gp] el [of idt] el [of ip] el [of ticks]
      by (simp_all add: irq_same_def kbd_elsewhere_def)
    let ?t = "t\<lparr>trace := eoi n @ trace t\<rparr>"
    have "irq_handler (32 + of_nat n) s = ret ?t" using eq True t(1) fin [of t] by simp
    moreover have "irq_same s ?t" "irq_ok ?t"
      using same(1) t(2) assms(1) by (simp_all add: irq_same_def irq_ok_def)
    ultimately show ?thesis using True tm same(2) t(3,5) by auto
  next
    case False
    define t where "t = (if n = 0 then timer_irq s else s)"
    let ?t = "t\<lparr>trace := eoi n @ trace t\<rparr>"
    have "irq_handler (32 + of_nat n) s = ret ?t"
      using eq False tm fin [of t] by (auto simp: t_def split: option.splits irq_fn.splits)
    moreover have "irq_same s ?t" "irq_ok ?t" "ticks ?t = (if n = 0 then ticks s + 1 else ticks s)"
        "trace ?t = eoi n @ trace s" "kbd_queue ?t = kbd_queue s"
      using assms(1) by (simp_all add: t_def timer_irq_def irq_same_def irq_ok_def)
    ultimately show ?thesis using False by auto
  qed
qed

text \<open>
  The hardware keeps interrupting on the sixteen lines, with at most \<open>K\<close> other interrupts
  between two of the timer's.
\<close>

fun non_ticks :: "pevent list \<Rightarrow> nat" where
  "non_ticks [] = 0"
| "non_ticks (Irq n # tr) = (if n = 0 then 0 else Suc (non_ticks tr))"
| "non_ticks (_ # tr) = non_ticks tr"

definition irqs_alive :: "nat \<Rightarrow> (pevent list \<Rightarrow> nat option) \<Rightarrow> bool" where
  "irqs_alive K wk \<longleftrightarrow> (\<forall>tr. \<exists>n < 16. wk tr = Some n \<and> (K \<le> non_ticks tr \<longrightarrow> n = 0))"

lemma hlt_spec:
  assumes "irq_ok s" "irqs_alive K (wake s)"
  shows "\<exists>(n :: nat) s'. hlt s = ret s' \<and> irq_ok s' \<and> irq_same s s' \<and>
    ticks s' = (if n = 0 then ticks s + 1 else ticks s) \<and>
    non_ticks (trace s') = (if n = 0 then 0 else Suc (non_ticks (trace s))) \<and>
    (K \<le> non_ticks (trace s) \<longrightarrow> n = 0)"
proof -
  obtain n where n: "n < 16" "wake s (trace s) = Some n" "K \<le> non_ticks (trace s) \<longrightarrow> n = 0"
    using assms(2) unfolding irqs_alive_def by blast
  let ?s = "s\<lparr>trace := Irq n # trace s\<rparr>"
  have ok: "irq_ok ?s" using assms(1) by (simp add: irq_ok_def)
  obtain s' where s': "irq_handler (32 + of_nat n) ?s = ret s'" "irq_ok s'" "irq_same ?s s'"
      "ticks s' = (if n = 0 then ticks s + 1 else ticks s)"
      "trace s' = eoi n @ (if irq_handlers s n = Some Keyboard_irq then [In8 KBD_DATA_PORT] else []) @ Irq n # trace s"
    using irq_handler_spec [OF ok n(1)] by (simp cong: if_cong) blast
  have "hlt s = ret s'" using n(2) s'(1) by (simp add: hlt_def)
  moreover have "irq_same s s'" using s'(3) by (simp add: irq_same_def)
  moreover have "non_ticks (trace s') = (if n = 0 then 0 else Suc (non_ticks (trace s)))"
    unfolding s'(5) by (simp add: eoi_def)
  ultimately show ?thesis using s'(2,4) n(3) by (intro exI [of _ n] exI [of _ s']) simp
qed

lemma unat_Suc_less: "(a :: u64) < b \<Longrightarrow> unat (a + 1) = Suc (unat a)"
proof -
  assume "a < b"
  then have "unat a + 1 < 2 ^ 64"
    using unsigned_less [of b, where 'a = nat] by (simp add: word_less_nat_alt)
  then show ?thesis by (subst unat_add_lem [THEN iffD1]) simp_all
qed

lemma sleep_until_spec:
  assumes "irq_ok s" "irqs_alive K (wake s)"
  shows "\<exists>s'. sleep_until finish s = ret s' \<and> irq_ok s' \<and> irq_same s s' \<and> ticks s' = max (ticks s) finish"
  using assms
proof (induction "(unat finish - unat (ticks s)) * (K + 1) + (K - non_ticks (trace s))" arbitrary: s rule: less_induct)
  case less
  show ?case
  proof (cases "ticks s < finish")
    case False
    then have "sleep_until finish s = ret s" by (subst sleep_until.simps) simp
    then show ?thesis using False less(2) by (auto simp: max_def)
  next
    case True
    obtain n :: nat and s1 where s1: "hlt s = ret s1" "irq_ok s1" "irq_same s s1"
        "ticks s1 = (if n = 0 then ticks s + 1 else ticks s)"
        "non_ticks (trace s1) = (if n = 0 then 0 else Suc (non_ticks (trace s)))"
        "K \<le> non_ticks (trace s) \<longrightarrow> n = 0"
      using hlt_spec [OF less(2,3)] by blast
    have step: "sleep_until finish s = sleep_until finish s1"
      using True s1(1) by (subst sleep_until.simps) simp
    have lt: "unat (ticks s) < unat finish" using True by (simp add: word_less_nat_alt)
    have dec: "(unat finish - unat (ticks s1)) * (K + 1) + (K - non_ticks (trace s1))
        < (unat finish - unat (ticks s)) * (K + 1) + (K - non_ticks (trace s))"
    proof (cases "n = 0")
      case True
      then have "unat finish - unat (ticks s) = Suc (unat finish - unat (ticks s1))"
        using s1(4) unat_Suc_less [OF \<open>ticks s < finish\<close>] lt by simp
      then show ?thesis by simp
    next
      case False
      then have "non_ticks (trace s) < K" using s1(6) by linarith
      then show ?thesis using False s1(4,5) by simp
    qed
    have "irqs_alive K (wake s1)" using less(3) s1(3) by (simp add: irq_same_def)
    then obtain s' where s': "sleep_until finish s1 = ret s'" "irq_ok s'" "irq_same s1 s'"
        "ticks s' = max (ticks s1) finish"
      using less(1) [OF dec s1(2)] by blast
    have "ticks s1 \<le> finish"
      using s1(4) lt unat_Suc_less [OF True] by (simp add: word_le_nat_alt)
    then have "ticks s' = max (ticks s) finish" using s'(4) True by (metis max.absorb2 order_less_imp_le)
    then show ?thesis using step s' irq_same_trans [OF s1(3) s'(3)] by auto
  qed
qed

section \<open>Properties\<close>

text \<open>
  C24. \<^verbatim>\<open>timer_sleep_ms\<close> returns as long as interrupts keep arriving and the timer is not starved,
  and it returns at the first tick not before the requested time: with no wrap-around of the
  64-bit arithmetic the counter has then advanced by exactly the delay in ticks, rounded up.
  Interrupts of other devices are serviced meanwhile and nothing but the history, the counter and
  the keyboard's state changes.\<close>

theorem timer_sleep_exact:
  assumes "irq_ok s" "irqs_alive K (wake s)" "unat ms * 100 + 999 < 2 ^ 64"
    and "unat (ticks s) + (unat ms * 100 + 999) div 1000 < 2 ^ 64"
  shows "\<exists>s'. timer_sleep_ms ms s = ret s' \<and> irq_ok s' \<and> irq_same s s' \<and>
    unat (ticks s') = unat (ticks s) + (unat ms * 100 + 999) div 1000"
proof -
  let ?d = "(ms * TIMER_HZ + 999) div 1000"
  have m: "unat (ms * TIMER_HZ) = unat ms * 100"
    unfolding TIMER_HZ_def by (subst unat_mult_lem [THEN iffD1]) (use assms(3) in simp_all)
  have "unat (ms * TIMER_HZ + 999) = unat ms * 100 + 999"
    by (subst unat_add_lem [THEN iffD1]) (use assms(3) m in simp_all)
  then have d: "unat ?d = (unat ms * 100 + 999) div 1000" by (simp add: unat_div_distrib)
  then have e: "unat (ticks s + ?d) = unat (ticks s) + (unat ms * 100 + 999) div 1000"
    by (subst unat_add_lem [THEN iffD1]) (use assms(4) in simp_all)
  then have "max (ticks s) (ticks s + ?d) = ticks s + ?d"
    by (simp add: max_def word_le_nat_alt)
  then show ?thesis
    using sleep_until_spec [OF assms(1,2), of "ticks s + ?d"] e
    unfolding timer_sleep_ms_def by auto
qed

definition irq_boot :: "(pevent list \<Rightarrow> u32) \<Rightarrow> (pevent list \<Rightarrow> nat option) \<Rightarrow> interrupts" where
  "irq_boot dev wk =
     \<lparr>port_in = dev, wake = wk, trace = [], ticks = 0, kbd_buf = (\<lambda>_. NUL),
      kbd_head = 0, kbd_tail = 0, shift = False, caps = False, saw_e0 = False,
      gdt = (\<lambda>_. \<lparr>limit_low = 0, gbase_low = 0, gbase_mid = 0, access = 0, granularity = 0, gbase_high = 0\<rparr>),
      gp = \<lparr>dlimit = 0, dbase = 0\<rparr>,
      idt = (\<lambda>_. \<lparr>ibase_low = 0, selector = 0, izero = 0, iflags = 0, ibase_high = 0\<rparr>),
      ip = \<lparr>dlimit = 0, dbase = 0\<rparr>, irq_handlers = (\<lambda>_. None)\<rparr>"

definition irq_ready :: "(pevent list \<Rightarrow> u32) \<Rightarrow> (pevent list \<Rightarrow> nat option) \<Rightarrow> interrupts" where
  "irq_ready dev wk = keyboard_init (timer_init (irq_boot dev wk))"

lemma irq_ready_ok: "irq_ok (irq_ready dev wk)" "wake (irq_ready dev wk) = wk" "ticks (irq_ready dev wk) = 0"
  "irq_handlers (irq_ready dev wk) 1 = Some Keyboard_irq"
  by (simp_all add: irq_ready_def keyboard_init_def timer_init_def irq_install_handler_def outb_def
      irq_boot_def irq_ok_def kbd_inv_def Let_def)

text \<open>The timer on line 0, with a key press between any two ticks.\<close>

definition alternating :: "pevent list \<Rightarrow> nat option" where
  "alternating tr = Some (if non_ticks tr = 0 then 1 else 0)"

lemma alternating_alive: "irqs_alive 1 alternating"
  by (simp add: irqs_alive_def alternating_def)

theorem timer_sleep_exact_witness:
  "\<exists>s'. timer_sleep_ms 25 (irq_ready (\<lambda>_. 0x1E) alternating) = ret s' \<and> unat (ticks s') = 3"
  using timer_sleep_exact [OF irq_ready_ok(1) [of "\<lambda>_. 0x1E" alternating], of 1 25] alternating_alive
  by (auto simp: irq_ready_ok)

text \<open>
  \<^verbatim>\<open>irq_handler\<close> for line \<open>n\<close> below 16 runs the handler installed on that line and then
  acknowledges the interrupt: its last port writes are an end-of-interrupt to the slave controller
  exactly if the line belongs to it, and one to the master. Only line 0 advances the tick counter.\<close>

theorem irq_handler_acknowledges:
  assumes "irq_ok s" "n < 16"
  shows "\<exists>s' es. irq_handler (32 + of_nat n) s = ret s' \<and> irq_ok s' \<and> irq_same s s' \<and>
    trace s' = Out8 0x20 0x20 # (if n \<ge> 8 then [Out8 0xA0 0x20] else []) @ es @ trace s \<and>
    es = (if irq_handlers s n = Some Keyboard_irq then [In8 0x60] else []) \<and>
    ticks s' = (if n = 0 then ticks s + 1 else ticks s)"
  using irq_handler_spec [OF assms] by (auto simp: eoi_def PIC1_CMD_def PIC2_CMD_def PIC_EOI_def KBD_DATA_PORT_def)

theorem irq_handler_acknowledges_witness:
  "\<exists>s'. irq_handler 33 (irq_ready (\<lambda>_. 0x1E) alternating) = ret s' \<and> hd (trace s') = Out8 0x20 0x20"
  using irq_handler_acknowledges [OF irq_ready_ok(1), of 1 "\<lambda>_. 0x1E" alternating] by auto

text \<open>What \<^verbatim>\<open>idt_init\<close> makes of each vector.\<close>

lemma idt_init_gate:
  fixes s :: "'a interrupts_scheme"
  shows "n < 32 \<Longrightarrow> gate_ok (idt (idt_init a isr irq s) n) (isr n)"
    "n < 16 \<Longrightarrow> gate_ok (idt (idt_init a isr irq s) (32 + n)) (irq n)"
    "n \<ge> 48 \<Longrightarrow> idt (idt_init a isr irq s) n = idt s n"
proof -
  let ?s = "s\<lparr>ip := \<lparr>dlimit = of_nat (IDT_ENTRIES * 8 - 1), dbase = a\<rparr>\<rparr>"
  define s1 where "s1 = fold (\<lambda>n. idt_set n (isr n)) [0..<32] ?s"
  define s2 where "s2 = fold (\<lambda>n. idt_set (32 + n) (irq n)) [0..<16] s1"
  have t: "idt (idt_init a isr irq s) = idt s2"
    by (simp only: idt_init_def s1_def s2_def Let_def pic_remap_idt)
  have gate: "gate_ok (idt (idt_set n h s) n) h" for n h and s :: "'a interrupts_scheme"
    by (simp add: gate_ok_def idt_target_set idt_set_entry)
  have one: "idt s1 j = (if j < 32 then idt (idt_set j (isr j) ?s) j else idt ?s j)" for j
    using idt_fold [of 0 isr 32 ?s j] unfolding s1_def by (simp only: add_0 diff_zero le0 simp_thms)
  have two: "idt s2 j = (if 32 \<le> j \<and> j < 48 then idt (idt_set j (irq (j - 32)) s1) j else idt s1 j)" for j
    using idt_fold [of 32 irq 16 s1 j] unfolding s2_def by (simp only: numeral_plus_numeral add_num_simps)
  show "n < 32 \<Longrightarrow> gate_ok (idt (idt_init a isr irq s) n) (isr n)" unfolding t two one by (simp add: gate)
  show "n < 16 \<Longrightarrow> gate_ok (idt (idt_init a isr irq s) (32 + n)) (irq n)" unfolding t two by (simp add: gate)
  show "n \<ge> 48 \<Longrightarrow> idt (idt_init a isr irq s) n = idt s n" unfolding t two one by simp
qed

text \<open>
  After \<^verbatim>\<open>idt_init\<close> on a zeroed table the 32 exception vectors and the 16 interrupt vectors are
  present ring-0 interrupt gates of the kernel code segment, each leading to its own stub; the other
  208 vectors stay not present.\<close>

theorem idt_init_gates:
  "let t = idt (idt_init a isr irq (irq_boot dev wk)) in
     (\<forall>n < 32. gate_ok (t n) (isr n)) \<and> (\<forall>n < 16. gate_ok (t (32 + n)) (irq n)) \<and>
     (\<forall>n \<ge> 48. \<not> bit (iflags (t n)) 7)"
  unfolding Let_def by (simp add: idt_init_gate) (simp add: irq_boot_def)

theorem idt_init_gates_witness:
  "let t = idt (idt_init 0xC0106000 (\<lambda>n. 0xC0101000 + of_nat n) (\<lambda>n. 0xC0102000 + of_nat n)
             (irq_boot (\<lambda>_. 0) (\<lambda>_. None))) in
     idt_target (t 14) = 0xC010100E \<and> idt_target (t 33) = 0xC0102001"
  using idt_init_gates [of "0xC0106000" "\<lambda>n. 0xC0101000 + of_nat n" "\<lambda>n. 0xC0102000 + of_nat n"
      "\<lambda>_. 0" "\<lambda>_. None"]
  unfolding Let_def gate_ok_def
  by (auto dest!: spec [of _ 14] spec [of _ 1])

text \<open>
  A segment descriptor written by \<^verbatim>\<open>gdt_set\<close> decodes, by the processor's scattered layout, to
  the base, the 20-bit limit, the access byte and the granularity flags it was written with, and
  the other descriptors are untouched.\<close>

theorem gdt_set_roundtrip:
  assumes "unat limit < 2 ^ 20"
  shows "let t = gdt (gdt_set i base limit acc gran s) in
    gdt_base (t i) = base \<and> gdt_limit (t i) = limit \<and> access (t i) = acc \<and>
    granularity (t i) AND 0xf0 = gran AND 0xf0 \<and> (\<forall>j. j \<noteq> i \<longrightarrow> t j = gdt s j)"
  unfolding Let_def by (simp add: gdt_base_set gdt_limit_set [OF assms] gdt_flags_set gdt_set_other)

theorem gdt_set_roundtrip_witness:
  "gdt_limit (gdt (gdt_set 1 0 0xfffff 0x9a 0xc0 (irq_boot (\<lambda>_. 0) (\<lambda>_. None))) 1) = 0xfffff"
  using gdt_set_roundtrip [of "0xfffff" 1 0 "0x9a" "0xc0" "irq_boot (\<lambda>_. 0) (\<lambda>_. None)"] by (simp add: Let_def)

end
