(* ===== verification/CString.thy ===== *)
theory CString
  imports Prelude
begin

text \<open>
  lib/string.c: the freestanding memory and string routines, at two levels.

  The memory level runs the C loops over a byte memory (\<^typ>\<open>mem\<close>) and 32-bit addresses that
  wrap around. The routines that scan for a NUL need not return (there may be none), so they are
  partial functions into \<open>option\<close>. Each routine that returns its \<open>dst\<close> argument returns
  the updated memory here.

  The string level is what the rest of the kernel sees: the same loops on the text a pointer
  denotes (the bytes before the NUL). \<open>is_cstr\<close> relates the two, and each routine is
  proved to refine its string-level counterpart.
\<close>

section \<open>Memory routines\<close>

primrec memset_loop :: "mem \<Rightarrow> addr \<Rightarrow> char \<Rightarrow> nat \<Rightarrow> mem" where
  "memset_loop m d c 0 = m"
| "memset_loop m d c (Suc n) = memset_loop (m(d := c)) (d + 1) c n"

definition memset :: "mem \<Rightarrow> addr \<Rightarrow> int \<Rightarrow> u32 \<Rightarrow> mem" where
  "memset m dst c n = memset_loop m dst (char_of c) (unat n)"

primrec copy_up :: "mem \<Rightarrow> addr \<Rightarrow> addr \<Rightarrow> nat \<Rightarrow> mem" where
  "copy_up m d s 0 = m"
| "copy_up m d s (Suc n) = copy_up (m(d := m s)) (d + 1) (s + 1) n"

primrec copy_down :: "mem \<Rightarrow> addr \<Rightarrow> addr \<Rightarrow> nat \<Rightarrow> mem" where
  "copy_down m d s 0 = m"
| "copy_down m d s (Suc n) = copy_down (m(d - 1 := m (s - 1))) (d - 1) (s - 1) n"

definition memcpy :: "mem \<Rightarrow> addr \<Rightarrow> addr \<Rightarrow> u32 \<Rightarrow> mem" where
  "memcpy m dst src n = copy_up m dst src (unat n)"

definition memmove :: "mem \<Rightarrow> addr \<Rightarrow> addr \<Rightarrow> u32 \<Rightarrow> mem" where
  "memmove m dst src n =
     (if dst < src then copy_up m dst src (unat n)
      else copy_down m (dst + n) (src + n) (unat n))"

primrec memcmp_loop :: "mem \<Rightarrow> addr \<Rightarrow> addr \<Rightarrow> nat \<Rightarrow> int" where
  "memcmp_loop m pa pb 0 = 0"
| "memcmp_loop m pa pb (Suc n) =
     (if m pa \<noteq> m pb then uchar (m pa) - uchar (m pb) else memcmp_loop m (pa + 1) (pb + 1) n)"

definition memcmp :: "mem \<Rightarrow> addr \<Rightarrow> addr \<Rightarrow> u32 \<Rightarrow> int" where
  "memcmp m a b n = memcmp_loop m a b (unat n)"

section \<open>String routines on memory\<close>

partial_function (option) strlen_end :: "mem \<Rightarrow> addr \<Rightarrow> addr option" where
  "strlen_end m p = (if m p \<noteq> NUL then strlen_end m (p + 1) else Some p)"

definition strlen :: "mem \<Rightarrow> addr \<Rightarrow> u32 option" where
  "strlen m s = map_option (\<lambda>p. p - s) (strlen_end m s)"

partial_function (option) strcmp :: "mem \<Rightarrow> addr \<Rightarrow> addr \<Rightarrow> int option" where
  "strcmp m a b =
     (if m a \<noteq> NUL \<and> m a = m b then strcmp m (a + 1) (b + 1)
      else Some (uchar (m a) - uchar (m b)))"

primrec strncmp_loop :: "mem \<Rightarrow> addr \<Rightarrow> addr \<Rightarrow> nat \<Rightarrow> int" where
  "strncmp_loop m a b 0 = 0"
| "strncmp_loop m a b (Suc n) =
     (if m a \<noteq> NUL \<and> m a = m b then strncmp_loop m (a + 1) (b + 1) n
      else uchar (m a) - uchar (m b))"

definition strncmp :: "mem \<Rightarrow> addr \<Rightarrow> addr \<Rightarrow> u32 \<Rightarrow> int" where
  "strncmp m a b n = strncmp_loop m a b (unat n)"

partial_function (option) strcpy :: "mem \<Rightarrow> addr \<Rightarrow> addr \<Rightarrow> mem option" where
  "strcpy m d s =
     (let c = m s; m' = m(d := c) in if c \<noteq> NUL then strcpy m' (d + 1) (s + 1) else Some m')"

definition strlcpy :: "mem \<Rightarrow> addr \<Rightarrow> addr \<Rightarrow> u32 \<Rightarrow> (mem \<times> u32) option" where
  "strlcpy m dst src sz =
     Option.bind (strlen m src) (\<lambda>len.
       if sz \<noteq> 0 then
         let n = (if len < sz - 1 then len else sz - 1);
             m' = memcpy m dst src n
         in Some (m'(dst + n := NUL), len)
       else Some (m, len))"

definition strcat :: "mem \<Rightarrow> addr \<Rightarrow> addr \<Rightarrow> mem option" where
  "strcat m dst src = Option.bind (strlen m dst) (\<lambda>n. strcpy m (dst + n) src)"

partial_function (option) strchr_loop :: "mem \<Rightarrow> addr \<Rightarrow> char \<Rightarrow> addr option" where
  "strchr_loop m s c =
     (if m s = c then Some s else if m s = NUL then Some NULL else strchr_loop m (s + 1) c)"

definition strchr :: "mem \<Rightarrow> addr \<Rightarrow> int \<Rightarrow> addr option" where
  "strchr m s c = strchr_loop m s (char_of c)"

partial_function (option) strstr_loop :: "mem \<Rightarrow> addr \<Rightarrow> addr \<Rightarrow> u32 \<Rightarrow> addr option" where
  "strstr_loop m haystack needle n =
     (if m haystack = NUL then Some NULL
      else if m haystack = m needle \<and> strncmp m haystack needle n = 0 then Some haystack
      else strstr_loop m (haystack + 1) needle n)"

definition strstr :: "mem \<Rightarrow> addr \<Rightarrow> addr \<Rightarrow> addr option" where
  "strstr m haystack needle =
     Option.bind (strlen m needle) (\<lambda>n.
       if n = 0 then Some haystack else strstr_loop m haystack needle n)"

section \<open>The string level\<close>

fun str_cmp :: "string \<Rightarrow> string \<Rightarrow> int" where
  "str_cmp (a # as) (b # bs) = (if a = b then str_cmp as bs else uchar a - uchar b)"
| "str_cmp (a # as) [] = uchar a"
| "str_cmp [] (b # bs) = - uchar b"
| "str_cmp [] [] = 0"

text \<open>What a buffer of \<open>sz\<close> bytes holds after \<^verbatim>\<open>strlcpy(buf, src, sz)\<close>.\<close>

definition str_lcpy :: "nat \<Rightarrow> string \<Rightarrow> string" where
  "str_lcpy sz src = take (sz - 1) src"

text \<open>The offset \<^verbatim>\<open>strstr\<close> returns, relative to \<open>haystack\<close>.\<close>

fun str_str :: "string \<Rightarrow> string \<Rightarrow> nat option" where
  "str_str haystack needle =
     (if needle = [] then Some 0
      else case haystack of
        [] \<Rightarrow> None
      | c # cs \<Rightarrow> if prefix needle haystack then Some 0 else map_option Suc (str_str cs needle))"

declare str_str.simps [simp del]

definition is_cstr :: "mem \<Rightarrow> addr \<Rightarrow> string \<Rightarrow> bool" where
  "is_cstr m p s \<longleftrightarrow>
     (\<forall>i < length s. m (p + of_nat i) = s ! i) \<and> m (p + of_nat (length s)) = NUL \<and>
     NUL \<notin> set s \<and> length s < 2 ^ 32"

named_theorems cstr \<open>C strings in memory\<close>

section \<open>Memory routines: correctness\<close>

lemma copy_up_outside:
  "(\<And>i. i < n \<Longrightarrow> x \<noteq> d + of_nat i) \<Longrightarrow> copy_up m d s n x = m x"
proof (induction n arbitrary: m d s)
  case 0
  then show ?case by simp
next
  case (Suc n)
  have "copy_up (m(d := m s)) (d + 1) (s + 1) n x = (m(d := m s)) x"
  proof (rule Suc.IH)
    fix i assume "i < n"
    then show "x \<noteq> d + 1 + of_nat i" using Suc.prems [of "Suc i"] by (simp add: add.assoc)
  qed
  also have "\<dots> = m x" using Suc.prems [of 0] by simp
  finally show ?case by simp
qed

text \<open>The upward copy is right when the destination does not overtake the source.\<close>

lemma copy_up_inside:
  "n < 2 ^ 32 \<Longrightarrow> i < n \<Longrightarrow>
   (\<And>j k. j < k \<Longrightarrow> k < n \<Longrightarrow> d + of_nat j \<noteq> s + of_nat k) \<Longrightarrow>
   copy_up m d s n (d + of_nat i) = m (s + of_nat i)"
proof (induction n arbitrary: m d s i)
  case 0
  then show ?case by simp
next
  case (Suc n)
  let ?m = "m(d := m s)"
  have shift: "d + 1 + of_nat j \<noteq> s + 1 + of_nat k" if "j < k" "k < n" for j k
    using Suc.prems(3) [of "Suc j" "Suc k"] that by (simp add: add.assoc)
  show ?case
  proof (cases i)
    case 0
    have "copy_up ?m (d + 1) (s + 1) n d = ?m d"
    proof (rule copy_up_outside)
      fix j assume "j < n"
      then show "d \<noteq> d + 1 + of_nat j"
        using Suc.prems(1) addr_offset_inj [of 0 "Suc j" d] by (simp add: add.assoc)
    qed
    with 0 show ?thesis by simp
  next
    case i: (Suc k)
    have "copy_up ?m (d + 1) (s + 1) n (d + 1 + of_nat k) = ?m (s + 1 + of_nat k)"
    proof (rule Suc.IH)
      show "n < 2 ^ 32" "k < n" using Suc.prems i by simp_all
    qed (rule shift)
    moreover have "s + 1 + of_nat k \<noteq> d"
      using Suc.prems(2) Suc.prems(3) [of 0 "Suc k"] i by (auto simp: add.assoc)
    ultimately show ?thesis using i by (simp add: add.assoc)
  qed
qed

lemma copy_down_outside:
  "(\<And>i. i < n \<Longrightarrow> x \<noteq> d - of_nat (Suc i)) \<Longrightarrow> copy_down m d s n x = m x"
proof (induction n arbitrary: m d s)
  case 0
  then show ?case by simp
next
  case (Suc n)
  have "copy_down (m(d - 1 := m (s - 1))) (d - 1) (s - 1) n x = (m(d - 1 := m (s - 1))) x"
  proof (rule Suc.IH)
    fix i assume "i < n"
    then show "x \<noteq> d - 1 - of_nat (Suc i)" using Suc.prems [of "Suc i"] by (simp add: algebra_simps)
  qed
  also have "\<dots> = m x" using Suc.prems [of 0] by simp
  finally show ?case by simp
qed

lemma copy_down_inside:
  "n < 2 ^ 32 \<Longrightarrow> i < n \<Longrightarrow>
   (\<And>j k. j < k \<Longrightarrow> k < n \<Longrightarrow> d - of_nat (Suc j) \<noteq> s - of_nat (Suc k)) \<Longrightarrow>
   copy_down m d s n (d - of_nat (Suc i)) = m (s - of_nat (Suc i))"
proof (induction n arbitrary: m d s i)
  case 0
  then show ?case by simp
next
  case (Suc n)
  let ?m = "m(d - 1 := m (s - 1))"
  have shift: "d - 1 - of_nat (Suc j) \<noteq> s - 1 - of_nat (Suc k)" if "j < k" "k < n" for j k
    using Suc.prems(3) [of "Suc j" "Suc k"] that by (simp add: algebra_simps)
  show ?case
  proof (cases i)
    case 0
    have "copy_down ?m (d - 1) (s - 1) n (d - 1) = ?m (d - 1)"
    proof (rule copy_down_outside)
      fix j assume "j < n"
      then show "d - 1 \<noteq> d - 1 - of_nat (Suc j)"
        using Suc.prems(1) by (intro addr_minus_neq) simp_all
    qed
    with 0 show ?thesis by simp
  next
    case i: (Suc k)
    have "copy_down ?m (d - 1) (s - 1) n (d - 1 - of_nat (Suc k)) = ?m (s - 1 - of_nat (Suc k))"
    proof (rule Suc.IH)
      show "n < 2 ^ 32" "k < n" using Suc.prems i by simp_all
    qed (rule shift)
    moreover have "s - 1 - of_nat (Suc k) \<noteq> d - 1"
      using Suc.prems(2) Suc.prems(3) [of 0 "Suc k"] i by (auto simp: algebra_simps)
    ultimately show ?thesis using i by (simp add: algebra_simps)
  qed
qed

text \<open>
  Regions of an address space that do not wrap around: offsets from two bases agree as addresses
  only when they agree as numbers.
\<close>

lemma addr_offsets_neq:
  assumes "unat (a :: addr) + j < 2 ^ 32" "unat (b :: addr) + k < 2 ^ 32" "unat a + j \<noteq> unat b + k"
  shows "a + of_nat j \<noteq> b + of_nat k"
proof
  assume "a + of_nat j = b + of_nat k"
  then have "unat (a + of_nat j) = unat (b + of_nat k)" by simp
  with assms show False by (simp add: unat_add_offset)
qed

lemma memmove_inside:
  assumes "unat dst + unat n \<le> 2 ^ 32" "unat src + unat n \<le> 2 ^ 32" "i < unat n"
  shows "memmove m dst src n (dst + of_nat i) = m (src + of_nat i)"
proof (cases "dst < src")
  case True
  then have lt: "unat dst < unat src" by (simp add: word_less_nat_alt)
  have "copy_up m dst src (unat n) (dst + of_nat i) = m (src + of_nat i)"
  proof (rule copy_up_inside [OF unat_u32_lt assms(3)])
    fix j k assume "j < k" "k < unat n"
    with assms lt show "dst + of_nat j \<noteq> src + of_nat k"
      by (intro addr_offsets_neq) simp_all
  qed
  with True show ?thesis by (simp add: memmove_def)
next
  case False
  then have le: "unat src \<le> unat dst" by (simp add: word_less_nat_alt)
  define i' where "i' = unat n - Suc i"
  have off: "p + n - of_nat (Suc j) = p + of_nat (unat n - Suc j)" if "j < unat n" for p :: addr and j
    using that by (simp add: of_nat_diff)
  have "copy_down m (dst + n) (src + n) (unat n) (dst + n - of_nat (Suc i')) = m (src + n - of_nat (Suc i'))"
  proof (rule copy_down_inside [OF unat_u32_lt])
    show "i' < unat n" using assms(3) by (simp add: i'_def)
    fix j k assume jk: "j < k" "k < unat n"
    then have "dst + of_nat (unat n - Suc j) \<noteq> src + of_nat (unat n - Suc k)"
      using assms le by (intro addr_offsets_neq) simp_all
    with jk show "dst + n - of_nat (Suc j) \<noteq> src + n - of_nat (Suc k)"
      by (simp only: off [OF jk(2)] off [OF less_trans [OF jk]] not_False_eq_True)
  qed
  moreover have eq: "p + n - of_nat (Suc i') = p + of_nat i" for p :: addr
    using assms(3) off [of i' p] by (simp add: i'_def)
  ultimately show ?thesis using False by (simp only: memmove_def eq if_False)
qed

lemma memmove_outside:
  assumes "unat dst + unat n \<le> 2 ^ 32" "\<And>i. i < unat n \<Longrightarrow> x \<noteq> dst + of_nat i"
  shows "memmove m dst src n x = m x"
proof (cases "dst < src")
  case True
  then show ?thesis using copy_up_outside [of "unat n" x dst m src] assms by (simp add: memmove_def)
next
  case False
  have "copy_down m (dst + n) (src + n) (unat n) x = m x"
  proof (rule copy_down_outside)
    fix i assume "i < unat n"
    then show "x \<noteq> dst + n - of_nat (Suc i)"
      using assms(2) [of "unat n - Suc i"] by (simp add: of_nat_diff algebra_simps)
  qed
  with False show ?thesis by (simp add: memmove_def)
qed

lemma memset_loop_outside:
  "(\<And>i. i < n \<Longrightarrow> x \<noteq> d + of_nat i) \<Longrightarrow> memset_loop m d c n x = m x"
proof (induction n arbitrary: m d)
  case (Suc n)
  have "memset_loop (m(d := c)) (d + 1) c n x = (m(d := c)) x"
  proof (rule Suc.IH)
    fix i assume "i < n"
    then show "x \<noteq> d + 1 + of_nat i" using Suc.prems [of "Suc i"] by (simp add: add.assoc)
  qed
  with Suc.prems [of 0] show ?case by simp
qed simp

lemma memset_loop_inside:
  "n < 2 ^ 32 \<Longrightarrow> i < n \<Longrightarrow> memset_loop m d c n (d + of_nat i) = c"
proof (induction n arbitrary: m d i)
  case (Suc n)
  show ?case
  proof (cases i)
    case 0
    have "memset_loop (m(d := c)) (d + 1) c n d = (m(d := c)) d"
    proof (rule memset_loop_outside)
      fix j assume "j < n"
      then show "d \<noteq> d + 1 + of_nat j"
        using Suc.prems(1) addr_offset_inj [of 0 "Suc j" d] by (simp add: add.assoc)
    qed
    with 0 show ?thesis by simp
  next
    case i: (Suc k)
    have "memset_loop (m(d := c)) (d + 1) c n (d + 1 + of_nat k) = c"
      by (rule Suc.IH) (use Suc.prems i in simp_all)
    then show ?thesis by (simp add: i add.assoc)
  qed
qed simp

lemma memset_inside: "i < unat n \<Longrightarrow> memset m dst c n (dst + of_nat i) = char_of c"
  unfolding memset_def by (rule memset_loop_inside [OF unat_u32_lt])

lemma memset_outside: "(\<And>i. i < unat n \<Longrightarrow> x \<noteq> dst + of_nat i) \<Longrightarrow> memset m dst c n x = m x"
  by (simp add: memset_def memset_loop_outside)

lemma memcpy_outside:
  "(\<And>i. i < unat n \<Longrightarrow> x \<noteq> dst + of_nat i) \<Longrightarrow> memcpy m dst src n x = m x"
  by (simp add: memcpy_def copy_up_outside)

text \<open>\<^verbatim>\<open>memcpy\<close> needs the regions disjoint, or the destination below the source.\<close>

lemma memcpy_inside:
  assumes "i < unat n" "\<And>j k. j < k \<Longrightarrow> k < unat n \<Longrightarrow> dst + of_nat j \<noteq> src + of_nat k"
  shows "memcpy m dst src n (dst + of_nat i) = m (src + of_nat i)"
  unfolding memcpy_def by (rule copy_up_inside [OF unat_u32_lt assms(1)]) (rule assms(2))

lemma memcmp_loop_eq_0:
  "memcmp_loop m a b n = 0 \<longleftrightarrow> (\<forall>i < n. m (a + of_nat i) = m (b + of_nat i))"
proof (induction n arbitrary: a b)
  case (Suc n)
  then show ?case by (auto simp: All_less_Suc2 add.assoc)
qed simp

lemma memcmp_eq_0: "memcmp m a b n = 0 \<longleftrightarrow> (\<forall>i < unat n. m (a + of_nat i) = m (b + of_nat i))"
  by (simp add: memcmp_def memcmp_loop_eq_0)

section \<open>Strings in memory\<close>

lemma is_cstr_Nil [cstr]: "is_cstr m p [] \<longleftrightarrow> m p = NUL"
  by (simp add: is_cstr_def)

lemma is_cstr_Cons [cstr]:
  "is_cstr m p (c # s) \<longleftrightarrow> m p = c \<and> c \<noteq> NUL \<and> length s + 1 < 2 ^ 32 \<and> is_cstr m (p + 1) s"
  by (auto simp: is_cstr_def All_less_Suc2 add.assoc)

lemma is_cstr_NUL: "is_cstr m p s \<Longrightarrow> NUL \<notin> set s"
  by (simp add: is_cstr_def)

lemma is_cstr_length: "is_cstr m p s \<Longrightarrow> length s < 2 ^ 32"
  by (simp add: is_cstr_def)

lemma is_cstr_unique: "is_cstr m p s \<Longrightarrow> is_cstr m p t \<Longrightarrow> s = t"
  by (induction s t arbitrary: p rule: list_induct2') (auto simp: cstr)

lemma strlen_end_cstr: "is_cstr m p s \<Longrightarrow> strlen_end m p = Some (p + of_nat (length s))"
  by (induction s arbitrary: p) (auto simp: cstr strlen_end.simps [of m] add.assoc)

lemma strlen_cstr: "is_cstr m p s \<Longrightarrow> strlen m p = Some (of_nat (length s))"
  by (simp add: strlen_def strlen_end_cstr)

lemma strcmp_cstr: "is_cstr m a s \<Longrightarrow> is_cstr m b t \<Longrightarrow> strcmp m a b = Some (str_cmp s t)"
  by (induction s t arbitrary: a b rule: str_cmp.induct) (auto simp: cstr strcmp.simps [of m])

lemma str_cmp_eq_0: "NUL \<notin> set s \<Longrightarrow> NUL \<notin> set t \<Longrightarrow> str_cmp s t = 0 \<longleftrightarrow> s = t"
  by (induction s t rule: str_cmp.induct) (auto simp: uchar_eq_0_iff)

lemma str_cmp_antisym: "str_cmp t s = - str_cmp s t"
  by (induction s t rule: str_cmp.induct) auto

lemma is_cstr_suffix:
  assumes "is_cstr m p s" "k \<le> length s"
  shows "is_cstr m (p + of_nat k) (drop k s)"
  using assms by (auto simp: is_cstr_def add.assoc simp flip: of_nat_add dest: in_set_dropD)

lemma strncmp_loop_cstr:
  "is_cstr m a s \<Longrightarrow> is_cstr m b t \<Longrightarrow> strncmp_loop m a b n = 0 \<longleftrightarrow> take n s = take n t"
proof (induction n arbitrary: a b s t)
  case (Suc n)
  show ?case
    using Suc.prems Suc.IH [of "a + 1" "tl s" "b + 1" "tl t"]
    by (cases s; cases t) (auto simp: cstr uchar_eq_0_iff)
qed simp

text \<open>A needle no longer than the bound is matched exactly where it is a prefix.\<close>

lemma strncmp_prefix:
  assumes "is_cstr m a s" "is_cstr m b t"
  shows "strncmp m a b (of_nat (length t)) = 0 \<longleftrightarrow> prefix t s"
  using assms is_cstr_length [OF assms(2)]
  by (auto simp: strncmp_def strncmp_loop_cstr unat_of_nat_u32 prefix_def)
    (metis append_take_drop_id)

lemma strstr_loop_cstr:
  assumes "is_cstr m b t" "t \<noteq> []"
  shows "is_cstr m a s \<Longrightarrow> strstr_loop m a b (of_nat (length t)) =
    Some (case str_str s t of None \<Rightarrow> NULL | Some k \<Rightarrow> a + of_nat k)"
proof (induction s arbitrary: a)
  case Nil
  then show ?case using assms by (simp add: cstr strstr_loop.simps [of m a] str_str.simps)
next
  case (Cons c s)
  have tail: "is_cstr m (a + 1) s" "m a = c" "c \<noteq> NUL" using Cons.prems by (simp_all add: cstr)
  have hd_b: "m b = hd t" using assms by (cases t) (simp_all add: cstr)
  have "prefix t (c # s) \<Longrightarrow> hd t = c" using assms(2) by (cases t) auto
  then have "m a = m b \<and> strncmp m a b (of_nat (length t)) = 0 \<longleftrightarrow> prefix t (c # s)"
    using strncmp_prefix [OF Cons.prems assms(1)] tail(2) hd_b by auto
  then show ?case
    using Cons.IH [OF tail(1)] tail assms(2)
    by (auto simp: strstr_loop.simps [of m a] str_str.simps [of "c # s"] add.assoc split: option.split)
qed

lemma strstr_cstr:
  assumes "is_cstr m a s" "is_cstr m b t"
  shows "strstr m a b = Some (case str_str s t of None \<Rightarrow> NULL | Some k \<Rightarrow> a + of_nat k)"
proof (cases "t = []")
  case True
  then show ?thesis using strlen_cstr [OF assms(2)] by (simp add: strstr_def str_str.simps)
next
  case False
  then have "(of_nat (length t) :: u32) \<noteq> 0"
    using is_cstr_length [OF assms(2)] of_nat_inj_u32 [of "length t" 0] by simp
  then show ?thesis
    using strlen_cstr [OF assms(2)] strstr_loop_cstr [OF assms(2) False assms(1)]
    by (simp add: strstr_def)
qed

lemma str_str_simps [simp]:
  "str_str s [] = Some 0"
  "t \<noteq> [] \<Longrightarrow> str_str [] t = None"
  "t \<noteq> [] \<Longrightarrow> str_str (c # s) t =
     (if prefix t (c # s) then Some 0 else map_option Suc (str_str s t))"
  by (simp_all add: str_str.simps)

lemma str_str_Some:
  "str_str s t = Some k \<longleftrightarrow> k \<le> length s \<and> prefix t (drop k s) \<and> (\<forall>j < k. \<not> prefix t (drop j s))"
proof (cases "t = []")
  case True
  then show ?thesis by (auto intro: gr0I)
next
  case False
  then show ?thesis
  proof (induction s arbitrary: k)
    case (Cons c s)
    then show ?case by (cases k) (auto simp: All_less_Suc2)
  qed auto
qed

lemma str_str_None: "str_str s t = None \<longleftrightarrow> \<not> sublist t s"
proof (cases "t = []")
  case False
  then show ?thesis by (induction s) (auto simp: sublist_Cons_right)
qed simp

lemma strchr_loop_cstr:
  "is_cstr m p s \<Longrightarrow> c \<noteq> NUL \<Longrightarrow>
   strchr_loop m p c =
     Some (if c \<in> set s then p + of_nat (length (takeWhile (\<lambda>x. x \<noteq> c) s)) else NULL)"
  by (induction s arbitrary: p) (auto simp: cstr strchr_loop.simps [of m] add.assoc)

section \<open>Bounded and unbounded copies\<close>

definition disjoint_mem :: "addr \<Rightarrow> nat \<Rightarrow> addr \<Rightarrow> nat \<Rightarrow> bool" where
  "disjoint_mem p n q k \<longleftrightarrow> (\<forall>i < n. \<forall>j < k. p + of_nat i \<noteq> q + of_nat j)"

lemma strlcpy_cstr:
  assumes src: "is_cstr m src s" and sz: "0 < sz"
    and disj: "disjoint_mem dst (unat sz) src (length s + 1)"
  obtains m' where "strlcpy m dst src sz = Some (m', of_nat (length s))"
    and "is_cstr m' dst (str_lcpy (unat sz) s)"
    and "\<And>x. (\<And>i. i < unat sz \<Longrightarrow> x \<noteq> dst + of_nat i) \<Longrightarrow> m' x = m x"
proof -
  define len where "len = (of_nat (length s) :: u32)"
  define n where "n = (if len < sz - 1 then len else sz - 1)"
  define m' where "m' = (memcpy m dst src n)(dst + n := NUL)"
  have s32: "length s < 2 ^ 32" and nul: "NUL \<notin> set s" using src by (simp_all add: is_cstr_def)
  have sz1: "unat (sz - 1) = unat sz - 1" using sz by (simp add: unat_minus_one word_gt_0)
  have un: "unat n = min (length s) (unat sz - 1)"
    using s32 by (auto simp: n_def len_def word_less_nat_alt unat_of_nat_u32 sz1)
  have lt: "unat n < unat sz" using sz un by (simp add: word_less_nat_alt)
  have n_of: "n = of_nat (unat n)" by simp
  have copied: "m' (dst + of_nat i) = s ! i" if "i < unat n" for i
  proof -
    have "dst + of_nat i \<noteq> dst + n"
      using that unat_u32_lt [of n] addr_offset_inj [of i "unat n" dst] by simp
    moreover have "memcpy m dst src n (dst + of_nat i) = m (src + of_nat i)"
    proof (rule memcpy_inside [OF that])
      fix j k assume "j < k" "k < unat n"
      then show "dst + of_nat j \<noteq> src + of_nat k"
        using disj un lt unfolding disjoint_mem_def by auto
    qed
    moreover have "m (src + of_nat i) = s ! i" using src that un by (simp add: is_cstr_def)
    ultimately show ?thesis by (simp add: m'_def)
  qed
  have len_take: "length (take (unat n) s) = unat n" by (simp add: un)
  have "m' (dst + n) = NUL" by (simp add: m'_def)
  then have "is_cstr m' dst (take (unat n) s)"
    using copied s32 nul unat_u32_lt [of n]
    unfolding is_cstr_def len_take by (auto dest: in_set_takeD)
  moreover have "take (unat n) s = str_lcpy (unat sz) s"
    by (auto simp: str_lcpy_def un min_def)
  moreover have "strlcpy m dst src sz = Some (m', len)"
    using sz by (simp add: strlcpy_def strlen_cstr [OF src] Let_def m'_def n_def len_def word_gt_0)
  moreover have "m' x = m x" if "\<And>i. i < unat sz \<Longrightarrow> x \<noteq> dst + of_nat i" for x
    using that lt that [of "unat n"] memcpy_outside [of n x dst m src] by (simp add: m'_def)
  ultimately show thesis by (intro that [of m']) (simp_all add: len_def)
qed

lemma str_cmp_lexord:
  "NUL \<notin> set s \<Longrightarrow> NUL \<notin> set t \<Longrightarrow>
   str_cmp s t < 0 \<longleftrightarrow> (s, t) \<in> lexord {(a, b). uchar a < uchar b}"
proof (induction s t rule: str_cmp.induct)
  case (2 a as)
  then show ?case using uchar_bounds(1) [of a] by simp
next
  case (3 b bs)
  then show ?case using uchar_bounds(1) [of b] uchar_eq_0_iff [of b] by auto
qed auto

section \<open>Properties\<close>

text \<open>
  C35. \<^verbatim>\<open>memmove\<close> copies correctly whatever the overlap: for regions that do not run past the end of
  the address space, every destination byte ends up with the byte its source held before the call,
  and no byte outside the destination changes.
\<close>

theorem memmove_overlap_safe:
  assumes "unat dst + unat n \<le> 2 ^ 32" "unat src + unat n \<le> 2 ^ 32"
  shows "(\<forall>i < unat n. memmove m dst src n (dst + of_nat i) = m (src + of_nat i)) \<and>
    (\<forall>x. (\<forall>i < unat n. x \<noteq> dst + of_nat i) \<longrightarrow> memmove m dst src n x = m x)"
  using memmove_inside [OF assms] memmove_outside [OF assms(1)] by blast

definition sample_mem :: mem where
  "sample_mem = (\<lambda>_. NUL)(4096 := CHR ''a'', 4097 := CHR ''b'', 4098 := CHR ''c'')"

theorem memmove_overlap_safe_witness:
  "memmove sample_mem 4097 4096 3 4099 = CHR ''c'' \<and> memmove sample_mem 4097 4096 3 4096 = CHR ''a''"
proof -
  have u3: "unat (3 :: u32) = 3" by simp
  have out: "\<forall>i < unat (3 :: u32). (4096 :: u32) \<noteq> 4097 + of_nat i"
    unfolding u3 by (auto simp: less_Suc_eq numeral_3_eq_3)
  have ins: "\<forall>i < unat (3 :: u32). memmove sample_mem 4097 4096 3 (4097 + of_nat i) = sample_mem (4096 + of_nat i)"
    and outs: "\<forall>x. (\<forall>i < unat (3 :: u32). x \<noteq> 4097 + of_nat i) \<longrightarrow> memmove sample_mem 4097 4096 3 x = sample_mem x"
    using memmove_overlap_safe [of 4097 3 4096 sample_mem] by simp_all
  have "memmove sample_mem 4097 4096 3 (4097 + of_nat 2) = sample_mem (4096 + of_nat 2)"
    using ins [unfolded u3, rule_format, of 2] by simp
  moreover have "memmove sample_mem 4097 4096 3 4096 = sample_mem 4096"
    using outs out by blast
  ultimately show ?thesis by (simp add: sample_mem_def)
qed

text \<open>
  C36. \<^verbatim>\<open>strlcpy\<close> is memory safe and always terminates its result: for a source string and a
  disjoint buffer of \<open>sz > 0\<close> bytes it returns the source's length, leaves the longest prefix that
  fits as a NUL-terminated string in the buffer, and changes no byte outside the buffer.
\<close>

theorem strlcpy_bounded:
  assumes "is_cstr m src s" "0 < sz" "disjoint_mem dst (unat sz) src (length s + 1)"
  shows "\<exists>m'. strlcpy m dst src sz = Some (m', of_nat (length s)) \<and>
    is_cstr m' dst (take (unat sz - 1) s) \<and>
    (\<forall>x. (\<forall>i < unat sz. x \<noteq> dst + of_nat i) \<longrightarrow> m' x = m x)"
  using strlcpy_cstr [OF assms] unfolding str_lcpy_def by metis

lemma sample_cstr: "is_cstr sample_mem 4096 ''abc''" "is_cstr sample_mem 4097 ''bc''"
  by (simp_all add: cstr sample_mem_def)

theorem strlcpy_bounded_witness:
  "\<exists>m'. strlcpy sample_mem 8192 4096 3 = Some (m', 3) \<and> is_cstr m' 8192 ''ab'' \<and> m' 8195 = NUL"
proof -
  have u3: "unat (3 :: u32) = 3" by simp
  have "disjoint_mem 8192 (unat (3 :: u32)) 4096 (length ''abc'' + 1)"
    unfolding u3 by (auto simp: disjoint_mem_def less_Suc_eq numeral_3_eq_3)
  then obtain m' where m': "strlcpy sample_mem 8192 4096 3 = Some (m', of_nat (length ''abc''))"
    "is_cstr m' 8192 (take (unat (3 :: u32) - 1) ''abc'')"
    "\<forall>x. (\<forall>i < unat (3 :: u32). x \<noteq> 8192 + of_nat i) \<longrightarrow> m' x = sample_mem x"
    using strlcpy_bounded [OF sample_cstr(1), of 3 8192] by auto
  have "\<forall>i < unat (3 :: u32). (8195 :: u32) \<noteq> 8192 + of_nat i"
    unfolding u3 by (auto simp: less_Suc_eq numeral_3_eq_3)
  then have "m' 8195 = NUL" using m'(3) by (simp add: sample_mem_def)
  moreover have "take (unat (3 :: u32) - 1) ''abc'' = ''ab''" unfolding u3 by simp
  ultimately show ?thesis using m'(1,2) by auto
qed

text \<open>
  \<^verbatim>\<open>strcmp\<close> on two C strings returns, and its sign is the lexicographic comparison of
  their bytes taken as unsigned: zero exactly for equal strings, negative exactly when the first
  comes first. (The kernel's name lookups rest on the zero case.)
\<close>

theorem strcmp_lexicographic:
  assumes "is_cstr m a s" "is_cstr m b t"
  shows "\<exists>r. strcmp m a b = Some r \<and> (r = 0 \<longleftrightarrow> s = t) \<and>
    (r < 0 \<longleftrightarrow> (s, t) \<in> lexord {(x, y). uchar x < uchar y}) \<and> strcmp m b a = Some (- r)"
  using assms
  by (auto simp: strcmp_cstr str_cmp_eq_0 str_cmp_lexord is_cstr_NUL intro: str_cmp_antisym)

theorem strcmp_lexicographic_witness:
  "\<exists>r. strcmp sample_mem 4096 4097 = Some r \<and> r < 0 \<and> strcmp sample_mem 4097 4096 = Some (- r)"
proof -
  have "(''abc'', ''bc'') \<in> lexord {(x, y). uchar x < uchar y}" by (simp add: uchar_def)
  then show ?thesis using strcmp_lexicographic [OF sample_cstr] by blast
qed

text \<open>
  \<^verbatim>\<open>strstr\<close> on two C strings returns the first occurrence: the result is NULL when the needle
  is not a substring, and otherwise points at the least offset where the needle is a prefix of the
  rest of the haystack.
\<close>

theorem strstr_first_occurrence:
  assumes "is_cstr m h s" "is_cstr m nd t"
  shows "(\<not> sublist t s \<and> strstr m h nd = Some NULL) \<or>
    (\<exists>k \<le> length s. strstr m h nd = Some (h + of_nat k) \<and> prefix t (drop k s) \<and>
       (\<nexists>j. j < k \<and> prefix t (drop j s)))"
proof (cases "str_str s t")
  case None
  then show ?thesis using strstr_cstr [OF assms] str_str_None [of s t] by simp
next
  case (Some k)
  then show ?thesis using strstr_cstr [OF assms] str_str_Some [of s t k] by auto
qed

theorem strstr_first_occurrence_witness:
  "strstr sample_mem 4096 4097 = Some 4097"
proof -
  have sub: "sublist ''bc'' ''abc''" by (simp add: sublist_Cons_right)
  have one: "k = 1" if "k \<le> length ''abc''" "prefix ''bc'' (drop k ''abc'')" for k
    using that by (auto simp: le_Suc_eq)
  obtain k where "k \<le> length ''abc''" "prefix ''bc'' (drop k ''abc'')"
    "strstr sample_mem 4096 4097 = Some (4096 + of_nat k)"
    using strstr_first_occurrence [OF sample_cstr] sub by metis
  with one [of k] show ?thesis by simp
qed

end
