(* ===== verification/Kheap.thy ===== *)
theory Kheap
  imports CString
begin

text \<open>
  mm/kheap.c: the first-fit kernel heap. Block headers are kept in a store from addresses to
  \<^verbatim>\<open>struct block\<close> values (the pointer structure the code walks and relinks), payload bytes in a
  byte memory. \<^verbatim>\<open>sizeof(struct block)\<close> is 20 on i386 (two words, a padded \<^verbatim>\<open>bool\<close>, two pointers).

  The abstract heap is the list of its blocks in address order (\<open>seg\<close>): the representation
  relation \<open>heap_rep\<close> says that the linked headers spell out such a list, that the blocks tile the
  heap region exactly, and that no two neighbours are both free. \<^verbatim>\<open>kmalloc\<close> and \<^verbatim>\<open>kfree\<close> are
  proved to refine list operations, and the allocator contract the filesystem relies on is a
  locale interpreted on them.
\<close>

unbundle bit_operations_syntax

section \<open>Data and constants\<close>

definition PAGE_SIZE :: u32 where "PAGE_SIZE = 4096"

definition HEAP_SIZE :: u32 where "HEAP_SIZE = 4 * 1024 * 1024"
definition BLOCK_MAGIC :: u32 where "BLOCK_MAGIC = 0x52415054"
definition MIN_SPLIT :: u32 where "MIN_SPLIT = 16"

definition ALIGN_UP :: "u32 \<Rightarrow> u32 \<Rightarrow> u32" where
  "ALIGN_UP x a = (x + a - 1) AND NOT (a - 1)"

record block =
  b_magic :: u32
  b_size :: u32
  b_free :: bool
  b_next :: addr
  b_prev :: addr

definition sizeof_block :: u32 where "sizeof_block = 20"

record kheap =
  heap_head :: addr
  heap_start :: addr
  hdr :: "addr \<Rightarrow> block"
  bytes :: mem

definition upd_hdr :: "addr \<Rightarrow> (block \<Rightarrow> block) \<Rightarrow> kheap \<Rightarrow> kheap" where
  "upd_hdr b f h = h\<lparr>hdr := (hdr h)(b := f (hdr h b))\<rparr>"

section \<open>Operations\<close>

definition kheap_end_addr :: "kheap \<Rightarrow> u32" where
  "kheap_end_addr h = heap_start h + HEAP_SIZE"

definition kheap_init :: "addr \<Rightarrow> kheap \<Rightarrow> kheap" where
  "kheap_init kernel_end h =
     (let start = ALIGN_UP kernel_end PAGE_SIZE in
      h\<lparr>heap_start := start, heap_head := start,
        hdr := (hdr h)(start := \<lparr>b_magic = BLOCK_MAGIC, b_size = HEAP_SIZE - sizeof_block,
                                b_free = True, b_next = NULL, b_prev = NULL\<rparr>)\<rparr>)"

definition split_block :: "kheap \<Rightarrow> addr \<Rightarrow> u32 \<Rightarrow> kheap" where
  "split_block h b sz =
     (if b_size (hdr h b) < sz + sizeof_block + MIN_SPLIT then h
      else
        let rest = b + sizeof_block + sz;
            h1 = h\<lparr>hdr := (hdr h)(rest :=
                    \<lparr>b_magic = BLOCK_MAGIC, b_size = b_size (hdr h b) - sz - sizeof_block,
                     b_free = True, b_next = b_next (hdr h b), b_prev = b\<rparr>)\<rparr>;
            nx = b_next (hdr h1 rest);
            h2 = (if nx \<noteq> NULL then upd_hdr nx (b_prev_update (\<lambda>_. rest)) h1 else h1)
        in upd_hdr b (\<lambda>x. x\<lparr>b_size := sz, b_next := rest\<rparr>) h2)"

partial_function (option) kmalloc_loop :: "kheap \<Rightarrow> addr \<Rightarrow> u32 \<Rightarrow> (kheap \<times> addr) run" where
  "kmalloc_loop h b sz =
     (if b = NULL then ret (h, NULL)
      else if b_magic (hdr h b) \<noteq> BLOCK_MAGIC then panic_run ''kheap: corrupted block header''
      else if b_free (hdr h b) \<and> sz \<le> b_size (hdr h b) then
        ret (upd_hdr b (b_free_update (\<lambda>_. False)) (split_block h b sz), b + sizeof_block)
      else kmalloc_loop h (b_next (hdr h b)) sz)"

definition kmalloc :: "kheap \<Rightarrow> u32 \<Rightarrow> (kheap \<times> addr) run" where
  "kmalloc h sz = (if sz = 0 then ret (h, NULL) else kmalloc_loop h (heap_head h) (ALIGN_UP sz 8))"

definition kzalloc :: "kheap \<Rightarrow> u32 \<Rightarrow> (kheap \<times> addr) run" where
  "kzalloc h sz = run_bind (kmalloc h sz)
     (\<lambda>(h', p). if p \<noteq> NULL then ret (h'\<lparr>bytes := memset (bytes h') p 0 sz\<rparr>, p) else ret (h', p))"

definition merge_next :: "kheap \<Rightarrow> addr \<Rightarrow> kheap" where
  "merge_next h b =
     (let n = b_next (hdr h b) in
      if n = NULL \<or> \<not> b_free (hdr h b) \<or> \<not> b_free (hdr h n) then h
      else
        let h1 = upd_hdr b (\<lambda>x. x\<lparr>b_size := b_size x + (sizeof_block + b_size (hdr h n)),
                                   b_next := b_next (hdr h n)\<rparr>) h;
            nx = b_next (hdr h1 b)
        in if nx \<noteq> NULL then upd_hdr nx (b_prev_update (\<lambda>_. b)) h1 else h1)"

definition kfree :: "kheap \<Rightarrow> addr \<Rightarrow> kheap run" where
  "kfree h ptr =
     (if ptr = NULL then ret h
      else
        let b = ptr - sizeof_block in
        if b_magic (hdr h b) \<noteq> BLOCK_MAGIC then panic_run ''kfree: bad pointer''
        else if b_free (hdr h b) then panic_run ''kfree: double free''
        else
          let h1 = upd_hdr b (b_free_update (\<lambda>_. True)) h;
              h2 = merge_next h1 b;
              pv = b_prev (hdr h2 b)
          in ret (if pv \<noteq> NULL \<and> b_free (hdr h2 pv) then merge_next h2 pv else h2))"

partial_function (option) kheap_stats_loop ::
    "kheap \<Rightarrow> addr \<Rightarrow> u32 \<Rightarrow> u32 \<Rightarrow> u32 \<Rightarrow> (u32 \<times> u32 \<times> u32) option" where
  "kheap_stats_loop h b t u l =
     (if b = NULL then Some (t, u, l)
      else
        let sz = b_size (hdr h b) in
        if \<not> b_free (hdr h b) then kheap_stats_loop h (b_next (hdr h b)) (t + sz) (u + sz) l
        else kheap_stats_loop h (b_next (hdr h b)) (t + sz) u (if sz > l then sz else l))"

definition kheap_stats :: "kheap \<Rightarrow> (u32 \<times> u32 \<times> u32) option" where
  "kheap_stats h = kheap_stats_loop h (heap_head h) 0 0 0"

section \<open>The abstract heap\<close>

text \<open>A block: header address, payload size, free flag.\<close>

type_synonym seg = "nat \<times> nat \<times> bool"

fun tiles :: "nat \<Rightarrow> seg list \<Rightarrow> nat \<Rightarrow> bool" where
  "tiles a [] e \<longleftrightarrow> a = e"
| "tiles a ((p, s, f) # xs) e \<longleftrightarrow> p = a \<and> 4 dvd s \<and> tiles (a + 20 + s) xs e"

abbreviation seg_free :: "seg \<Rightarrow> bool" where
  "seg_free x \<equiv> snd (snd x)"

definition coalesced :: "seg list \<Rightarrow> bool" where
  "coalesced segs = successively (\<lambda>x y. \<not> (seg_free x \<and> seg_free y)) segs"

fun alloc_segs :: "nat \<Rightarrow> seg list \<Rightarrow> (seg list \<times> nat) option" where
  "alloc_segs n [] = None"
| "alloc_segs n ((p, s, f) # xs) =
     (if f \<and> n \<le> s then
        Some (if s < n + 36 then (p, s, False) # xs
              else (p, n, False) # (p + 20 + n, s - n - 20, True) # xs, p + 20)
      else map_option (\<lambda>(ys, q). ((p, s, f) # ys, q)) (alloc_segs n xs))"

fun coalesce :: "seg list \<Rightarrow> seg list" where
  "coalesce ((p, s, True) # (q, t, True) # xs) = coalesce ((p, s + (20 + t), True) # xs)"
| "coalesce (x # xs) = x # coalesce xs"
| "coalesce [] = []"

definition free_segs :: "nat \<Rightarrow> seg list \<Rightarrow> seg list" where
  "free_segs q segs = coalesce (map (\<lambda>(p, s, f). (p, s, f \<or> p + 20 = q)) segs)"

fun chain :: "(addr \<Rightarrow> block) \<Rightarrow> addr \<Rightarrow> addr \<Rightarrow> seg list \<Rightarrow> addr \<Rightarrow> bool" where
  "chain H pv b [] e \<longleftrightarrow> b = e"
| "chain H pv b ((p, s, f) # xs) e \<longleftrightarrow>
     b \<noteq> NULL \<and> unat b = p \<and> b_magic (H b) = BLOCK_MAGIC \<and> unat (b_size (H b)) = s \<and>
     b_free (H b) = f \<and> b_prev (H b) = pv \<and> chain H b (b_next (H b)) xs e"

definition heap_rep :: "kheap \<Rightarrow> seg list \<Rightarrow> bool" where
  "heap_rep h segs \<longleftrightarrow>
     chain (hdr h) NULL (heap_head h) segs NULL \<and> heap_head h = heap_start h \<and>
     tiles (unat (heap_start h)) segs (unat (heap_start h) + unat HEAP_SIZE) \<and> coalesced segs \<and>
     0 < unat (heap_start h) \<and> 4 dvd unat (heap_start h) \<and>
     unat (heap_start h) + unat HEAP_SIZE < 2 ^ 32"

definition heap_inv :: "kheap \<Rightarrow> bool" where
  "heap_inv h \<longleftrightarrow> (\<exists>segs. heap_rep h segs)"

named_theorems heap_consts \<open>the constants of mm/kheap.c\<close>

lemmas [heap_consts] = PAGE_SIZE_def HEAP_SIZE_def BLOCK_MAGIC_def MIN_SPLIT_def sizeof_block_def

section \<open>List level\<close>

lemma tiles_append: "tiles a (xs @ ys) e \<longleftrightarrow> (\<exists>m. tiles a xs m \<and> tiles m ys e)"
  by (induction xs arbitrary: a) auto

lemma tiles_le: "tiles a xs e \<Longrightarrow> a \<le> e"
  by (induction xs arbitrary: a) fastforce+

lemma tiles_mem: "tiles a xs e \<Longrightarrow> (p, s, f) \<in> set xs \<Longrightarrow> a \<le> p \<and> p + 20 + s \<le> e \<and> 4 dvd s"
proof (induction xs arbitrary: a)
  case (Cons x xs)
  then show ?case by (cases x) (fastforce dest: tiles_le)
qed simp

lemma tiles_aligned: "tiles a xs e \<Longrightarrow> 4 dvd a \<Longrightarrow> (p, s, f) \<in> set xs \<Longrightarrow> 4 dvd p"
proof (induction xs arbitrary: a)
  case (Cons x xs)
  then show ?case by (cases x) (auto intro: Cons.IH)
qed simp

lemma tiles_disjoint:
  "tiles a xs e \<Longrightarrow> (p, s, f) \<in> set xs \<Longrightarrow> (q, t, g) \<in> set xs \<Longrightarrow>
   (p, s, f) = (q, t, g) \<or> p + 20 + s \<le> q \<or> q + 20 + t \<le> p"
proof (induction xs arbitrary: a)
  case (Cons x xs)
  then show ?case by (cases x) (auto dest: tiles_mem)
qed simp

lemma tiles_sum: "tiles a xs e \<Longrightarrow> e = a + 20 * length xs + sum_list (map (fst \<circ> snd) xs)"
proof (induction xs arbitrary: a)
  case (Cons x xs)
  obtain p s f where x: "x = (p, s, f)" by (cases x)
  show ?case using Cons.IH [of "a + 20 + s"] Cons.prems by (simp add: x)
qed simp

lemma tiles_fst_distinct: "tiles a xs e \<Longrightarrow> distinct (map fst xs)"
proof (induction xs arbitrary: a)
  case (Cons x xs)
  then show ?case by (cases x) (fastforce dest: tiles_mem)
qed simp

lemma coalesced_simps [simp]:
  "coalesced []" "coalesced [x]"
  "coalesced (x # y # xs) \<longleftrightarrow> \<not> (seg_free x \<and> seg_free y) \<and> coalesced (y # xs)"
  by (simp_all add: coalesced_def)

lemma coalesced_append:
  "coalesced (xs @ ys) \<longleftrightarrow> coalesced xs \<and> coalesced ys \<and>
     (xs = [] \<or> ys = [] \<or> \<not> (seg_free (last xs) \<and> seg_free (hd ys)))"
  unfolding coalesced_def by (subst successively_append_iff) simp

text \<open>What an allocation leaves in place of the free block it takes.\<close>

definition carve :: "nat \<Rightarrow> nat \<Rightarrow> nat \<Rightarrow> seg list" where
  "carve n p s =
     (if s < n + 36 then [(p, s, False)] else [(p, n, False), (p + 20 + n, s - n - 20, True)])"

lemma alloc_segs_Some:
  "alloc_segs n segs = Some (segs', q) \<Longrightarrow>
   \<exists>xs p s ys. segs = xs @ (p, s, True) # ys \<and> n \<le> s \<and> q = p + 20 \<and>
     segs' = xs @ carve n p s @ ys \<and> (\<forall>(r, t, f) \<in> set xs. f \<longrightarrow> t < n)"
proof (induction n segs arbitrary: segs' q rule: alloc_segs.induct)
  case (2 n p s f xs)
  show ?case
  proof (cases "f \<and> n \<le> s")
    case True
    with 2 show ?thesis
      by (intro exI [of _ "[]"] exI [of _ p] exI [of _ s] exI [of _ xs]) (auto simp: carve_def)
  next
    case False
    with "2.prems" obtain ys where ys: "alloc_segs n xs = Some (ys, q)" "segs' = (p, s, f) # ys"
      by auto
    from "2.IH" [OF False ys(1)] obtain us r t vs where
      "xs = us @ (r, t, True) # vs" "n \<le> t" "q = r + 20" "ys = us @ carve n r t @ vs"
      "\<forall>(r, t, f) \<in> set us. f \<longrightarrow> t < n" by blast
    then show ?thesis using False ys(2)
      by (intro exI [of _ "(p, s, f) # us"] exI [of _ r] exI [of _ t] exI [of _ vs]) auto
  qed
qed simp

lemma alloc_segs_None: "alloc_segs n segs = None \<longleftrightarrow> (\<forall>(p, s, f) \<in> set segs. f \<longrightarrow> s < n)"
  by (induction n segs rule: alloc_segs.induct) auto

lemma tiles_carve:
  assumes "n \<le> s" "4 dvd s" "4 dvd n"
  shows "tiles p (carve n p s @ ys) e \<longleftrightarrow> tiles (p + 20 + s) ys e"
  using assms by (auto simp: carve_def dvd_diff_nat ac_simps)

lemma coalesced_carve:
  assumes "coalesced (xs @ (p, s, True) # ys)"
  shows "coalesced (xs @ carve n p s @ ys)"
  using assms by (cases ys) (auto simp: coalesced_append carve_def)

lemma coalesce_append_used:
  "coalesced xs \<Longrightarrow> xs = [] \<or> \<not> seg_free (last xs) \<Longrightarrow> coalesce (xs @ zs) = xs @ coalesce zs"
proof (induction xs)
  case (Cons x xs)
  obtain p s f where x: "x = (p, s, f)" by (cases x)
  show ?case
  proof (cases xs)
    case Nil
    with Cons.prems x show ?thesis by simp
  next
    case (Cons y ys)
    then show ?thesis using Cons.IH Cons.prems x by (cases y; cases f) auto
  qed
qed simp

lemma coalesce_coalesced: "coalesced xs \<Longrightarrow> coalesce xs = xs"
proof (induction xs rule: coalesce.induct)
  case (1 p s q t xs)
  then show ?case by simp
qed (auto simp: coalesced_def successively_Cons)

text \<open>Freeing a used block of a coalesced list merges it with the free neighbours, if any.\<close>

lemma free_segs_split:
  assumes co: "coalesced (xs @ (p, s, False) # ys)"
    and dist: "p \<notin> fst ` set xs" "p \<notin> fst ` set ys"
  shows "free_segs (p + 20) (xs @ (p, s, False) # ys) = coalesce (xs @ (p, s, True) # ys)"
proof -
  have same: "map (\<lambda>(r, t, f). (r, t, f \<or> r = p)) zs = zs" if "p \<notin> fst ` set zs" for zs :: "seg list"
    using that by (induction zs) force+
  show ?thesis by (simp add: free_segs_def same [OF dist(1)] same [OF dist(2)])
qed

definition absorb_right :: "nat \<Rightarrow> seg list \<Rightarrow> nat \<times> seg list" where
  "absorb_right s ys = (case ys of (q, t, True) # zs \<Rightarrow> (s + (20 + t), zs) | _ \<Rightarrow> (s, ys))"

definition absorb :: "seg list \<Rightarrow> nat \<Rightarrow> nat \<Rightarrow> seg list \<Rightarrow> seg list" where
  "absorb xs p s ys =
     (let (s', ys') = absorb_right s ys in
      if xs \<noteq> [] \<and> seg_free (last xs)
      then butlast xs @ (fst (last xs), fst (snd (last xs)) + (20 + s'), True) # ys'
      else xs @ (p, s', True) # ys')"

lemma coalesce_absorb:
  assumes co: "coalesced (xs @ (p, s, False) # ys)"
  shows "coalesce (xs @ (p, s, True) # ys) = absorb xs p s ys"
proof -
  have cx: "coalesced xs" and cy: "coalesced ys" using co by (cases ys; simp add: coalesced_append)+
  have right: "coalesce ((r, u, True) # ys) =
      (case ys of (q, t, True) # zs \<Rightarrow> (r, u + (20 + t), True) # zs | _ \<Rightarrow> (r, u, True) # ys)" for r u
  proof (cases ys)
    case (Cons y zs)
    obtain q t g where y: "y = (q, t, g)" by (cases y)
    show ?thesis
    proof (cases g)
      case True
      have "coalesced ((r, u + (20 + t), True) # zs)" using cy Cons y True by (cases zs) auto
      then show ?thesis using Cons y True coalesce_coalesced by simp
    next
      case False
      moreover have "coalesce zs = zs"
        using cy Cons by (intro coalesce_coalesced) (cases zs; simp)
      ultimately show ?thesis using Cons y by simp
    qed
  qed simp
  show ?thesis
  proof (cases "xs \<noteq> [] \<and> seg_free (last xs)")
    case False
    then show ?thesis
      using coalesce_append_used [OF cx] right [of p s]
      by (auto simp: absorb_def absorb_right_def split: list.splits bool.splits)
  next
    case True
    then obtain ws r u where xs: "xs = ws @ [(r, u, True)]"
      by (metis append_butlast_last_id prod.collapse)
    have "coalesced ws" "ws = [] \<or> \<not> seg_free (last ws)" using cx xs by (auto simp: coalesced_append)
    then have "coalesce (xs @ (p, s, True) # ys) = ws @ coalesce ((r, u + (20 + s), True) # ys)"
      using coalesce_append_used [of ws "(r, u, True) # (p, s, True) # ys"] xs by simp
    then show ?thesis using True right [of r "u + (20 + s)"] xs
      by (auto simp: absorb_def absorb_right_def split: list.splits bool.splits)
  qed
qed

lemma free_segs_absorb:
  assumes "tiles a (xs @ (p, s, False) # ys) e" "coalesced (xs @ (p, s, False) # ys)"
  shows "free_segs (p + 20) (xs @ (p, s, False) # ys) = absorb xs p s ys"
proof -
  have "p \<notin> fst ` set xs" "p \<notin> fst ` set ys" using tiles_fst_distinct [OF assms(1)] by auto
  then show ?thesis using free_segs_split [OF assms(2)] coalesce_absorb [OF assms(2)] by simp
qed

lemma tiles_absorb:
  assumes "tiles a (xs @ (p, s, False) # ys) e"
  shows "tiles a (absorb xs p s ys) e"
proof -
  obtain m where m: "tiles a xs m" "p = m" "4 dvd s" "tiles (m + 20 + s) ys e"
    using assms by (auto simp: tiles_append)
  have right: "tiles (m + 20 + s') ys' e \<and> 4 dvd s'"
    if "(s', ys') = absorb_right s ys" for s' ys'
    using that m by (auto simp: absorb_right_def ac_simps split: list.splits prod.splits bool.splits)
  show ?thesis
  proof (cases "xs \<noteq> [] \<and> seg_free (last xs)")
    case False
    then show ?thesis using m right by (auto simp: absorb_def tiles_append split: prod.split)
  next
    case True
    then obtain ws r u where xs: "xs = ws @ [(r, u, True)]"
      by (metis append_butlast_last_id prod.collapse)
    then obtain k where k: "tiles a ws k" "r = k" "4 dvd u" "m = k + 20 + u"
      using m(1) by (auto simp: tiles_append)
    have "tiles (r + 20 + (u + (20 + s'))) ys' e" if "tiles (m + 20 + s') ys' e" for s' ys'
      using that k by (simp add: ac_simps)
    then show ?thesis using xs k right by (auto simp: absorb_def tiles_append split: prod.split)
  qed
qed

lemma coalesced_absorb:
  assumes "coalesced (xs @ (p, s, False) # ys)"
  shows "coalesced (absorb xs p s ys)"
proof -
  have cx: "coalesced xs" and cy: "coalesced ys" using assms by (cases ys; simp add: coalesced_append)+
  have right: "coalesced ys' \<and> (ys' = [] \<or> \<not> seg_free (hd ys'))"
    if "(s', ys') = absorb_right s ys" for s' ys'
    using that cy by (cases ys; cases "tl ys") (auto simp: absorb_right_def split: prod.splits bool.splits)
  have glue: "coalesced ((r, u, True) # zs)" if "coalesced zs" "zs = [] \<or> \<not> seg_free (hd zs)" for r u zs
    using that by (cases zs) auto
  show ?thesis
  proof (cases "xs \<noteq> [] \<and> seg_free (last xs)")
    case False
    then show ?thesis using cx right glue
      by (auto simp: absorb_def coalesced_append split: prod.split)
  next
    case True
    then obtain ws r u where xs: "xs = ws @ [(r, u, True)]"
      by (metis append_butlast_last_id prod.collapse)
    have "coalesced ws" "ws = [] \<or> \<not> seg_free (last ws)" using cx xs by (auto simp: coalesced_append)
    then show ?thesis using xs right glue
      by (auto simp: absorb_def coalesced_append split: prod.split)
  qed
qed

section \<open>The linked headers\<close>

lemma upd_hdr_simps [simp]:
  "hdr (upd_hdr b f h) = (hdr h)(b := f (hdr h b))"
  "heap_head (upd_hdr b f h) = heap_head h"
  "heap_start (upd_hdr b f h) = heap_start h"
  "bytes (upd_hdr b f h) = bytes h"
  by (simp_all add: upd_hdr_def)

definition last_addr :: "addr \<Rightarrow> seg list \<Rightarrow> addr" where
  "last_addr pv xs = (if xs = [] then pv else of_nat (fst (last xs)))"

lemma chain_append:
  "chain H pv b (xs @ ys) e \<longleftrightarrow> (\<exists>c. chain H pv b xs c \<and> chain H (last_addr pv xs) c ys e)"
proof (induction xs arbitrary: pv b)
  case (Cons x xs)
  obtain p s f where x: "x = (p, s, f)" by (cases x)
  have "last_addr b xs = last_addr pv (x # xs)" if "unat b = p"
    using that by (auto simp: last_addr_def x)
  then show ?case using Cons.IH [of b "b_next (H b)"] by (auto simp: x)
qed (simp add: last_addr_def)

lemma chain_cong:
  "(\<And>c. unat c \<in> fst ` set xs \<Longrightarrow> H' c = H c) \<Longrightarrow> chain H' pv b xs e \<longleftrightarrow> chain H pv b xs e"
proof (induction xs arbitrary: pv b)
  case (Cons x xs)
  obtain p s f where x: "x = (p, s, f)" by (cases x)
  show ?case
  proof (cases "unat b = p")
    case True
    then have "H' b = H b" using Cons.prems [of b] by (simp add: x)
    then show ?thesis using Cons.IH [of b "b_next (H b)"] Cons.prems by (simp add: x)
  qed (simp add: x)
qed simp

lemma chain_upd [simp]:
  "unat c \<notin> fst ` set xs \<Longrightarrow> chain (H(c := v)) pv b xs e \<longleftrightarrow> chain H pv b xs e"
  by (rule chain_cong) auto

lemma chain_unique: "chain H pv b xs NULL \<Longrightarrow> chain H pv b ys NULL \<Longrightarrow> xs = ys"
  by (induction xs ys arbitrary: pv b rule: list_induct2') auto

lemma chain_reprev:
  assumes "chain H pv b ys NULL" "distinct (map fst ys)"
  shows "chain (if b \<noteq> NULL then H(b := (H b)\<lparr>b_prev := pv'\<rparr>) else H) pv' b ys NULL"
  using assms by (cases ys) auto

lemma of_nat_unat_add:
  "unat b + n < 2 ^ 32 \<Longrightarrow> unat (b + of_nat n :: u32) = unat b + n"
  by (rule unat_add_offset)

text \<open>Taking a free block: the effect of \<^verbatim>\<open>split\<close> followed by clearing the free flag.\<close>

definition take_block :: "kheap \<Rightarrow> addr \<Rightarrow> u32 \<Rightarrow> kheap" where
  "take_block h b sz = upd_hdr b (b_free_update (\<lambda>_. False)) (split_block h b sz)"

lemma take_block_other [simp]:
  "heap_head (take_block h b sz) = heap_head h" "heap_start (take_block h b sz) = heap_start h"
  "bytes (take_block h b sz) = bytes h"
  by (simp_all add: take_block_def split_block_def Let_def)

lemma split_test:
  assumes "unat sz + 36 < 2 ^ 32"
  shows "b_size (hdr h b) < sz + sizeof_block + MIN_SPLIT \<longleftrightarrow> unat (b_size (hdr h b)) < unat sz + 36"
proof -
  have "sz + sizeof_block + MIN_SPLIT = sz + of_nat 36" by (simp add: heap_consts)
  then show ?thesis by (simp only: word_less_nat_alt of_nat_unat_add [OF assms])
qed

definition set_prev :: "(addr \<Rightarrow> block) \<Rightarrow> addr \<Rightarrow> addr \<Rightarrow> addr \<Rightarrow> block" where
  "set_prev H b pv = (if b \<noteq> NULL then H(b := (H b)\<lparr>b_prev := pv\<rparr>) else H)"

lemma take_block_hdr_whole:
  assumes "unat sz + 36 < 2 ^ 32" "unat (b_size (hdr h b)) < unat sz + 36"
  shows "hdr (take_block h b sz) = (hdr h)(b := (hdr h b)\<lparr>b_free := False\<rparr>)"
  using assms by (simp add: take_block_def split_block_def split_test)

lemma take_block_hdr_split:
  assumes "unat sz + 36 < 2 ^ 32" "\<not> unat (b_size (hdr h b)) < unat sz + 36"
    and "rest = b + sizeof_block + sz" "nx = b_next (hdr h b)" "rest \<noteq> b" "nx \<noteq> rest" "nx \<noteq> b"
  shows "hdr (take_block h b sz) =
    (set_prev (hdr h) nx rest)(
       rest := \<lparr>b_magic = BLOCK_MAGIC, b_size = b_size (hdr h b) - sz - sizeof_block,
                b_free = True, b_next = nx, b_prev = b\<rparr>,
       b := (hdr h b)\<lparr>b_size := sz, b_next := rest, b_free := False\<rparr>)"
  using assms
  by (auto simp: take_block_def split_block_def Let_def split_test set_prev_def fun_eq_iff)

lemma chain_set_prev:
  assumes "chain H pv b ys NULL" "distinct (map fst ys)"
  shows "chain (set_prev H b pv') pv' b ys NULL"
  unfolding set_prev_def by (rule chain_reprev [OF assms])

lemma set_prev_other: "c \<noteq> b \<Longrightarrow> set_prev H b pv c = H c"
  by (simp add: set_prev_def)

lemma take_block_chain:
  assumes ch: "chain (hdr h) pv b ((p, s, True) # ys) NULL"
    and ti: "tiles p ((p, s, True) # ys) e" "e < 2 ^ 32" "e \<le> p + 2 ^ 22" and n: "unat sz \<le> s"
  shows "chain (hdr (take_block h b sz)) pv b (carve (unat sz) p s @ ys) NULL \<and>
    (\<forall>c. unat c < p \<longrightarrow> hdr (take_block h b sz) c = hdr h c)"
proof -
  have b: "b \<noteq> NULL" "unat b = p" "unat (b_size (hdr h b)) = s" using ch by simp_all
  have after: "\<forall>x \<in> set ys. p + 20 + s \<le> fst x" and le: "p + 20 + s \<le> e"
    using ti(1) tiles_mem [of "p + 20 + s" ys e] tiles_le [of "p + 20 + s" ys e] by auto
  have small: "unat sz + 36 < 2 ^ 32" using n le ti by simp
  have notin: "p \<notin> fst ` set ys" using after by fastforce
  show ?thesis
  proof (cases "s < unat sz + 36")
    case True
    then have "hdr (take_block h b sz) = (hdr h)(b := (hdr h b)\<lparr>b_free := False\<rparr>)"
      using b take_block_hdr_whole [OF small] by simp
    then show ?thesis using True ch b notin by (auto simp: carve_def)
  next
    case False
    define rest where "rest = b + sizeof_block + sz"
    define nx where "nx = b_next (hdr h b)"
    have tail: "chain (hdr h) b nx ys NULL" "distinct (map fst ys)"
      using ch ti(1) tiles_fst_distinct [of "p + 20 + s" ys e] by (simp_all add: nx_def)
    have rest: "unat rest = p + 20 + unat sz"
      using of_nat_unat_add [of b "20 + unat sz"] b le ti n
      by (simp add: rest_def sizeof_block_def add.assoc)
    have nx: "nx = NULL \<or> p + 20 + s \<le> unat nx" using tail(1) after by (cases ys) auto
    have ne: "rest \<noteq> b" "rest \<noteq> NULL" using rest b by auto
    have nx_ne: "nx \<noteq> rest" "nx \<noteq> b" using nx rest b False ne by auto
    have notin_rest: "unat rest \<notin> fst ` set ys" using rest after False by fastforce
    have hdr': "hdr (take_block h b sz) = (set_prev (hdr h) nx rest)(
       rest := \<lparr>b_magic = BLOCK_MAGIC, b_size = b_size (hdr h b) - sz - sizeof_block,
                b_free = True, b_next = nx, b_prev = b\<rparr>,
       b := (hdr h b)\<lparr>b_size := sz, b_next := rest, b_free := False\<rparr>)"
      using False b by (intro take_block_hdr_split [OF small _ rest_def nx_def ne(1) nx_ne]) simp
    have szR: "unat (b_size (hdr h b) - sz - sizeof_block) = s - unat sz - 20"
      using False b n by (simp add: sizeof_block_def unat_sub_if' word_le_nat_alt)
    have "chain (hdr (take_block h b sz)) pv b (carve (unat sz) p s @ ys) NULL"
      using b ch ne rest szR False notin notin_rest chain_set_prev [OF tail, of rest]
      by (simp add: carve_def hdr')
    moreover have "hdr (take_block h b sz) c = hdr h c" if "unat c < p" for c
      using that rest b nx by (auto simp: hdr' set_prev_def)
    ultimately show ?thesis by blast
  qed
qed

lemma kmalloc_loop_refines:
  "chain (hdr h) pv b ys NULL \<Longrightarrow> tiles a ys e \<Longrightarrow> e < 2 ^ 32 \<Longrightarrow> e \<le> a + 2 ^ 22 \<Longrightarrow>
   (case alloc_segs (unat sz) ys of
      None \<Rightarrow> kmalloc_loop h b sz = ret (h, NULL)
    | Some (ys', q) \<Rightarrow> \<exists>h'. kmalloc_loop h b sz = ret (h', of_nat q) \<and>
        chain (hdr h') pv b ys' NULL \<and> (\<forall>c. unat c < a \<longrightarrow> hdr h' c = hdr h c) \<and>
        heap_head h' = heap_head h \<and> heap_start h' = heap_start h \<and> bytes h' = bytes h)"
proof (induction ys arbitrary: pv b a)
  case Nil
  then show ?case by (simp add: kmalloc_loop.simps)
next
  case (Cons x ys)
  obtain p s f where x: "x = (p, s, f)" by (cases x)
  have b: "b \<noteq> NULL" "unat b = p" "unat (b_size (hdr h b)) = s" "b_magic (hdr h b) = BLOCK_MAGIC"
    "b_free (hdr h b) = f" "p = a" and tail: "chain (hdr h) b (b_next (hdr h b)) ys NULL"
    "tiles (a + 20 + s) ys e"
    using Cons.prems by (simp_all add: x)
  show ?case
  proof (cases "f \<and> unat sz \<le> s")
    case True
    have "b + sizeof_block = of_nat (p + 20)" by (simp add: sizeof_block_def flip: b(2))
    then have "kmalloc_loop h b sz = ret (take_block h b sz, of_nat (p + 20))"
      using b True by (simp add: kmalloc_loop.simps [of h b] take_block_def word_le_nat_alt)
    moreover have "chain (hdr (take_block h b sz)) pv b (carve (unat sz) p s @ ys) NULL \<and>
      (\<forall>c. unat c < p \<longrightarrow> hdr (take_block h b sz) c = hdr h c)"
      by (rule take_block_chain [where e = e]) (use Cons.prems True b x in simp_all)
    ultimately show ?thesis using True b by (auto simp: x carve_def)
  next
    case False
    have step: "kmalloc_loop h b sz = kmalloc_loop h (b_next (hdr h b)) sz"
      using b False by (subst kmalloc_loop.simps) (auto simp: word_le_nat_alt)
    have "e \<le> a + 20 + s + 2 ^ 22" using Cons.prems(4) by simp
    note IH = Cons.IH [OF tail Cons.prems(3) this]
    show ?thesis
    proof (cases "alloc_segs (unat sz) ys")
      case None
      then show ?thesis using IH False step by (auto simp: x)
    next
      case (Some r)
      obtain ys' q where r: "r = (ys', q)" by (cases r)
      obtain h' where h': "kmalloc_loop h (b_next (hdr h b)) sz = ret (h', of_nat q)"
        "chain (hdr h') b (b_next (hdr h b)) ys' NULL" "\<forall>c. unat c < a + 20 + s \<longrightarrow> hdr h' c = hdr h c"
        "heap_head h' = heap_head h" "heap_start h' = heap_start h" "bytes h' = bytes h"
        using IH Some r by auto
      have "hdr h' b = hdr h b" using h'(3) b by simp
      then have "chain (hdr h') pv b ((p, s, f) # ys') NULL" using h'(2) b Cons.prems(1) x by simp
      then show ?thesis using h' False step Some r by (auto simp: x)
    qed
  qed
qed

section \<open>Refinement of \<^verbatim>\<open>kmalloc\<close>\<close>

lemma unat_HEAP_SIZE [simp]: "unat HEAP_SIZE = 4194304"
  by (simp add: HEAP_SIZE_def)

lemma heap_rep_tiles:
  "heap_rep h segs \<Longrightarrow> tiles (unat (heap_start h)) segs (unat (heap_start h) + 4194304) \<and>
     unat (heap_start h) + 4194304 < 2 ^ 32 \<and> 0 < unat (heap_start h)"
  by (simp add: heap_rep_def)

lemma heap_rep_unique: "heap_rep h xs \<Longrightarrow> heap_rep h ys \<Longrightarrow> xs = ys"
  unfolding heap_rep_def by (blast intro: chain_unique)

lemma ALIGN_UP_pow2:
  assumes "unat (x :: u32) + (2 ^ k - 1) < 2 ^ 32" "k < 32"
  shows "unat (ALIGN_UP x (2 ^ k)) = (unat x + (2 ^ k - 1)) div 2 ^ k * 2 ^ k"
proof -
  have "x + 2 ^ k - 1 = x + of_nat (2 ^ k - 1)" by (simp add: of_nat_diff algebra_simps)
  moreover have "2 ^ k - 1 = (mask k :: u32)" by (simp add: mask_eq_exp_minus_1)
  ultimately show ?thesis
    by (simp only: ALIGN_UP_def unat_and_not_mask unat_add_offset [OF assms(1)])
qed

lemma ALIGN_UP_8:
  assumes "unat sz \<le> 2 ^ 32 - 8"
  shows "unat (ALIGN_UP sz 8) = (unat sz + 7) div 8 * 8"
  using ALIGN_UP_pow2 [of sz 3] assms by simp

lemma ALIGN_UP_8_dvd: "8 dvd unat (ALIGN_UP sz 8)"
proof -
  have "ALIGN_UP sz 8 = (sz + 7) AND NOT (mask 3)"
    by (simp add: ALIGN_UP_def mask_eq_exp_minus_1 add.commute)
  then show ?thesis by (simp add: unat_and_not_mask)
qed

lemma heap_rep_alloc:
  assumes rep: "heap_rep h segs" and al: "alloc_segs n segs = Some (segs', q)" and n: "4 dvd n"
    and ch: "chain (hdr h') NULL (heap_head h') segs' NULL"
    and same: "heap_head h' = heap_head h" "heap_start h' = heap_start h"
  shows "heap_rep h' segs'"
proof -
  obtain xs p s ys where segs: "segs = xs @ (p, s, True) # ys" "n \<le> s" "segs' = xs @ carve n p s @ ys"
    using alloc_segs_Some [OF al] by blast
  have "tiles a segs' e" if "tiles a segs e" for a e
  proof -
    have "tiles a xs p" "4 dvd s" "tiles (p + 20 + s) ys e" using that segs by (auto simp: tiles_append)
    then have "tiles p (carve n p s @ ys) e" using segs(2) n by (simp add: tiles_carve)
    with \<open>tiles a xs p\<close> show ?thesis unfolding segs(3) tiles_append [of a xs] by blast
  qed
  moreover have "coalesced segs'" using rep segs by (auto simp: heap_rep_def coalesced_carve)
  ultimately show ?thesis using rep ch same by (simp add: heap_rep_def)
qed

text \<open>\<^verbatim>\<open>kmalloc\<close> refines first fit on the block list.\<close>

lemma kmalloc_refines:
  assumes rep: "heap_rep h segs" and sz: "sz \<noteq> 0"
  shows "case alloc_segs (unat (ALIGN_UP sz 8)) segs of
      None \<Rightarrow> kmalloc h sz = ret (h, NULL)
    | Some (segs', q) \<Rightarrow> \<exists>h'. kmalloc h sz = ret (h', of_nat q) \<and> heap_rep h' segs' \<and>
        bytes h' = bytes h \<and> heap_start h' = heap_start h"
proof -
  have loop: "kmalloc h sz = kmalloc_loop h (heap_head h) (ALIGN_UP sz 8)"
    using sz by (simp add: kmalloc_def)
  have ch: "chain (hdr h) NULL (heap_head h) segs NULL" using rep unfolding heap_rep_def by blast
  have d4: "4 dvd unat (ALIGN_UP sz 8)" using ALIGN_UP_8_dvd [of sz] by (rule dvd_trans [rotated]) simp
  note R = kmalloc_loop_refines [OF ch conjunct1 [OF heap_rep_tiles [OF rep]], of "ALIGN_UP sz 8"]
  show ?thesis
  proof (cases "alloc_segs (unat (ALIGN_UP sz 8)) segs")
    case None
    then show ?thesis using R heap_rep_tiles [OF rep] by (simp add: loop)
  next
    case (Some r)
    obtain segs' q where r: "r = (segs', q)" by (cases r)
    then show ?thesis
      using R heap_rep_tiles [OF rep] Some heap_rep_alloc [OF rep Some [unfolded r] d4]
      by (auto simp: loop)
  qed
qed

section \<open>Refinement of \<^verbatim>\<open>kfree\<close>\<close>

lemma merge_next_other [simp]:
  "heap_head (merge_next h b) = heap_head h" "heap_start (merge_next h b) = heap_start h"
  "bytes (merge_next h b) = bytes h"
  by (simp_all add: merge_next_def Let_def)

lemma merge_next_hdr:
  assumes "n = b_next (hdr h b)" "n \<noteq> NULL" "b_free (hdr h b)" "b_free (hdr h n)"
    "b_next (hdr h n) \<noteq> b"
  shows "hdr (merge_next h b) = (set_prev (hdr h) (b_next (hdr h n)) b)(
    b := (hdr h b)\<lparr>b_size := b_size (hdr h b) + (sizeof_block + b_size (hdr h n)),
                    b_next := b_next (hdr h n)\<rparr>)"
  using assms by (auto simp: merge_next_def Let_def set_prev_def fun_eq_iff)

lemma merge_next_chain:
  assumes ch: "chain (hdr h) pv b ((p, s, True) # ys) NULL"
    and ti: "tiles p ((p, s, True) # ys) e" "e < 2 ^ 32" and r: "absorb_right s ys = (s', ys')"
  shows "chain (hdr (merge_next h b)) pv b ((p, s', True) # ys') NULL \<and>
    (\<forall>c. unat c < p \<longrightarrow> hdr (merge_next h b) c = hdr h c)"
proof (cases "\<exists>q t zs. ys = (q, t, True) # zs")
  case False
  then have same: "s' = s" "ys' = ys"
    using r by (auto simp: absorb_right_def split: list.splits prod.splits bool.splits)
  have "b_next (hdr h b) = NULL \<or> \<not> b_free (hdr h (b_next (hdr h b)))"
    using ch False by (cases ys) auto
  then have "merge_next h b = h" by (auto simp: merge_next_def)
  then show ?thesis using ch same by simp
next
  case True
  then obtain q t zs where ys: "ys = (q, t, True) # zs" by blast
  define n where "n = b_next (hdr h b)"
  have b: "b \<noteq> NULL" "unat b = p" "unat (b_size (hdr h b)) = s" "b_free (hdr h b)"
    and n: "n \<noteq> NULL" "unat n = q" "unat (b_size (hdr h n)) = t" "b_free (hdr h n)"
    and tail: "chain (hdr h) n (b_next (hdr h n)) zs NULL"
    using ch by (simp_all add: ys n_def)
  have q: "q = p + 20 + s" and le: "q + 20 + t \<le> e" and dist: "distinct (map fst zs)"
    and after: "\<forall>x \<in> set zs. q + 20 + t \<le> fst x"
    using ti(1) ys tiles_mem [of "q + 20 + t" zs e] tiles_le [of "q + 20 + t" zs e]
      tiles_fst_distinct [of "q + 20 + t" zs e] by auto
  have nn: "b_next (hdr h n) = NULL \<or> q + 20 + t \<le> unat (b_next (hdr h n))"
    using tail after by (cases zs) auto
  have notin: "p \<notin> fst ` set zs" using after q by fastforce
  have hdr': "hdr (merge_next h b) = (set_prev (hdr h) (b_next (hdr h n)) b)(
    b := (hdr h b)\<lparr>b_size := b_size (hdr h b) + (sizeof_block + b_size (hdr h n)),
                    b_next := b_next (hdr h n)\<rparr>)"
    by (rule merge_next_hdr [OF n_def]) (use b n nn q in auto)
  have "unat (b_size (hdr h b) + of_nat (20 + t)) = s + (20 + t)"
    using of_nat_unat_add [of "b_size (hdr h b)" "20 + t"] b(3) le q ti(2) by simp
  moreover have "sizeof_block + b_size (hdr h n) = of_nat (20 + t)"
    by (simp add: sizeof_block_def flip: n(3))
  ultimately have sz: "unat (b_size (hdr h b) + (sizeof_block + b_size (hdr h n))) = s + (20 + t)"
    by simp
  have r': "s' = s + (20 + t)" "ys' = zs" using r ys by (simp_all add: absorb_right_def)
  have "chain (hdr (merge_next h b)) pv b ((p, s', True) # ys') NULL"
    using ch b notin chain_set_prev [OF tail dist, of b] sz by (simp add: hdr' r')
  moreover have "hdr (merge_next h b) c = hdr h c" if "unat c < p" for c
    using that b nn q by (auto simp: hdr' set_prev_def)
  ultimately show ?thesis by blast
qed

lemma chain_last:
  assumes "chain H pv b xs e" "xs \<noteq> []"
  shows "last_addr pv xs \<noteq> NULL \<and> b_free (H (last_addr pv xs)) = seg_free (last xs) \<and>
    unat (last_addr pv xs) = fst (last xs) \<and> chain H pv b (butlast xs) (last_addr pv xs) \<and>
    chain H (last_addr pv (butlast xs)) (last_addr pv xs) [last xs] e"
proof -
  obtain ws w u g where xs: "xs = ws @ [(w, u, g)]" using assms(2) by (metis prod_cases3 rev_exhaust)
  obtain c where c: "chain H pv b ws c" "chain H (last_addr pv ws) c [(w, u, g)] e"
    using assms(1) by (auto simp: xs chain_append)
  then have "c = last_addr pv xs" by (auto simp: xs last_addr_def)
  with c show ?thesis by (simp add: xs last_addr_def)
qed

lemma tiles_right:
  assumes "tiles p ((p, s, True) # ys) e" "absorb_right s ys = (s', ys')"
  shows "tiles p ((p, s', True) # ys') e"
  using assms by (auto simp: absorb_right_def ac_simps split: list.splits prod.splits bool.splits)

text \<open>The backward half of \<^verbatim>\<open>kfree\<close>: merge into the predecessor when it is free.\<close>

lemma merge_prev_chain:
  assumes pre: "chain (hdr h) NULL b\<^sub>0 xs b" and suf: "chain (hdr h) (last_addr NULL xs) b ((p, s, True) # ys) NULL"
    and ti: "tiles a xs p" "tiles p ((p, s, True) # ys) e" "e < 2 ^ 32"
    and free: "xs \<noteq> []" "seg_free (last xs)"
  shows "chain (hdr (merge_next h (last_addr NULL xs))) NULL b\<^sub>0
    (butlast xs @ (fst (last xs), fst (snd (last xs)) + (20 + s), True) # ys) NULL"
proof -
  obtain ws w u where xs: "xs = ws @ [(w, u, True)]"
    using free by (metis append_butlast_last_id prod.collapse)
  let ?c = "last_addr NULL xs"
  have c: "unat ?c = w" and pw: "chain (hdr h) NULL b\<^sub>0 ws ?c"
    and cw: "chain (hdr h) (last_addr NULL ws) ?c ((w, u, True) # (p, s, True) # ys) NULL"
    using chain_last [OF pre free(1)] suf xs by auto
  have tw: "tiles a ws w" "tiles w ((w, u, True) # (p, s, True) # ys) e"
    using ti xs by (auto simp: tiles_append)
  have r: "absorb_right u ((p, s, True) # ys) = (u + (20 + s), ys)" by (simp add: absorb_right_def)
  have c3: "chain (hdr (merge_next h ?c)) (last_addr NULL ws) ?c ((w, u + (20 + s), True) # ys) NULL"
    and f3: "\<forall>c. unat c < w \<longrightarrow> hdr (merge_next h ?c) c = hdr h c"
    using merge_next_chain [OF cw tw(2) ti(3) r] by auto
  have "\<forall>x \<in> set ws. fst x < w" using tiles_mem [OF tw(1)] by force
  then have "chain (hdr (merge_next h ?c)) NULL b\<^sub>0 ws ?c"
    using pw f3 chain_cong [of ws "hdr (merge_next h ?c)" "hdr h"] by force
  then show ?thesis using c3 xs by (auto simp: chain_append)
qed

lemma kfree_chain:
  assumes ch: "chain (hdr h) NULL (heap_head h) (xs @ (p, s, False) # ys) NULL"
    and ti: "tiles a (xs @ (p, s, False) # ys) e" "e < 2 ^ 32" "0 < a"
    and ptr: "ptr = of_nat (p + 20)"
  shows "\<exists>h'. kfree h ptr = ret h' \<and> chain (hdr h') NULL (heap_head h) (absorb xs p s ys) NULL \<and>
    heap_head h' = heap_head h \<and> heap_start h' = heap_start h \<and> bytes h' = bytes h"
proof -
  obtain b where pre: "chain (hdr h) NULL (heap_head h) xs b"
    and suf: "chain (hdr h) (last_addr NULL xs) b ((p, s, False) # ys) NULL"
    using ch by (auto simp: chain_append)
  have txs: "tiles a xs p" and tys: "tiles p ((p, s, True) # ys) e" and le: "p + 20 + s \<le> e"
    using ti(1) tiles_le [of "p + 20 + s" ys e] by (auto simp: tiles_append)
  have b: "b \<noteq> NULL" "unat b = p" "ptr - sizeof_block = b" "ptr \<noteq> NULL"
    using suf ptr le ti(2) of_nat_unat_add [of b 20] by (auto simp: sizeof_block_def)
  have before: "\<forall>x \<in> set xs. fst x < p" using tiles_mem [OF txs] by force
  define h1 where "h1 = upd_hdr b (b_free_update (\<lambda>_. True)) h"
  have "p \<notin> fst ` set ys" using tys tiles_mem [of "p + 20 + s" ys e] by fastforce
  then have c1: "chain (hdr h1) (last_addr NULL xs) b ((p, s, True) # ys) NULL"
    using suf b by (simp add: h1_def)
  obtain s' ys' where r: "absorb_right s ys = (s', ys')" by (cases "absorb_right s ys")
  define h2 where "h2 = merge_next h1 b"
  have c2: "chain (hdr h2) (last_addr NULL xs) b ((p, s', True) # ys') NULL"
    and f2: "\<forall>c. unat c < p \<longrightarrow> hdr h2 c = hdr h c"
    using merge_next_chain [OF c1 tys ti(2) r] b by (auto simp: h2_def h1_def)
  have pre2: "chain (hdr h2) NULL (heap_head h) xs b"
    using pre f2 before chain_cong [of xs "hdr h2" "hdr h"] by force
  have pv: "b_prev (hdr h2 b) = last_addr NULL xs" using c2 by simp
  have free: "kfree h ptr = ret (if last_addr NULL xs \<noteq> NULL \<and> b_free (hdr h2 (last_addr NULL xs))
      then merge_next h2 (last_addr NULL xs) else h2)"
    using b suf by (simp add: kfree_def Let_def h1_def [symmetric] h2_def [symmetric] pv)
  show ?thesis
  proof (cases "xs \<noteq> [] \<and> seg_free (last xs)")
    case False
    have "\<not> (last_addr NULL xs \<noteq> NULL \<and> b_free (hdr h2 (last_addr NULL xs)))"
      using False chain_last [OF pre2] by (cases "xs = []") (auto simp: last_addr_def)
    then have "kfree h ptr = ret h2" using free by auto
    moreover have "chain (hdr h2) NULL (heap_head h) (absorb xs p s ys) NULL"
      using False pre2 c2 r by (auto simp: absorb_def chain_append)
    ultimately show ?thesis by (simp add: h2_def h1_def)
  next
    case True
    then have "chain (hdr (merge_next h2 (last_addr NULL xs))) NULL (heap_head h) (absorb xs p s ys) NULL"
      using merge_prev_chain [OF pre2 c2 txs tiles_right [OF tys r] ti(2)] r by (simp add: absorb_def)
    moreover have "kfree h ptr = ret (merge_next h2 (last_addr NULL xs))"
      using free True chain_last [OF pre2] by simp
    ultimately show ?thesis by (simp add: h2_def h1_def)
  qed
qed

lemma kfree_refines:
  assumes rep: "heap_rep h segs" and mem: "(p, s, False) \<in> set segs"
  shows "\<exists>h'. kfree h (of_nat (p + 20)) = ret h' \<and> heap_rep h' (free_segs (p + 20) segs) \<and>
    bytes h' = bytes h \<and> heap_start h' = heap_start h"
proof -
  obtain xs ys where segs: "segs = xs @ (p, s, False) # ys" using mem by (meson split_list)
  have ch: "chain (hdr h) NULL (heap_head h) segs NULL" and co: "coalesced segs"
    and ti: "tiles (unat (heap_start h)) segs (unat (heap_start h) + 4194304)"
    "unat (heap_start h) + 4194304 < 2 ^ 32" "0 < unat (heap_start h)"
    using rep heap_rep_tiles [OF rep] unfolding heap_rep_def by blast+
  have "free_segs (p + 20) segs = absorb xs p s ys"
    using free_segs_absorb [OF ti(1) [unfolded segs] co [unfolded segs]] by (simp add: segs)
  then show ?thesis
    using kfree_chain [OF ch [unfolded segs] ti [unfolded segs] refl] rep
      tiles_absorb [OF ti(1) [unfolded segs]] coalesced_absorb [OF co [unfolded segs]]
    by (auto simp: heap_rep_def)
qed

end
