(* ===== verification/Pmm.thy ===== *)
theory Pmm
  imports Kheap
begin

text \<open>
  The physical frame allocator (mm/pmm.c): a bitmap with one bit per 4 KiB frame and two
  counters. The abstract view is the set of frames in use; the invariant ties the counter
  \<^verbatim>\<open>used_frames\<close> to the size of that set, and every operation is shown to act on the set.
\<close>

section \<open>State\<close>

definition KERNEL_VBASE :: u32 where "KERNEL_VBASE = 0xC0000000"

definition V2P :: "u32 \<Rightarrow> u32" where "V2P a = a - KERNEL_VBASE"
definition P2V :: "u32 \<Rightarrow> u32" where "P2V a = a + KERNEL_VBASE"

definition MAX_FRAMES :: u32 where "MAX_FRAMES = 1024 * 1024 * 1024 div PAGE_SIZE"

definition MULTIBOOT_FLAG_MEM :: u32 where "MULTIBOOT_FLAG_MEM = push_bit 0 1"

record multiboot_info =
  flags :: u32
  mem_lower :: u32
  mem_upper :: u32
  boot_device :: u32
  cmdline :: u32
  mods_count :: u32
  mods_addr :: u32
  syms :: "u32 list"
  mmap_length :: u32
  mmap_addr :: u32

text \<open>
  The bitmap is a zero-initialised static array of \<^verbatim>\<open>MAX_FRAMES / 32\<close> words; an access past its
  end is a \<^const>\<open>Fault\<close>.
\<close>

record pmm =
  bitmap :: "u32 \<Rightarrow> u32"
  total_frames :: u32
  used_frames :: u32

definition pmm_bss :: pmm where
  "pmm_bss = \<lparr>bitmap = (\<lambda>_. 0), total_frames = 0, used_frames = 0\<rparr>"

definition frame_mask :: "u32 \<Rightarrow> u32" where
  "frame_mask frame = push_bit (unat (frame mod 32)) 1"

definition in_bitmap :: "u32 \<Rightarrow> bool" where
  "in_bitmap frame \<longleftrightarrow> frame div 32 < MAX_FRAMES div 32"

section \<open>Operations\<close>

definition mark_used :: "u32 \<Rightarrow> pmm \<Rightarrow> pmm run" where
  "mark_used frame s =
     (if \<not> in_bitmap frame then fault_run
      else if bitmap s (frame div 32) AND frame_mask frame = 0
      then ret (s\<lparr>bitmap := (bitmap s)(frame div 32 := bitmap s (frame div 32) OR frame_mask frame),
                  used_frames := used_frames s + 1\<rparr>)
      else ret s)"

partial_function (option) pmm_reserve :: "u32 \<Rightarrow> u32 \<Rightarrow> pmm \<Rightarrow> pmm run" where
  "pmm_reserve addr reserved_end s =
     (if addr < reserved_end
      then run_bind (mark_used (addr div PAGE_SIZE) s)
             (\<lambda>s'. pmm_reserve (addr + PAGE_SIZE) reserved_end s')
      else ret s)"

definition pmm_init :: "multiboot_info \<Rightarrow> u32 \<Rightarrow> pmm \<Rightarrow> pmm run" where
  "pmm_init mbi heap_end s =
     (if flags mbi AND MULTIBOOT_FLAG_MEM = 0
      then panic_run ''bootloader did not provide a memory map''
      else
        let total_kib = 1024 + mem_upper mbi;
            tf = total_kib div (PAGE_SIZE div 1024);
            tf = (if tf > MAX_FRAMES then MAX_FRAMES else tf);
            reserved_end = V2P heap_end
        in pmm_reserve 0 reserved_end (s\<lparr>total_frames := tf\<rparr>))"

function pmm_alloc_scan :: "u32 \<Rightarrow> pmm \<Rightarrow> (pmm \<times> u32) run" where
  "pmm_alloc_scan f s =
     (if f < total_frames s
      then if \<not> in_bitmap f then fault_run
           else if bitmap s (f div 32) AND frame_mask f = 0
           then run_bind (mark_used f s) (\<lambda>s'. ret (s', f * PAGE_SIZE))
           else pmm_alloc_scan (f + 1) s
      else ret (s, 0))"
  by pat_completeness auto
termination
proof (relation "measure (\<lambda>(f, s). unat (total_frames s) - unat f)")
  fix f :: u32 and s :: pmm
  assume "f < total_frames s"
  then have "unat f < unat (total_frames s)" by (simp add: word_less_nat_alt)
  moreover have "unat (f + 1) = unat f + 1"
    using calculation unat_u32_lt [of "total_frames s"] unat_add_offset [of f 1] by simp
  ultimately show "((f + 1, s), f, s) \<in> measure (\<lambda>(f, s). unat (total_frames s) - unat f)"
    by simp
qed simp

declare pmm_alloc_scan.simps [simp del]

definition pmm_alloc_frame :: "pmm \<Rightarrow> (pmm \<times> u32) run" where
  "pmm_alloc_frame s = pmm_alloc_scan 0 s"

definition pmm_free_frame :: "u32 \<Rightarrow> pmm \<Rightarrow> pmm run" where
  "pmm_free_frame addr s =
     (let frame = addr div PAGE_SIZE in
      if frame < total_frames s
      then if \<not> in_bitmap frame then fault_run
           else if bitmap s (frame div 32) AND frame_mask frame \<noteq> 0
           then ret (s\<lparr>bitmap := (bitmap s)(frame div 32 :=
                         bitmap s (frame div 32) AND NOT (frame_mask frame)),
                       used_frames := used_frames s - 1\<rparr>)
           else ret s
      else ret s)"

definition pmm_total_kib :: "pmm \<Rightarrow> u32" where
  "pmm_total_kib s = total_frames s * (PAGE_SIZE div 1024)"

definition pmm_used_kib :: "pmm \<Rightarrow> u32" where
  "pmm_used_kib s = used_frames s * (PAGE_SIZE div 1024)"

section \<open>The set of frames in use\<close>

definition frame_used :: "pmm \<Rightarrow> u32 \<Rightarrow> bool" where
  "frame_used s f \<longleftrightarrow> bit (bitmap s (f div 32)) (unat (f mod 32))"

definition used_set :: "pmm \<Rightarrow> u32 set" where
  "used_set s = {f. f < MAX_FRAMES \<and> frame_used s f}"

definition pmm_inv :: "pmm \<Rightarrow> bool" where
  "pmm_inv s \<longleftrightarrow> total_frames s \<le> MAX_FRAMES \<and> used_frames s = of_nat (card (used_set s))"

lemma MAX_FRAMES_val: "MAX_FRAMES = 262144"
  by (simp add: MAX_FRAMES_def PAGE_SIZE_def)

lemma MAX_FRAMES_unat: "unat MAX_FRAMES = 262144"
  by (simp add: MAX_FRAMES_val)

lemma unat_div32: "unat ((f :: u32) div 32) = unat f div 32"
  by (simp add: unat_div_distrib)

lemma unat_mod32: "unat ((f :: u32) mod 32) = unat f mod 32"
  by (simp add: unat_mod_distrib)

lemma in_bitmap_iff: "in_bitmap f \<longleftrightarrow> f < MAX_FRAMES"
proof -
  have "unat (262144 div (32 :: u32)) = 8192" by simp
  then show ?thesis
    unfolding in_bitmap_def MAX_FRAMES_val word_less_nat_alt unat_div32 by simp linarith
qed

lemma frame_mask_bit: "bit (frame_mask f) n \<longleftrightarrow> n = unat f mod 32"
  by (auto simp: frame_mask_def bit_simps unat_mod32)

lemma frame_test: "bitmap s (f div 32) AND frame_mask f = 0 \<longleftrightarrow> \<not> frame_used s f"
proof -
  have "bit (bitmap s (f div 32) AND frame_mask f) n \<longleftrightarrow> n = unat f mod 32 \<and> frame_used s f" for n
    by (auto simp: frame_used_def bit_and_iff frame_mask_bit unat_mod32)
  then show ?thesis by (metis bit_0_eq bot_apply bot_bool_def bit_eqI)
qed

lemma frame_index_inj: "(f :: u32) div 32 = g div 32 \<Longrightarrow> unat f mod 32 = unat g mod 32 \<Longrightarrow> f = g"
  by (metis u32_eq_iff unat_div32 div_mult_mod_eq)

lemma frame_used_update:
  "frame_used (s\<lparr>bitmap := (bitmap s)(f div 32 := w), used_frames := n\<rparr>) g
     \<longleftrightarrow> (if g div 32 = f div 32 then bit w (unat g mod 32) else frame_used s g)"
  by (simp add: frame_used_def unat_mod32)

lemma frame_used_set_bit:
  "frame_used (s\<lparr>bitmap := (bitmap s)(f div 32 := bitmap s (f div 32) OR frame_mask f), used_frames := n\<rparr>) g
     \<longleftrightarrow> g = f \<or> frame_used s g"
  unfolding frame_used_update bit_or_iff frame_mask_bit
  using frame_index_inj [of g f] by (auto simp: frame_used_def unat_mod32)

lemma frame_used_clear_bit:
  "frame_used (s\<lparr>bitmap := (bitmap s)(f div 32 := bitmap s (f div 32) AND NOT (frame_mask f)), used_frames := n\<rparr>) g
     \<longleftrightarrow> g \<noteq> f \<and> frame_used s g"
proof -
  have "unat g mod 32 < LENGTH(32)" by simp
  then show ?thesis
    unfolding frame_used_update bit_and_iff bit_not_iff frame_mask_bit
    using frame_index_inj [of g f] by (auto simp: frame_used_def unat_mod32 impossible_bit)
qed

lemma finite_used_set [simp]: "finite (used_set s)"
  by simp

lemma used_set_subset: "used_set s \<subseteq> {f. f < MAX_FRAMES}"
  by (auto simp: used_set_def)

lemma card_frames: "card {f :: u32. f < MAX_FRAMES} = 262144"
proof -
  have "bij_betw unat {f :: u32. f < MAX_FRAMES} {0..<262144}"
  proof (rule bij_betw_byWitness [where f' = of_nat])
    show "\<forall>n\<in>{0..<262144}. unat (of_nat n :: u32) = n" by (simp add: unat_of_nat_u32)
    show "unat ` {f :: u32. f < MAX_FRAMES} \<subseteq> {0..<262144}"
      by (auto simp: word_less_nat_alt MAX_FRAMES_unat)
    show "of_nat ` {0..<262144} \<subseteq> {f :: u32. f < MAX_FRAMES}"
      by (auto simp: word_less_nat_alt MAX_FRAMES_unat unat_of_nat_u32)
  qed simp
  then show ?thesis using bij_betw_same_card by fastforce
qed

lemma card_used_set: "card (used_set s) \<le> 262144"
  using card_mono [OF _ used_set_subset] by (simp add: card_frames)

text \<open>The counter never wraps: it is the exact number of frames in use.\<close>

lemma pmm_inv_counter: "pmm_inv s \<Longrightarrow> unat (used_frames s) = card (used_set s)"
  using card_used_set [of s] by (simp add: pmm_inv_def unat_of_nat_u32)

section \<open>What the operations do to the set\<close>

lemma mark_used_spec:
  assumes "f < MAX_FRAMES" "pmm_inv s"
  obtains s' where "mark_used f s = ret s'" "pmm_inv s'" "used_set s' = insert f (used_set s)"
    "total_frames s' = total_frames s"
proof (cases "frame_used s f")
  case True
  then have "mark_used f s = ret s" using assms by (simp add: mark_used_def in_bitmap_iff frame_test)
  with True assms that show thesis by (auto simp: used_set_def insert_absorb)
next
  case False
  let ?s = "s\<lparr>bitmap := (bitmap s)(f div 32 := bitmap s (f div 32) OR frame_mask f), used_frames := used_frames s + 1\<rparr>"
  have us: "used_set ?s = insert f (used_set s)"
    using assms(1) unfolding used_set_def frame_used_set_bit by auto
  have "pmm_inv ?s"
    using assms(2) False unfolding pmm_inv_def us by (simp add: used_set_def)
  moreover have "mark_used f s = ret ?s"
    using False assms by (simp add: mark_used_def in_bitmap_iff frame_test)
  ultimately show thesis using us that by simp
qed

lemma mark_used_out_of_range: "\<not> f < MAX_FRAMES \<Longrightarrow> mark_used f s = fault_run"
  by (simp add: mark_used_def in_bitmap_iff)

text \<open>The scan returns the lowest unused frame at or above its start.\<close>

lemma pmm_alloc_scan_spec:
  assumes "pmm_inv s"
  shows "(\<exists>f \<ge> f0. f < total_frames s \<and> f \<notin> used_set s \<and> (\<forall>g. f0 \<le> g \<and> g < f \<longrightarrow> g \<in> used_set s) \<and>
            (\<exists>s'. pmm_alloc_scan f0 s = ret (s', f * PAGE_SIZE) \<and> pmm_inv s' \<and>
                 used_set s' = insert f (used_set s) \<and> total_frames s' = total_frames s))
       \<or> (\<forall>g. f0 \<le> g \<and> g < total_frames s \<longrightarrow> g \<in> used_set s) \<and> pmm_alloc_scan f0 s = ret (s, 0)"
  using assms
proof (induction f0 s rule: pmm_alloc_scan.induct)
  case (1 f s)
  have tot: "g < MAX_FRAMES" if "g < total_frames s" for g
    using that 1(2) unfolding pmm_inv_def by (meson order_less_le_trans)
  show ?case
  proof (cases "f < total_frames s")
    case False
    then have "pmm_alloc_scan f s = ret (s, 0)" by (subst pmm_alloc_scan.simps) simp
    moreover have "\<forall>g. f \<le> g \<and> g < total_frames s \<longrightarrow> g \<in> used_set s"
      using False by (meson order_le_less_trans)
    ultimately show ?thesis by blast
  next
    case True
    then have mx: "f < MAX_FRAMES" by (rule tot)
    show ?thesis
    proof (cases "frame_used s f")
      case False
      obtain s' where s': "mark_used f s = ret s'" "pmm_inv s'"
        "used_set s' = insert f (used_set s)" "total_frames s' = total_frames s"
        using mark_used_spec [OF mx 1(2)] .
      have "pmm_alloc_scan f s = ret (s', f * PAGE_SIZE)"
        using True mx False s'(1) by (subst pmm_alloc_scan.simps) (simp add: in_bitmap_iff frame_test)
      moreover have "f \<notin> used_set s" using False by (simp add: used_set_def)
      moreover have "\<forall>g. f \<le> g \<and> g < f \<longrightarrow> g \<in> used_set s" by (meson linorder_not_le)
      ultimately show ?thesis using s'(2-4) True by blast
    next
      case used: True
      then have inset: "f \<in> used_set s" using mx by (simp add: used_set_def)
      have step: "pmm_alloc_scan f s = pmm_alloc_scan (f + 1) s"
        using True mx used by (subst pmm_alloc_scan.simps) (simp add: in_bitmap_iff frame_test)
      have "unat (f + 1) = unat f + 1"
        using True unat_u32_lt [of "total_frames s"] unat_add_offset [of f 1] by (simp add: word_less_nat_alt)
      then have ge: "f \<le> g \<longleftrightarrow> g = f \<or> f + 1 \<le> g" for g
        unfolding word_le_nat_alt u32_eq_iff by linarith
      have IH: "(\<exists>f'\<ge>f + 1. f' < total_frames s \<and> f' \<notin> used_set s \<and>
            (\<forall>g. f + 1 \<le> g \<and> g < f' \<longrightarrow> g \<in> used_set s) \<and>
            (\<exists>s'. pmm_alloc_scan (f + 1) s = ret (s', f' * PAGE_SIZE) \<and> pmm_inv s' \<and>
                 used_set s' = insert f' (used_set s) \<and> total_frames s' = total_frames s))
         \<or> (\<forall>g. f + 1 \<le> g \<and> g < total_frames s \<longrightarrow> g \<in> used_set s) \<and> pmm_alloc_scan (f + 1) s = ret (s, 0)"
        using 1(1) [OF True] mx used 1(2) by (simp add: in_bitmap_iff frame_test)
      show ?thesis
        using IH inset unfolding step ge by blast
    qed
  qed
qed

lemma PAGE_SIZE_val: "PAGE_SIZE = 4096"
  by (simp add: PAGE_SIZE_def)

lemma unat_frame_addr: "f < MAX_FRAMES \<Longrightarrow> unat (f * PAGE_SIZE) = unat f * 4096"
  by (subst unat_mult_lem [THEN iffD1]) (simp_all add: word_less_nat_alt MAX_FRAMES_unat PAGE_SIZE_val)

lemma frame_addr_div: "f < MAX_FRAMES \<Longrightarrow> f * PAGE_SIZE div PAGE_SIZE = f"
  by (simp add: u32_eq_iff unat_div_distrib unat_frame_addr) (simp add: PAGE_SIZE_val)

lemma pmm_reserve_spec:
  assumes "pmm_inv s" "unat reserved_end \<le> 2 ^ 30" "addr = of_nat (4096 * k)" "k \<le> 262144"
  shows "\<exists>s'. pmm_reserve addr reserved_end s = ret s' \<and> pmm_inv s' \<and> total_frames s' = total_frames s \<and>
           used_set s' = used_set s \<union> {f. k \<le> unat f \<and> unat f * 4096 < unat reserved_end}"
  using assms
proof (induction "262144 - k" arbitrary: k addr s)
  have ua: "unat (of_nat (4096 * k) :: u32) = 4096 * k" if "k \<le> 262144" for k
    using that by (subst unat_of_nat_u32) simp_all
  case 0
  then have "\<not> addr < reserved_end" using ua [of k] by (simp add: word_less_nat_alt)
  then have "pmm_reserve addr reserved_end s = ret s" by (subst pmm_reserve.simps) simp
  moreover have "{f :: u32. k \<le> unat f \<and> unat f * 4096 < unat reserved_end} = {}"
    using 0 by auto
  ultimately show ?case using 0(2) by blast
next
  have ua: "unat (of_nat (4096 * k) :: u32) = 4096 * k" if "k \<le> 262144" for k
    using that by (subst unat_of_nat_u32) simp_all
  case (Suc n)
  show ?case
  proof (cases "addr < reserved_end")
    case False
    then have "unat reserved_end \<le> 4096 * k"
      using ua [OF Suc(6)] unfolding Suc(5) word_less_nat_alt by linarith
    then have "{f :: u32. k \<le> unat f \<and> unat f * 4096 < unat reserved_end} = {}" by auto
    moreover have "pmm_reserve addr reserved_end s = ret s"
      using False by (subst pmm_reserve.simps) simp
    ultimately show ?thesis using Suc(3) by blast
  next
    case True
    have k: "k < 262144" using Suc(2) by linarith
    have dv: "addr div PAGE_SIZE = of_nat k"
      using k ua [OF Suc(6)] unfolding Suc(5)
      by (simp add: u32_eq_iff unat_div_distrib PAGE_SIZE_val unat_of_nat_u32)
    have uk: "unat (of_nat k :: u32) = k" using k by (simp add: unat_of_nat_u32)
    have mx: "(of_nat k :: u32) < MAX_FRAMES" using k by (simp add: word_less_nat_alt uk MAX_FRAMES_unat)
    obtain s1 where s1: "mark_used (of_nat k) s = ret s1" "pmm_inv s1"
      "used_set s1 = insert (of_nat k) (used_set s)" "total_frames s1 = total_frames s"
      using mark_used_spec [OF mx Suc(3)] .
    have "addr + PAGE_SIZE = of_nat (4096 * Suc k)" unfolding Suc(5) by (simp add: PAGE_SIZE_val)
    moreover have "n = 262144 - Suc k" "Suc k \<le> 262144" using Suc(2) k by linarith+
    ultimately obtain s' where s': "pmm_reserve (addr + PAGE_SIZE) reserved_end s1 = ret s'" "pmm_inv s'"
      "total_frames s' = total_frames s1"
      "used_set s' = used_set s1 \<union> {f. Suc k \<le> unat f \<and> unat f * 4096 < unat reserved_end}"
      using Suc(1) [OF _ s1(2) Suc(4)] by blast
    have "4096 * k < unat reserved_end"
      using True ua [OF Suc(6)] unfolding Suc(5) word_less_nat_alt by linarith
    then have "{f :: u32. k \<le> unat f \<and> unat f * 4096 < unat reserved_end} =
        insert (of_nat k) {f. Suc k \<le> unat f \<and> unat f * 4096 < unat reserved_end}"
      using uk by (auto simp: u32_eq_iff)
    moreover have "pmm_reserve addr reserved_end s = ret s'"
      using True s1(1) s'(1) dv by (subst pmm_reserve.simps) simp
    ultimately show ?thesis using s' s1 by auto
  qed
qed

definition clear_frame :: "u32 \<Rightarrow> pmm \<Rightarrow> pmm" where
  "clear_frame f s = s\<lparr>bitmap := (bitmap s)(f div 32 := bitmap s (f div 32) AND NOT (frame_mask f)),
                       used_frames := used_frames s - 1\<rparr>"

lemma pmm_free_frame_eq:
  assumes "pmm_inv s"
  shows "pmm_free_frame a s =
     (if a div PAGE_SIZE < total_frames s \<and> frame_used s (a div PAGE_SIZE)
      then ret (clear_frame (a div PAGE_SIZE) s) else ret s)"
proof -
  have "f < total_frames s \<Longrightarrow> f < MAX_FRAMES" for f
    using assms unfolding pmm_inv_def by (meson order_less_le_trans)
  then show ?thesis
    unfolding pmm_free_frame_def Let_def in_bitmap_iff frame_test clear_frame_def by simp
qed

lemma clear_frame_total [simp]: "total_frames (clear_frame f s) = total_frames s"
  by (simp add: clear_frame_def)

lemma clear_frame_used_set: "used_set (clear_frame f s) = used_set s - {f}"
  by (intro set_eqI) (simp only: used_set_def clear_frame_def frame_used_clear_bit mem_Collect_eq Diff_iff singleton_iff, metis)

lemma clear_frame_inv:
  assumes "pmm_inv s" "f \<in> used_set s"
  shows "pmm_inv (clear_frame f s)"
proof -
  have "card (used_set s) = Suc (card (used_set s - {f}))"
    by (rule card.remove [OF finite_used_set assms(2)])
  moreover have "used_frames (clear_frame f s) = used_frames s - 1"
    by (simp add: clear_frame_def)
  ultimately show ?thesis
    using assms(1) unfolding pmm_inv_def clear_frame_used_set clear_frame_total by simp
qed

lemma pmm_free_frame_spec:
  assumes "pmm_inv s"
  shows "\<exists>s'. pmm_free_frame a s = ret s' \<and> pmm_inv s' \<and> total_frames s' = total_frames s \<and>
    used_set s' = (if a div PAGE_SIZE < total_frames s then used_set s - {a div PAGE_SIZE} else used_set s)"
proof -
  have mem: "a div PAGE_SIZE \<in> used_set s \<longleftrightarrow> frame_used s (a div PAGE_SIZE)"
    if "a div PAGE_SIZE < total_frames s"
    using that assms unfolding pmm_inv_def used_set_def by (auto dest: order_less_le_trans)
  show ?thesis
  proof (cases "a div PAGE_SIZE < total_frames s \<and> frame_used s (a div PAGE_SIZE)")
    case True
    then show ?thesis
      using mem clear_frame_inv [OF assms] by (simp add: pmm_free_frame_eq [OF assms] clear_frame_used_set)
  next
    case False
    then show ?thesis
      using mem assms by (auto simp: pmm_free_frame_eq [OF assms])
  qed
qed

section \<open>Frame pools\<close>

text \<open>
  What a client of the frame allocator relies on: a set of available frame addresses, never
  containing the out-of-memory value 0, from which allocation takes one element.
\<close>

primrec alloc_many :: "('s \<Rightarrow> ('s \<times> u32) run) \<Rightarrow> nat \<Rightarrow> 's \<Rightarrow> ('s \<times> u32 list) run" where
  "alloc_many alloc 0 s = ret (s, [])"
| "alloc_many alloc (Suc n) s =
     run_bind (alloc s) (\<lambda>(s', a). run_bind (alloc_many alloc n s') (\<lambda>(s'', as). ret (s'', a # as)))"

locale frame_pool =
  fixes inv :: "'s \<Rightarrow> bool"
    and avail :: "'s \<Rightarrow> addr set"
    and alloc :: "'s \<Rightarrow> ('s \<times> addr) run"
    and release :: "addr \<Rightarrow> 's \<Rightarrow> 's run"
  assumes avail_finite: "finite (avail s)"
    and avail_nonzero: "inv s \<Longrightarrow> 0 \<notin> avail s"
    and alloc_empty: "inv s \<Longrightarrow> avail s = {} \<Longrightarrow> alloc s = ret (s, 0)"
    and alloc_some: "inv s \<Longrightarrow> avail s \<noteq> {} \<Longrightarrow>
      \<exists>s' a. alloc s = ret (s', a) \<and> a \<in> avail s \<and> (\<forall>b \<in> avail s. a \<le> b) \<and>
             inv s' \<and> avail s' = avail s - {a}"
    and release_undo: "inv s \<Longrightarrow> alloc s = ret (s', a) \<Longrightarrow> a \<noteq> 0 \<Longrightarrow> release a s' = ret s"
begin

lemma alloc_zero_iff:
  assumes "inv s" "alloc s = ret (s', a)"
  shows "a = 0 \<longleftrightarrow> avail s = {}"
  using assms alloc_some [OF assms(1)] alloc_empty [OF assms(1)] avail_nonzero [OF assms(1)] by force

lemma alloc_many_distinct:
  assumes "inv s" "n \<le> card (avail s)"
  shows "\<exists>s' as. alloc_many alloc n s = ret (s', as) \<and> inv s' \<and> length as = n \<and> distinct as \<and>
           set as \<subseteq> avail s \<and> avail s' = avail s - set as"
  using assms
proof (induction n arbitrary: s)
  case 0
  then show ?case by simp
next
  case (Suc n)
  then have "avail s \<noteq> {}" by force
  then obtain s1 a where s1: "alloc s = ret (s1, a)" "a \<in> avail s" "inv s1" "avail s1 = avail s - {a}"
    using alloc_some [OF Suc(2)] by blast
  then have "n \<le> card (avail s1)" using Suc(3) by (simp add: avail_finite)
  then obtain s2 as where s2: "alloc_many alloc n s1 = ret (s2, as)" "inv s2" "length as = n" "distinct as"
      "set as \<subseteq> avail s1" "avail s2 = avail s1 - set as"
    using Suc(1) [OF s1(3)] by blast
  have "alloc_many alloc (Suc n) s = ret (s2, a # as)" using s1(1) s2(1) by simp
  moreover have "avail s2 = avail s - set (a # as)" using s2(6) s1(4) by auto
  moreover have "distinct (a # as)" "set (a # as) \<subseteq> avail s" using s2(4,5) s1(2,4) by auto
  ultimately show ?case using s2(2,3) by (intro exI [of _ s2] exI [of _ "a # as"]) simp
qed

end

definition avail_frames :: "pmm \<Rightarrow> addr set" where
  "avail_frames s = (\<lambda>f. f * PAGE_SIZE) ` {f. f < total_frames s \<and> f \<notin> used_set s}"

definition pmm_ok :: "pmm \<Rightarrow> bool" where
  "pmm_ok s \<longleftrightarrow> pmm_inv s \<and> 0 \<in> used_set s"

lemma frame_addr_inj:
  assumes "f < MAX_FRAMES" "g < MAX_FRAMES" "f * PAGE_SIZE = g * PAGE_SIZE"
  shows "f = g"
  by (metis assms frame_addr_div)

lemma pmm_inv_total: "pmm_inv s \<Longrightarrow> f < total_frames s \<Longrightarrow> f < MAX_FRAMES"
  unfolding pmm_inv_def by (meson order_less_le_trans)

lemma avail_frames_none: "avail_frames s = {} \<longleftrightarrow> (\<forall>f < total_frames s. f \<in> used_set s)"
  by (auto simp: avail_frames_def)

lemma avail_frames_insert:
  assumes "pmm_inv s" "f < total_frames s" "used_set s' = insert f (used_set s)"
    "total_frames s' = total_frames s"
  shows "avail_frames s' = avail_frames s - {f * PAGE_SIZE}"
proof -
  have "inj_on (\<lambda>f. f * PAGE_SIZE) {f. f < total_frames s}"
    using pmm_inv_total [OF assms(1)] by (auto intro!: inj_onI frame_addr_inj)
  moreover have "{g. g < total_frames s' \<and> g \<notin> used_set s'} = {g. g < total_frames s \<and> g \<notin> used_set s} - {f}"
    using assms(3,4) by auto
  moreover have "(\<lambda>f. f * PAGE_SIZE) ` ({g. g < total_frames s \<and> g \<notin> used_set s} - {f}) =
      (\<lambda>f. f * PAGE_SIZE) ` {g. g < total_frames s \<and> g \<notin> used_set s} - (\<lambda>f. f * PAGE_SIZE) ` {f}"
    by (rule inj_on_image_set_diff [OF calculation(1)]) (use assms(2) in auto)
  ultimately show ?thesis by (simp add: avail_frames_def)
qed

lemma pmm_alloc_frame_cases:
  assumes "pmm_inv s"
  obtains (none) "\<forall>f < total_frames s. f \<in> used_set s" "pmm_alloc_frame s = ret (s, 0)"
  | (some) f s' where "f < total_frames s" "f \<notin> used_set s" "\<forall>g < f. g \<in> used_set s"
      "pmm_alloc_frame s = ret (s', f * PAGE_SIZE)" "pmm_inv s'" "used_set s' = insert f (used_set s)"
      "total_frames s' = total_frames s"
  using pmm_alloc_scan_spec [OF assms, of 0] unfolding pmm_alloc_frame_def by auto

lemma pmm_alloc_scan_marks:
  assumes "pmm_alloc_scan f0 s = ret (s', a)" "a \<noteq> 0"
  shows "\<exists>f. a = f * PAGE_SIZE \<and> f < total_frames s \<and> \<not> frame_used s f \<and> mark_used f s = ret s'"
  using assms
proof (induction f0 s rule: pmm_alloc_scan.induct)
  case (1 f s)
  show ?case
  proof (cases "f < total_frames s \<and> in_bitmap f")
    case False
    then show ?thesis using 1(2,3) by (subst (asm) pmm_alloc_scan.simps) (auto split: if_splits)
  next
    case True
    show ?thesis
    proof (cases "frame_used s f")
      case used: True
      then have "pmm_alloc_scan f s = pmm_alloc_scan (f + 1) s"
        using True by (subst pmm_alloc_scan.simps) (simp add: frame_test)
      then show ?thesis using 1 True used by (simp add: frame_test)
    next
      case unused: False
      then show ?thesis
        using 1(2) True by (subst (asm) pmm_alloc_scan.simps) (auto simp: frame_test run_bind_eq_ret)
    qed
  qed
qed

lemma mark_then_clear:
  assumes "mark_used f s = ret s'" "\<not> frame_used s f"
  shows "clear_frame f s' = s"
proof -
  have s': "s' = s\<lparr>bitmap := (bitmap s)(f div 32 := bitmap s (f div 32) OR frame_mask f),
                  used_frames := used_frames s + 1\<rparr>"
    using assms unfolding mark_used_def frame_test by (simp split: if_splits)
  have "(bitmap s (f div 32) OR frame_mask f) AND NOT (frame_mask f) = bitmap s (f div 32)"
    using assms(2) by (intro bit_eqI)
      (auto simp: bit_and_iff bit_or_iff bit_not_iff frame_mask_bit frame_used_def unat_mod32)
  then show ?thesis unfolding s' clear_frame_def by simp
qed

lemma pmm_alloc_free:
  assumes "pmm_inv s" "pmm_alloc_frame s = ret (s', a)" "a \<noteq> 0"
  shows "pmm_free_frame a s' = ret s"
proof -
  obtain f where f: "a = f * PAGE_SIZE" "f < total_frames s" "\<not> frame_used s f" "mark_used f s = ret s'"
    using pmm_alloc_scan_marks assms(2,3) unfolding pmm_alloc_frame_def by blast
  have mx: "f < MAX_FRAMES" using pmm_inv_total [OF assms(1) f(2)] .
  obtain s'' where s'': "mark_used f s = ret s''" "pmm_inv s''" "used_set s'' = insert f (used_set s)"
    "total_frames s'' = total_frames s"
    using mark_used_spec [OF mx assms(1)] .
  then have "s'' = s'" using f(4) by simp
  moreover have "f \<in> used_set s''" using s''(3) by simp
  ultimately show ?thesis
    using f s'' mark_then_clear [OF f(4,3)] mx
    by (simp add: pmm_free_frame_eq frame_addr_div used_set_def)
qed

interpretation fp: frame_pool pmm_ok avail_frames pmm_alloc_frame pmm_free_frame
proof unfold_locales
  show "finite (avail_frames s)" for s by simp
  show "0 \<notin> avail_frames s" if "pmm_ok s" for s
  proof
    assume "0 \<in> avail_frames s"
    then obtain f where f: "f * PAGE_SIZE = 0" "f < total_frames s" "f \<notin> used_set s"
      by (auto simp: avail_frames_def)
    have "f < MAX_FRAMES" using f(2) that pmm_inv_total unfolding pmm_ok_def by blast
    then have "f = 0" using f(1) frame_addr_div [of f] by simp
    then show False using f(3) that by (simp add: pmm_ok_def)
  qed
  show "pmm_alloc_frame s = ret (s, 0)" if ok: "pmm_ok s" and none: "avail_frames s = {}" for s
  proof -
    have "pmm_inv s" using ok by (simp add: pmm_ok_def)
    then show ?thesis
      by (cases rule: pmm_alloc_frame_cases) (use none in \<open>auto simp: avail_frames_none\<close>)
  qed
  show "\<exists>s' a. pmm_alloc_frame s = ret (s', a) \<and> a \<in> avail_frames s \<and> (\<forall>b\<in>avail_frames s. a \<le> b) \<and>
          pmm_ok s' \<and> avail_frames s' = avail_frames s - {a}"
    if ok: "pmm_ok s" and some: "avail_frames s \<noteq> {}" for s
  proof -
    have inv: "pmm_inv s" using ok by (simp add: pmm_ok_def)
    then show ?thesis
    proof (cases rule: pmm_alloc_frame_cases)
      case none
      then show ?thesis using some by (simp add: avail_frames_none)
    next
      case (some f s')
      have "f * PAGE_SIZE \<le> g * PAGE_SIZE" if "g < total_frames s" "g \<notin> used_set s" for g
      proof -
        have "f \<le> g" using some(3) that(2) by (meson linorder_not_le)
        then show ?thesis
          using pmm_inv_total [OF inv] some(1) that(1) by (simp add: word_le_nat_alt unat_frame_addr)
      qed
      then have "\<forall>b\<in>avail_frames s. f * PAGE_SIZE \<le> b" by (auto simp: avail_frames_def)
      moreover have "f * PAGE_SIZE \<in> avail_frames s" using some(1,2) by (auto simp: avail_frames_def)
      ultimately show ?thesis
        using some ok avail_frames_insert [OF inv some(1,6,7)] by (auto simp: pmm_ok_def)
    qed
  qed
  show "pmm_free_frame a s' = ret s" if "pmm_ok s" "pmm_alloc_frame s = ret (s', a)" "a \<noteq> 0" for s s' a
    using that pmm_alloc_free by (simp add: pmm_ok_def)
qed

section \<open>Properties\<close>

lemma pmm_init_spec:
  assumes "bit (flags mbi) 0" "unat (V2P heap_end) \<le> 2 ^ 30" "unat (mem_upper mbi) + 1024 < 2 ^ 32"
  shows "\<exists>s. pmm_init mbi heap_end pmm_bss = ret s \<and> pmm_inv s \<and>
           unat (total_frames s) = min 262144 ((unat (mem_upper mbi) + 1024) div 4) \<and>
           used_set s = {f. unat f * 4096 < unat (V2P heap_end)} \<and>
           unat (used_frames s) = card {f :: u32. unat f * 4096 < unat (V2P heap_end)}"
proof -
  define tk where "tk = 1024 + mem_upper mbi"
  define tf where "tf = (if tk div (PAGE_SIZE div 1024) > MAX_FRAMES then MAX_FRAMES else tk div (PAGE_SIZE div 1024))"
  let ?s0 = "pmm_bss\<lparr>total_frames := tf\<rparr>"
  have "bit (flags mbi AND MULTIBOOT_FLAG_MEM) 0"
    using assms(1) by (simp add: MULTIBOOT_FLAG_MEM_def bit_and_iff)
  then have flag: "flags mbi AND MULTIBOOT_FLAG_MEM \<noteq> 0" by (metis bit_0_eq bot_apply bot_bool_def)
  have "unat tk = unat (mem_upper mbi) + 1024"
    using unat_add_offset [of "mem_upper mbi" 1024] assms(3) by (simp add: tk_def add.commute)
  then have tf: "unat tf = min 262144 ((unat (mem_upper mbi) + 1024) div 4)"
    by (simp add: tf_def PAGE_SIZE_val unat_div_distrib word_less_nat_alt MAX_FRAMES_unat)
  have none: "used_set ?s0 = {}" by (simp add: used_set_def frame_used_def pmm_bss_def)
  have "pmm_inv ?s0"
    using tf unfolding pmm_inv_def none by (simp add: word_le_nat_alt MAX_FRAMES_unat pmm_bss_def)
  then obtain s where s: "pmm_reserve 0 (V2P heap_end) ?s0 = ret s" "pmm_inv s"
      "total_frames s = total_frames ?s0"
      "used_set s = used_set ?s0 \<union> {f. 0 \<le> unat f \<and> unat f * 4096 < unat (V2P heap_end)}"
    using pmm_reserve_spec [of ?s0 "V2P heap_end" 0 0] assms(2) by auto
  have "pmm_init mbi heap_end pmm_bss = ret s"
    using flag s(1) unfolding pmm_init_def Let_def tf_def tk_def by (simp only: if_False)
  then show ?thesis using s tf none pmm_inv_counter [OF s(2)] by auto
qed

text \<open>
  Given a memory size by the bootloader and a heap that ends within the first GiB of
  physical memory, \<^verbatim>\<open>pmm_init\<close> returns, counts \<^verbatim>\<open>mem_upper\<close> plus the first MiB in 4 KiB frames, capped
  at 1 GiB, and marks as used exactly the frames that begin below the physical end of the
  kernel heap; the counter equals their number.\<close>

theorem pmm_init_reserves:
  assumes "bit (flags mbi) 0" "unat (V2P heap_end) \<le> 2 ^ 30" "unat (mem_upper mbi) + 1024 < 2 ^ 32"
  shows "\<exists>s. pmm_init mbi heap_end pmm_bss = ret s \<and> pmm_inv s \<and>
           unat (total_frames s) = min 262144 ((unat (mem_upper mbi) + 1024) div 4) \<and>
           used_set s = {f. unat f * 4096 < unat (V2P heap_end)} \<and>
           unat (used_frames s) = card {f :: u32. unat f * 4096 < unat (V2P heap_end)}"
  using assms by (rule pmm_init_spec)

definition boot_mbi :: multiboot_info where
  "boot_mbi = \<lparr>flags = 1, mem_lower = 640, mem_upper = 0x1FC00, boot_device = 0, cmdline = 0,
     mods_count = 0, mods_addr = 0, syms = [0, 0, 0, 0], mmap_length = 0, mmap_addr = 0\<rparr>"

theorem pmm_init_reserves_witness:
  "\<exists>s. pmm_init boot_mbi 0xC0510000 pmm_bss = ret s \<and> unat (total_frames s) = 32768"
  using pmm_init_reserves [of boot_mbi "0xC0510000"]
  by (force simp: boot_mbi_def V2P_def KERNEL_VBASE_def)

text \<open>
  C25. \<^verbatim>\<open>pmm_alloc_frame\<close> on a consistent bitmap whose frame 0 is reserved always returns: it
  yields 0 and changes nothing exactly when every frame below \<^verbatim>\<open>total_frames\<close> is in use, and
  otherwise the page-aligned address of the lowest frame not in use, which it adds to the set of
  used frames; the counters stay exact.\<close>

theorem pmm_alloc_frame_lowest:
  assumes "pmm_inv s" "0 \<in> used_set s"
  shows "\<exists>s' a. pmm_alloc_frame s = ret (s', a) \<and> pmm_inv s' \<and> total_frames s' = total_frames s \<and>
    (if \<forall>f < total_frames s. f \<in> used_set s then a = 0 \<and> s' = s
     else a \<noteq> 0 \<and> (\<exists>f < total_frames s. unat a = 4096 * unat f \<and> f \<notin> used_set s \<and>
            (\<forall>g < f. g \<in> used_set s) \<and> used_set s' = insert f (used_set s) \<and>
            unat (used_frames s') = unat (used_frames s) + 1))"
  using assms(1)
proof (cases rule: pmm_alloc_frame_cases)
  case none
  then show ?thesis using assms by simp
next
  case (some f s')
  have "pmm_ok s" using assms by (simp add: pmm_ok_def)
  then have "f * PAGE_SIZE \<noteq> 0"
    using fp.alloc_zero_iff [OF _ some(4)] some(1,2) by (auto simp: avail_frames_none)
  moreover have "unat (used_frames s') = unat (used_frames s) + 1"
    using pmm_inv_counter [OF some(5)] pmm_inv_counter [OF assms(1)] some(2,6) by simp
  moreover have "unat (f * PAGE_SIZE) = 4096 * unat f"
    using unat_frame_addr pmm_inv_total [OF assms(1) some(1)] by simp
  ultimately show ?thesis using some by auto
qed

text \<open>A small machine: four frames, of which 0 and 2 are in use.\<close>

definition pmm_small :: pmm where
  "pmm_small = \<lparr>bitmap = (\<lambda>_. 0)(0 := 5), total_frames = 4, used_frames = 2\<rparr>"

lemma pmm_small_props: "pmm_inv pmm_small \<and> used_set pmm_small = {2, 0}"
proof -
  let ?s0 = "pmm_bss\<lparr>total_frames := 4\<rparr>"
  let ?s1 = "\<lparr>bitmap = (\<lambda>_. 0)(0 := 1), total_frames = 4, used_frames = 1\<rparr>"
  have none: "used_set ?s0 = {}" by (simp add: used_set_def frame_used_def pmm_bss_def)
  have inv0: "pmm_inv ?s0" unfolding pmm_inv_def none by (simp add: MAX_FRAMES_val pmm_bss_def)
  have mx: "(0 :: u32) < MAX_FRAMES" "(2 :: u32) < MAX_FRAMES" by (simp_all add: MAX_FRAMES_val)
  have "mark_used 0 ?s0 = ret ?s1"
    using mx by (simp add: mark_used_def in_bitmap_iff pmm_bss_def frame_mask_def)
  then have one: "pmm_inv ?s1" "used_set ?s1 = {0}"
    using mark_used_spec [OF mx(1) inv0] none by auto
  have "mark_used 2 ?s1 = ret pmm_small"
    using mx by (simp add: mark_used_def in_bitmap_iff pmm_small_def frame_mask_def)
  then show ?thesis using mark_used_spec [OF mx(2) one(1)] one(2) by auto
qed

lemmas pmm_small_used = pmm_small_props [THEN conjunct2]

lemma pmm_small_inv: "pmm_inv pmm_small" "pmm_ok pmm_small"
  using pmm_small_props by (simp_all add: pmm_ok_def)

lemma pmm_small_alloc:
  "pmm_alloc_frame pmm_small = ret (pmm_small\<lparr>bitmap := (\<lambda>_. 0)(0 := 7), used_frames := 3\<rparr>, 4096)"
  unfolding pmm_alloc_frame_def
  by (subst pmm_alloc_scan.simps, subst pmm_alloc_scan.simps)
    (simp add: in_bitmap_def MAX_FRAMES_def PAGE_SIZE_def pmm_small_def frame_mask_def mark_used_def)

theorem pmm_alloc_frame_lowest_witness:
  "\<exists>s'. pmm_alloc_frame pmm_small = ret (s', 4096) \<and> pmm_inv s'"
proof -
  have "0 \<in> used_set pmm_small" by (simp add: pmm_small_used)
  from pmm_alloc_frame_lowest [OF pmm_small_inv(1) this]
  have "\<exists>s' a. pmm_alloc_frame pmm_small = ret (s', a) \<and> pmm_inv s'" by blast
  then show ?thesis unfolding pmm_small_alloc by auto
qed

text \<open>
  Freeing the frame that \<^verbatim>\<open>pmm_alloc_frame\<close> just returned restores the allocator's whole
  state: bitmap, counters and all.\<close>

theorem pmm_alloc_free_roundtrip:
  assumes "pmm_inv s" "pmm_alloc_frame s = ret (s', a)" "a \<noteq> 0"
  shows "pmm_free_frame a s' = ret s"
  using assms by (rule pmm_alloc_free)

theorem pmm_alloc_free_roundtrip_witness:
  "\<exists>s'. pmm_alloc_frame pmm_small = ret (s', 4096) \<and> pmm_free_frame 4096 s' = ret pmm_small"
  using pmm_alloc_free_roundtrip [OF pmm_small_inv(1) pmm_small_alloc] pmm_small_alloc by simp

text \<open>
  As long as enough frames are available, \<open>n\<close> consecutive calls of \<^verbatim>\<open>pmm_alloc_frame\<close>
  return \<open>n\<close> different nonzero addresses, all of them available before, and exactly these stop
  being available.\<close>

theorem pmm_alloc_batch_distinct:
  assumes "pmm_ok s" "n \<le> card (avail_frames s)"
  shows "\<exists>s' as. alloc_many pmm_alloc_frame n s = ret (s', as) \<and> length as = n \<and> distinct as \<and>
    0 \<notin> set as \<and> set as \<subseteq> avail_frames s \<and> avail_frames s' = avail_frames s - set as"
  using fp.alloc_many_distinct [OF assms] fp.avail_nonzero [OF assms(1)] by blast

theorem pmm_alloc_batch_distinct_witness:
  "\<exists>s' as. alloc_many pmm_alloc_frame 2 pmm_small = ret (s', as) \<and> length as = 2 \<and> distinct as"
proof -
  have "(\<lambda>f. f * PAGE_SIZE) ` {1, 3} \<subseteq> avail_frames pmm_small"
    unfolding avail_frames_def pmm_small_used
    by (rule image_mono) (simp add: pmm_small_def)
  then have "card ((\<lambda>f :: u32. f * PAGE_SIZE) ` {1, 3}) \<le> card (avail_frames pmm_small)"
    by (rule card_mono [OF fp.avail_finite])
  then have "2 \<le> card (avail_frames pmm_small)" by (simp add: PAGE_SIZE_val)
  from pmm_alloc_batch_distinct [OF pmm_small_inv(2) this] show ?thesis by blast
qed

end
