(* ===== verification/Vga.thy ===== *)
theory Vga
  imports Interrupts Pmm CString
begin

text \<open>
  The VGA text screen (drivers/vga.c): the 80 by 25 cells at physical 0xB8000, the software cursor
  and the attribute. A cell access outside the screen is a \<^const>\<open>Fault\<close>, so that the invariant on
  the cursor shows the absence of stray writes to video memory. The screen is also read as a list
  of rows, on which scrolling is dropping the first row.
\<close>

definition VGA_COLS :: int where "VGA_COLS = 80"
definition VGA_ROWS :: int where "VGA_ROWS = 25"
definition CRTC_INDEX :: u16 where "CRTC_INDEX = 0x3D4"
definition CRTC_DATA :: u16 where "CRTC_DATA = 0x3D5"

record vga = interrupts +
  cells :: "nat \<Rightarrow> u16"
  cur_row :: int
  cur_col :: int
  color :: u8

text \<open>\<^verbatim>\<open>(uint16_t)c\<close> converts the signed character, so it extends the sign.\<close>

definition vga_cell :: "char \<Rightarrow> u8 \<Rightarrow> u16" where
  "vga_cell c attr = word_of_int (schar c) OR push_bit 8 (ucast attr)"

definition vga_store :: "int \<Rightarrow> u16 \<Rightarrow> 'a vga_scheme \<Rightarrow> 'a vga_scheme run" where
  "vga_store i v s =
     (if 0 \<le> i \<and> i < VGA_ROWS * VGA_COLS then ret (s\<lparr>cells := (cells s)(nat i := v)\<rparr>) else fault_run)"

definition move_hw_cursor :: "'a vga_scheme \<Rightarrow> 'a vga_scheme" where
  "move_hw_cursor s =
     (let pos = word_of_int (cur_row s * VGA_COLS + cur_col s) :: u16;
          s = outb CRTC_INDEX 14 s;
          s = outb CRTC_DATA (ucast (drop_bit 8 pos)) s;
          s = outb CRTC_INDEX 15 s
      in outb CRTC_DATA (ucast pos) s)"

text \<open>The \<^verbatim>\<open>memmove\<close> of 24 rows, cell by cell: it copies correctly although the regions overlap.\<close>

definition move_rows_up :: "(nat \<Rightarrow> u16) \<Rightarrow> nat \<Rightarrow> u16" where
  "move_rows_up v = (\<lambda>i. if i < 24 * 80 then v (i + 80) else v i)"

primrec blank_cells :: "nat \<Rightarrow> nat \<Rightarrow> u16 \<Rightarrow> (nat \<Rightarrow> u16) \<Rightarrow> nat \<Rightarrow> u16" where
  "blank_cells start 0 x v = v"
| "blank_cells start (Suc n) x v = (blank_cells start n x v)(start + n := x)"

definition scroll_if_needed :: "'a vga_scheme \<Rightarrow> 'a vga_scheme" where
  "scroll_if_needed s =
     (if cur_row s < VGA_ROWS then s
      else s\<lparr>cells := blank_cells (24 * 80) 80 (vga_cell CHR '' '' (color s)) (move_rows_up (cells s)),
             cur_row := VGA_ROWS - 1\<rparr>)"

definition vga_clear :: "'a vga_scheme \<Rightarrow> 'a vga_scheme" where
  "vga_clear s = move_hw_cursor
     (s\<lparr>cells := blank_cells 0 (80 * 25) (vga_cell CHR '' '' (color s)) (cells s), cur_row := 0, cur_col := 0\<rparr>)"

definition vga_init :: "'a vga_scheme \<Rightarrow> 'a vga_scheme" where
  "vga_init s = vga_clear s"

definition vga_set_color :: "u8 \<Rightarrow> 'a vga_scheme \<Rightarrow> 'a vga_scheme" where
  "vga_set_color c s = s\<lparr>color := c\<rparr>"

definition vga_get_color :: "'a vga_scheme \<Rightarrow> u8" where
  "vga_get_color s = color s"

definition next_line :: "'a vga_scheme \<Rightarrow> 'a vga_scheme" where
  "next_line s = s\<lparr>cur_col := 0, cur_row := cur_row s + 1\<rparr>"

definition vga_putc :: "char \<Rightarrow> 'a vga_scheme \<Rightarrow> 'a vga_scheme run" where
  "vga_putc c s = run_bind
     (if c = CHR 0x0A then ret (next_line s)
      else if c = CHR 0x0D then ret (s\<lparr>cur_col := 0\<rparr>)
      else if c = CHR 0x08 then
        if cur_col s > 0
        then let s = s\<lparr>cur_col := cur_col s - 1\<rparr>
             in vga_store (cur_row s * VGA_COLS + cur_col s) (vga_cell CHR '' '' (color s)) s
        else ret s
      else if c = CHR 0x09 then
        let s = s\<lparr>cur_col := (cur_col s + 8) AND (NOT 7)\<rparr>
        in ret (if cur_col s \<ge> VGA_COLS then next_line s else s)
      else run_bind (vga_store (cur_row s * VGA_COLS + cur_col s) (vga_cell c (color s)) s)
        (\<lambda>s. let s = s\<lparr>cur_col := cur_col s + 1\<rparr>
             in ret (if cur_col s \<ge> VGA_COLS then next_line s else s)))
     (\<lambda>s. ret (move_hw_cursor (scroll_if_needed s)))"

section \<open>Invariant\<close>

definition vga_inv :: "'a vga_scheme \<Rightarrow> bool" where
  "vga_inv s \<longleftrightarrow> 0 \<le> cur_row s \<and> cur_row s < 25 \<and> 0 \<le> cur_col s \<and> cur_col s < 80"

lemmas vga_dims = VGA_COLS_def VGA_ROWS_def

lemma tab_stop: "(c + 8) AND (NOT 7) = (c div 8 + 1) * (8 :: int)"
proof -
  have m: "(7 :: int) = mask 3" by (simp add: mask_numeral)
  have "(c + 8) AND (NOT 7) = push_bit 3 (drop_bit 3 (c + 8))"
    unfolding m by (rule bit_eqI) (auto simp: bit_simps)
  then show ?thesis using div_add_self2 [of 8 c] by (simp add: push_bit_eq_mult drop_bit_eq_div)
qed

lemma blank_cells_at: "blank_cells start n x v i = (if start \<le> i \<and> i < start + n then x else v i)"
  by (induction n) auto

text \<open>The screen as rows; \<open>blank_row\<close> is what scrolling brings in.\<close>

definition screen_row :: "'a vga_scheme \<Rightarrow> nat \<Rightarrow> u16 list" where
  "screen_row s r = map (\<lambda>c. cells s (r * 80 + c)) [0..<80]"

definition screen :: "'a vga_scheme \<Rightarrow> u16 list list" where
  "screen s = map (screen_row s) [0..<25]"

lemma scroll_screen:
  assumes "cur_row s = 25"
  shows "screen (scroll_if_needed s) = tl (screen s) @ [replicate 80 (vga_cell CHR '' '' (color s))]"
proof (rule nth_equalityI)
  show "length (screen (scroll_if_needed s)) = length (tl (screen s) @ [replicate 80 (vga_cell CHR '' '' (color s))])"
    by (simp add: screen_def)
  fix r assume "r < length (screen (scroll_if_needed s))"
  then have r: "r < 25" by (simp add: screen_def)
  have "screen_row (scroll_if_needed s) r =
      (if r < 24 then screen_row s (Suc r) else replicate 80 (vga_cell CHR '' '' (color s)))"
  proof (rule nth_equalityI)
    fix c assume "c < length (screen_row (scroll_if_needed s) r)"
    then have c: "c < 80" by (simp add: screen_row_def)
    show "screen_row (scroll_if_needed s) r ! c =
      (if r < 24 then screen_row s (Suc r) else replicate 80 (vga_cell CHR '' '' (color s))) ! c"
      using r c assms
      by (simp add: screen_row_def scroll_if_needed_def vga_dims blank_cells_at move_rows_up_def ac_simps)
  qed (simp add: screen_row_def)
  then show "screen (scroll_if_needed s) ! r = (tl (screen s) @ [replicate 80 (vga_cell CHR '' '' (color s))]) ! r"
    using r by (simp add: screen_def nth_append nth_tl)
qed

text \<open>Everything outside the screen and the port history.\<close>

definition vga_frame :: "'a vga_scheme \<Rightarrow> 'a vga_scheme \<Rightarrow> bool" where
  "vga_frame s s' \<longleftrightarrow>
     s' = s\<lparr>trace := trace s', cells := cells s', cur_row := cur_row s', cur_col := cur_col s', color := color s'\<rparr>"

definition crtc_events :: "nat \<Rightarrow> pevent list" where
  "crtc_events pos = [Out8 CRTC_DATA (of_nat (pos mod 256)), Out8 CRTC_INDEX 15,
     Out8 CRTC_DATA (of_nat (pos div 256)), Out8 CRTC_INDEX 14]"

definition cursor_pos :: "'a vga_scheme \<Rightarrow> nat" where
  "cursor_pos s = nat (cur_row s * 80 + cur_col s)"

lemma move_hw_cursor_events:
  assumes "vga_inv s"
  shows "move_hw_cursor s = s\<lparr>trace := crtc_events (cursor_pos s) @ trace s\<rparr>"
proof -
  let ?p = "cursor_pos s"
  have p: "cur_row s * VGA_COLS + cur_col s = int ?p" "?p < 2000"
    using assms unfolding cursor_pos_def vga_inv_def vga_dims by (simp, linarith)
  have u: "unat (of_nat ?p :: u16) = ?p" using p(2) by (simp add: unat_of_nat take_bit_nat_eq_self)
  have "ucast (drop_bit 8 (of_nat ?p :: u16)) = (of_nat (?p div 256) :: u8)"
    using u p(2) by (simp add: word_unat_eq_iff unsigned_ucast_eq unat_drop_bit_eq unat_of_nat)
      (simp add: drop_bit_eq_div take_bit_nat_eq_self)
  moreover have "ucast (of_nat ?p :: u16) = (of_nat (?p mod 256) :: u8)"
    using u by (simp add: word_unat_eq_iff unsigned_ucast_eq unat_of_nat) (simp add: take_bit_eq_mod)
  ultimately show ?thesis
    unfolding move_hw_cursor_def p(1) by (simp add: outb_def crtc_events_def Let_def)
qed

text \<open>What \<^verbatim>\<open>vga_putc\<close> has done before it scrolls and moves the hardware cursor.\<close>

definition putc_body :: "char \<Rightarrow> 'a vga_scheme \<Rightarrow> 'a vga_scheme" where
  "putc_body c s =
     (if c = CHR 0x0A then next_line s
      else if c = CHR 0x0D then s\<lparr>cur_col := 0\<rparr>
      else if c = CHR 0x08 then
        if cur_col s > 0
        then s\<lparr>cur_col := cur_col s - 1, cells := (cells s)(cursor_pos s - 1 := vga_cell CHR '' '' (color s))\<rparr>
        else s
      else if c = CHR 0x09 then
        if cur_col s < 72 then s\<lparr>cur_col := (cur_col s div 8 + 1) * 8\<rparr> else next_line s
      else let s' = s\<lparr>cells := (cells s)(cursor_pos s := vga_cell c (color s))\<rparr>
           in if cur_col s < 79 then s'\<lparr>cur_col := cur_col s + 1\<rparr> else next_line s')"

lemma putc_body_bounds:
  assumes "vga_inv s"
  shows "0 \<le> cur_row (putc_body c s)" "cur_row (putc_body c s) \<le> 25"
    "0 \<le> cur_col (putc_body c s)" "cur_col (putc_body c s) < 80"
  using assms by (auto simp: putc_body_def vga_inv_def next_line_def Let_def)

lemma vga_putc_eq:
  assumes "vga_inv s"
  shows "vga_putc c s = ret (move_hw_cursor (scroll_if_needed (putc_body c s)))"
proof -
  have store: "vga_store (cur_row s * VGA_COLS + cur_col s) v s = ret (s\<lparr>cells := (cells s)(cursor_pos s := v)\<rparr>)" for v
    using assms by (simp add: vga_store_def vga_inv_def vga_dims cursor_pos_def)
  have bksp: "vga_store (cur_row s * VGA_COLS + (cur_col s - 1)) v (s\<lparr>cur_col := cur_col s - 1\<rparr>) =
      ret (s\<lparr>cur_col := cur_col s - 1, cells := (cells s)(cursor_pos s - 1 := v)\<rparr>)" if "0 < cur_col s" for v
  proof -
    have "nat (cur_row s * 80 + (cur_col s - 1)) = nat (cur_row s * 80 + cur_col s) - 1"
      using assms that unfolding vga_inv_def by linarith
    then show ?thesis using assms that by (simp add: vga_store_def vga_inv_def vga_dims cursor_pos_def)
  qed
  have tab: "(cur_col s div 8 + 1) * 8 \<ge> VGA_COLS \<longleftrightarrow> \<not> cur_col s < 72"
    unfolding vga_dims by presburger
  have tl: "next_line (s\<lparr>cur_col := k\<rparr>) = next_line s" for k and s :: "'a vga_scheme" by (simp add: next_line_def)
  show ?thesis
    unfolding vga_putc_def putc_body_def Let_def
    using store bksp tab tl by (simp add: tab_stop [simplified] tab_stop) (auto simp: vga_dims)
qed

lemma vga_putc_spec:
  assumes "vga_inv s"
  shows "\<exists>s'. vga_putc c s = ret s' \<and> vga_inv s' \<and> vga_frame s s' \<and> color s' = color s \<and>
    trace s' = crtc_events (cursor_pos s') @ trace s"
proof -
  define b where "b = putc_body c s"
  define u where "u = scroll_if_needed b"
  have "vga_inv u"
    using putc_body_bounds [OF assms, of c]
    by (auto simp: u_def b_def scroll_if_needed_def vga_inv_def vga_dims)
  moreover have "vga_frame s (u\<lparr>trace := t\<rparr>)" "color u = color s" "trace u = trace s" for t
    by (simp_all add: u_def b_def vga_frame_def scroll_if_needed_def putc_body_def next_line_def Let_def)
  moreover have "vga_putc c s = ret (u\<lparr>trace := crtc_events (cursor_pos u) @ trace u\<rparr>)"
    using vga_putc_eq [OF assms] move_hw_cursor_events [OF calculation(1)] by (simp add: u_def b_def)
  ultimately show ?thesis by (auto simp: vga_inv_def cursor_pos_def)
qed

text \<open>The byte-level \<^verbatim>\<open>memmove\<close> of the source, on cells stored as two bytes each, moves the rows up.\<close>

definition mem_cell :: "mem \<Rightarrow> addr \<Rightarrow> nat \<Rightarrow> u16" where
  "mem_cell m base i = of_char (m (base + of_nat (2 * i))) OR push_bit 8 (of_char (m (base + of_nat (2 * i + 1))))"

lemma scroll_memmove:
  assumes "i < 2000"
  shows "mem_cell (memmove m (P2V 0xB8000) (P2V 0xB8000 + 160) (24 * 80 * 2)) (P2V 0xB8000) i =
    move_rows_up (mem_cell m (P2V 0xB8000)) i"
proof -
  let ?b = "P2V 0xB8000" and ?n = "24 * 80 * 2 :: u32"
  have inside: "memmove m ?b (?b + 160) ?n (?b + of_nat j) = m (?b + of_nat (j + 160))" if "j < 3840" for j
  proof -
    have "unat ?b + unat ?n \<le> 2 ^ 32" "unat (?b + 160) + unat ?n \<le> 2 ^ 32" "j < unat ?n"
      using that by (simp_all add: P2V_def KERNEL_VBASE_def)
    from memmove_inside [OF this] show ?thesis by (simp add: ac_simps)
  qed
  have outside: "memmove m ?b (?b + 160) ?n (?b + of_nat j) = m (?b + of_nat j)" if "3840 \<le> j" "j < 4000" for j
  proof (rule memmove_outside)
    show "unat ?b + unat ?n \<le> 2 ^ 32" by (simp add: P2V_def KERNEL_VBASE_def)
    show "?b + of_nat j \<noteq> ?b + of_nat i" if "i < unat ?n" for i
      using that \<open>3840 \<le> j\<close> \<open>j < 4000\<close> by (subst addr_offset_inj) simp_all
  qed
  show ?thesis
  proof (cases "i < 24 * 80")
    case True
    then show ?thesis
      using inside [of "2 * i"] inside [of "2 * i + 1"]
      by (simp only: mem_cell_def move_rows_up_def if_True) (simp add: ac_simps)
  next
    case False
    then show ?thesis
      using assms outside [of "2 * i"] outside [of "2 * i + 1"]
      by (simp only: mem_cell_def move_rows_up_def if_False)
  qed
qed

section \<open>Properties\<close>


definition vga_boot :: vga where
  "vga_boot = interrupts.extend (irq_ready (\<lambda>_. 0) (\<lambda>_. None))
     \<lparr>cells = (\<lambda>_. 0), cur_row = 0, cur_col = 0, color = 0x07\<rparr>"

lemma vga_boot_inv: "vga_inv vga_boot"
  by (simp add: vga_boot_def vga_inv_def interrupts.defs)


text \<open>
  A character other than newline, carriage return, backspace and tab is stored at the cursor in
  the current colour and the cursor moves one cell on; in the last cell of the screen the rows
  move up by one, the last row becomes blank and the cursor goes to its start.\<close>

theorem vga_putc_prints:
  assumes "vga_inv s" "c \<notin> {CHR 0x0A, CHR 0x0D, CHR 0x08, CHR 0x09}"
  shows "\<exists>s'. vga_putc c s = ret s' \<and>
    (let t = s\<lparr>cells := (cells s)(cursor_pos s := vga_cell c (color s))\<rparr> in
     if cursor_pos s < 1999 then screen s' = screen t \<and> cursor_pos s' = cursor_pos s + 1
     else screen s' = tl (screen t) @ [replicate 80 (vga_cell CHR '' '' (color s))] \<and> cursor_pos s' = 24 * 80)"
proof -
  define t where "t = s\<lparr>cells := (cells s)(cursor_pos s := vga_cell c (color s))\<rparr>"
  define b where "b = (if cur_col s < 79 then t\<lparr>cur_col := cur_col s + 1\<rparr> else next_line t)"
  have body: "putc_body c s = b" using assms(2) by (simp add: putc_body_def t_def b_def Let_def)
  have inv: "vga_inv (scroll_if_needed b)"
    using putc_body_bounds [OF assms(1), of c] unfolding body
    by (auto simp: scroll_if_needed_def vga_inv_def vga_dims)
  have scr: "screen (x\<lparr>trace := tr\<rparr>) = screen x" "cursor_pos (x\<lparr>trace := tr\<rparr>) = cursor_pos x" for x :: "'a vga_scheme" and tr
    by (simp_all add: screen_def screen_row_def cursor_pos_def)
  have sb: "screen b = screen t" "color b = color s"
    by (simp_all add: b_def t_def screen_def screen_row_def next_line_def)
  have fin: "vga_putc c s = ret ((scroll_if_needed b)\<lparr>trace := crtc_events (cursor_pos (scroll_if_needed b)) @ trace (scroll_if_needed b)\<rparr>)"
    using vga_putc_eq [OF assms(1)] move_hw_cursor_events [OF inv] body by simp
  show ?thesis
  proof (cases "cursor_pos s < 1999")
    case True
    then have "cur_row b < 25" "cursor_pos b = cursor_pos s + 1"
      using assms(1) by (auto simp: b_def t_def next_line_def cursor_pos_def vga_inv_def)
    then have "screen (scroll_if_needed b) = screen t" "cursor_pos (scroll_if_needed b) = cursor_pos s + 1"
      using sb by (simp_all add: scroll_if_needed_def vga_dims)
    then show ?thesis using fin True by (simp add: scr t_def Let_def)
  next
    case False
    then have "cur_row b = 25" "cur_col b = 0"
      using assms(1) by (auto simp: b_def t_def next_line_def cursor_pos_def vga_inv_def)
    then have "screen (scroll_if_needed b) = tl (screen t) @ [replicate 80 (vga_cell CHR '' '' (color s))]"
        "cursor_pos (scroll_if_needed b) = 24 * 80"
      using sb by (simp_all add: scroll_screen) (simp add: scroll_if_needed_def vga_dims cursor_pos_def)
    then show ?thesis using fin False by (simp add: scr t_def Let_def)
  qed
qed

theorem vga_putc_prints_witness:
  "\<exists>s'. vga_putc CHR ''R'' vga_boot = ret s' \<and> cursor_pos s' = 1"
  using vga_putc_prints [OF vga_boot_inv, of "CHR ''R''"]
  by (auto simp: Let_def vga_boot_def cursor_pos_def interrupts.defs)

text \<open>
  The attribute byte of a stored cell is the requested one for the ASCII characters only: the
  sign extension of \<^verbatim>\<open>char\<close> turns the attribute of every character from 0x80 up into 0xFF.\<close>

theorem vga_cell_attribute:
  "drop_bit 8 (vga_cell c attr) = (if uchar c < 128 then ucast attr else 0xFF)"
proof (rule bit_eqI)
  fix n assume "possible_bit TYPE(u16) n"
  have hi: "bit (word_of_int (schar c) :: u16) (n + 8) \<longleftrightarrow> n < 8 \<and> 128 \<le> uchar c"
  proof -
    have "bit (schar c) (n + 8) \<longleftrightarrow> 128 \<le> uchar c"
    proof (cases "uchar c < 128")
      case True
      then have "take_bit 8 (schar c) = schar c"
        using uchar_bounds [of c] by (simp add: schar_def take_bit_int_eq_self)
      then have "\<not> bit (schar c) (n + 8)" by (metis bit_take_bit_iff not_add_less2)
      then show ?thesis using True by simp
    next
      case False
      then have "take_bit 8 (NOT (schar c)) = NOT (schar c)"
        using uchar_bounds [of c] by (simp add: schar_def not_int_def take_bit_int_eq_self)
      then have "\<not> bit (NOT (schar c)) (n + 8)" by (metis bit_take_bit_iff not_add_less2)
      then show ?thesis using False by (simp add: bit_not_int_iff)
    qed
    then show ?thesis by (auto simp: bit_word_of_int_iff)
  qed
  have ff: "(0xFF :: u16) = mask 8" by (simp add: mask_numeral)
  show "bit (drop_bit 8 (vga_cell c attr)) n = bit (if uchar c < 128 then ucast attr else 0xFF :: u16) n"
    unfolding vga_cell_def ff using hi
    by (auto simp: bit_simps add.commute dest: bit_imp_le_length)
qed

end
