(* ===== verification/KheapSafety.thy ===== *)
theory KheapSafety
  imports Kheap
begin

text \<open>
  What clients of the kernel heap may rely on. \<open>live\<close> is the set of payloads handed out and not
  yet freed; the locale \<open>block_allocator\<close> states the contract (fresh, disjoint, in bounds, never a
  panic on a live pointer) that fs/ramfs.c depends on, and it is interpreted on \<^verbatim>\<open>kmalloc\<close> and
  \<^verbatim>\<open>kfree\<close>. The properties of mm/kheap.c are at the end.
\<close>

section \<open>Live allocations\<close>

text \<open>The payloads handed out and not yet freed: pointer and capacity.\<close>

definition live_segs :: "seg list \<Rightarrow> (addr \<times> nat) set" where
  "live_segs segs = {(of_nat (p + 20), s) | p s. (p, s, False) \<in> set segs}"

definition live :: "kheap \<Rightarrow> (addr \<times> nat) set" where
  "live h = {x. \<exists>segs. heap_rep h segs \<and> x \<in> live_segs segs}"

lemma live_rep: "heap_rep h segs \<Longrightarrow> live h = live_segs segs"
  unfolding live_def using heap_rep_unique by blast

lemma live_segs_simps [simp]:
  "live_segs [] = {}"
  "live_segs ((p, s, f) # xs) = (if f then live_segs xs else insert (of_nat (p + 20), s) (live_segs xs))"
  "live_segs (xs @ ys) = live_segs xs \<union> live_segs ys"
  by (auto simp: live_segs_def)

lemma live_segsI: "(p, s, False) \<in> set segs \<Longrightarrow> (of_nat (p + 20), s) \<in> live_segs segs"
  by (auto simp: live_segs_def)

lemma live_segsE:
  assumes "x \<in> live_segs segs"
  obtains p s where "x = (of_nat (p + 20), s)" "(p, s, False) \<in> set segs"
  using assms by (auto simp: live_segs_def)

lemma live_segs_carve: "live_segs (carve n p s) = {(of_nat (p + 20), if s < n + 36 then s else n)}"
  by (simp add: carve_def)

lemma live_segs_absorb: "live_segs (absorb xs p s ys) = live_segs xs \<union> live_segs ys"
proof -
  have right: "live_segs (snd (absorb_right s ys)) = live_segs ys"
    by (auto simp: absorb_right_def split: list.split prod.split bool.split)
  have left: "live_segs (butlast xs) = live_segs xs" if "xs \<noteq> []" "seg_free (last xs)"
  proof -
    have "live_segs (butlast xs @ [last xs]) = live_segs (butlast xs)"
      using that(2) by (cases "last xs") simp
    then show ?thesis using that(1) by simp
  qed
  obtain s' ys' where r: "absorb_right s ys = (s', ys')" by (cases "absorb_right s ys")
  show ?thesis
  proof (cases "xs \<noteq> [] \<and> seg_free (last xs)")
    case True
    then show ?thesis using right left r by (simp add: absorb_def)
  next
    case False
    then show ?thesis using right r by (simp only: absorb_def r prod.case if_False Let_def) simp
  qed
qed

text \<open>A live payload lies inside the heap and past its header.\<close>

lemma live_unat:
  assumes rep: "heap_rep h segs" and seg: "(p, s, f) \<in> set segs"
  shows "unat (of_nat (p + 20) :: addr) = p + 20" "p + 20 + s < 2 ^ 32" "4 dvd p"
    "unat (heap_start h) + 20 \<le> p + 20" "p + 20 + s \<le> unat (heap_start h) + 4194304"
proof -
  have ti: "tiles (unat (heap_start h)) segs (unat (heap_start h) + 4194304)"
    and top: "unat (heap_start h) + 4194304 < 2 ^ 32" using heap_rep_tiles [OF rep] by auto
  have al: "4 dvd unat (heap_start h)" using rep by (simp add: heap_rep_def)
  show "4 dvd p" by (rule tiles_aligned [OF ti al seg])
  have "unat (heap_start h) \<le> p \<and> p + 20 + s \<le> unat (heap_start h) + 4194304"
    using tiles_mem [OF ti seg] by simp
  then show "unat (heap_start h) + 20 \<le> p + 20" "p + 20 + s \<le> unat (heap_start h) + 4194304"
    and top': "p + 20 + s < 2 ^ 32" using top by simp_all
  show "unat (of_nat (p + 20) :: addr) = p + 20" by (rule unat_of_nat_u32) (use top' in simp)
qed

lemma live_bounds:
  assumes "heap_inv h" "(p, c) \<in> live h"
  shows "p \<noteq> NULL" "4 dvd unat p" "unat (heap_start h) + 20 \<le> unat p"
    "unat p + c \<le> unat (heap_start h) + 4194304" "unat p + c < 2 ^ 32"
proof -
  obtain segs where rep: "heap_rep h segs" using assms(1) by (auto simp: heap_inv_def)
  then obtain a where "p = of_nat (a + 20)" "(a, c, False) \<in> set segs"
    using assms(2) by (auto simp: live_rep elim: live_segsE)
  note a = this
  show "p \<noteq> NULL" "4 dvd unat p"
    using live_unat [OF rep a(2)] unfolding a(1) by auto
  show "unat (heap_start h) + 20 \<le> unat p" "unat p + c \<le> unat (heap_start h) + 4194304"
    "unat p + c < 2 ^ 32"
    using live_unat [OF rep a(2)] unfolding a(1) by simp_all
qed

lemma live_disjoint:
  assumes "heap_inv h" "(p, c) \<in> live h" "(q, d) \<in> live h" "(p, c) \<noteq> (q, d)"
  shows "unat p + c + 20 \<le> unat q \<or> unat q + d + 20 \<le> unat p"
proof -
  obtain segs where rep: "heap_rep h segs" using assms(1) by (auto simp: heap_inv_def)
  obtain a b where a: "p = of_nat (a + 20)" "(a, c, False) \<in> set segs"
    and b: "q = of_nat (b + 20)" "(b, d, False) \<in> set segs"
    using assms(2,3) by (auto simp: live_rep [OF rep] elim!: live_segsE)
  have "a + 20 + c \<le> b \<or> b + 20 + d \<le> a"
    using tiles_disjoint [OF conjunct1 [OF heap_rep_tiles [OF rep]] a(2) b(2)] a b assms(4) by auto
  then show ?thesis
    using live_unat(1) [OF rep a(2)] live_unat(1) [OF rep b(2)] a(1) b(1) by auto
qed

lemma live_distinct_ptr:
  assumes "heap_inv h" "(p, c) \<in> live h" "(p, d) \<in> live h"
  shows "c = d"
  using live_disjoint [OF assms] by (cases "c = d") auto

section \<open>Allocation and release, as clients see them\<close>

lemma kmalloc_live:
  assumes inv: "heap_inv h" and sz: "0 < unat sz" "unat sz \<le> 2 ^ 32 - 8"
  shows "\<exists>h' p. kmalloc h sz = ret (h', p) \<and> heap_inv h' \<and> bytes h' = bytes h \<and>
    heap_start h' = heap_start h \<and>
    (p = NULL \<longrightarrow> h' = h) \<and> (p \<noteq> NULL \<longrightarrow> (\<exists>c \<ge> unat sz. live h' = insert (p, c) (live h) \<and> p \<notin> fst ` live h))"
proof -
  obtain segs where rep: "heap_rep h segs" using inv by (auto simp: heap_inv_def)
  define n where "n = unat (ALIGN_UP sz 8)"
  have n: "unat sz \<le> n" using ALIGN_UP_8 [OF sz(2)] by (simp add: n_def)
  have ne: "sz \<noteq> 0" using sz(1) by auto
  note R = kmalloc_refines [OF rep ne, folded n_def]
  show ?thesis
  proof (cases "alloc_segs n segs")
    case None
    then show ?thesis using R inv by auto
  next
    case (Some r)
    obtain segs' q where r: "r = (segs', q)" by (cases r)
    obtain h' where h': "kmalloc h sz = ret (h', of_nat q)" "heap_rep h' segs'" "bytes h' = bytes h"
      "heap_start h' = heap_start h"
      using R Some r by auto
    obtain xs p s ys where segs: "segs = xs @ (p, s, True) # ys" "n \<le> s" "q = p + 20"
      "segs' = xs @ carve n p s @ ys" using alloc_segs_Some [OF Some [unfolded r]] by blast
    have lv: "live h' = insert (of_nat q, if s < n + 36 then s else n) (live h)"
      using live_rep [OF h'(2)] live_rep [OF rep] segs by (auto simp: live_segs_carve)
    have here: "(p, s, True) \<in> set segs" using segs by simp
    have "of_nat q \<noteq> p'" if old: "(p', c) \<in> live h" for p' c
    proof -
      obtain a where a: "p' = of_nat (a + 20)" "(a, c, False) \<in> set segs"
        using old by (auto simp: live_rep [OF rep] elim: live_segsE)
      have "p \<noteq> a"
        using tiles_disjoint [OF conjunct1 [OF heap_rep_tiles [OF rep]] here a(2)] by auto
      then show ?thesis
        using live_unat(1) [OF rep here] live_unat(1) [OF rep a(2)] a(1) segs(3) by auto
    qed
    then have fresh: "of_nat q \<notin> fst ` live h" by force
    have "(of_nat q :: addr) \<noteq> NULL" using live_unat(1) [OF rep here] segs(3) by auto
    moreover have "heap_inv h'" using h'(2) by (auto simp: heap_inv_def)
    moreover have "unat sz \<le> (if s < n + 36 then s else n)" using n segs(2) by simp
    ultimately show ?thesis using h' lv fresh by blast
  qed
qed

lemma kmalloc_null_iff:
  assumes rep: "heap_rep h segs" and sz: "sz \<noteq> 0" and k: "kmalloc h sz = ret (h', p)"
  shows "p = NULL \<longleftrightarrow> alloc_segs (unat (ALIGN_UP sz 8)) segs = None"
proof (cases "alloc_segs (unat (ALIGN_UP sz 8)) segs")
  case None
  then show ?thesis using kmalloc_refines [OF rep sz] k by simp
next
  case (Some r)
  obtain segs' q where r: "r = (segs', q)" by (cases r)
  obtain xs a s ys where a: "q = a + 20" "segs = xs @ (a, s, True) # ys"
    using alloc_segs_Some [OF Some [unfolded r]] by blast
  have "unat (of_nat q :: addr) = q" using live_unat(1) [OF rep, of a s True] a by simp
  then have "(of_nat q :: addr) \<noteq> NULL" using a(1) by auto
  then show ?thesis using kmalloc_refines [OF rep sz] k Some r by auto
qed

lemma kfree_live:
  assumes inv: "heap_inv h" and lv: "(p, c) \<in> live h"
  shows "\<exists>h'. kfree h p = ret h' \<and> heap_inv h' \<and> live h' = live h - {(p, c)} \<and> bytes h' = bytes h \<and>
    heap_start h' = heap_start h"
proof -
  obtain segs where rep: "heap_rep h segs" using inv by (auto simp: heap_inv_def)
  obtain a where a: "p = of_nat (a + 20)" "(a, c, False) \<in> set segs"
    using lv by (auto simp: live_rep [OF rep] elim: live_segsE)
  obtain h' where h': "kfree h p = ret h'" "heap_rep h' (free_segs (a + 20) segs)" "bytes h' = bytes h"
    "heap_start h' = heap_start h"
    using kfree_refines [OF rep a(2)] a(1) by auto
  obtain xs ys where segs: "segs = xs @ (a, c, False) # ys" using a(2) by (meson split_list)
  have ti: "tiles (unat (heap_start h)) segs (unat (heap_start h) + 4194304)"
    using heap_rep_tiles [OF rep] by blast
  have dist: "a \<notin> fst ` set xs" "a \<notin> fst ` set ys" using tiles_fst_distinct [OF ti] segs by force+
  have co: "coalesced segs" using rep by (simp add: heap_rep_def)
  have "free_segs (a + 20) segs = absorb xs a c ys"
    using free_segs_absorb [OF ti [unfolded segs] co [unfolded segs]] by (simp add: segs)
  then have lv': "live h' = live_segs xs \<union> live_segs ys"
    using live_rep [OF h'(2)] by (simp add: live_segs_absorb)
  have "(p, c) \<notin> live_segs xs \<union> live_segs ys"
  proof
    assume "(p, c) \<in> live_segs xs \<union> live_segs ys"
    then obtain b where b: "p = of_nat (b + 20)" "(b, c, False) \<in> set xs \<union> set ys"
      by (auto elim!: live_segsE)
    then have "b = a"
      using live_unat(1) [OF rep a(2)] live_unat(1) [OF rep, of b c False] a(1) segs by auto
    with b(2) dist show False by force
  qed
  moreover have "live h = insert (p, c) (live_segs xs \<union> live_segs ys)"
    using live_rep [OF rep] segs a(1) by auto
  ultimately show ?thesis using h' lv' by (auto simp: heap_inv_def)
qed

section \<open>The allocator contract\<close>

text \<open>
  The operations and laws a client of a block allocator uses: \<open>alloc\<close> never panics, leaves what
  is live alone and returns either NULL with the heap unchanged or a fresh block of at least the
  size asked for; \<open>release\<close> of a live block never panics and removes exactly that block; live
  blocks are in bounds and pairwise disjoint; neither touches payload bytes.
\<close>

locale block_allocator =
  fixes inv :: "'h \<Rightarrow> bool"
    and blocks :: "'h \<Rightarrow> (addr \<times> nat) set"
    and alloc :: "'h \<Rightarrow> u32 \<Rightarrow> ('h \<times> addr) run"
    and release :: "'h \<Rightarrow> addr \<Rightarrow> 'h run"
    and payload :: "'h \<Rightarrow> mem"
  assumes alloc_total: "inv h \<Longrightarrow> 0 < unat sz \<Longrightarrow> unat sz \<le> 2 ^ 32 - 8 \<Longrightarrow> \<exists>h' p. alloc h sz = ret (h', p)"
    and alloc_inv: "inv h \<Longrightarrow> 0 < unat sz \<Longrightarrow> unat sz \<le> 2 ^ 32 - 8 \<Longrightarrow> alloc h sz = ret (h', p) \<Longrightarrow>
      inv h' \<and> payload h' = payload h"
    and alloc_null: "inv h \<Longrightarrow> 0 < unat sz \<Longrightarrow> unat sz \<le> 2 ^ 32 - 8 \<Longrightarrow> alloc h sz = ret (h', NULL) \<Longrightarrow> h' = h"
    and alloc_fresh: "inv h \<Longrightarrow> 0 < unat sz \<Longrightarrow> unat sz \<le> 2 ^ 32 - 8 \<Longrightarrow> alloc h sz = ret (h', p) \<Longrightarrow> p \<noteq> NULL \<Longrightarrow>
      \<exists>c \<ge> unat sz. blocks h' = insert (p, c) (blocks h) \<and> p \<notin> fst ` blocks h"
    and release_null: "release h NULL = ret h"
    and release_block: "inv h \<Longrightarrow> (p, c) \<in> blocks h \<Longrightarrow>
      \<exists>h'. release h p = ret h' \<and> inv h' \<and> blocks h' = blocks h - {(p, c)} \<and> payload h' = payload h"
    and blocks_bounds: "inv h \<Longrightarrow> (p, c) \<in> blocks h \<Longrightarrow> p \<noteq> NULL \<and> unat p + c < 2 ^ 32"
    and blocks_apart: "inv h \<Longrightarrow> (p, c) \<in> blocks h \<Longrightarrow> (q, d) \<in> blocks h \<Longrightarrow> (p, c) \<noteq> (q, d) \<Longrightarrow>
      unat p + c \<le> unat q \<or> unat q + d \<le> unat p"
begin

lemma one_capacity: "inv h \<Longrightarrow> (p, c) \<in> blocks h \<Longrightarrow> (p, d) \<in> blocks h \<Longrightarrow> c = d \<or> c = 0 \<or> d = 0"
  using blocks_apart [of h p c p d] by force

text \<open>Bytes of different live blocks have different addresses.\<close>

lemma block_bytes_distinct:
  assumes "inv h" "(p, c) \<in> blocks h" "(q, d) \<in> blocks h" "p \<noteq> q" "i < c" "j < d"
  shows "p + of_nat i \<noteq> q + of_nat j"
proof (rule addr_offsets_neq)
  show "unat p + i < 2 ^ 32" "unat q + j < 2 ^ 32"
    using blocks_bounds [OF assms(1,2)] blocks_bounds [OF assms(1,3)] assms(5,6) by linarith+
  show "unat p + i \<noteq> unat q + j"
    using blocks_apart [OF assms(1-3)] assms(4-6) by auto
qed

text \<open>Allocating and then releasing the block leaves the same blocks live.\<close>

lemma alloc_release:
  assumes "inv h" "0 < unat sz" "unat sz \<le> 2 ^ 32 - 8" "alloc h sz = ret (h', p)" "p \<noteq> NULL"
  shows "\<exists>h''. release h' p = ret h'' \<and> inv h'' \<and> blocks h'' = blocks h"
proof -
  obtain c where c: "blocks h' = insert (p, c) (blocks h)" "p \<notin> fst ` blocks h"
    using alloc_fresh [OF assms] by blast
  then have "(p, c) \<notin> blocks h" by force
  then show ?thesis
    using release_block [of h' p c] alloc_inv [OF assms(1-4)] c by auto
qed

end

interpretation kh: block_allocator heap_inv live kmalloc kfree bytes
proof
  fix h h' :: kheap and sz :: u32 and p :: addr
  assume pre: "heap_inv h" "0 < unat sz" "unat sz \<le> 2 ^ 32 - 8"
  show "\<exists>h' p. kmalloc h sz = ret (h', p)" using kmalloc_live [OF pre] by blast
  assume "kmalloc h sz = ret (h', p)"
  then show "heap_inv h' \<and> bytes h' = bytes h" using kmalloc_live [OF pre] by auto
next
  fix h h' :: kheap and sz :: u32
  assume pre: "heap_inv h" "0 < unat sz" "unat sz \<le> 2 ^ 32 - 8" and "kmalloc h sz = ret (h', NULL)"
  then show "h' = h" using kmalloc_live [OF pre] by auto
next
  fix h h' :: kheap and sz :: u32 and p :: addr
  assume pre: "heap_inv h" "0 < unat sz" "unat sz \<le> 2 ^ 32 - 8"
    and "kmalloc h sz = ret (h', p)" "p \<noteq> NULL"
  then show "\<exists>c \<ge> unat sz. live h' = insert (p, c) (live h) \<and> p \<notin> fst ` live h"
    using kmalloc_live [OF pre] by auto
next
  fix h :: kheap and p q :: addr and c d :: nat
  show "kfree h NULL = ret h" by (simp add: kfree_def)
  assume lv: "heap_inv h" "(p, c) \<in> live h"
  show "\<exists>h'. kfree h p = ret h' \<and> heap_inv h' \<and> live h' = live h - {(p, c)} \<and> bytes h' = bytes h"
    using kfree_live [OF lv] by blast
  show "p \<noteq> NULL \<and> unat p + c < 2 ^ 32" using live_bounds [OF lv] by blast
  assume "(q, d) \<in> live h" "(p, c) \<noteq> (q, d)"
  then show "unat p + c \<le> unat q \<or> unat q + d \<le> unat p" using live_disjoint [OF lv] by fastforce
qed

section \<open>Initialisation\<close>

lemma kheap_init_rep:
  assumes "0 < unat kernel_end" "unat kernel_end + 4095 + 4194304 < 2 ^ 32"
  shows "heap_rep (kheap_init kernel_end h) [(unat (ALIGN_UP kernel_end PAGE_SIZE), 4194284, True)]"
    and "unat kernel_end \<le> unat (ALIGN_UP kernel_end PAGE_SIZE)"
    and "4096 dvd unat (ALIGN_UP kernel_end PAGE_SIZE)"
proof -
  let ?s = "ALIGN_UP kernel_end PAGE_SIZE"
  have s: "unat ?s = (unat kernel_end + 4095) div 4096 * 4096"
    using ALIGN_UP_pow2 [of kernel_end 12] assms by (simp add: PAGE_SIZE_def)
  show "4096 dvd unat ?s" by (simp add: s)
  then have d4: "4 dvd unat ?s" by (rule dvd_trans [rotated]) simp
  have le: "unat kernel_end \<le> unat ?s" "unat ?s \<le> unat kernel_end + 4095" unfolding s by linarith+
  then show "unat kernel_end \<le> unat ?s" by simp
  have "?s \<noteq> NULL" using le(1) assms(1) by auto
  then show "heap_rep (kheap_init kernel_end h) [(unat ?s, 4194284, True)]"
    using le assms d4
    by (simp add: heap_rep_def kheap_init_def Let_def HEAP_SIZE_def sizeof_block_def)
qed

text \<open>The heap's static data as the loader leaves it: zeroed.\<close>

definition kheap_bss :: kheap where
  "kheap_bss = \<lparr>heap_head = NULL, heap_start = NULL,
     hdr = (\<lambda>_. \<lparr>b_magic = 0, b_size = 0, b_free = False, b_next = NULL, b_prev = NULL\<rparr>),
     bytes = (\<lambda>_. NUL)\<rparr>"

definition boot_heap :: kheap where
  "boot_heap = kheap_init 0xC0110000 kheap_bss"

lemma boot_heap_rep: "heap_rep boot_heap [(0xC0110000, 4194284, True)]"
proof -
  have "unat (ALIGN_UP 0xC0110000 PAGE_SIZE) = 0xC0110000" by (simp add: ALIGN_UP_def PAGE_SIZE_def)
  then show ?thesis using kheap_init_rep(1) [of "0xC0110000" kheap_bss] by (simp add: boot_heap_def)
qed

lemma boot_heap_inv: "heap_inv boot_heap" "live boot_heap = {}"
  using boot_heap_rep by (auto simp: heap_inv_def live_rep)

section \<open>Round trip, double frees, statistics\<close>

lemma free_alloc_segs:
  assumes ti: "tiles a segs e" and co: "coalesced segs" and n: "4 dvd n"
    and al: "alloc_segs n segs = Some (segs', q)"
  shows "\<exists>p s. q = p + 20 \<and> (p, s, False) \<in> set segs' \<and> free_segs q segs' = segs"
proof -
  obtain xs p s ys where segs: "segs = xs @ (p, s, True) # ys" "n \<le> s" "q = p + 20"
    "segs' = xs @ carve n p s @ ys" using alloc_segs_Some [OF al] by blast
  define t where "t = (if s < n + 36 then s else n)"
  define zs where "zs = (if s < n + 36 then ys else (p + 20 + n, s - n - 20, True) # ys)"
  have segs': "segs' = xs @ (p, t, False) # zs" by (simp add: segs carve_def t_def zs_def)
  have txs: "tiles a xs p" "4 dvd s" "tiles (p + 20 + s) ys e"
    using ti segs by (auto simp: tiles_append)
  have "tiles p (carve n p s @ ys) e" using txs segs(2) n by (simp add: tiles_carve)
  then have "tiles a segs' e" unfolding segs(4) tiles_append [of a xs] using txs(1) by blast
  moreover have "coalesced segs'" using co coalesced_carve segs by simp
  ultimately have "free_segs q segs' = absorb xs p t zs"
    using free_segs_absorb segs' segs(3) by simp
  moreover have "absorb xs p t zs = segs"
  proof -
    have "\<not> (xs \<noteq> [] \<and> seg_free (last xs))" "ys = [] \<or> \<not> seg_free (hd ys)"
      using co segs by (cases ys; auto simp: coalesced_append)+
    then have "absorb_right t zs = (s, ys)"
      using segs(2) by (cases ys) (auto simp: absorb_right_def t_def zs_def split: bool.splits)
    then show ?thesis
      using \<open>\<not> (xs \<noteq> [] \<and> seg_free (last xs))\<close> by (auto simp: absorb_def segs)
  qed
  ultimately show ?thesis using segs' segs(3) by auto
qed

lemma merge_next_fields [simp]:
  "b_magic (hdr (merge_next h b) c) = b_magic (hdr h c)"
  "b_free (hdr (merge_next h b) c) = b_free (hdr h c)"
  by (auto simp: merge_next_def Let_def)

lemma kheap_stats_loop_chain:
  "chain (hdr h) pv b ys NULL \<Longrightarrow> kheap_stats_loop h b t u l =
     Some (t + of_nat (sum_list (map (\<lambda>(p, s, f). s) ys)),
           u + of_nat (sum_list (map (\<lambda>(p, s, f). if f then 0 else s) ys)),
           of_nat (fold (\<lambda>(p, s, f) m. if f then max s m else m) ys (unat l)))"
proof (induction ys arbitrary: pv b t u l)
  case Nil
  then show ?case by (simp add: kheap_stats_loop.simps)
next
  case (Cons x ys)
  obtain p s f where x: "x = (p, s, f)" by (cases x)
  have b: "b \<noteq> NULL" "unat (b_size (hdr h b)) = s" "b_free (hdr h b) = f"
    "chain (hdr h) b (b_next (hdr h b)) ys NULL" using Cons.prems by (simp_all add: x)
  have sz: "b_size (hdr h b) = of_nat s" by (simp flip: b(2))
  have s32: "s < 2 ^ 32" using b(2) unat_u32_lt by blast
  have mx: "unat (if l < of_nat s then of_nat s else l) = max s (unat l)"
    using s32 by (auto simp: word_less_nat_alt unat_of_nat_u32)
  show ?case
  proof (cases f)
    case True
    then show ?thesis
      using b(1,3) mx by (subst kheap_stats_loop.simps) (simp add: x sz Let_def Cons.IH [OF b(4)] add.assoc)
  next
    case False
    then show ?thesis
      using b(1,3) by (subst kheap_stats_loop.simps) (simp add: x sz Let_def Cons.IH [OF b(4)] add.assoc)
  qed
qed

definition largest_free :: "seg list \<Rightarrow> nat" where
  "largest_free segs = fold (\<lambda>(p, s, f) m. if f then max s m else m) segs 0"

lemma fold_max_free:
  "n \<le> fold (\<lambda>(p, s, f) m. if f then max s m else m) segs m\<^sub>0 \<longleftrightarrow>
   n \<le> m\<^sub>0 \<or> (\<exists>p s. (p, s, True) \<in> set (segs :: seg list) \<and> n \<le> s)"
proof (induction segs arbitrary: m\<^sub>0)
  case (Cons x segs)
  obtain p s f where x: "x = (p, s, f)" by (cases x)
  show ?case
  proof (cases f)
    case True
    have "n \<le> max s m\<^sub>0 \<longleftrightarrow> n \<le> s \<or> n \<le> m\<^sub>0" by (rule le_max_iff_disj)
    then show ?thesis using True Cons.IH by (auto simp: x)
  next
    case False
    then show ?thesis using Cons.IH by (auto simp: x)
  qed
qed simp

lemma alloc_segs_largest:
  assumes "0 < n"
  shows "alloc_segs n segs = None \<longleftrightarrow> largest_free segs < n"
proof -
  have "alloc_segs n segs = None \<longleftrightarrow> \<not> n \<le> largest_free segs"
    using assms fold_max_free [of n segs 0] by (force simp: alloc_segs_None largest_free_def)
  then show ?thesis by auto
qed

lemma kheap_stats_rep:
  assumes rep: "heap_rep h segs"
  shows "\<exists>t u l. kheap_stats h = Some (t, u, l) \<and> unat t + 20 * length segs = unat HEAP_SIZE \<and>
    unat u = sum_list (map (\<lambda>(p, s, f). if f then 0 else s) segs) \<and> unat u \<le> unat t \<and>
    unat l = largest_free segs \<and> unat l \<le> unat t"
proof -
  let ?t = "sum_list (map (\<lambda>(p, s, f). s) segs)"
  let ?u = "sum_list (map (\<lambda>(p, s, f). if f then 0 else s) segs)"
  have ch: "chain (hdr h) NULL (heap_head h) segs NULL" using rep unfolding heap_rep_def by blast
  have eq: "map (fst \<circ> snd) segs = map (\<lambda>(p, s, f). s) segs" by auto
  have t: "?t + 20 * length segs = 4194304"
    using tiles_sum [OF conjunct1 [OF heap_rep_tiles [OF rep]]] unfolding eq by simp
  have u: "?u \<le> ?t" by (rule sum_list_mono) auto
  have "largest_free segs \<le> m" if "\<forall>p s. (p, s, True) \<in> set segs \<longrightarrow> s \<le> m" for m
    using fold_max_free [of "Suc m" segs 0] that by (fastforce simp: largest_free_def)
  moreover have "s \<le> ?t" if "(p, s, f) \<in> set segs" for p s f
    using that by (force intro: member_le_sum_list)
  ultimately have l: "largest_free segs \<le> ?t" by blast
  have "kheap_stats h = Some (of_nat ?t, of_nat ?u, of_nat (largest_free segs))"
    using kheap_stats_loop_chain [OF ch, of 0 0 0] by (simp add: kheap_stats_def largest_free_def)
  moreover have "unat (of_nat ?t :: u32) = ?t" "unat (of_nat ?u :: u32) = ?u"
    "unat (of_nat (largest_free segs) :: u32) = largest_free segs"
    using t u l by (simp_all add: unat_of_nat_u32)
  ultimately show ?thesis using t u l by auto
qed

section \<open>Runs of the heap\<close>

text \<open>What callers may do with the heap: allocate anything, free what is live (or NULL).\<close>

inductive heap_step :: "kheap \<Rightarrow> kheap \<Rightarrow> bool" where
  alloc: "0 < unat sz \<Longrightarrow> unat sz \<le> 2 ^ 32 - 8 \<Longrightarrow> kmalloc h sz = ret (h', p) \<Longrightarrow> heap_step h h'"
| release: "(p, c) \<in> live h \<Longrightarrow> kfree h p = ret h' \<Longrightarrow> heap_step h h'"
| store: "heap_step h (h\<lparr>bytes := m\<rparr>)"

inductive heap_reachable :: "kheap \<Rightarrow> bool" where
  boot: "0 < unat kernel_end \<Longrightarrow> unat kernel_end + 4095 + 4194304 < 2 ^ 32 \<Longrightarrow>
    heap_reachable (kheap_init kernel_end h)"
| step: "heap_reachable h \<Longrightarrow> heap_step h h' \<Longrightarrow> heap_reachable h'"

lemma heap_rep_bytes [simp]: "heap_rep (h\<lparr>bytes := m\<rparr>) segs \<longleftrightarrow> heap_rep h segs"
  by (simp add: heap_rep_def)

lemma heap_inv_bytes [simp]: "heap_inv (h\<lparr>bytes := m\<rparr>) \<longleftrightarrow> heap_inv h"
  by (simp add: heap_inv_def)

lemma live_bytes [simp]: "live (h\<lparr>bytes := m\<rparr>) = live h"
  by (simp add: live_def)

lemma heap_step_inv: "heap_step h h' \<Longrightarrow> heap_inv h \<Longrightarrow> heap_inv h'"
proof (induction rule: heap_step.induct)
  case (alloc sz h h' p)
  then show ?case using kh.alloc_inv by blast
next
  case (release p c h h')
  then show ?case using kh.release_block [of h p c] by auto
qed simp

lemma heap_reachable_inv: "heap_reachable h \<Longrightarrow> heap_inv h"
proof (induction rule: heap_reachable.induct)
  case (boot kernel_end h)
  then show ?case using kheap_init_rep(1) heap_inv_def by blast
next
  case (step h h')
  then show ?case using heap_step_inv by blast
qed

section \<open>A concrete run\<close>

lemma boot_alloc:
  obtains h p c where "kmalloc boot_heap 100 = ret (h, p)" "heap_inv h" "p \<noteq> NULL" "live h = {(p, c)}"
proof -
  obtain h p where k: "kmalloc boot_heap 100 = ret (h, p)" "heap_inv h"
    using kh.alloc_total [OF boot_heap_inv(1), of 100] kh.alloc_inv [OF boot_heap_inv(1), of 100] by auto
  have "alloc_segs (unat (ALIGN_UP 100 8)) [(0xC0110000, 4194284, True)] \<noteq> None"
    using ALIGN_UP_8 [of 100] by (simp add: alloc_segs_None)
  then have "p \<noteq> NULL" using kmalloc_null_iff [OF boot_heap_rep _ k(1)] by simp
  then show thesis
    using that k kh.alloc_fresh [OF boot_heap_inv(1) _ _ k(1)] boot_heap_inv(2) by auto
qed

section \<open>Properties\<close>

text \<open>
  \<^verbatim>\<open>kheap_init\<close> establishes the heap invariant: for a kernel image that leaves room
  below the 4 GiB line, the heap starts at the first page boundary at or after \<open>kernel_end\<close>, is one
  free block that covers the whole region, and nothing is live.
\<close>

theorem kheap_init_establishes:
  assumes "0 < unat kernel_end" "unat kernel_end + 4095 + 4194304 < 2 ^ 32"
  shows "heap_inv (kheap_init kernel_end h) \<and> live (kheap_init kernel_end h) = {} \<and>
    4096 dvd unat (heap_start (kheap_init kernel_end h)) \<and>
    unat kernel_end \<le> unat (heap_start (kheap_init kernel_end h)) \<and>
    kheap_stats (kheap_init kernel_end h) = Some (HEAP_SIZE - 20, 0, HEAP_SIZE - 20)"
proof -
  have start: "heap_start (kheap_init kernel_end h) = ALIGN_UP kernel_end PAGE_SIZE"
    by (simp add: kheap_init_def Let_def)
  have rep: "heap_rep (kheap_init kernel_end h) [(unat (ALIGN_UP kernel_end PAGE_SIZE), 4194284, True)]"
    by (rule kheap_init_rep(1) [OF assms])
  then have ch: "chain (hdr (kheap_init kernel_end h)) NULL (heap_head (kheap_init kernel_end h))
      [(unat (ALIGN_UP kernel_end PAGE_SIZE), 4194284, True)] NULL"
    unfolding heap_rep_def by blast
  have "kheap_stats (kheap_init kernel_end h) = Some (HEAP_SIZE - 20, 0, HEAP_SIZE - 20)"
    using kheap_stats_loop_chain [OF ch, of 0 0 0] by (simp add: kheap_stats_def HEAP_SIZE_def)
  then show ?thesis
    using rep kheap_init_rep(2,3) [OF assms] start by (auto simp: heap_inv_def live_rep)
qed

theorem kheap_init_establishes_witness:
  "heap_inv (kheap_init 0xC0123456 kheap_bss) \<and> live (kheap_init 0xC0123456 kheap_bss) = {}"
  using kheap_init_establishes [of "0xC0123456" kheap_bss] by simp

text \<open>
  C8. \<^verbatim>\<open>kmalloc\<close> on a sound heap, for any request below 4 GiB less 8 bytes, returns without a
  panic, keeps the invariant and writes no payload byte. It returns NULL, leaving the heap as it was,
  exactly when no free block fits the rounded request; otherwise the block is new, at least as large
  as asked, 4-byte aligned, inside the heap, and separated from every other live block by a header.
\<close>

theorem kmalloc_sound:
  assumes "heap_inv h" "0 < unat sz" "unat sz \<le> 2 ^ 32 - 8"
  shows "\<exists>h' p. kmalloc h sz = ret (h', p) \<and> heap_inv h' \<and> bytes h' = bytes h \<and>
    (p = NULL \<longleftrightarrow> (\<exists>segs. heap_rep h segs \<and> largest_free segs < unat (ALIGN_UP sz 8))) \<and>
    (if p = NULL then h' = h
     else \<exists>c. live h' = insert (p, c) (live h) \<and> unat sz \<le> c \<and> 4 dvd unat p \<and>
        unat (heap_start h) \<le> unat p \<and> unat p + c \<le> unat (heap_start h) + unat HEAP_SIZE \<and>
        (\<forall>q d. (q, d) \<in> live h \<longrightarrow> unat p + c + 20 \<le> unat q \<or> unat q + d + 20 \<le> unat p))"
proof -
  obtain segs where rep: "heap_rep h segs" using assms(1) by (auto simp: heap_inv_def)
  obtain h' p where k: "kmalloc h sz = ret (h', p)" "heap_inv h'" "bytes h' = bytes h"
    "heap_start h' = heap_start h" "p = NULL \<Longrightarrow> h' = h"
    and fresh: "p \<noteq> NULL \<Longrightarrow> \<exists>c \<ge> unat sz. live h' = insert (p, c) (live h) \<and> p \<notin> fst ` live h"
    using kmalloc_live [OF assms] by blast
  have ne: "sz \<noteq> 0" using assms(2) by auto
  have pos: "0 < unat (ALIGN_UP sz 8)" using ALIGN_UP_8 [OF assms(3)] assms(2) by simp
  have "p = NULL \<longleftrightarrow> alloc_segs (unat (ALIGN_UP sz 8)) segs = None"
    by (rule kmalloc_null_iff [OF rep ne k(1)])
  then have null: "p = NULL \<longleftrightarrow> (\<exists>segs. heap_rep h segs \<and> largest_free segs < unat (ALIGN_UP sz 8))"
    using alloc_segs_largest [OF pos] rep heap_rep_unique by metis
  have blk: "\<exists>c. live h' = insert (p, c) (live h) \<and> unat sz \<le> c \<and> 4 dvd unat p \<and>
        unat (heap_start h) \<le> unat p \<and> unat p + c \<le> unat (heap_start h) + unat HEAP_SIZE \<and>
        (\<forall>q d. (q, d) \<in> live h \<longrightarrow> unat p + c + 20 \<le> unat q \<or> unat q + d + 20 \<le> unat p)" if nn: "p \<noteq> NULL"
  proof -
    obtain c where c: "unat sz \<le> c" "live h' = insert (p, c) (live h)" "p \<notin> fst ` live h"
      using fresh [OF nn] by blast
    have here: "(p, c) \<in> live h'" using c by simp
    have apart: "unat p + c + 20 \<le> unat q \<or> unat q + d + 20 \<le> unat p" if "(q, d) \<in> live h" for q d
      using live_disjoint [OF k(2) here, of q d] that c(2,3) by force
    show ?thesis
      using c live_bounds [OF k(2) here] k(4) apart by (intro exI [of _ c]) simp
  qed
  show ?thesis using k null blk by (intro exI [of _ h'] exI [of _ p]) simp
qed

theorem kmalloc_sound_witness:
  "\<exists>h' p c. kmalloc boot_heap 100 = ret (h', p) \<and> heap_inv h' \<and> (p, c) \<in> live h' \<and> 100 \<le> c"
proof -
  obtain h p c where b: "kmalloc boot_heap 100 = ret (h, p)" "p \<noteq> NULL" "live h = {(p, c)}"
    by (rule boot_alloc)
  have "\<exists>d. live h = insert (p, d) (live boot_heap) \<and> unat (100 :: u32) \<le> d" "heap_inv h"
    using kmalloc_sound [OF boot_heap_inv(1), of 100] b(1,2) by auto
  then show ?thesis using b(1) by auto
qed

text \<open>
  C9. \<^verbatim>\<open>kfree\<close> of a live pointer never panics: it returns with the invariant intact, removes
  exactly that block from the live set, and writes no payload byte.
\<close>

theorem kfree_sound:
  assumes "heap_inv h" "(p, c) \<in> live h"
  shows "\<exists>h'. kfree h p = ret h' \<and> heap_inv h' \<and> live h' = live h - {(p, c)} \<and> bytes h' = bytes h"
  using kfree_live [OF assms] by blast

theorem kfree_sound_witness:
  "\<exists>h p c h'. (p, c) \<in> live h \<and> kfree h p = ret h' \<and> live h' = {}"
proof -
  obtain h p c where "heap_inv h" "live h = {(p, c)}" by (rule boot_alloc)
  then show ?thesis using kfree_sound [of h p c] by auto
qed

text \<open>
  C37. A second \<^verbatim>\<open>kfree\<close> of the same pointer is always caught, also when the first one merged the
  block into a neighbour: whatever the heap, if freeing a non-NULL pointer returns, freeing it
  again panics with the double-free message. (It holds until the stale header is overwritten by a
  later allocation's payload.)
\<close>

theorem kfree_twice_panics:
  assumes "kfree h p = ret h'" "p \<noteq> NULL"
  shows "kfree h' p = panic_run ''kfree: double free''"
  using assms by (auto simp: kfree_def Let_def split: if_splits)

theorem kfree_twice_panics_witness:
  "\<exists>h p h'. kfree h p = ret h' \<and> kfree h' p = panic_run ''kfree: double free''"
proof -
  obtain h p c where "heap_inv h" "p \<noteq> NULL" "live h = {(p, c)}" by (rule boot_alloc)
  then obtain h' where "kfree h p = ret h'" "p \<noteq> NULL" using kh.release_block [of h p c] by auto
  then show ?thesis using kfree_twice_panics [of h p h'] by blast
qed

text \<open>
  C11. Round trip: freeing a block right after it was allocated restores the block structure of the
  heap exactly, because the remainder split off is merged back. Allocation and release in this
  order never fragment the heap.
\<close>

theorem kmalloc_kfree_roundtrip:
  assumes "heap_rep h segs" "kmalloc h sz = ret (h', p)" "p \<noteq> NULL"
  shows "\<exists>h''. kfree h' p = ret h'' \<and> heap_rep h'' segs"
proof -
  have sz: "sz \<noteq> 0" using assms(2,3) by (auto simp: kmalloc_def)
  define n where "n = unat (ALIGN_UP sz 8)"
  have n: "4 dvd n" unfolding n_def using ALIGN_UP_8_dvd [of sz] by (rule dvd_trans [rotated]) simp
  obtain segs' q where al: "alloc_segs n segs = Some (segs', q)" and p: "p = of_nat q" "heap_rep h' segs'"
    using kmalloc_refines [OF assms(1) sz] assms(2,3)
    by (cases "alloc_segs n segs") (auto simp: n_def)
  have ti: "tiles (unat (heap_start h)) segs (unat (heap_start h) + 4194304)" and co: "coalesced segs"
    using assms(1) heap_rep_tiles [OF assms(1)] unfolding heap_rep_def by blast+
  obtain a s where a: "q = a + 20" "(a, s, False) \<in> set segs'" "free_segs q segs' = segs"
    using free_alloc_segs [OF ti co n al] by blast
  show ?thesis using kfree_refines [OF p(2) a(2)] p(1) a(1,3) by auto
qed

theorem kmalloc_kfree_roundtrip_witness:
  "\<exists>h' p h''. kmalloc boot_heap 100 = ret (h', p) \<and> kfree h' p = ret h'' \<and>
     heap_rep h'' [(0xC0110000, 4194284, True)]"
proof -
  obtain h p c where "kmalloc boot_heap 100 = ret (h, p)" "p \<noteq> NULL" by (rule boot_alloc)
  then show ?thesis using kmalloc_kfree_roundtrip [OF boot_heap_rep] by blast
qed

text \<open>
  \<^verbatim>\<open>kheap_stats\<close> returns on a sound heap and its numbers add up: total plus one 20-byte header
  per block is the heap size, used is the sum of the used blocks and at most total, and
  the largest-free figure is exact, in that a request succeeds precisely when its rounded
  size does not exceed it.
\<close>

theorem kheap_stats_exact:
  assumes "heap_rep h segs"
  shows "\<exists>t u l. kheap_stats h = Some (t, u, l) \<and> unat t + 20 * length segs = unat HEAP_SIZE \<and>
    unat u = sum_list (map (\<lambda>(p, s, f). if f then 0 else s) segs) \<and> u \<le> t \<and> l \<le> t \<and>
    (\<forall>sz h' p. 0 < unat (ALIGN_UP sz 8) \<longrightarrow> kmalloc h sz = ret (h', p) \<longrightarrow>
       (p \<noteq> NULL \<longleftrightarrow> ALIGN_UP sz 8 \<le> l))"
proof -
  obtain t u l where s: "kheap_stats h = Some (t, u, l)" "unat t + 20 * length segs = unat HEAP_SIZE"
    "unat u = sum_list (map (\<lambda>(p, s, f). if f then 0 else s) segs)" "unat u \<le> unat t"
    "unat l = largest_free segs" "unat l \<le> unat t"
    using kheap_stats_rep [OF assms] by blast
  have exact: "p \<noteq> NULL \<longleftrightarrow> ALIGN_UP sz 8 \<le> l"
    if pos: "0 < unat (ALIGN_UP sz 8)" and k: "kmalloc h sz = ret (h', p)" for sz h' p
  proof -
    have ne: "sz \<noteq> 0" using pos by (auto simp: ALIGN_UP_def)
    show ?thesis
      using kmalloc_null_iff [OF assms ne k] alloc_segs_largest [OF pos] s(5)
      by (simp add: word_le_nat_alt not_less)
  qed
  show ?thesis
  proof (intro exI conjI allI impI)
    show "kheap_stats h = Some (t, u, l)" "unat t + 20 * length segs = unat HEAP_SIZE"
      "unat u = sum_list (map (\<lambda>(p, s, f). if f then 0 else s) segs)" by (rule s)+
    show "u \<le> t" "l \<le> t" using s(4,6) by (simp_all add: word_le_nat_alt)
  qed (rule exact)
qed

theorem kheap_stats_exact_witness:
  "\<exists>t u l. kheap_stats boot_heap = Some (t, u, l) \<and> unat t + 20 = 4194304 \<and> u = 0"
  using kheap_stats_exact [OF boot_heap_rep] by (auto simp: unat_eq_zero)

text \<open>
  C10. Safety of whole runs: from \<^verbatim>\<open>kheap_init\<close> on, after any sequence of allocations, frees of
  live pointers and writes to payload bytes, the invariant holds and the next allocation or legal
  free neither panics nor runs forever.
\<close>

theorem heap_runs_safe:
  assumes "heap_reachable h"
  shows "heap_inv h \<and> (\<exists>r. kheap_stats h = Some r) \<and>
    (\<forall>sz. 0 < unat sz \<and> unat sz \<le> 2 ^ 32 - 8 \<longrightarrow> (\<exists>h' p. kmalloc h sz = ret (h', p) \<and> heap_reachable h')) \<and>
    (\<forall>p c. (p, c) \<in> live h \<longrightarrow> (\<exists>h'. kfree h p = ret h' \<and> heap_reachable h'))"
proof -
  have inv: "heap_inv h" by (rule heap_reachable_inv [OF assms])
  then obtain r where "kheap_stats h = Some r" using kheap_stats_rep by (fastforce simp: heap_inv_def)
  moreover have "\<exists>h' p. kmalloc h sz = ret (h', p) \<and> heap_reachable h'"
    if "0 < unat sz" "unat sz \<le> 2 ^ 32 - 8" for sz
    using kh.alloc_total [OF inv that] heap_step.alloc [OF that] heap_reachable.step [OF assms] by blast
  moreover have "\<exists>h'. kfree h p = ret h' \<and> heap_reachable h'" if "(p, c) \<in> live h" for p c
    using kh.release_block [OF inv that] heap_step.release [OF that] heap_reachable.step [OF assms] by blast
  ultimately show ?thesis using inv by blast
qed

theorem heap_runs_safe_witness: "heap_inv boot_heap \<and> (\<exists>r. kheap_stats boot_heap = Some r)"
proof -
  have "heap_reachable boot_heap" unfolding boot_heap_def by (rule heap_reachable.boot) simp_all
  then show ?thesis using heap_runs_safe by blast
qed

text \<open>
  The rounding of the request wraps: for the seven largest values of \<^verbatim>\<open>size_t\<close> the rounded size
  is 0, so on any sound heap with a free block \<^verbatim>\<open>kmalloc\<close> reports success for a request of almost
  4 GiB and hands out a block of the 4 MiB heap.
\<close>

theorem kmalloc_huge_request_succeeds:
  assumes "heap_rep h segs" "(a, s, True) \<in> set segs" "2 ^ 32 - 8 < unat sz"
  shows "\<exists>h' p c. kmalloc h sz = ret (h', p) \<and> p \<noteq> NULL \<and> (p, c) \<in> live h' \<and> c < unat sz"
proof -
  define k where "k = unat sz - (2 ^ 32 - 7)"
  have "unat sz = 2 ^ 32 - 7 + k" "k < 7" using assms(3) unat_u32_lt [of sz] by (simp_all add: k_def)
  then have "unat (sz + 7) = k" by (simp add: unat_word_ariths)
  then have "unat ((sz + 7) AND NOT (mask 3)) = 0" using \<open>k < 7\<close> by (simp add: unat_and_not_mask)
  then have zero: "unat (ALIGN_UP sz 8) = 0" by (simp add: ALIGN_UP_def mask_eq_exp_minus_1 add.commute)
  have ne: "sz \<noteq> 0" using assms(3) by auto
  have "alloc_segs 0 segs \<noteq> None"
    using assms(2) unfolding alloc_segs_None by fastforce
  then obtain segs' q where al: "alloc_segs 0 segs = Some (segs', q)" by auto
  then obtain h' where h': "kmalloc h sz = ret (h', of_nat q)" "heap_rep h' segs'"
    using kmalloc_refines [OF assms(1) ne] zero by auto
  obtain xs p z ys where "segs' = xs @ carve 0 p z @ ys" "q = p + 20"
    using alloc_segs_Some [OF al] by blast
  then obtain c where lv: "(of_nat q, c) \<in> live h'"
    using live_rep [OF h'(2)] by (auto simp: live_segs_carve)
  moreover have "heap_inv h'" using h'(2) by (auto simp: heap_inv_def)
  ultimately have "of_nat q \<noteq> NULL" "c < unat sz"
    using live_bounds [of h' "of_nat q" c] assms(3) by auto
  with h' lv show ?thesis by blast
qed

theorem kmalloc_huge_request_succeeds_witness:
  "\<exists>h' p. kmalloc boot_heap 0xFFFFFFFF = ret (h', p) \<and> p \<noteq> NULL"
  using kmalloc_huge_request_succeeds [OF boot_heap_rep, of "0xC0110000" 4194284 "0xFFFFFFFF"] by auto

end
