(* ===== verification/Console.thy ===== *)
theory Console
  imports Vga KheapSafety
begin

text \<open>
  The console (lib/console.c): output to the screen mirrored to the serial line, or into a capture
  buffer on the kernel heap; input merged from keyboard and serial line. A C string argument is
  the list of its characters before the terminator.
\<close>

section \<open>State and operations\<close>

record console = vga +
  heap :: kheap
  capture_buf :: addr
  capture_cap :: u32
  capture_len :: u32

datatype vga_color =
    VGA_BLACK | VGA_BLUE | VGA_GREEN | VGA_CYAN | VGA_RED | VGA_MAGENTA | VGA_BROWN | VGA_LIGHT_GREY
  | VGA_DARK_GREY | VGA_LIGHT_BLUE | VGA_LIGHT_GREEN | VGA_LIGHT_CYAN | VGA_LIGHT_RED
  | VGA_LIGHT_MAGENTA | VGA_YELLOW | VGA_WHITE

primrec color_code :: "vga_color \<Rightarrow> u8" where
  "color_code VGA_BLACK = 0" | "color_code VGA_BLUE = 1" | "color_code VGA_GREEN = 2"
| "color_code VGA_CYAN = 3" | "color_code VGA_RED = 4" | "color_code VGA_MAGENTA = 5"
| "color_code VGA_BROWN = 6" | "color_code VGA_LIGHT_GREY = 7" | "color_code VGA_DARK_GREY = 8"
| "color_code VGA_LIGHT_BLUE = 9" | "color_code VGA_LIGHT_GREEN = 10" | "color_code VGA_LIGHT_CYAN = 11"
| "color_code VGA_LIGHT_RED = 12" | "color_code VGA_LIGHT_MAGENTA = 13" | "color_code VGA_YELLOW = 14"
| "color_code VGA_WHITE = 15"

definition console_init :: "'a console_scheme \<Rightarrow> 'a console_scheme" where
  "console_init s = vga_init (serial_init s)"

definition console_clear :: "'a console_scheme \<Rightarrow> 'a console_scheme" where
  "console_clear s = vga_clear s"

definition console_set_color :: "vga_color \<Rightarrow> vga_color \<Rightarrow> 'a console_scheme \<Rightarrow> 'a console_scheme" where
  "console_set_color fg bg s = vga_set_color (push_bit 4 (color_code bg) OR (color_code fg AND 0x0f)) s"

definition console_get_color :: "'a console_scheme \<Rightarrow> u8" where
  "console_get_color s = vga_get_color s"

definition console_putc :: "char \<Rightarrow> 'a console_scheme \<Rightarrow> 'a console_scheme run" where
  "console_putc c s =
     (if capture_buf s \<noteq> NULL
      then if capture_len s < capture_cap s
           then ret (s\<lparr>heap := (heap s)\<lparr>bytes := (bytes (heap s))(capture_buf s + capture_len s := c)\<rparr>,
                       capture_len := capture_len s + 1\<rparr>)
           else ret s
      else run_bind (vga_putc c s) (\<lambda>s.
           run_bind (if c = CHR 0x0A then serial_putc CHR 0x0D s else ret s) (\<lambda>s.
           serial_putc c s)))"

primrec console_write :: "string \<Rightarrow> 'a console_scheme \<Rightarrow> 'a console_scheme run" where
  "console_write [] s = ret s"
| "console_write (c # cs) s = run_bind (console_putc c s) (console_write cs)"

definition console_capture_begin :: "addr \<Rightarrow> u32 \<Rightarrow> 'a console_scheme \<Rightarrow> 'a console_scheme" where
  "console_capture_begin buf cap s = s\<lparr>capture_buf := buf, capture_cap := cap, capture_len := 0\<rparr>"

definition console_capture_end :: "'a console_scheme \<Rightarrow> 'a console_scheme \<times> u32" where
  "console_capture_end s = (s\<lparr>capture_buf := NULL\<rparr>, capture_len s)"

primrec serial_spin :: "nat \<Rightarrow> 'a io_scheme \<Rightarrow> 'a io_scheme \<times> int" where
  "serial_spin 0 s = (s, - 1)"
| "serial_spin (Suc n) s =
     (case serial_read s of (s', c) \<Rightarrow> if c \<ge> 0 then (s', c) else serial_spin n s')"

definition serial_read_soon :: "'a io_scheme \<Rightarrow> 'a io_scheme \<times> int" where
  "serial_read_soon s = serial_spin 100000 s"

text \<open>One poll of the serial line, with the terminal's codes translated.\<close>

definition serial_key :: "'a io_scheme \<Rightarrow> 'a io_scheme \<times> int" where
  "serial_key s =
     (case serial_read s of (s, c) \<Rightarrow>
      if c \<ge> 0 then
        if c = 0x0D then (s, 0x0A)
        else if c = 0x7f then (s, 0x08)
        else if c = 0x1b then
          (case serial_read_soon s of (s, d) \<Rightarrow>
           if d = uchar CHR ''['' then
             (case serial_read_soon s of (s, e) \<Rightarrow>
              (s, if e = uchar CHR ''A'' then KEY_UP else if e = uchar CHR ''B'' then KEY_DOWN else - 1))
           else (s, - 1))
        else (s, c)
      else (s, c))"

partial_function (option) console_getchar :: "'a interrupts_scheme \<Rightarrow> ('a interrupts_scheme \<times> int) run" where
  "console_getchar s = run_bind (keyboard_read s)
     (\<lambda>r. let q = (if snd r < 0 then serial_key (fst r) else r) in
          if snd q \<ge> 0 then ret q
          else run_bind (hlt (fst q)) console_getchar)"

section \<open>Output\<close>

definition crlf :: "string \<Rightarrow> string" where
  "crlf cs = concat (map (\<lambda>c. if c = CHR 0x0A then [CHR 0x0D, CHR 0x0A] else [c]) cs)"

text \<open>A screen operation on the visible part of the state only.\<close>

definition vga_out :: "char \<Rightarrow> 'a vga_scheme \<Rightarrow> 'a vga_scheme" where
  "vga_out c s = scroll_if_needed (putc_body c s)"

definition vga_view :: "'a vga_scheme \<Rightarrow> (nat \<Rightarrow> u16) \<times> int \<times> int \<times> u8" where
  "vga_view s = (cells s, cur_row s, cur_col s, color s)"

definition live_console :: "'a console_scheme \<Rightarrow> bool" where
  "live_console s \<longleftrightarrow> vga_inv s \<and> uart_drains (port_in s) \<and> \<not> dlab (trace s)"

lemma uart_crtc [simp]:
  "dlab (crtc_events p @ tr) = dlab tr" "uart_sent (crtc_events p @ tr) = uart_sent tr"
  by (simp_all add: crtc_events_def CRTC_DATA_def CRTC_INDEX_def com1_defs)

lemma vga_view_out: "vga_view s = vga_view t \<Longrightarrow> vga_view (vga_out c s) = vga_view (vga_out c t)"
  by (simp add: vga_view_def vga_out_def scroll_if_needed_def putc_body_def next_line_def cursor_pos_def Let_def)

lemma vga_view_fold: "vga_view s = vga_view t \<Longrightarrow> vga_view (fold vga_out cs s) = vga_view (fold vga_out cs t)"
  by (induction cs arbitrary: s t) (auto dest: vga_view_out)

lemma vga_frame_refl [simp]: "vga_frame s s"
  by (simp add: vga_frame_def)

lemma vga_frame_trans: "vga_frame s t \<Longrightarrow> vga_frame t u \<Longrightarrow> vga_frame s u"
  unfolding vga_frame_def by (erule ssubst [of u], erule ssubst [of t]) simp

lemma vga_frame_log: "vga_frame s (log_events es s)"
  by (simp add: vga_frame_def log_events_def)

lemma serial_putc_live:
  assumes "uart_drains (port_in s)"
  shows "\<exists>es. serial_putc c s = ret (log_events es s) \<and>
    (\<forall>tr. dlab (es @ tr) = dlab tr) \<and>
    (\<forall>tr. \<not> dlab tr \<longrightarrow> uart_sent (es @ tr) = uart_sent tr @ [of_char c])"
proof -
  obtain n where n: "serial_putc c s =
      ret (log_events (Out8 REG_DATA (of_char c) # replicate n (In8 REG_LINE_STATUS)) s)"
    using serial_putc_run [OF assms] ..
  have "REG_DATA \<noteq> REG_LINE_CTRL" by (simp add: com1_defs)
  with n show ?thesis
    by (intro exI [of _ "Out8 REG_DATA (of_char c) # replicate n (In8 REG_LINE_STATUS)"]) simp
qed

lemma vga_frame_more:
  assumes "vga_frame s s'"
  shows "vga.more s' = vga.more s" "port_in s' = port_in s" "wake s' = wake s" "irq_handlers s' = irq_handlers s"
proof -
  note eq = assms [unfolded vga_frame_def]
  show "vga.more s' = vga.more s" using arg_cong [OF eq, of vga.more] by simp
  show "port_in s' = port_in s" using arg_cong [OF eq, of port_in] by simp
  show "wake s' = wake s" using arg_cong [OF eq, of wake] by simp
  show "irq_handlers s' = irq_handlers s" using arg_cong [OF eq, of irq_handlers] by simp
qed

lemma console_putc_live:
  assumes "live_console s" "capture_buf s = NULL"
  shows "\<exists>s'. console_putc c s = ret s' \<and> live_console s' \<and> vga_frame s s' \<and> color s' = color s \<and>
    uart_sent (trace s') = uart_sent (trace s) @ map of_char (crlf [c]) \<and>
    vga_view s' = vga_view (vga_out c s)"
proof -
  have inv: "vga_inv s" and dr: "uart_drains (port_in s)" and dl: "\<not> dlab (trace s)"
    using assms(1) by (simp_all add: live_console_def)
  obtain s1 where s1: "vga_putc c s = ret s1" "vga_inv s1" "vga_frame s s1" "color s1 = color s"
      "trace s1 = crtc_events (cursor_pos s1) @ trace s"
    using vga_putc_spec [OF inv] by blast
  have "vga_view s1 = vga_view (vga_out c s)"
    using s1(1) vga_putc_eq [OF inv, of c]
    by (auto simp: vga_out_def move_hw_cursor_def outb_def vga_view_def Let_def)
  moreover have "port_in s1 = port_in s" using vga_frame_more [OF s1(3)] by simp
  ultimately have p1: "vga_view s1 = vga_view (vga_out c s)" "uart_drains (port_in s1)"
    "\<not> dlab (trace s1)" "uart_sent (trace s1) = uart_sent (trace s)"
    using dr dl s1(5) by simp_all
  obtain es where es: "(if c = CHR 0x0A then serial_putc CHR 0x0D s1 else ret s1) = ret (log_events es s1)"
      "\<not> dlab (es @ trace s1)"
      "uart_sent (es @ trace s1) = uart_sent (trace s1) @ (if c = CHR 0x0A then [0x0D] else [])"
  proof (cases "c = CHR 0x0A")
    case True
    then show thesis using serial_putc_live [OF p1(2), of "CHR 0x0D"] p1(3) that by auto
  next
    case False
    then show thesis using p1(3) that [of "[]"] by simp
  qed
  obtain fs where fs: "serial_putc c (log_events es s1) = ret (log_events fs (log_events es s1))"
      "\<not> dlab (fs @ es @ trace s1)" "uart_sent (fs @ es @ trace s1) = uart_sent (es @ trace s1) @ [of_char c]"
    using serial_putc_live [of "log_events es s1" c] p1(2) es(2) by auto
  define s' where "s' = log_events (fs @ es) s1"
  have "console_putc c s = ret s'"
    using assms(2) s1(1) es(1) fs(1) by (simp add: console_putc_def s'_def)
  moreover have "vga_frame s s'" using vga_frame_trans [OF s1(3) vga_frame_log] by (simp add: s'_def)
  moreover have "vga_inv s'" "vga_view s' = vga_view s1" "color s' = color s"
    using s1(2,4) by (simp_all add: s'_def log_events_def vga_inv_def vga_view_def)
  ultimately show ?thesis
    using p1 es(3) fs(2,3) by (auto simp: s'_def live_console_def crlf_def)
qed

lemma console_more:
  "vga.more (s :: 'a console_scheme) = vga.more t \<Longrightarrow>
     heap s = heap t \<and> capture_buf s = capture_buf t \<and> capture_cap s = capture_cap t \<and>
     capture_len s = capture_len t \<and> console.more s = console.more t"
  by (cases s; cases t) simp

lemma console_write_live:
  assumes "live_console s" "capture_buf s = NULL"
  shows "\<exists>s'. console_write cs s = ret s' \<and> live_console s' \<and> vga_frame s s' \<and> color s' = color s \<and>
    uart_sent (trace s') = uart_sent (trace s) @ map of_char (crlf cs) \<and>
    vga_view s' = vga_view (fold vga_out cs s)"
  using assms
proof (induction cs arbitrary: s)
  case Nil
  then show ?case by (simp add: crlf_def)
next
  case (Cons c cs)
  obtain s1 where s1: "console_putc c s = ret s1" "live_console s1" "vga_frame s s1" "color s1 = color s"
      "uart_sent (trace s1) = uart_sent (trace s) @ map of_char (crlf [c])"
      "vga_view s1 = vga_view (vga_out c s)"
    using console_putc_live [OF Cons(2,3)] by blast
  have "capture_buf s1 = NULL"
    using console_more [OF vga_frame_more(1) [OF s1(3)]] Cons(3) by simp
  then obtain s2 where s2: "console_write cs s1 = ret s2" "live_console s2" "vga_frame s1 s2" "color s2 = color s1"
      "uart_sent (trace s2) = uart_sent (trace s1) @ map of_char (crlf cs)"
      "vga_view s2 = vga_view (fold vga_out cs s1)"
    using Cons(1) [OF s1(2)] by blast
  have "vga_view s2 = vga_view (fold vga_out (c # cs) s)"
    using s2(6) vga_view_fold [OF s1(6)] by simp
  moreover have "uart_sent (trace s2) = uart_sent (trace s) @ map of_char (crlf (c # cs))"
    using s2(5) s1(5) by (simp add: crlf_def)
  ultimately show ?case
    using s1 s2 vga_frame_trans [OF s1(3) s2(3)] by simp
qed

section \<open>Capture\<close>

text \<open>Writing a string into memory; what the capture buffer receives is a prefix that fits.\<close>

primrec poke :: "addr \<Rightarrow> string \<Rightarrow> mem \<Rightarrow> mem" where
  "poke a [] m = m"
| "poke a (c # cs) m = poke (a + 1) cs (m(a := c))"

lemma poke_append: "poke a (cs @ ds) m = poke (a + of_nat (length cs)) ds (poke a cs m)"
  by (induction cs arbitrary: a m) (simp_all add: ac_simps)

lemma poke_outside: "(\<And>i. i < length cs \<Longrightarrow> x \<noteq> a + of_nat i) \<Longrightarrow> poke a cs m x = m x"
proof (induction cs arbitrary: a m)
  case (Cons c cs)
  have "x \<noteq> a" using Cons(2) [of 0] by simp
  moreover have "x \<noteq> a + 1 + of_nat i" if "i < length cs" for i
    using Cons(2) [of "Suc i"] that by (simp add: ac_simps)
  ultimately show ?case using Cons(1) by simp
qed simp

lemma poke_inside: "i < length cs \<Longrightarrow> length cs \<le> 2 ^ 32 \<Longrightarrow> poke a cs m (a + of_nat i) = cs ! i"
proof (induction cs arbitrary: a m i)
  case (Cons c cs)
  show ?case
  proof (cases i)
    case 0
    have "poke (a + 1) cs (m(a := c)) a = (m(a := c)) a"
    proof (rule poke_outside)
      fix j assume "j < length cs"
      then show "a \<noteq> a + 1 + of_nat j"
        using Cons(3) addr_offset_inj [of 0 "Suc j" a] by (simp add: ac_simps)
    qed
    then show ?thesis using 0 by simp
  next
    case (Suc j)
    then show ?thesis using Cons(1) [of j "a + 1"] Cons(2,3) by (simp add: ac_simps)
  qed
qed simp

lemma console_write_capture:
  assumes "capture_buf s \<noteq> NULL" "capture_len s \<le> capture_cap s"
  shows "console_write cs s =
    (let k = min (length cs) (unat (capture_cap s) - unat (capture_len s)) in
     ret (s\<lparr>heap := (heap s)\<lparr>bytes := poke (capture_buf s + capture_len s) (take k cs) (bytes (heap s))\<rparr>,
           capture_len := capture_len s + of_nat k\<rparr>))"
  using assms
proof (induction cs arbitrary: s)
  case (Cons c cs)
  show ?case
  proof (cases "capture_len s < capture_cap s")
    case False
    then have eq: "capture_cap s = capture_len s" using Cons(3) by simp
    then have "console_putc c s = ret s" using Cons(2) by (simp add: console_putc_def)
    then show ?thesis using Cons(1) [OF Cons(2,3)] eq by (simp add: Let_def)
  next
    case True
    let ?s = "s\<lparr>heap := (heap s)\<lparr>bytes := (bytes (heap s))(capture_buf s + capture_len s := c)\<rparr>,
               capture_len := capture_len s + 1\<rparr>"
    have lt: "unat (capture_len s) < unat (capture_cap s)" using True by (simp add: word_less_nat_alt)
    then have u: "unat (capture_len s + 1) = unat (capture_len s) + 1"
      using unat_add_offset [of "capture_len s" 1] unat_u32_lt [of "capture_cap s"] by simp
    have pc: "console_putc c s = ret ?s" using Cons(2) True by (simp add: console_putc_def)
    have le: "capture_len ?s \<le> capture_cap ?s" using lt u by (simp add: word_le_nat_alt)
    have k: "min (length (c # cs)) (unat (capture_cap s) - unat (capture_len s)) =
        Suc (min (length cs) (unat (capture_cap ?s) - unat (capture_len ?s)))"
      using lt u by simp
    have "console_write cs ?s =
      (let k = min (length cs) (unat (capture_cap ?s) - unat (capture_len ?s)) in
       ret (?s\<lparr>heap := (heap ?s)\<lparr>bytes := poke (capture_buf ?s + capture_len ?s) (take k cs) (bytes (heap ?s))\<rparr>,
           capture_len := capture_len ?s + of_nat k\<rparr>))"
      by (rule Cons(1)) (use Cons(2) le in simp_all)
    then show ?thesis unfolding k Let_def by (simp add: pc ac_simps)
  qed
qed simp

section \<open>Input\<close>

lemma getchar_key:
  assumes "kbd_inv s" "kbd_queue s = c # cs"
  shows "\<exists>s'. console_getchar s = ret (s', uchar c) \<and> kbd_inv s' \<and> kbd_queue s' = cs \<and>
    s' = s\<lparr>kbd_tail := kbd_tail s'\<rparr>"
proof -
  obtain s' where s': "keyboard_read s = ret (s', uchar c)" "kbd_inv s'" "kbd_queue s' = cs"
      "s' = s\<lparr>kbd_tail := kbd_tail s'\<rparr>"
    using keyboard_read_cons [OF assms] by blast
  then have "console_getchar s = ret (s', uchar c)"
    using uchar_bounds(1) [of c] by (subst console_getchar.simps) simp
  then show ?thesis using s' by blast
qed

lemma getchar_serial:
  assumes "kbd_inv s" "kbd_queue s = []" "serial_key s = (s', k)" "0 \<le> k"
  shows "console_getchar s = ret (s', k)"
  using assms by (subst console_getchar.simps) (simp add: keyboard_read_empty)

lemma getchar_wait:
  assumes "kbd_inv s" "kbd_queue s = []" "serial_key s = (s1, k)" "k < 0" "hlt s1 = ret s2"
  shows "console_getchar s = console_getchar s2"
  using assms by (subst console_getchar.simps) (simp add: keyboard_read_empty)

lemma serial_key_idle:
  assumes "(ucast (port_in s (In8 REG_LINE_STATUS # trace s)) :: u8) AND LSR_DATA_READY = 0"
  shows "serial_key s = (s\<lparr>trace := In8 REG_LINE_STATUS # trace s\<rparr>, - 1)"
  using assms by (simp add: serial_key_def serial_read_def inb_def)

section \<open>Properties\<close>

text \<open>
  C19. With no capture active, a healthy UART and the cursor on the screen, \<^verbatim>\<open>console_write\<close>
  returns; the serial line has received the string with every newline preceded by a carriage
  return, after everything sent before, and the screen shows what printing the string character
  by character gives; only screen and port history have changed.\<close>

theorem console_write_mirrors:
  assumes "live_console s" "capture_buf s = NULL"
  shows "\<exists>s'. console_write str s = ret s' \<and> live_console s' \<and> vga_frame s s' \<and>
    uart_sent (trace s') = uart_sent (trace s) @ map of_char (crlf str) \<and>
    vga_view s' = vga_view (fold vga_out str s)"
  using console_write_live [OF assms] by blast

definition console_boot :: "(pevent list \<Rightarrow> u32) \<Rightarrow> (pevent list \<Rightarrow> nat option) \<Rightarrow> console" where
  "console_boot dev wk = interrupts.extend (irq_ready dev wk)
     \<lparr>cells = (\<lambda>_. 0), cur_row = 0, cur_col = 0, color = 0x07,
      heap = kheap_bss,
      capture_buf = 0, capture_cap = 0, capture_len = 0\<rparr>"

lemma uart_ready_drains: "uart_drains (\<lambda>_. 0x20)"
  by (simp add: uart_drains_def LSR_TX_EMPTY_def)

lemma console_boot_live: "live_console (console_boot (\<lambda>_. 0x20) wk)" "capture_buf (console_boot dev wk) = NULL"
proof -
  have "port_in (console_boot (\<lambda>_. 0x20) wk) = (\<lambda>_. 0x20)" "vga_inv (console_boot (\<lambda>_. 0x20) wk)"
    "trace (console_boot (\<lambda>_. 0x20) wk) = [Out8 0x40 0x2E, Out8 0x40 0x9B, Out8 0x43 0x36]"
    by (simp_all add: console_boot_def interrupts.defs irq_ready_def keyboard_init_def timer_init_def
        irq_install_handler_def irq_boot_def outb_def Let_def vga_inv_def PIT_BASE_HZ_def TIMER_HZ_def
        PIT_CH0_def PIT_CMD_def)
  then show "live_console (console_boot (\<lambda>_. 0x20) wk)"
    by (simp add: live_console_def uart_ready_drains com1_defs)
  show "capture_buf (console_boot dev wk) = NULL"
    by (simp add: console_boot_def interrupts.defs)
qed

theorem console_write_mirrors_witness:
  "\<exists>s'. console_write ''Hi'' (console_boot (\<lambda>_. 0x20) (\<lambda>_. None)) = ret s' \<and> live_console s'"
  using console_write_mirrors [OF console_boot_live(1) console_boot_live(2)] by blast

text \<open>
  While a capture is active \<^verbatim>\<open>console_write\<close> stores the longest prefix of the string that fits
  the buffer right behind what was captured before, and writes no other byte of memory, nothing
  to the screen and nothing to any port.\<close>

theorem console_capture_bounded:
  assumes "capture_buf s \<noteq> NULL" "capture_len s \<le> capture_cap s"
    and "unat (capture_buf s) + unat (capture_cap s) < 2 ^ 32"
  shows "\<exists>s' m k. console_write str s = ret s' \<and> k = min (length str) (unat (capture_cap s) - unat (capture_len s)) \<and>
    s' = s\<lparr>heap := (heap s)\<lparr>bytes := m\<rparr>, capture_len := capture_len s + of_nat k\<rparr> \<and>
    unat (capture_len s') \<le> unat (capture_cap s) \<and>
    (\<forall>i < k. m (capture_buf s + capture_len s + of_nat i) = str ! i) \<and>
    (\<forall>x. (\<forall>i < k. x \<noteq> capture_buf s + capture_len s + of_nat i) \<longrightarrow> m x = bytes (heap s) x)"
proof -
  define k where "k = min (length str) (unat (capture_cap s) - unat (capture_len s))"
  define m where "m = poke (capture_buf s + capture_len s) (take k str) (bytes (heap s))"
  have len: "length (take k str) = k" by (simp add: k_def)
  have k: "k \<le> 2 ^ 32" "unat (capture_len s) + k \<le> unat (capture_cap s)"
    using unat_u32_lt [of "capture_cap s"] assms(2) by (auto simp: k_def word_le_nat_alt)
  have "m (capture_buf s + capture_len s + of_nat i) = str ! i" if "i < k" for i
    using poke_inside [of i "take k str"] that k(1) by (simp add: m_def k_def)
  moreover have "m x = bytes (heap s) x" if "\<forall>i < k. x \<noteq> capture_buf s + capture_len s + of_nat i" for x
    unfolding m_def by (rule poke_outside) (use that len in simp)
  moreover have "unat (capture_len s + of_nat k) \<le> unat (capture_cap s)"
    using k(2) unat_add_offset [of "capture_len s" k] unat_u32_lt [of "capture_cap s"] by simp
  ultimately show ?thesis
    using console_write_capture [OF assms(1,2), of str] unfolding Let_def k_def [symmetric] m_def [symmetric]
    by (intro exI [of _ "s\<lparr>heap := (heap s)\<lparr>bytes := m\<rparr>, capture_len := capture_len s + of_nat k\<rparr>"]
        exI [of _ m] exI [of _ k]) simp
qed

theorem console_capture_bounded_witness:
  "\<exists>s'. console_write ''abc'' (console_capture_begin 0x1000 2 (console_boot (\<lambda>_. 0) (\<lambda>_. None))) = ret s' \<and>
     bytes (heap s') 0x1000 = CHR ''a'' \<and> bytes (heap s') 0x1001 = CHR ''b'' \<and> capture_len s' = 2"
proof -
  let ?s = "console_capture_begin 0x1000 2 (console_boot (\<lambda>_. 0) (\<lambda>_. None))"
  have "capture_buf ?s = 0x1000" "capture_len ?s = 0" "capture_cap ?s = 2"
    by (simp_all add: console_capture_begin_def)
  then show ?thesis
    using console_capture_bounded [of ?s "''abc''"]
    by (fastforce simp: min_def dest: spec [of _ 0] spec [of _ 1])
qed

text \<open>
  A key pressed while \<^verbatim>\<open>console_getchar\<close> waits is delivered: if the ring is empty, the serial
  line is idle and the interrupt that ends the halt is the keyboard's with a scancode that decodes
  to \<open>c\<close>, the call returns the code of \<open>c\<close> and leaves the ring empty.\<close>

theorem console_getchar_delivers:
  fixes s :: "'a interrupts_scheme"
  assumes "irq_ok s" "kbd_queue s = []" "irq_handlers s 1 = Some Keyboard_irq"
    and "(ucast (port_in s (In8 0x3FD # trace s)) :: u8) AND 1 = 0"
    and "wake s (In8 0x3FD # trace s) = Some 1"
    and "snd (decode_key (kbd_mods s) (ucast (port_in s (In8 0x60 # Irq 1 # In8 0x3FD # trace s)))) = [c]"
  shows "\<exists>s'. console_getchar s = ret (s', uchar c) \<and> irq_ok s' \<and> kbd_queue s' = []"
proof -
  have port: "REG_LINE_STATUS = 0x3FD" "LSR_DATA_READY = 1" "KBD_DATA_PORT = 0x60"
    by (simp_all add: com1_defs LSR_DATA_READY_def KBD_DATA_PORT_def)
  let ?s1 = "s\<lparr>trace := In8 0x3FD # trace s\<rparr>"
  let ?s2 = "s\<lparr>trace := Irq 1 # In8 0x3FD # trace s\<rparr>"
  have inv: "kbd_inv s" using assms(1) by (simp add: irq_ok_def)
  have idle: "serial_key s = (?s1, - 1)"
    using serial_key_idle [of s] assms(4) unfolding port by simp
  have ok2: "irq_ok ?s2" using assms(1) by (simp add: irq_ok_def)
  obtain s3 where s3: "irq_handler (32 + of_nat 1) ?s2 = ret s3" "irq_ok s3"
      "kbd_queue s3 = (if irq_handlers ?s2 1 = Some Keyboard_irq
        then take 255 (kbd_queue ?s2 @ snd (decode_key (kbd_mods ?s2) (ucast (port_in ?s2 (In8 KBD_DATA_PORT # trace ?s2)))))
        else kbd_queue ?s2)"
    using irq_handler_spec [OF ok2, of 1] by auto
  have "kbd_mods ?s2 = kbd_mods s" by (simp add: kbd_mods_def)
  then have q: "kbd_queue s3 = [c]" using s3(3) assms(2,3,6) unfolding port by simp
  have "hlt ?s1 = ret s3" using assms(5) s3(1) by (simp add: hlt_def)
  then have "console_getchar s = console_getchar s3"
    by (rule getchar_wait [OF inv assms(2) idle, simplified])
  moreover obtain s4 where s4: "console_getchar s3 = ret (s4, uchar c)" "kbd_inv s4" "kbd_queue s4 = []"
      "s4 = s3\<lparr>kbd_tail := kbd_tail s4\<rparr>"
    using getchar_key [OF _ q] s3(2) unfolding irq_ok_def by blast
  moreover have "irq_handlers s4 = irq_handlers s3" using arg_cong [OF s4(4), of irq_handlers] by simp
  ultimately show ?thesis using s3(2) by (auto simp: irq_ok_def)
qed

text \<open>A keyboard that answers every read of its data port with the scancode of the key x.\<close>

definition x_key_dev :: "pevent list \<Rightarrow> u32" where
  "x_key_dev tr = (case tr of In8 p # _ \<Rightarrow> if p = 0x60 then 0x2D else 0 | _ \<Rightarrow> 0)"

theorem console_getchar_delivers_witness:
  "\<exists>s'. console_getchar (irq_ready x_key_dev (\<lambda>_. Some 1)) = ret (s', 120)"
proof -
  let ?s = "irq_ready x_key_dev (\<lambda>_. Some 1)"
  have dec: "snd (decode_key (kbd_mods ?s) 0x2D) = ''x''"
    by (simp add: decode_key_def kbd_mods_def irq_ready_def keyboard_init_def timer_init_def irq_install_handler_def
        outb_def irq_boot_def Let_def key_char_def map_lower_def is_letter_def bit_numeral_rec)
  have st: "kbd_queue ?s = []" "port_in ?s = x_key_dev"
    by (simp_all add: irq_ready_def keyboard_init_def timer_init_def irq_install_handler_def
        outb_def irq_boot_def Let_def kbd_queue_def kbd_len_def)
  show ?thesis
    using console_getchar_delivers [OF irq_ready_ok(1) [of x_key_dev "\<lambda>_. Some 1"], of "CHR ''x''"] dec st
    by (auto simp: irq_ready_ok irq_ready_ok(4) [simplified] x_key_dev_def uchar_def of_char_def)
qed

end
