(* ===== verification/Kprintf.thy ===== *)
theory Kprintf
  imports Console
begin

text \<open>
  Formatted output (lib/kprintf.c). The variable arguments are a list: words for the numeric
  conversions, strings (or NULL) for \<^verbatim>\<open>%s\<close>; taking a missing argument or one of the other kind is a
  \<^const>\<open>Fault\<close>. The formatter that talks to the console is shown equal to writing the result of a
  pure one, whose numbers are shown to be positional numerals.
\<close>

section \<open>Operations\<close>

datatype karg = Word u32 | Str "string option"

primrec pad :: "char \<Rightarrow> nat \<Rightarrow> 'a console_scheme \<Rightarrow> 'a console_scheme run" where
  "pad c 0 s = ret s"
| "pad c (Suc n) s = run_bind (console_putc c s) (pad c n)"

definition emit :: "string \<Rightarrow> int \<Rightarrow> bool \<Rightarrow> char \<Rightarrow> 'a console_scheme \<Rightarrow> 'a console_scheme run" where
  "emit str width left fill s =
     (let gap = (if width > int (length str) then width - int (length str) else 0) in
      run_bind (if \<not> left then pad fill (nat gap) s else ret s) (\<lambda>s.
      run_bind (console_write str s) (\<lambda>s.
      if left then pad CHR '' '' (nat gap) s else ret s)))"

text \<open>\<^verbatim>\<open>tmp\<close> holds 16 characters; a write past its end is a \<^const>\<open>Fault\<close>.\<close>

function format_digits :: "u32 \<Rightarrow> u32 \<Rightarrow> string \<Rightarrow> string \<Rightarrow> string run" where
  "format_digits value base digits tmp =
     (if length tmp \<ge> 16 \<or> base = 0 \<or> unat (value mod base) \<ge> length digits then fault_run
      else let tmp = tmp @ [digits ! unat (value mod base)];
               value = value div base
           in if value \<noteq> 0 then format_digits value base digits tmp else ret tmp)"
  by pat_completeness auto
termination by (relation "measure (\<lambda>(_, _, _, tmp). 17 - length tmp)") auto

declare format_digits.simps [simp del]

definition format_num :: "u32 \<Rightarrow> u32 \<Rightarrow> bool \<Rightarrow> string run" where
  "format_num value base uppercase =
     (let digits = (if uppercase then ''0123456789ABCDEF'' else ''0123456789abcdef'') in
      run_bind (format_digits value base digits []) (\<lambda>tmp. ret (rev tmp)))"

fun scan_flags :: "bool \<Rightarrow> char \<Rightarrow> string \<Rightarrow> bool \<times> char \<times> string" where
  "scan_flags left fill (c # cs) =
     (if c = CHR ''-'' then scan_flags True fill cs
      else if c = CHR ''0'' then scan_flags left CHR ''0'' cs
      else (left, fill, c # cs))"
| "scan_flags left fill [] = (left, fill, [])"

fun scan_width :: "int \<Rightarrow> string \<Rightarrow> int \<times> string" where
  "scan_width width (c # cs) =
     (if schar c \<ge> schar CHR ''0'' \<and> schar c \<le> schar CHR ''9''
      then scan_width (width * 10 + (schar c - schar CHR ''0'')) cs
      else (width, c # cs))"
| "scan_width width [] = (width, [])"

definition int_arg :: "karg list \<Rightarrow> (u32 \<times> karg list) run" where
  "int_arg ap = (case ap of Word w # ap' \<Rightarrow> ret (w, ap') | _ \<Rightarrow> fault_run)"

definition str_arg :: "karg list \<Rightarrow> (string option \<times> karg list) run" where
  "str_arg ap = (case ap of Str s # ap' \<Rightarrow> ret (s, ap') | _ \<Rightarrow> fault_run)"

text \<open>One conversion: the \<^verbatim>\<open>switch (*fmt)\<close> of \<^verbatim>\<open>kvprintf\<close>.\<close>

definition convert :: "char \<Rightarrow> bool \<Rightarrow> char \<Rightarrow> int \<Rightarrow> karg list \<Rightarrow> 'a console_scheme \<Rightarrow>
    ('a console_scheme \<times> karg list) run" where
  "convert k left fill width ap s =
     (if k = CHR ''c'' then
        run_bind (int_arg ap) (\<lambda>(w, ap).
        run_bind (emit [char_of (uint w)] width left CHR '' '' s) (\<lambda>s. ret (s, ap)))
      else if k = CHR ''s'' then
        run_bind (str_arg ap) (\<lambda>(str, ap).
        run_bind (emit (case str of None \<Rightarrow> ''(null)'' | Some str \<Rightarrow> str) width left CHR '' '' s) (\<lambda>s. ret (s, ap)))
      else if k = CHR ''d'' \<or> k = CHR ''i'' then
        run_bind (int_arg ap) (\<lambda>(v, ap).
        let u = (if sint v < 0 then - v else v) in
        run_bind (format_num u 10 False) (\<lambda>buf.
        run_bind (if sint v < 0 then emit (CHR ''-'' # buf) width left fill s
                  else emit buf width left fill s) (\<lambda>s. ret (s, ap))))
      else if k = CHR ''u'' then
        run_bind (int_arg ap) (\<lambda>(v, ap).
        run_bind (format_num v 10 False) (\<lambda>buf.
        run_bind (emit buf width left fill s) (\<lambda>s. ret (s, ap))))
      else if k = CHR ''x'' \<or> k = CHR ''X'' then
        run_bind (int_arg ap) (\<lambda>(v, ap).
        run_bind (format_num v 16 (k = CHR ''X'')) (\<lambda>buf.
        run_bind (emit buf width left fill s) (\<lambda>s. ret (s, ap))))
      else if k = CHR ''p'' then
        run_bind (console_write ''0x'' s) (\<lambda>s.
        run_bind (int_arg ap) (\<lambda>(v, ap).
        run_bind (format_num v 16 False) (\<lambda>buf.
        run_bind (emit buf 8 False CHR ''0'' s) (\<lambda>s. ret (s, ap)))))
      else if k = CHR ''%'' then run_bind (console_putc CHR ''%'' s) (\<lambda>s. ret (s, ap))
      else run_bind (console_putc CHR ''%'' s) (\<lambda>s.
           run_bind (console_putc k s) (\<lambda>s. ret (s, ap))))"

lemma scan_flags_length: "length (snd (snd (scan_flags left fill cs))) \<le> length cs"
  by (induction left fill cs rule: scan_flags.induct) auto

lemma scan_width_length: "length (snd (scan_width w cs)) \<le> length cs"
  by (induction w cs rule: scan_width.induct) auto

function kvprintf :: "string \<Rightarrow> karg list \<Rightarrow> 'a console_scheme \<Rightarrow> 'a console_scheme run" where
  "kvprintf [] ap s = ret s"
| "kvprintf (c # cs) ap s =
     (if c \<noteq> CHR ''%'' then run_bind (console_putc c s) (kvprintf cs ap)
      else let f = scan_flags False CHR '' '' cs;
               w = scan_width 0 (snd (snd f))
           in case snd w of
                [] \<Rightarrow> ret s
              | k # rest \<Rightarrow> run_bind (convert k (fst f) (fst (snd f)) (fst w) ap s)
                             (\<lambda>r. kvprintf rest (snd r) (fst r)))"
  by pat_completeness auto
termination
proof (relation "measure (\<lambda>(cs, _, _). length cs)", goal_cases)
  case (3 c cs ap s f w k rest r)
  then have "length (k # rest) \<le> length cs"
    using scan_width_length [of 0 "snd (snd f)"] scan_flags_length [of False "CHR '' ''" cs] by simp
  then show ?case by simp
qed auto

definition kprintf :: "string \<Rightarrow> karg list \<Rightarrow> 'a console_scheme \<Rightarrow> 'a console_scheme run" where
  "kprintf fmt args s = kvprintf fmt args s"

section \<open>Numerals\<close>

fun lsd :: "nat \<Rightarrow> nat \<Rightarrow> nat list" where
  "lsd b n = (if b \<le> 1 \<or> n < b then [n] else n mod b # lsd b (n div b))"

declare lsd.simps [simp del]

lemma lsd_digits: "1 < b \<Longrightarrow> d \<in> set (lsd b n) \<Longrightarrow> d < b"
proof (induction b n rule: lsd.induct)
  case (1 b n)
  then show ?case by (subst (asm) (2) lsd.simps) (auto split: if_splits)
qed

lemma lsd_length: "1 < b \<Longrightarrow> n < b ^ Suc k \<Longrightarrow> length (lsd b n) \<le> Suc k"
proof (induction k arbitrary: n)
  case 0
  then show ?case by (subst lsd.simps) simp
next
  case (Suc k)
  then show ?case by (subst lsd.simps) (simp add: div_less_iff_less_mult mult.commute)
qed

lemma lsd_value: "1 < b \<Longrightarrow> foldr (\<lambda>d a. d + b * a) (lsd b n) 0 = n"
proof (induction b n rule: lsd.induct)
  case (1 b n)
  then show ?case by (subst lsd.simps) simp
qed

lemma lsd_last: "1 < b \<Longrightarrow> 0 < n \<Longrightarrow> last (lsd b n) \<noteq> 0"
proof (induction b n rule: lsd.induct)
  case (1 b n)
  have "lsd b m \<noteq> []" for m by (subst lsd.simps) simp
  then show ?case using 1 by (subst lsd.simps) (simp add: div_greater_zero_iff)
qed

definition hex_digits :: "bool \<Rightarrow> string" where
  "hex_digits uppercase = (if uppercase then ''0123456789ABCDEF'' else ''0123456789abcdef'')"

definition num_text :: "bool \<Rightarrow> nat \<Rightarrow> nat \<Rightarrow> string" where
  "num_text uppercase b n = map ((!) (hex_digits uppercase)) (rev (lsd b n))"

lemma hex_digits_length [simp]: "length (hex_digits uc) = 16"
  by (simp add: hex_digits_def)

lemma format_digits_lsd:
  assumes "1 < unat base" "unat base \<le> 16" "length digits = 16"
    "length tmp + length (lsd (unat base) (unat v)) \<le> 16"
  shows "format_digits v base digits tmp = ret (tmp @ map ((!) digits) (lsd (unat base) (unat v)))"
  using assms
proof (induction v base digits tmp rule: format_digits.induct)
  case (1 v base digits tmp)
  let ?b = "unat base" and ?n = "unat v"
  have b0: "base \<noteq> 0" using 1(2) by auto
  have md: "unat (v mod base) = ?n mod ?b" and dv: "unat (v div base) = ?n div ?b"
    by (simp_all add: unat_mod_distrib unat_div_distrib)
  have dlt: "?n mod ?b < 16" using 1(2,3) by (meson mod_less_divisor order_less_le_trans less_trans zero_less_one)
  have ne: "lsd ?b m \<noteq> []" for m by (subst lsd.simps) simp
  have len: "length tmp < 16" using 1(5) ne [of ?n] by (cases "lsd ?b ?n") auto
  have nz: "v div base \<noteq> 0 \<longleftrightarrow> ?b \<le> ?n"
    unfolding word_unat_eq_iff dv using 1(2) div_greater_zero_iff [of ?n ?b] by auto
  show ?case
  proof (cases "?b \<le> ?n")
    case False
    then have "lsd ?b ?n = [?n]" by (subst lsd.simps) simp
    then show ?thesis
      using False len b0 md dlt nz 1(4) by (subst format_digits.simps) (simp add: Let_def)
  next
    case True
    then have l: "lsd ?b ?n = ?n mod ?b # lsd ?b (?n div ?b)" using 1(2) by (subst lsd.simps) simp
    let ?tmp = "tmp @ [digits ! unat (v mod base)]"
    have step: "format_digits v base digits tmp = format_digits (v div base) base digits ?tmp"
      using True len b0 md dlt nz 1(4) by (subst format_digits.simps) (simp add: Let_def)
    have "format_digits (v div base) base digits ?tmp =
        ret (?tmp @ map ((!) digits) (lsd ?b (unat (v div base))))"
      by (rule 1(1)) (use True len b0 md dv dlt nz 1(2-5) l in \<open>simp_all\<close>)
    then show ?thesis unfolding step by (simp add: l md dv)
  qed
qed

lemma format_num_text:
  assumes "base = 10 \<or> base = 16"
  shows "format_num v base uc = ret (num_text uc (unat base) (unat v))"
    and "length (num_text uc (unat base) (unat v)) \<le> 10"
proof -
  have "unat v < 2 ^ 32" by (rule unat_u32_lt)
  then have lt: "unat v < 10 ^ Suc 9" "unat v < 16 ^ Suc 7" by (simp_all)
  then have len: "length (lsd (unat base) (unat v)) \<le> 10"
    using assms lsd_length [OF _ lt(1)] lsd_length [OF _ lt(2)] by (auto intro: order_trans)
  then show "length (num_text uc (unat base) (unat v)) \<le> 10" by (simp add: num_text_def)
  have "format_digits v base (hex_digits uc) [] = ret ([] @ map ((!) (hex_digits uc)) (lsd (unat base) (unat v)))"
    by (rule format_digits_lsd) (use assms len in auto)
  then show "format_num v base uc = ret (num_text uc (unat base) (unat v))"
    unfolding format_num_def hex_digits_def [symmetric] num_text_def by (simp add: rev_map Let_def)
qed

section \<open>The text a format produces\<close>

definition padded :: "string \<Rightarrow> int \<Rightarrow> bool \<Rightarrow> char \<Rightarrow> string" where
  "padded str width left fill =
     (let gap = nat (width - int (length str)) in
      if left then str @ replicate gap CHR '' '' else replicate gap fill @ str)"

definition dec_text :: "u32 \<Rightarrow> string" where
  "dec_text v = (if sint v < 0 then CHR ''-'' # num_text False 10 (nat (- sint v)) else num_text False 10 (nat (sint v)))"

definition word_text :: "char \<Rightarrow> bool \<Rightarrow> char \<Rightarrow> int \<Rightarrow> u32 \<Rightarrow> string" where
  "word_text k left fill width w =
     (if k = CHR ''c'' then padded [char_of (uint w)] width left CHR '' ''
      else if k = CHR ''d'' \<or> k = CHR ''i'' then padded (dec_text w) width left fill
      else if k = CHR ''u'' then padded (num_text False 10 (unat w)) width left fill
      else if k = CHR ''p'' then ''0x'' @ padded (num_text False 16 (unat w)) 8 False CHR ''0''
      else padded (num_text (k = CHR ''X'') 16 (unat w)) width left fill)"

definition takes_word :: "char \<Rightarrow> bool" where
  "takes_word k \<longleftrightarrow> k \<in> set ''cdiuxXp''"

definition conv_text :: "char \<Rightarrow> bool \<Rightarrow> char \<Rightarrow> int \<Rightarrow> karg list \<Rightarrow> (string \<times> karg list) option" where
  "conv_text k left fill width ap =
     (if takes_word k then
        (case ap of Word w # ap' \<Rightarrow> Some (word_text k left fill width w, ap') | _ \<Rightarrow> None)
      else if k = CHR ''s'' then
        (case ap of Str str # ap' \<Rightarrow>
           Some (padded (case str of None \<Rightarrow> ''(null)'' | Some t \<Rightarrow> t) width left CHR '' '', ap')
         | _ \<Rightarrow> None)
      else if k = CHR ''%'' then Some (''%'', ap)
      else Some ([CHR ''%'', k], ap))"

function kformat :: "string \<Rightarrow> karg list \<Rightarrow> string option" where
  "kformat [] ap = Some []"
| "kformat (c # cs) ap =
     (if c \<noteq> CHR ''%'' then map_option ((#) c) (kformat cs ap)
      else let f = scan_flags False CHR '' '' cs;
               w = scan_width 0 (snd (snd f))
           in case snd w of
                [] \<Rightarrow> Some []
              | k # rest \<Rightarrow>
                 (case conv_text k (fst f) (fst (snd f)) (fst w) ap of
                    None \<Rightarrow> None
                  | Some r \<Rightarrow> map_option ((@) (fst r)) (kformat rest (snd r))))"
  by pat_completeness auto
termination
proof (relation "measure (\<lambda>(cs, _). length cs)", goal_cases)
  case (3 c cs ap f w k rest r)
  then have "length (k # rest) \<le> length cs"
    using scan_width_length [of 0 "snd (snd f)"] scan_flags_length [of False "CHR '' ''" cs] by simp
  then show ?case by simp
qed auto

lemma run_bind_ext: "(\<And>x. f x = g x) \<Longrightarrow> run_bind m f = run_bind m g"
  by (rule arg_cong [of f g]) (rule ext)

lemma run_bind_ret_right: "run_bind m ret = m"
  by (cases m; cases "the m") (auto simp: run_bind_def ret_def)

lemma console_write_append: "console_write (a @ b) s = run_bind (console_write a s) (console_write b)"
  by (induction a arbitrary: s) (auto simp: run_bind_assoc intro!: run_bind_ext)

lemma console_write_Nil: "console_write [] = ret"
  by (rule ext) simp

lemma pad_write: "pad c n s = console_write (replicate n c) s"
  by (induction n arbitrary: s) (auto intro!: run_bind_ext)

lemma console_putc_write: "console_putc c s = console_write [c] s"
  by (simp add: console_write_Nil run_bind_ret_right)

lemma emit_write: "emit str width left fill s = console_write (padded str width left fill) s"
proof -
  have g: "nat (if width > int (length str) then width - int (length str) else 0) = nat (width - int (length str))"
    by simp
  show ?thesis
    unfolding emit_def padded_def Let_def g pad_write
    by (cases left) (simp_all add: console_write_append run_bind_ret_right)
qed

lemma unat_neg_word: "sint (v :: u32) < 0 \<Longrightarrow> unat (- v) = nat (- sint v)"
proof -
  assume "sint v < 0"
  moreover have "- sint v \<le> 2 ^ 31" using sint_ge [of v] by simp
  ultimately have "take_bit 32 (- sint v) = - sint v" by (simp add: take_bit_int_eq_self)
  moreover have "uint (- v) = take_bit 32 (- sint v)"
  proof -
    have "- v = word_of_int (- sint v)" by simp
    then show ?thesis by (simp only: unsigned_of_int) simp
  qed
  ultimately show ?thesis by (simp add: unat_eq_nat_uint)
qed

lemma unat_nonneg_word: "\<not> sint (v :: u32) < 0 \<Longrightarrow> unat v = nat (sint v)"
proof -
  assume "\<not> sint v < 0"
  moreover have "sint v < 2 ^ 31" using sint_lt [of v] by simp
  ultimately have "take_bit 32 (sint v) = sint v" by (simp add: take_bit_int_eq_self)
  then show ?thesis using uint_sint [of v] by (simp add: unat_eq_nat_uint)
qed

lemma dec_text_num:
  "run_bind (format_num (if sint v < 0 then - v else v) 10 False)
     (\<lambda>buf. run_bind (if sint v < 0 then emit (CHR ''-'' # buf) width left fill s else emit buf width left fill s) f) =
   run_bind (emit (dec_text v) width left fill s) f"
  by (simp add: format_num_text dec_text_def unat_neg_word unat_nonneg_word)

lemma convert_word:
  assumes "takes_word k"
  shows "convert k left fill width (Word w # ap) s =
    run_bind (console_write (word_text k left fill width w) s) (\<lambda>s. ret (s, ap))"
proof -
  from assms consider (c) "k = CHR ''c''" | (d) "k = CHR ''d'' \<or> k = CHR ''i''" | (u) "k = CHR ''u''"
    | (x) "k = CHR ''x'' \<or> k = CHR ''X''" | (p) "k = CHR ''p''" by (auto simp: takes_word_def)
  then show ?thesis
  proof cases
    case c
    then show ?thesis by (simp add: word_text_def convert_def int_arg_def emit_write)
  next
    case d
    then have "convert k left fill width (Word w # ap) s =
        run_bind (emit (dec_text w) width left fill s) (\<lambda>s. ret (s, ap))"
      using dec_text_num [of w width left fill s "\<lambda>s. ret (s, ap)"]
      by (auto simp: convert_def int_arg_def Let_def)
    then show ?thesis using d by (auto simp: word_text_def emit_write)
  next
    case u
    then show ?thesis by (simp add: word_text_def convert_def int_arg_def emit_write format_num_text)
  next
    case x
    then show ?thesis by (auto simp: word_text_def convert_def int_arg_def emit_write format_num_text)
  next
    case p
    then have "word_text k left fill width w = ''0x'' @ padded (num_text False 16 (unat w)) 8 False CHR ''0''"
      by (simp add: word_text_def)
    moreover have "convert k left fill width (Word w # ap) s = run_bind (console_write ''0x'' s) (\<lambda>s.
        run_bind (console_write (padded (num_text False 16 (unat w)) 8 False CHR ''0'') s) (\<lambda>s. ret (s, ap)))"
      using p unfolding convert_def
      by (simp add: int_arg_def emit_write format_num_text del: console_write.simps)
    ultimately show ?thesis by (simp only: console_write_append run_bind_assoc)
  qed
qed

lemma convert_text:
  assumes "conv_text k left fill width ap = Some (out, ap')"
  shows "convert k left fill width ap s = run_bind (console_write out s) (\<lambda>s. ret (s, ap'))"
proof (cases "takes_word k")
  case True
  then obtain w where "ap = Word w # ap'" "out = word_text k left fill width w"
    using assms by (auto simp: conv_text_def split: list.splits karg.splits)
  then show ?thesis using convert_word [OF True] by simp
next
  case False
  show ?thesis
  proof (cases "k = CHR ''s''")
    case True
    then obtain t where "ap = Str t # ap'"
        "out = padded (case t of None \<Rightarrow> ''(null)'' | Some t \<Rightarrow> t) width left CHR '' ''"
      using assms False by (auto simp: conv_text_def split: list.splits karg.splits)
    then show ?thesis using True by (simp add: convert_def str_arg_def emit_write)
  next
    case ns: False
    then have "ap' = ap" "out = (if k = CHR ''%'' then ''%'' else [CHR ''%'', k])"
      using assms False by (simp_all add: conv_text_def split: if_splits)
    then show ?thesis
      using False ns by (simp add: convert_def takes_word_def run_bind_assoc)
  qed
qed

lemma kvprintf_text:
  assumes "kformat fmt ap = Some out"
  shows "kvprintf fmt ap s = console_write out s"
  using assms
proof (induction fmt ap s arbitrary: out rule: kvprintf.induct)
  case (1 ap s)
  then show ?case by simp
next
  case (2 c cs ap s)
  show ?case
  proof (cases "c = CHR ''%''")
    case False
    then obtain out' where o: "kformat cs ap = Some out'" "out = c # out'" using 2(3) by auto
    then show ?thesis using 2(1) [OF False] False by (auto intro!: run_bind_ext)
  next
    case True
    define f where "f = scan_flags False CHR '' '' cs"
    define w where "w = scan_width 0 (snd (snd f))"
    show ?thesis
    proof (cases "snd w")
      case Nil
      then show ?thesis using True 2(3) by (simp add: f_def w_def)
    next
      case (Cons k rest)
      then obtain o1 ap' o2 where c: "conv_text k (fst f) (fst (snd f)) (fst w) ap = Some (o1, ap')"
          "kformat rest ap' = Some o2" "out = o1 @ o2"
        using True 2(3) by (auto simp: f_def w_def Let_def split: option.splits)
      have IH: "kvprintf rest (snd r) (fst r) = console_write o2 (fst r)" if "snd r = ap'" for r :: "'a console_scheme \<times> karg list"
        using 2(2) [of f w k rest r o2] True Cons that c(2) by (simp add: f_def w_def)
      have "kvprintf (c # cs) ap s = run_bind (convert k (fst f) (fst (snd f)) (fst w) ap s)
          (\<lambda>r. kvprintf rest (snd r) (fst r))"
        using True Cons by (simp add: f_def w_def Let_def)
      also have "\<dots> = console_write out s"
        unfolding convert_text [OF c(1)] run_bind_assoc c(3) console_write_append
        using IH [of "(_, ap')"] by (intro run_bind_ext) simp
      finally show ?thesis .
    qed
  qed
qed

lemma kprintf_eq: "kformat fmt args = Some out \<Longrightarrow> kprintf fmt args s = console_write out s"
  by (simp add: kprintf_def kvprintf_text)

definition digit_value :: "bool \<Rightarrow> char \<Rightarrow> nat" where
  "digit_value uppercase c = length (takeWhile (\<lambda>d. d \<noteq> c) (hex_digits uppercase))"

definition num_value :: "bool \<Rightarrow> nat \<Rightarrow> string \<Rightarrow> nat" where
  "num_value uppercase b str = foldl (\<lambda>a c. a * b + digit_value uppercase c) 0 str"

lemma digit_value_hex: "d < 16 \<Longrightarrow> digit_value uc (hex_digits uc ! d) = d"
proof -
  have "list_all (\<lambda>d. digit_value True (hex_digits True ! d) = d) [0..<16]"
    and "list_all (\<lambda>d. digit_value False (hex_digits False ! d) = d) [0..<16]"
    by code_simp+
  then show "d < 16 \<Longrightarrow> ?thesis"
    by (cases uc) (simp_all only: list_all_iff set_upt atLeastLessThan_iff, simp_all)
qed

lemma num_value_text:
  assumes "1 < b" "b \<le> 16"
  shows "num_value uc b (num_text uc b n) = n"
proof -
  have "foldr (\<lambda>c a. a * b + digit_value uc c) (map ((!) (hex_digits uc)) ds) 0 = foldr (\<lambda>d a. d + b * a) ds 0"
    if "\<forall>d \<in> set ds. d < 16" for ds
    using that by (induction ds) (simp_all add: digit_value_hex mult.commute)
  moreover have "\<forall>d \<in> set (lsd b n). d < 16" using lsd_digits [OF assms(1)] assms(2) by fastforce
  ultimately show ?thesis
    using lsd_value [OF assms(1), of n] by (simp add: num_value_def num_text_def rev_map foldl_conv_foldr)
qed

section \<open>Properties\<close>



text \<open>
  In base 10 and 16 \<^verbatim>\<open>format_num\<close> stays within its 16-byte buffers and produces the positional
  numeral of its argument: at most ten digits, without a leading zero unless the number is zero,
  whose value is the number.\<close>

theorem format_num_exact:
  assumes "base = 10 \<or> base = 16"
  shows "\<exists>str. format_num v base uc = ret str \<and> 0 < length str \<and> length str \<le> 10 \<and>
    num_value uc (unat base) str = unat v \<and> (hd str = CHR ''0'' \<longleftrightarrow> v = 0)"
proof -
  let ?b = "unat base" and ?t = "num_text uc (unat base) (unat v)"
  have b: "1 < ?b" "?b \<le> 16" using assms by auto
  have ne: "lsd ?b (unat v) \<noteq> []" by (subst lsd.simps) simp
  have hd: "hd ?t = hex_digits uc ! last (lsd ?b (unat v))"
    using ne by (simp add: num_text_def hd_map hd_rev)
  have last: "last (lsd ?b (unat v)) < 16" using lsd_digits [OF b(1) last_in_set [OF ne]] b(2) by linarith
  have "hd ?t = CHR ''0'' \<longleftrightarrow> last (lsd ?b (unat v)) = 0"
    using hd last digit_value_hex [of "last (lsd ?b (unat v))" uc] digit_value_hex [of 0 uc]
    by (auto simp: hex_digits_def split: if_splits)
  also have "\<dots> \<longleftrightarrow> v = 0"
  proof (cases "v = 0")
    case True
    have "lsd ?b 0 = [0]" using b(1) by (subst lsd.simps) simp
    then show ?thesis using True by simp
  next
    case False
    then have "0 < unat v" by (simp add: unat_gt_0)
    then show ?thesis using False lsd_last [OF b(1)] by simp
  qed
  finally have "hd ?t = CHR ''0'' \<longleftrightarrow> v = 0" .
  moreover have "0 < length ?t" using ne by (simp add: num_text_def)
  ultimately show ?thesis
    using format_num_text [OF assms] num_value_text [OF b] by auto
qed

theorem format_num_exact_witness:
  "\<exists>str. format_num 0xFFFFFFFF 16 True = ret str \<and> num_value True 16 str = 4294967295"
  using format_num_exact [of 16 "0xFFFFFFFF" True] by auto

text \<open>
  Zero padding puts the zeros before the sign: \<^verbatim>\<open>%05d\<close> of \<open>-42\<close> prints \<^verbatim>\<open>00-42\<close>.\<close>

theorem kprintf_zero_pad_sign: "kformat ''%05d'' [Word (- 42)] = Some ''00-42''"
  by code_simp

end
