(* ===== verification/Panic.thy ===== *)
theory Panic
  imports Kprintf
begin

text \<open>
  Dying (kernel/panic.c) and unhandled exceptions (\<^verbatim>\<open>isr_handler\<close> of kernel/idt.c). The output each
  produces is a function to the final console state; the call itself never returns, which is the
  outcome \<^const>\<open>Panic\<close>.
\<close>

record registers =
  r_ds :: u32
  r_edi :: u32
  r_esi :: u32
  r_ebp :: u32
  r_esp :: u32
  r_ebx :: u32
  r_edx :: u32
  r_ecx :: u32
  r_eax :: u32
  r_int_no :: u32
  r_err_code :: u32
  r_eip :: u32
  r_cs :: u32
  r_eflags :: u32
  r_useresp :: u32
  r_ss :: u32

abbreviation NL :: char where "NL \<equiv> CHR 0x0A"

definition panic_screen :: "string \<Rightarrow> karg list \<Rightarrow> 'a console_scheme \<Rightarrow> 'a console_scheme run" where
  "panic_screen fmt ap s =
     (let s = fst (console_capture_end s);
          s = console_set_color VGA_WHITE VGA_RED s
      in run_bind (console_write ([NL] @ ''*** KERNEL PANIC ***'' @ [NL]) s) (\<lambda>s.
         run_bind (kvprintf fmt ap s) (\<lambda>s.
         console_write ([NL] @ ''System halted.'' @ [NL]) s)))"

definition panic :: "string \<Rightarrow> karg list \<Rightarrow> 'a console_scheme \<Rightarrow> 'b run" where
  "panic fmt ap s = run_bind (panic_screen fmt ap s) (\<lambda>_. panic_run fmt)"

definition panic_regs_screen :: "string \<Rightarrow> registers \<Rightarrow> 'a console_scheme \<Rightarrow> 'a console_scheme run" where
  "panic_regs_screen reason regs s =
     (let s = fst (console_capture_end s);
          s = console_set_color VGA_WHITE VGA_RED s
      in run_bind (kprintf ([NL] @ ''*** KERNEL PANIC: %s (vector %u, error %08x) ***'' @ [NL])
                     [Str (Some reason), Word (r_int_no regs), Word (r_err_code regs)] s) (\<lambda>s.
         run_bind (kprintf (''eax=%08x ebx=%08x ecx=%08x edx=%08x'' @ [NL])
                     [Word (r_eax regs), Word (r_ebx regs), Word (r_ecx regs), Word (r_edx regs)] s) (\<lambda>s.
         run_bind (kprintf (''esi=%08x edi=%08x ebp=%08x esp=%08x'' @ [NL])
                     [Word (r_esi regs), Word (r_edi regs), Word (r_ebp regs), Word (r_esp regs)] s) (\<lambda>s.
         run_bind (kprintf (''eip=%08x cs=%04x ds=%04x eflags=%08x'' @ [NL])
                     [Word (r_eip regs), Word (r_cs regs), Word (r_ds regs), Word (r_eflags regs)] s) (\<lambda>s.
         console_write (''System halted.'' @ [NL]) s)))))"

definition panic_with_regs :: "string \<Rightarrow> registers \<Rightarrow> 'a console_scheme \<Rightarrow> 'b run" where
  "panic_with_regs reason regs s = run_bind (panic_regs_screen reason regs s) (\<lambda>_. panic_run reason)"

definition exception_names :: "string list" where
  "exception_names =
    [''Division by zero'', ''Debug'', ''Non-maskable interrupt'', ''Breakpoint'',
     ''Overflow'', ''Bound range exceeded'', ''Invalid opcode'',
     ''Device not available'', ''Double fault'', ''Coprocessor segment overrun'',
     ''Invalid TSS'', ''Segment not present'', ''Stack-segment fault'',
     ''General protection fault'', ''Page fault'', ''Reserved'',
     ''x87 floating-point exception'', ''Alignment check'', ''Machine check'',
     ''SIMD floating-point exception'', ''Virtualization exception'',
     ''Control protection exception'', ''Reserved'', ''Reserved'', ''Reserved'',
     ''Reserved'', ''Reserved'', ''Reserved'', ''Hypervisor injection exception'',
     ''VMM communication exception'', ''Security exception'', ''Reserved'']"

text \<open>\<open>cr2\<close> is the processor's fault address register.\<close>

definition isr_handler :: "u32 \<Rightarrow> registers \<Rightarrow> 'a console_scheme \<Rightarrow> 'b run" where
  "isr_handler cr2 regs s =
     (let name = (if r_int_no regs < 32 then exception_names ! unat (r_int_no regs) else ''Unknown'') in
      run_bind
        (if r_int_no regs = 14
         then kprintf ([NL] @ ''Page fault: %s access to %08x from %s mode (%s)'' @ [NL])
                [Str (Some (if r_err_code regs AND 2 \<noteq> 0 then ''write'' else ''read'')),
                 Word cr2,
                 Str (Some (if r_err_code regs AND 4 \<noteq> 0 then ''user'' else ''kernel'')),
                 Str (Some (if r_err_code regs AND 1 \<noteq> 0 then ''protection violation''
                            else ''page not present''))] s
         else ret s)
        (\<lambda>s. panic_with_regs name regs s))"

section \<open>Properties\<close>

lemma live_console_recolor [simp]:
  "live_console (s\<lparr>capture_buf := b\<rparr>) = live_console s" "live_console (s\<lparr>color := c\<rparr>) = live_console s"
  by (simp_all add: live_console_def vga_inv_def)

lemma console_write_live_at:
  assumes "live_console s" "capture_buf s = NULL"
  obtains s' where "console_write out s = ret s'" "live_console s'" "capture_buf s' = NULL"
    "uart_sent (trace s') = uart_sent (trace s) @ map of_char (crlf out)"
proof -
  obtain s' where s': "console_write out s = ret s'" "live_console s'" "vga_frame s s'"
      "uart_sent (trace s') = uart_sent (trace s) @ map of_char (crlf out)"
    using console_write_live [OF assms] by blast
  moreover have "capture_buf s' = NULL"
    using console_more [OF vga_frame_more(1) [OF s'(3)]] assms(2) by simp
  ultimately show thesis using that by blast
qed

lemma panic_prints:
  fixes s :: "'a console_scheme"
  assumes "live_console s" "kformat fmt ap = Some msg"
  shows "(panic fmt ap s :: 'b run) = panic_run fmt \<and>
    (\<exists>s'. panic_screen fmt ap s = ret s' \<and> capture_buf s' = NULL \<and>
      uart_sent (trace s') = uart_sent (trace s) @ map of_char (crlf
        ([NL] @ ''*** KERNEL PANIC ***'' @ [NL] @ msg @ [NL] @ ''System halted.'' @ [NL])))"
proof -
  let ?s0 = "console_set_color VGA_WHITE VGA_RED (fst (console_capture_end s))"
  let ?out = "([NL] @ ''*** KERNEL PANIC ***'' @ [NL]) @ msg @ ([NL] @ ''System halted.'' @ [NL])"
  have eq: "panic_screen fmt ap s = console_write ?out ?s0"
    unfolding panic_screen_def Let_def kvprintf_text [OF assms(2)] console_write_append by simp
  have s0: "live_console ?s0" "capture_buf ?s0 = NULL" "trace ?s0 = trace s"
    using assms(1) by (simp_all add: console_set_color_def vga_set_color_def console_capture_end_def)
  obtain s' where s': "console_write ?out ?s0 = ret s'" "capture_buf s' = NULL"
      "uart_sent (trace s') = uart_sent (trace ?s0) @ map of_char (crlf ?out)"
    using console_write_live_at [OF s0(1,2)] by blast
  have "(panic fmt ap s :: 'b run) = panic_run fmt" using s'(1) eq by (simp add: panic_def)
  then show ?thesis using s' s0(3) unfolding eq by (auto simp: append_assoc)
qed

text \<open>
  A panic is always visible: with a working UART, and even when a command's output is being
  captured, \<^verbatim>\<open>panic\<close> with matching arguments prints the banner, the formatted message and the
  closing line on the serial console, drops the capture, and then halts.\<close>

theorem panic_reaches_console:
  fixes s :: "'a console_scheme"
  assumes "live_console s" "kformat fmt ap = Some msg"
  shows "(panic fmt ap s :: 'b run) = panic_run fmt \<and>
    (\<exists>s'. panic_screen fmt ap s = ret s' \<and> capture_buf s' = NULL \<and>
      uart_sent (trace s') = uart_sent (trace s) @ map of_char (crlf
        ([NL] @ ''*** KERNEL PANIC ***'' @ [NL] @ msg @ [NL] @ ''System halted.'' @ [NL])))"
  using assms by (rule panic_prints)

theorem panic_reaches_console_witness:
  "\<exists>s'. panic_screen ''out of memory'' [] (console_capture_begin 0x1000 64 (console_boot (\<lambda>_. 0x20) (\<lambda>_. None))) = ret s' \<and>
     capture_buf s' = NULL"
proof -
  have "live_console (console_capture_begin 0x1000 64 (console_boot (\<lambda>_. 0x20) (\<lambda>_. None)))"
    using console_boot_live(1) by (simp add: console_capture_begin_def live_console_def vga_inv_def)
  from panic_reaches_console [OF this, of "''out of memory''" "[]"] show ?thesis by auto
qed

end
