(* ===== verification/Ramfs.thy ===== *)
theory Ramfs
  imports Panic
begin

text \<open>
  The filesystem (fs/ramfs.c). A node object is an entry of an address-indexed store; a pointer to
  no node faults when dereferenced, so use after free and NULL dereferences are faults of the
  model. Names are the characters before the terminator; a path is a string. File data lives in
  the byte memory of the kernel heap, from which nodes and data buffers are allocated.
\<close>

section \<open>State\<close>

definition RAMFS_NAME_MAX :: nat where "RAMFS_NAME_MAX = 32"
definition RAMFS_PATH_MAX :: nat where "RAMFS_PATH_MAX = 256"

datatype ramfs_type = RAMFS_FILE | RAMFS_DIR

record ramfs_node =
  n_name :: string
  n_type :: ramfs_type
  n_data :: addr
  n_size :: u32
  n_capacity :: u32
  n_parent :: addr
  n_children :: addr
  n_next :: addr

definition sizeof_node :: u32 where "sizeof_node = 32 + 4 + 4 + 4 + 4 + 4 + 4 + 4"

record ramfs = console +
  nodes :: "addr \<Rightarrow> ramfs_node option"
  root :: addr

text \<open>The object of a zeroed allocation.\<close>

definition zero_node :: ramfs_node where
  "zero_node = \<lparr>n_name = [], n_type = RAMFS_FILE, n_data = NULL, n_size = 0, n_capacity = 0,
     n_parent = NULL, n_children = NULL, n_next = NULL\<rparr>"

definition node_at :: "addr \<Rightarrow> 'a ramfs_scheme \<Rightarrow> ramfs_node run" where
  "node_at p s = (case nodes s p of Some n \<Rightarrow> ret n | None \<Rightarrow> fault_run)"

definition upd_node :: "addr \<Rightarrow> (ramfs_node \<Rightarrow> ramfs_node) \<Rightarrow> 'a ramfs_scheme \<Rightarrow> 'a ramfs_scheme run" where
  "upd_node p f s = run_bind (node_at p s) (\<lambda>n. ret (s\<lparr>nodes := (nodes s)(p := Some (f n))\<rparr>))"

definition free_node :: "addr \<Rightarrow> 'a ramfs_scheme \<Rightarrow> 'a ramfs_scheme run" where
  "free_node p s = run_bind (kfree (heap s) p) (\<lambda>h. ret (s\<lparr>heap := h, nodes := (nodes s)(p := None)\<rparr>))"

section \<open>Nodes and links\<close>

definition ramfs_root :: "'a ramfs_scheme \<Rightarrow> addr" where
  "ramfs_root s = root s"

definition node_new :: "string \<Rightarrow> ramfs_type \<Rightarrow> 'a ramfs_scheme \<Rightarrow> ('a ramfs_scheme \<times> addr) run" where
  "node_new name type s = run_bind (kzalloc (heap s) sizeof_node) (\<lambda>(h, n).
     let s = s\<lparr>heap := h\<rparr> in
     if n = NULL then ret (s, NULL)
     else ret (s\<lparr>nodes := (nodes s)(n := Some (zero_node\<lparr>n_name := str_lcpy RAMFS_NAME_MAX name, n_type := type\<rparr>))\<rparr>, n))"

definition attach :: "addr \<Rightarrow> addr \<Rightarrow> 'a ramfs_scheme \<Rightarrow> 'a ramfs_scheme run" where
  "attach parent child s =
     run_bind (upd_node child (\<lambda>c. c\<lparr>n_parent := parent\<rparr>) s) (\<lambda>s.
     run_bind (node_at parent s) (\<lambda>p.
     run_bind (upd_node child (\<lambda>c. c\<lparr>n_next := n_children p\<rparr>) s) (\<lambda>s.
     upd_node parent (\<lambda>p. p\<lparr>n_children := child\<rparr>) s)))"

text \<open>The pointer-to-pointer of \<^verbatim>\<open>detach\<close> addresses a child link or a sibling link.\<close>

datatype link = Child_of addr | Next_of addr

primrec read_link :: "link \<Rightarrow> 'a ramfs_scheme \<Rightarrow> addr run" where
  "read_link (Child_of p) s = run_bind (node_at p s) (\<lambda>n. ret (n_children n))"
| "read_link (Next_of p) s = run_bind (node_at p s) (\<lambda>n. ret (n_next n))"

primrec write_link :: "link \<Rightarrow> addr \<Rightarrow> 'a ramfs_scheme \<Rightarrow> 'a ramfs_scheme run" where
  "write_link (Child_of p) v s = upd_node p (\<lambda>n. n\<lparr>n_children := v\<rparr>) s"
| "write_link (Next_of p) v s = upd_node p (\<lambda>n. n\<lparr>n_next := v\<rparr>) s"

partial_function (option) detach_find :: "link \<Rightarrow> addr \<Rightarrow> 'a ramfs_scheme \<Rightarrow> (link \<times> addr) run" where
  "detach_find pp node s = run_bind (read_link pp s)
     (\<lambda>q. if q \<noteq> NULL \<and> q \<noteq> node then detach_find (Next_of q) node s else ret (pp, q))"

definition detach :: "addr \<Rightarrow> 'a ramfs_scheme \<Rightarrow> 'a ramfs_scheme run" where
  "detach node s =
     run_bind (node_at node s) (\<lambda>n.
     run_bind (detach_find (Child_of (n_parent n)) node s) (\<lambda>(pp, q).
     run_bind (if q \<noteq> NULL then write_link pp (n_next n) s else ret s) (\<lambda>s.
     upd_node node (\<lambda>n. n\<lparr>n_parent := NULL, n_next := NULL\<rparr>) s)))"

partial_function (option) find_child_loop :: "addr \<Rightarrow> string \<Rightarrow> 'a ramfs_scheme \<Rightarrow> addr run" where
  "find_child_loop c name s =
     (if c = NULL then ret NULL
      else run_bind (node_at c s) (\<lambda>n.
           if str_cmp (n_name n) name = 0 then ret c else find_child_loop (n_next n) name s))"

definition find_child :: "addr \<Rightarrow> string \<Rightarrow> 'a ramfs_scheme \<Rightarrow> addr run" where
  "find_child dir name s = run_bind (node_at dir s) (\<lambda>d. find_child_loop (n_children d) name s)"

section \<open>Paths\<close>

abbreviation slash :: "char \<Rightarrow> bool" where "slash c \<equiv> c = CHR ''/''"

text \<open>
  \<open>walk_step\<close> is the lookup of one component: the inner \<^verbatim>\<open>None\<close> is the early \<^verbatim>\<open>return NULL\<close> of a
  component below a file. The loop returns the node, the \<^verbatim>\<open>parent_out\<close> and the \<^verbatim>\<open>name_out\<close>
  results; \<open>want\<close> tells whether the caller passed \<^verbatim>\<open>parent_out\<close>.
\<close>

definition walk_step :: "addr \<Rightarrow> string \<Rightarrow> 'a ramfs_scheme \<Rightarrow> addr option run" where
  "walk_step cur component s =
     (if str_cmp component ''.'' = 0 then ret (Some cur)
      else if str_cmp component ''..'' = 0
      then run_bind (node_at cur s) (\<lambda>c. ret (Some (if n_parent c \<noteq> NULL then n_parent c else cur)))
      else run_bind (node_at cur s) (\<lambda>c.
           if n_type c \<noteq> RAMFS_DIR then ret None
           else run_bind (find_child cur component s) (\<lambda>q. ret (Some q))))"

lemma component_pos:
  assumes "dropWhile slash p \<noteq> []"
  shows "0 < length (takeWhile (\<lambda>c. \<not> slash c) (dropWhile slash p))"
  using hd_dropWhile [OF assms] assms by (cases "dropWhile slash p") simp_all

function walk_loop :: "addr \<Rightarrow> string \<Rightarrow> bool \<Rightarrow> 'a ramfs_scheme \<Rightarrow> (addr \<times> addr \<times> string) run" where
  "walk_loop cur p want s =
     (let p = dropWhile slash p in
      if p = [] then ret (cur, NULL, [])
      else
        let component = takeWhile (\<lambda>c. \<not> slash c) p in
        if length component \<ge> RAMFS_NAME_MAX then ret (NULL, NULL, [])
        else
          let rest = dropWhile slash (drop (length component) p);
              last = (rest = [])
          in run_bind (walk_step cur component s) (\<lambda>r.
               case r of
                 None \<Rightarrow> ret (NULL, NULL, [])
               | Some next \<Rightarrow>
                   if last \<and> want \<and> str_cmp component ''.'' \<noteq> 0 \<and> str_cmp component ''..'' \<noteq> 0
                   then ret (next, cur, str_lcpy RAMFS_NAME_MAX component)
                   else if next = NULL then ret (NULL, NULL, [])
                   else walk_loop next rest want s))"
  by pat_completeness auto

termination
proof (relation "measure (\<lambda>(_, p, _, _). length p)", goal_cases)
  case (2 cur p want s q component rest last r)
  have "length rest \<le> length q - length component"
    using 2 by (simp add: length_dropWhile_le [THEN order_trans])
  moreover have "length q \<le> length p" using 2 by (simp add: length_dropWhile_le)
  moreover have "0 < length component" using 2 component_pos [of p] by simp
  moreover have "length component \<le> length q" using 2 by (simp add: length_takeWhile_le)
  ultimately have "length rest < length p" by linarith
  then show ?case by simp
qed simp

declare walk_loop.simps [simp del]

definition walk :: "addr \<Rightarrow> string \<Rightarrow> bool \<Rightarrow> 'a ramfs_scheme \<Rightarrow> (addr \<times> addr \<times> string) run" where
  "walk cwd path want s =
     walk_loop (if path \<noteq> [] \<and> slash (hd path) then root s else cwd) path want s"

definition ramfs_resolve :: "addr \<Rightarrow> string \<Rightarrow> 'a ramfs_scheme \<Rightarrow> addr run" where
  "ramfs_resolve cwd path s =
     run_bind (walk (if cwd \<noteq> NULL then cwd else root s) path False s) (\<lambda>(n, _, _). ret n)"

definition ramfs_create :: "addr \<Rightarrow> string \<Rightarrow> ramfs_type \<Rightarrow> 'a ramfs_scheme \<Rightarrow> ('a ramfs_scheme \<times> addr) run" where
  "ramfs_create cwd path type s =
     run_bind (walk (if cwd \<noteq> NULL then cwd else root s) path True s) (\<lambda>(existing, parent, name).
     if existing \<noteq> NULL \<or> parent = NULL \<or> name = [] then ret (s, NULL)
     else run_bind (node_at parent s) (\<lambda>p.
       if n_type p \<noteq> RAMFS_DIR then ret (s, NULL)
       else run_bind (node_new name type s) (\<lambda>(s, n).
         if n \<noteq> NULL then run_bind (attach parent n s) (\<lambda>s. ret (s, n)) else ret (s, n))))"

section \<open>Contents\<close>

text \<open>
  The source of a write is a buffer in memory or a string constant of the kernel image; a copy reads
  it when it happens. \<open>app\<close> is the append flag.
\<close>

datatype buffer = At addr | Const string

primrec copy_from :: "buffer \<Rightarrow> addr \<Rightarrow> u32 \<Rightarrow> mem \<Rightarrow> mem" where
  "copy_from (At src) dst len m = memcpy m dst src len"
| "copy_from (Const str) dst len m = poke dst (take (unat len) str) m"

partial_function (option) grow_capacity :: "u32 \<Rightarrow> u32 \<Rightarrow> u32 run" where
  "grow_capacity newcap needed =
     (if newcap < needed then grow_capacity (newcap * 2) needed else ret newcap)"

text \<open>Making room: the branch that moves the data to a larger buffer.\<close>

definition write_reserve :: "addr \<Rightarrow> u32 \<Rightarrow> u32 \<Rightarrow> 'a ramfs_scheme \<Rightarrow> ('a ramfs_scheme \<times> bool) run" where
  "write_reserve file base needed s = run_bind (node_at file s) (\<lambda>f.
     if needed > n_capacity f
     then run_bind (grow_capacity (if n_capacity f \<noteq> 0 then n_capacity f else 64) needed) (\<lambda>newcap.
          run_bind (kmalloc (heap s) newcap) (\<lambda>(h, buf).
          let s = s\<lparr>heap := h\<rparr> in
          if buf = NULL then ret (s, False)
          else
            let s = (if base \<noteq> 0
                     then s\<lparr>heap := (heap s)\<lparr>bytes := memcpy (bytes (heap s)) buf (n_data f) base\<rparr>\<rparr>
                     else s)
            in run_bind (kfree (heap s) (n_data f)) (\<lambda>h.
               run_bind (upd_node file (\<lambda>f. f\<lparr>n_data := buf, n_capacity := newcap\<rparr>) (s\<lparr>heap := h\<rparr>)) (\<lambda>s.
               ret (s, True)))))
     else ret (s, True))"

definition ramfs_write :: "addr \<Rightarrow> buffer \<Rightarrow> u32 \<Rightarrow> bool \<Rightarrow> 'a ramfs_scheme \<Rightarrow> ('a ramfs_scheme \<times> bool) run" where
  "ramfs_write file data len app s =
     (if file = NULL then ret (s, False)
      else run_bind (node_at file s) (\<lambda>f.
        if n_type f \<noteq> RAMFS_FILE then ret (s, False)
        else
          let base = (if app then n_size f else 0);
              needed = base + len
          in run_bind (write_reserve file base needed s) (\<lambda>(s, ok).
             if \<not> ok then ret (s, False)
             else run_bind (node_at file s) (\<lambda>f.
               let s = s\<lparr>heap := (heap s)\<lparr>bytes := copy_from data (n_data f + base) len (bytes (heap s))\<rparr>\<rparr>
               in run_bind (upd_node file (\<lambda>f. f\<lparr>n_size := base + len\<rparr>) s) (\<lambda>s. ret (s, True))))))"

section \<open>Removing and moving\<close>

text \<open>
  The loop of \<^verbatim>\<open>free_tree\<close> over a sibling list, with the recursive call on each sibling unfolded
  once: its children, then its data and the node itself.
\<close>

partial_function (option) free_list :: "addr \<Rightarrow> 'a ramfs_scheme \<Rightarrow> 'a ramfs_scheme run" where
  "free_list c s =
     (if c = NULL then ret s
      else run_bind (node_at c s) (\<lambda>n.
           run_bind (free_list (n_children n) s) (\<lambda>s.
           run_bind (node_at c s) (\<lambda>n'.
           run_bind (kfree (heap s) (n_data n')) (\<lambda>h.
           run_bind (free_node c (s\<lparr>heap := h\<rparr>)) (\<lambda>s.
           free_list (n_next n) s))))))"

definition free_tree :: "addr \<Rightarrow> 'a ramfs_scheme \<Rightarrow> 'a ramfs_scheme run" where
  "free_tree node s =
     run_bind (node_at node s) (\<lambda>n.
     run_bind (free_list (n_children n) s) (\<lambda>s.
     run_bind (node_at node s) (\<lambda>n.
     run_bind (kfree (heap s) (n_data n)) (\<lambda>h.
     free_node node (s\<lparr>heap := h\<rparr>)))))"

definition ramfs_delete :: "addr \<Rightarrow> bool \<Rightarrow> 'a ramfs_scheme \<Rightarrow> ('a ramfs_scheme \<times> bool) run" where
  "ramfs_delete node recursive s =
     (if node = NULL \<or> node = root s then ret (s, False)
      else run_bind (node_at node s) (\<lambda>n.
        if n_parent n = NULL then ret (s, False)
        else if n_type n = RAMFS_DIR \<and> n_children n \<noteq> NULL \<and> \<not> recursive then ret (s, False)
        else run_bind (detach node s) (\<lambda>s.
             run_bind (free_tree node s) (\<lambda>s. ret (s, True)))))"

partial_function (option) is_below :: "addr \<Rightarrow> addr \<Rightarrow> 'a ramfs_scheme \<Rightarrow> bool run" where
  "is_below p node s =
     (if p = NULL then ret False
      else if p = node then ret True
      else run_bind (node_at p s) (\<lambda>n. is_below (n_parent n) node s))"

definition ramfs_move :: "addr \<Rightarrow> addr \<Rightarrow> string \<Rightarrow> 'a ramfs_scheme \<Rightarrow> ('a ramfs_scheme \<times> bool) run" where
  "ramfs_move node new_parent new_name s =
     (if node = NULL \<or> node = root s \<or> new_parent = NULL then ret (s, False)
      else run_bind (node_at new_parent s) (\<lambda>np.
        if n_type np \<noteq> RAMFS_DIR then ret (s, False)
        else run_bind (find_child new_parent new_name s) (\<lambda>c.
          if c \<noteq> NULL then ret (s, False)
          else run_bind (is_below new_parent node s) (\<lambda>below.
            if below then ret (s, False)
            else run_bind (detach node s) (\<lambda>s.
                 run_bind (upd_node node (\<lambda>n. n\<lparr>n_name := str_lcpy RAMFS_NAME_MAX new_name\<rparr>) s) (\<lambda>s.
                 run_bind (attach new_parent node s) (\<lambda>s. ret (s, True))))))))"

text \<open>\<^verbatim>\<open>ramfs_path\<close> collects at most 32 names, deepest first, and prints them top-down.\<close>

partial_function (option) path_chain :: "addr \<Rightarrow> nat \<Rightarrow> 'a ramfs_scheme \<Rightarrow> string list run" where
  "path_chain n depth s = run_bind (node_at n s) (\<lambda>x.
     if n_parent x \<noteq> NULL \<and> depth < 32
     then run_bind (path_chain (n_parent x) (depth + 1) s) (\<lambda>ns. ret (n_name x # ns))
     else ret [])"

definition append_bounded :: "nat \<Rightarrow> string \<Rightarrow> string \<Rightarrow> string" where
  "append_bounded len buf str = buf @ str_lcpy (len - length buf) str"

definition ramfs_path :: "addr \<Rightarrow> nat \<Rightarrow> 'a ramfs_scheme \<Rightarrow> string run" where
  "ramfs_path node len s = run_bind (node_at node s) (\<lambda>n.
     if n_parent n = NULL then ret (str_lcpy len ''/'')
     else run_bind (path_chain node 0 s) (\<lambda>chain.
          ret (fold (\<lambda>name buf. append_bounded len (append_bounded len buf ''/'') name) (rev chain) [])))"

section \<open>The initial tree\<close>

definition RAPTOR_NAME :: string where "RAPTOR_NAME = ''Raptor''"
definition RAPTOR_VERSION :: string where "RAPTOR_VERSION = ''0.2.1''"
definition RAPTOR_CODENAME :: string where "RAPTOR_CODENAME = ''Velociraptor''"
definition RAPTOR_ARCH :: string where "RAPTOR_ARCH = ''i386''"

definition preload_file :: "string \<Rightarrow> string \<Rightarrow> 'a ramfs_scheme \<Rightarrow> 'a ramfs_scheme run" where
  "preload_file path contents s =
     run_bind (ramfs_create (root s) path RAMFS_FILE s) (\<lambda>(s, f).
     if f \<noteq> NULL
     then run_bind (ramfs_write f (Const contents) (of_nat (length contents)) False s) (\<lambda>(s, _). ret s)
     else ret s)"

definition motd_text :: string where
  "motd_text = ''Welcome to '' @ RAPTOR_NAME @ '' '' @ RAPTOR_VERSION @ '' ('' @ RAPTOR_CODENAME @ '')!'' @ [NL] @
     ''Type 'help' to see the available commands.'' @ [NL]"

definition DQ :: char where "DQ = CHR 0x22"

definition os_release_text :: string where
  "os_release_text =
     ''NAME='' @ [DQ] @ RAPTOR_NAME @ [DQ, NL] @
     ''VERSION='' @ [DQ] @ RAPTOR_VERSION @ '' ('' @ RAPTOR_CODENAME @ '')'' @ [DQ, NL] @
     ''ID=raptor'' @ [NL] @
     ''PRETTY_NAME='' @ [DQ] @ RAPTOR_NAME @ '' '' @ RAPTOR_VERSION @ [DQ, NL] @
     ''HOME_URL='' @ [DQ] @ ''https://github.com/ramiraptor/raptor-kernel'' @ [DQ, NL]"

definition readme_text :: string where
  "readme_text =
     RAPTOR_NAME @ '' is a small Unix-like teaching kernel.'' @ [NL] @
     [NL] @
     ''Everything you see in this filesystem lives in RAM and is'' @ [NL] @
     ''rebuilt on every boot. Try things like:'' @ [NL] @
     [NL] @
     ''    ls /etc'' @ [NL] @
     ''    cat /etc/motd'' @ [NL] @
     ''    echo hello > /tmp/note && cat /tmp/note'' @ [NL] @
     ''    free'' @ [NL] @
     ''    uname -a'' @ [NL]"

primrec create_dirs :: "string list \<Rightarrow> 'a ramfs_scheme \<Rightarrow> 'a ramfs_scheme run" where
  "create_dirs [] s = ret s"
| "create_dirs (d # ds) s = run_bind (ramfs_create (root s) d RAMFS_DIR s) (\<lambda>(s, _). create_dirs ds s)"

definition ramfs_init :: "'a ramfs_scheme \<Rightarrow> 'a ramfs_scheme run" where
  "ramfs_init s =
     run_bind (node_new [] RAMFS_DIR s) (\<lambda>(s, r).
     let s = s\<lparr>root := r\<rparr> in
     run_bind (create_dirs [''/bin'', ''/etc'', ''/home'', ''/home/user'', ''/tmp'', ''/usr'', ''/var''] s) (\<lambda>s.
     run_bind (preload_file ''/etc/motd'' motd_text s) (\<lambda>s.
     run_bind (preload_file ''/etc/os-release'' os_release_text s) (\<lambda>s.
     preload_file ''/README.txt'' readme_text s))))"

end
