(* ===== verification/Paging.thy ===== *)
theory Paging
  imports Pmm
begin

text \<open>
  The kernel's page directory (mm/paging.c). The directory is an array of 1024 words, zero before
  \<^verbatim>\<open>paging_init\<close>; what it means is given by \<open>translate\<close>, the i386 rule for directories of 4 MiB
  pages (CR4.PSE set), and the main theorem determines the whole resulting address space.
\<close>

definition PDE_PRESENT :: u32 where "PDE_PRESENT = push_bit 0 1"
definition PDE_WRITE :: u32 where "PDE_WRITE = push_bit 1 1"
definition PDE_LARGE :: u32 where "PDE_LARGE = push_bit 7 1"
definition KERNEL_PDE :: u32 where "KERNEL_PDE = drop_bit 22 KERNEL_VBASE"

record paging =
  page_directory :: "u32 \<Rightarrow> u32"
  cr3 :: u32

function paging_count :: "u32 \<Rightarrow> u32 \<Rightarrow> paging \<Rightarrow> u32" where
  "paging_count i n s =
     (if i < 1024
      then paging_count (i + 1) (if page_directory s i AND PDE_PRESENT \<noteq> 0 then n + 1 else n) s
      else n)"
  by pat_completeness auto
termination
  by (relation "measure (\<lambda>(i, n, s). 1024 - unat i)")
    (simp_all add: word_less_nat_alt unat_word_ariths)

definition paging_mapped_mib :: "paging \<Rightarrow> u32" where
  "paging_mapped_mib s = paging_count 0 0 s * 4"

function paging_map :: "u32 \<Rightarrow> u32 \<Rightarrow> (u32 \<Rightarrow> u32) \<Rightarrow> (u32 \<Rightarrow> u32) run" where
  "paging_map i entries pd =
     (if i < entries
      then if KERNEL_PDE + i < 1024
           then paging_map (i + 1) entries
                  (pd(KERNEL_PDE + i := push_bit 22 i OR PDE_PRESENT OR PDE_WRITE OR PDE_LARGE))
           else fault_run
      else ret pd)"
  by pat_completeness auto
termination
proof (relation "measure (\<lambda>(i, n, s). unat n - unat i)")
  fix i n :: u32 and pd :: "u32 \<Rightarrow> u32" and pd'
  assume "i < n"
  then have "unat i < unat n" by (simp add: word_less_nat_alt)
  moreover have "unat (i + 1) = unat i + 1"
    using calculation unat_u32_lt [of n] unat_add_offset [of i 1] by simp
  ultimately show "((i + 1, n, pd'), i, n, pd) \<in> measure (\<lambda>(i, n, s). unat n - unat i)"
    by simp
qed simp

declare paging_count.simps [simp del] paging_map.simps [simp del]

text \<open>\<open>pd_addr\<close> is the link-time address of the static array.\<close>

definition paging_init :: "addr \<Rightarrow> pmm \<Rightarrow> paging \<Rightarrow> paging run" where
  "paging_init pd_addr pm s =
     (let mib = (pmm_total_kib pm + 1023) div 1024;
          entries = (mib + 3) div 4;
          entries = (if entries > 1024 - KERNEL_PDE then 1024 - KERNEL_PDE else entries)
      in run_bind (paging_map 0 entries (page_directory s))
           (\<lambda>pd. ret (s\<lparr>page_directory := pd, cr3 := V2P pd_addr\<rparr>)))"

definition paging_bss :: paging where
  "paging_bss = \<lparr>page_directory = (\<lambda>_. 0), cr3 = 0\<rparr>"

section \<open>What a directory means\<close>

text \<open>
  The processor takes entry \<^verbatim>\<open>va >> 22\<close>. If its present bit is clear the access faults; if the
  large bit is set too, the top ten bits of the entry replace those of the address.
\<close>

definition translate :: "(u32 \<Rightarrow> u32) \<Rightarrow> u32 \<Rightarrow> u32 option" where
  "translate pd va =
     (let e = pd (drop_bit 22 va) in
      if bit e 0 \<and> bit e 7 then Some ((e AND NOT (mask 22)) OR (va AND mask 22)) else None)"

definition window_entries :: "pmm \<Rightarrow> nat" where
  "window_entries pm = (4 * unat (total_frames pm) + 4095) div 4096"

lemma KERNEL_PDE_val: "KERNEL_PDE = 768"
  by (simp add: KERNEL_PDE_def KERNEL_VBASE_def)

definition pde :: "u32 \<Rightarrow> u32" where
  "pde i = push_bit 22 i OR PDE_PRESENT OR PDE_WRITE OR PDE_LARGE"

lemma paging_map_spec:
  assumes "unat entries \<le> 256"
  shows "paging_map i entries pd =
    ret (\<lambda>j. if unat KERNEL_PDE + unat i \<le> unat j \<and> unat j < unat KERNEL_PDE + unat entries
             then pde (j - KERNEL_PDE) else pd j)"
  using assms
proof (induction i entries pd rule: paging_map.induct)
  case (1 i entries pd)
  show ?case
  proof (cases "i < entries")
    case False
    then have "paging_map i entries pd = ret pd" by (subst paging_map.simps) simp
    with False show ?thesis by (auto simp: word_less_nat_alt intro!: ext)
  next
    case True
    then have lt: "unat i < unat entries" "unat i < 256" using 1(2) by (auto simp: word_less_nat_alt)
    have ui: "unat (i + 1) = unat i + 1" using lt unat_add_offset [of i 1] by simp
    have uk: "unat (KERNEL_PDE + i) = 768 + unat i"
      using lt unat_add_offset [of KERNEL_PDE "unat i"] by (simp add: KERNEL_PDE_val)
    then have bound: "KERNEL_PDE + i < 1024" using lt by (simp add: word_less_nat_alt)
    have "paging_map i entries pd = paging_map (i + 1) entries (pd(KERNEL_PDE + i := pde i))"
      using True bound unfolding pde_def by (subst paging_map.simps) simp
    also have "\<dots> = ret (\<lambda>j. if unat KERNEL_PDE + unat (i + 1) \<le> unat j \<and> unat j < unat KERNEL_PDE + unat entries
             then pde (j - KERNEL_PDE) else (pd(KERNEL_PDE + i := pde i)) j)"
      using 1(1) [OF True bound 1(2)] unfolding pde_def .
    also have "(\<lambda>j. if unat KERNEL_PDE + unat (i + 1) \<le> unat j \<and> unat j < unat KERNEL_PDE + unat entries
             then pde (j - KERNEL_PDE) else (pd(KERNEL_PDE + i := pde i)) j) =
        (\<lambda>j. if unat KERNEL_PDE + unat i \<le> unat j \<and> unat j < unat KERNEL_PDE + unat entries
             then pde (j - KERNEL_PDE) else pd j)" (is "?f = ?g")
    proof
      fix j
      show "?f j = ?g j"
      proof (cases "j = KERNEL_PDE + i")
        case True
        then show ?thesis using lt uk ui by (simp add: KERNEL_PDE_val)
      next
        case False
        then have "unat j \<noteq> 768 + unat i" using uk u32_eq_iff by metis
        then show ?thesis using False ui by (auto simp: KERNEL_PDE_val)
      qed
    qed
    finally show ?thesis .
  qed
qed

lemma pde_bits: "bit (pde i) n \<longleftrightarrow> n < 32 \<and> (22 \<le> n \<and> bit i (n - 22) \<or> n = 0 \<or> n = 1 \<or> n = 7)"
  unfolding pde_def PDE_PRESENT_def PDE_WRITE_def PDE_LARGE_def bit_or_iff bit_push_bit_iff bit_1_iff
  by auto

lemma translate_pde:
  assumes "pd (drop_bit 22 va) = pde (drop_bit 22 va - KERNEL_PDE)" "unat KERNEL_PDE \<le> unat (drop_bit 22 va)"
  shows "translate pd va = Some (V2P va)"
proof -
  let ?i = "drop_bit 22 va - KERNEL_PDE"
  have "push_bit 22 ?i OR (va AND mask 22) = push_bit 22 ?i + take_bit 22 va"
    by (subst disjunctive_add) (auto simp: bit_simps take_bit_eq_mask [symmetric])
  moreover have "push_bit 22 ?i = push_bit 22 (drop_bit 22 va) - KERNEL_VBASE"
    by (simp add: push_bit_eq_mult algebra_simps KERNEL_PDE_val KERNEL_VBASE_def)
  moreover have "push_bit 22 (drop_bit 22 va) - KERNEL_VBASE + take_bit 22 va = V2P va"
    by (metis V2P_def bits_ident add_diff_eq diff_add_eq)
  ultimately have sum: "push_bit 22 ?i OR (va AND mask 22) = V2P va" by simp
  have "pde ?i AND NOT (mask 22) = push_bit 22 ?i"
    by (rule bit_eqI) (auto simp: bit_and_iff bit_not_iff pde_bits bit_mask_iff bit_push_bit_iff)
  then show ?thesis using assms(1) sum by (simp add: translate_def pde_bits Let_def)
qed

text \<open>The number of directory entries, and that every entry of the window is written.\<close>

lemma paging_entries:
  assumes "total_frames pm \<le> MAX_FRAMES"
  defines "e \<equiv> ((pmm_total_kib pm + 1023) div 1024 + 3) div 4"
  shows "unat (if e > 1024 - KERNEL_PDE then 1024 - KERNEL_PDE else e) = window_entries pm"
    and "window_entries pm \<le> 256"
proof -
  have tf: "unat (total_frames pm) \<le> 262144" using assms(1) by (simp add: word_le_nat_alt MAX_FRAMES_unat)
  have "unat (pmm_total_kib pm) = unat (total_frames pm) * 4"
    unfolding pmm_total_kib_def PAGE_SIZE_val
    by (subst unat_mult_lem [THEN iffD1]) (use tf in simp_all)
  then have "unat (pmm_total_kib pm + 1023) = unat (total_frames pm) * 4 + 1023"
    using unat_add_offset [of "pmm_total_kib pm" 1023] tf by simp
  then have m: "unat ((pmm_total_kib pm + 1023) div 1024) = (unat (total_frames pm) * 4 + 1023) div 1024"
    by (simp add: unat_div_distrib)
  have "(unat (total_frames pm) * 4 + 1023) div 1024 \<le> (262144 * 4 + 1023) div 1024"
    using tf by (intro div_le_mono) simp
  then have "unat ((pmm_total_kib pm + 1023) div 1024 + 3) = (unat (total_frames pm) * 4 + 1023) div 1024 + 3"
    using unat_add_offset [of "(pmm_total_kib pm + 1023) div 1024" 3] m by simp
  then have "unat e = ((unat (total_frames pm) * 4 + 1023) div 1024 + 3) div 4"
    by (simp add: e_def unat_div_distrib)
  also have "\<dots> = ((unat (total_frames pm) * 4 + 1023 + 3 * 1024) div 1024) div 4" by simp
  also have "\<dots> = window_entries pm"
    unfolding window_entries_def by (simp add: div_mult2_eq [symmetric] mult.commute)
  finally have e: "unat e = window_entries pm" .
  show w: "window_entries pm \<le> 256"
    using tf div_le_mono [of "4 * unat (total_frames pm) + 4095" "4 * 262144 + 4095" 4096]
    unfolding window_entries_def by simp
  have "\<not> e > 1024 - KERNEL_PDE" using e w by (simp add: word_less_nat_alt KERNEL_PDE_val)
  then show "unat (if e > 1024 - KERNEL_PDE then 1024 - KERNEL_PDE else e) = window_entries pm"
    using e by simp
qed

lemma paging_init_eq:
  assumes "total_frames pm \<le> MAX_FRAMES"
  shows "paging_init pd_addr pm paging_bss = ret
    \<lparr>page_directory = (\<lambda>j. if 768 \<le> unat j \<and> unat j < 768 + window_entries pm then pde (j - KERNEL_PDE) else 0),
     cr3 = V2P pd_addr\<rparr>"
  using paging_entries [OF assms] unfolding paging_init_def Let_def
  by (subst paging_map_spec) (simp_all add: paging_bss_def KERNEL_PDE_val cong: if_cong)

lemma unat_drop22: "unat (drop_bit 22 (va :: u32)) = unat va div 2 ^ 22"
  by (simp add: drop_bit_eq_div unat_div_distrib)

lemma window_covers:
  assumes "unat KERNEL_PDE \<le> unat (drop_bit 22 va)"
  shows "unat (drop_bit 22 va) < 768 + n \<longleftrightarrow> unat (V2P va) < n * 2 ^ 22" and "KERNEL_VBASE \<le> va"
proof -
  note d = unat_drop22 [of va]
  then have ge: "768 * 2 ^ 22 \<le> unat va"
    using assms by (simp add: KERNEL_PDE_val)
  then show "KERNEL_VBASE \<le> va" by (simp add: word_le_nat_alt KERNEL_VBASE_def)
  then have "unat (V2P va) = unat va - 768 * 2 ^ 22"
    unfolding V2P_def by (simp add: unat_sub) (simp add: KERNEL_VBASE_def)
  then show "unat (drop_bit 22 va) < 768 + n \<longleftrightarrow> unat (V2P va) < n * 2 ^ 22"
    using d ge by (simp add: div_less_iff_less_mult) linarith
qed

lemma below_window: "unat (drop_bit 22 va) < 768 \<longleftrightarrow> va < KERNEL_VBASE"
  unfolding unat_drop22 by (simp add: KERNEL_VBASE_def word_less_nat_alt div_less_iff_less_mult)

lemma paging_count_spec:
  "paging_count i n s = n + of_nat (length (filter (\<lambda>j. bit (page_directory s (of_nat j)) 0) [unat i..<1024]))"
proof (induction i n s rule: paging_count.induct)
  case (1 i n s)
  have test: "page_directory s i AND PDE_PRESENT \<noteq> 0 \<longleftrightarrow> bit (page_directory s i) 0"
    by (simp add: PDE_PRESENT_def and_one_eq bit_0 odd_iff_mod_2_eq_one)
  show ?case
  proof (cases "i < 1024")
    case True
    then have lt: "unat i < 1024" by (simp add: word_less_nat_alt)
    moreover have "unat (i + 1) = unat i + 1" using lt unat_add_offset [of i 1] by simp
    ultimately show ?thesis
      using 1 [OF True] True by (subst paging_count.simps) (simp add: test upt_conv_Cons algebra_simps)
  next
    case False
    then show ?thesis by (subst paging_count.simps) (simp add: word_less_nat_alt)
  qed
qed

lemma filter_upt_between:
  assumes "a \<le> b" "b \<le> c"
  shows "filter (\<lambda>j. a \<le> j \<and> j < b) [0..<c] = [a..<b]"
proof -
  have "[0..<c] = [0..<a] @ [a..<b] @ [b..<c]"
    using assms upt_add_eq_append [of 0 a "c - a"] upt_add_eq_append [of a b "c - b"] by simp
  then show ?thesis using assms by (simp add: filter_empty_conv filter_id_conv)
qed

lemma paging_init_spec:
  assumes "total_frames pm \<le> MAX_FRAMES"
  shows "\<exists>s. paging_init pd_addr pm paging_bss = ret s \<and> cr3 s = V2P pd_addr \<and>
    (\<forall>va. translate (page_directory s) va =
       (if KERNEL_VBASE \<le> va \<and> unat (V2P va) < window_entries pm * 2 ^ 22 then Some (V2P va) else None)) \<and>
    unat (total_frames pm) * 4096 \<le> window_entries pm * 2 ^ 22 \<and>
    unat (paging_mapped_mib s) = 4 * window_entries pm"
proof -
  define pd where "pd = (\<lambda>j. if 768 \<le> unat j \<and> unat j < 768 + window_entries pm then pde (j - KERNEL_PDE) else 0)"
  let ?s = "\<lparr>page_directory = pd, cr3 = V2P pd_addr\<rparr>"
  note w = paging_entries(2) [OF assms]
  have "translate pd va =
      (if KERNEL_VBASE \<le> va \<and> unat (V2P va) < window_entries pm * 2 ^ 22 then Some (V2P va) else None)" for va
  proof (cases "768 \<le> unat (drop_bit 22 va) \<and> unat (drop_bit 22 va) < 768 + window_entries pm")
    case True
    then have "translate pd va = Some (V2P va)"
      by (intro translate_pde) (simp_all add: pd_def KERNEL_PDE_val)
    then show ?thesis using True window_covers [of va] by (simp add: KERNEL_PDE_val)
  next
    case False
    then have "translate pd va = None" by (auto simp: translate_def pd_def Let_def)
    moreover have "\<not> (KERNEL_VBASE \<le> va \<and> unat (V2P va) < window_entries pm * 2 ^ 22)"
      using False window_covers(1) [of va "window_entries pm"] below_window [of va]
      by (simp add: KERNEL_PDE_val) (meson linorder_not_le)
    ultimately show ?thesis by simp
  qed
  moreover have "unat (total_frames pm) * 4096 \<le> window_entries pm * 2 ^ 22"
    unfolding window_entries_def by simp
  moreover have "unat (paging_mapped_mib ?s) = 4 * window_entries pm"
  proof -
    have "filter (\<lambda>j. bit (pd (of_nat j)) 0) [0..<1024] = filter (\<lambda>j. 768 \<le> j \<and> j < 768 + window_entries pm) [0..<1024]"
      by (rule filter_cong) (simp_all add: pd_def pde_bits unat_of_nat_u32)
    also have "length \<dots> = window_entries pm" using w by (subst filter_upt_between) simp_all
    finally have "paging_mapped_mib ?s = of_nat (4 * window_entries pm)"
      by (simp add: paging_mapped_mib_def paging_count_spec)
    then show ?thesis using w by (simp only:) (rule unat_of_nat_u32, simp)
  qed
  moreover have "paging_init pd_addr pm paging_bss = ret ?s"
    using paging_init_eq [OF assms] by (simp add: pd_def)
  ultimately show ?thesis by (intro exI [of _ ?s]) simp
qed

text \<open>
  C28. \<^verbatim>\<open>paging_init\<close> succeeds for every amount of RAM the frame allocator reports and fixes the
  whole address space: a virtual address translates exactly if it lies in the higher half
  within the detected RAM rounded up to 4 MiB, and then to the physical address \<^verbatim>\<open>V2P\<close> of it. So
  the lower 3 GiB, the NULL page included, is unmapped, every byte of RAM is mapped once, and
  \<^verbatim>\<open>paging_mapped_mib\<close> reports the size of the window.\<close>

theorem paging_init_layout:
  assumes "total_frames pm \<le> MAX_FRAMES"
  shows "\<exists>s. paging_init pd_addr pm paging_bss = ret s \<and> cr3 s = V2P pd_addr \<and>
    (\<forall>va. translate (page_directory s) va =
       (if KERNEL_VBASE \<le> va \<and> unat (V2P va) < window_entries pm * 2 ^ 22 then Some (V2P va) else None)) \<and>
    unat (total_frames pm) * 4096 \<le> window_entries pm * 2 ^ 22 \<and>
    unat (paging_mapped_mib s) = 4 * window_entries pm"
  using assms by (rule paging_init_spec)

text \<open>With 128 MiB of RAM the NULL page is unmapped and the VGA text buffer is reachable.\<close>

theorem paging_init_layout_witness:
  "\<exists>s. paging_init 0xC0105000 \<lparr>bitmap = (\<lambda>_. 0), total_frames = 32768, used_frames = 0\<rparr> paging_bss = ret s \<and>
     translate (page_directory s) 0 = None \<and> translate (page_directory s) 0xC00B8000 = Some 0xB8000"
proof -
  let ?pm = "\<lparr>bitmap = (\<lambda>_. 0), total_frames = 32768, used_frames = 0\<rparr>"
  have "total_frames ?pm \<le> MAX_FRAMES" by (simp add: MAX_FRAMES_val)
  from paging_init_layout [OF this, of "0xC0105000"] show ?thesis
    by (elim exE conjE) (intro exI conjI, assumption, simp_all add: KERNEL_VBASE_def V2P_def window_entries_def)
qed

end
