(* ===== verification/Commands.thy ===== *)
theory Commands
  imports Ramfs Paging
begin

text \<open>
  The built-in commands (shell/commands.c) and the state of the shell they share (shell/shell.c).
  A command gets the argument vector as a list of strings and returns its exit status; commands
  that stop the machine never return. The processor's \<^verbatim>\<open>cpuid\<close> instruction and the compiler's
  build stamps are parameters kept in the state.
\<close>

section \<open>State\<close>

definition SHELL_LINE_MAX :: nat where "SHELL_LINE_MAX = 256"
definition SHELL_ARGV_MAX :: nat where "SHELL_ARGV_MAX = 16"
definition SHELL_HISTORY_MAX :: nat where "SHELL_HISTORY_MAX = 16"

record kernel = ramfs +
  frames :: pmm
  pages :: paging
  shell_cwd :: addr
  history_ring :: "nat \<Rightarrow> string"
  history_total :: nat
  cpuid_hw :: "u32 \<Rightarrow> u32 \<times> u32 \<times> u32 \<times> u32"
  build_stamp :: string
  build_compiler :: string

definition shell_history_count :: "'a kernel_scheme \<Rightarrow> nat" where
  "shell_history_count s = (if history_total s < SHELL_HISTORY_MAX then history_total s else SHELL_HISTORY_MAX)"

definition shell_history :: "int \<Rightarrow> 'a kernel_scheme \<Rightarrow> string option" where
  "shell_history index s =
     (let stored = shell_history_count s in
      if index < 0 \<or> index \<ge> int stored then None
      else let first = history_total s - stored
           in Some (history_ring s ((first + nat index) mod SHELL_HISTORY_MAX)))"

section \<open>Helpers\<close>

text \<open>Arithmetic on \<^verbatim>\<open>int\<close> at its width.\<close>

fun atoi_loop :: "u32 \<Rightarrow> string \<Rightarrow> u32" where
  "atoi_loop v (c # cs) =
     (if schar c \<ge> schar CHR ''0'' \<and> schar c \<le> schar CHR ''9''
      then atoi_loop (v * 10 + word_of_int (schar c - schar CHR ''0'')) cs else v)"
| "atoi_loop v [] = v"

definition atoi_simple :: "string \<Rightarrow> int" where
  "atoi_simple str = sint (atoi_loop 0 str)"

definition want_file :: "string \<Rightarrow> 'a kernel_scheme \<Rightarrow> ('a kernel_scheme \<times> addr) run" where
  "want_file path s =
     run_bind (ramfs_resolve (shell_cwd s) path s) (\<lambda>n.
     if n = NULL
     then run_bind (kprintf (''%s: no such file or directory'' @ [NL]) [Str (Some path)] s) (\<lambda>s. ret (s, NULL))
     else run_bind (node_at n s) (\<lambda>x.
       if n_type x \<noteq> RAMFS_FILE
       then run_bind (kprintf (''%s: is a directory'' @ [NL]) [Str (Some path)] s) (\<lambda>s. ret (s, NULL))
       else ret (s, n)))"

text \<open>Printing a usage or error line and failing.\<close>

definition fail_with :: "string \<Rightarrow> karg list \<Rightarrow> 'a kernel_scheme \<Rightarrow> ('a kernel_scheme \<times> int) run" where
  "fail_with fmt args s = run_bind (kprintf fmt args s) (\<lambda>s. ret (s, 1))"

definition usage :: "string \<Rightarrow> 'a kernel_scheme \<Rightarrow> ('a kernel_scheme \<times> int) run" where
  "usage msg s = run_bind (console_write msg s) (\<lambda>s. ret (s, 1))"

definition finish :: "'a kernel_scheme run \<Rightarrow> ('a kernel_scheme \<times> int) run" where
  "finish m = run_bind m (\<lambda>s. ret (s, 0))"

section \<open>The command table\<close>

datatype command =
    Help | Banner | Clear | Echo | Ls | Cat | Cd | Pwd | Mkdir | Touch | Rm | Cp | Mv | Hexdump
  | Grep | Wc | Head | Lscpu | Lspci | Free | Uptime | Date | Sleep | History | Uname | Whoami
  | License | Reboot | Poweroff | Halt

definition shell_commands :: "(string \<times> string \<times> command) list" where
  "shell_commands =
    [(''help'', ''list all commands'', Help),
     (''banner'', ''show the Raptor logo and version'', Banner),
     (''clear'', ''clear the screen'', Clear),
     (''echo'', ''print arguments (supports > and >>)'', Echo),
     (''ls'', ''list directory contents (-l for sizes)'', Ls),
     (''cat'', ''print file contents'', Cat),
     (''cd'', ''change the working directory'', Cd),
     (''pwd'', ''print the working directory'', Pwd),
     (''mkdir'', ''create directories'', Mkdir),
     (''touch'', ''create empty files'', Touch),
     (''rm'', ''remove files (-r for directories)'', Rm),
     (''cp'', ''copy a file'', Cp),
     (''mv'', ''move or rename a file or directory'', Mv),
     (''hexdump'', ''show a file as hex and ASCII'', Hexdump),
     (''grep'', ''print lines of a file matching a pattern'', Grep),
     (''wc'', ''count lines, words and bytes of a file'', Wc),
     (''head'', ''print the first lines of a file (-n N)'', Head),
     (''lscpu'', ''show CPU vendor, model and features'', Lscpu),
     (''lspci'', ''list devices on the PCI bus'', Lspci),
     (''free'', ''show memory usage'', Free),
     (''uptime'', ''show time since boot'', Uptime),
     (''date'', ''show the current date and time (RTC)'', Date),
     (''sleep'', ''pause for N seconds'', Sleep),
     (''history'', ''show recent commands'', History),
     (''uname'', ''print kernel information (-a for all)'', Uname),
     (''whoami'', ''print the current user'', Whoami),
     (''license'', ''show license information'', License),
     (''reboot'', ''restart the machine'', Reboot),
     (''poweroff'', ''shut the machine down'', Poweroff),
     (''halt'', ''stop the CPU'', Halt)]"

section \<open>General commands\<close>

primrec help_loop :: "(string \<times> string \<times> command) list \<Rightarrow> 'a kernel_scheme \<Rightarrow> 'a kernel_scheme run" where
  "help_loop [] s = ret s"
| "help_loop (c # cs) s = run_bind
     (kprintf (''  %-10s %s'' @ [NL]) [Str (Some (fst c)), Str (Some (fst (snd c)))] s) (help_loop cs)"

definition cmd_help :: "string list \<Rightarrow> 'a kernel_scheme \<Rightarrow> ('a kernel_scheme \<times> int) run" where
  "cmd_help argv s = finish
     (run_bind (console_write (''Built-in commands:'' @ [NL]) s) (\<lambda>s.
      run_bind (help_loop shell_commands s) (\<lambda>s.
      console_write ([NL] @ ''Redirect any output with '>' or '>>', e.g. 'ls /etc > /tmp/listing'.'' @ [NL]) s)))"

definition cmd_clear :: "string list \<Rightarrow> 'a kernel_scheme \<Rightarrow> ('a kernel_scheme \<times> int) run" where
  "cmd_clear argv s = finish (ret (console_clear s))"

primrec echo_loop :: "string list \<Rightarrow> bool \<Rightarrow> 'a kernel_scheme \<Rightarrow> 'a kernel_scheme run" where
  "echo_loop [] first s = ret s"
| "echo_loop (a # as) first s =
     run_bind (if \<not> first then console_putc CHR '' '' s else ret s) (\<lambda>s.
     run_bind (console_write a s) (echo_loop as False))"

definition cmd_echo :: "string list \<Rightarrow> 'a kernel_scheme \<Rightarrow> ('a kernel_scheme \<times> int) run" where
  "cmd_echo argv s = finish (run_bind (echo_loop (tl argv) True s) (console_putc NL))"

definition BS :: char where "BS = CHR 0x5C"

definition logo :: string where
  "logo =
     '' ____    _    ____ _____ ___  ____'' @ [NL] @
     ''|  _ '' @ [BS] @ ''  / '' @ [BS] @ ''  |  _ '' @ [BS] @ ''_   _/ _ '' @ [BS] @ ''|  _ '' @ [BS, NL] @
     ''| |_) |/ _ '' @ [BS] @ '' | |_) || || | | | |_) |'' @ [NL] @
     ''|  _ </ ___ '' @ [BS] @ ''|  __/ | || |_| |  _ <'' @ [NL] @
     ''|_| '' @ [BS] @ ''_'' @ [BS] @ ''_/  '' @ [BS] @ ''_'' @ [BS] @ ''_|    |_| '' @ [BS] @ ''___/|_| '' @ [BS] @ ''_'' @ [BS, NL]"

definition cmd_banner :: "string list \<Rightarrow> 'a kernel_scheme \<Rightarrow> ('a kernel_scheme \<times> int) run" where
  "cmd_banner argv s = finish
     (run_bind (console_write logo (console_set_color VGA_LIGHT_GREEN VGA_BLACK s)) (\<lambda>s.
      kprintf (''%s %s (%s) for %s'' @ [NL])
        [Str (Some RAPTOR_NAME), Str (Some RAPTOR_VERSION), Str (Some RAPTOR_CODENAME), Str (Some RAPTOR_ARCH)]
        (console_set_color VGA_LIGHT_GREY VGA_BLACK s)))"

definition cmd_uname :: "string list \<Rightarrow> 'a kernel_scheme \<Rightarrow> ('a kernel_scheme \<times> int) run" where
  "cmd_uname argv s = finish
     (if length argv > 1 \<and> str_cmp (argv ! 1) ''-a'' = 0
      then kprintf (''%s %s %s %s (built %s, %s)'' @ [NL])
             [Str (Some RAPTOR_NAME), Str (Some RAPTOR_VERSION), Str (Some RAPTOR_CODENAME),
              Str (Some RAPTOR_ARCH), Str (Some (build_stamp s)), Str (Some (build_compiler s))] s
      else kprintf (''%s'' @ [NL]) [Str (Some RAPTOR_NAME)] s)"

definition cmd_whoami :: "string list \<Rightarrow> 'a kernel_scheme \<Rightarrow> ('a kernel_scheme \<times> int) run" where
  "cmd_whoami argv s = finish (console_write (''root'' @ [NL]) s)"

definition license_text :: string where
  "license_text =
     RAPTOR_NAME @ '' is free software released under the GNU General'' @ [NL] @
     ''Public License, version 2 - the same license Linus Torvalds'' @ [NL] @
     ''chose for Linux. See the LICENSE file in the source tree.'' @ [NL]"

definition cmd_license :: "string list \<Rightarrow> 'a kernel_scheme \<Rightarrow> ('a kernel_scheme \<times> int) run" where
  "cmd_license argv s = finish (console_write license_text s)"

primrec history_loop :: "nat list \<Rightarrow> 'a kernel_scheme \<Rightarrow> 'a kernel_scheme run" where
  "history_loop [] s = ret s"
| "history_loop (i # is) s = run_bind
     (kprintf (''%4d  %s'' @ [NL]) [Word (of_nat (i + 1)), Str (shell_history (int i) s)] s) (history_loop is)"

definition cmd_history :: "string list \<Rightarrow> 'a kernel_scheme \<Rightarrow> ('a kernel_scheme \<times> int) run" where
  "cmd_history argv s = finish (history_loop [0..<shell_history_count s] s)"

section \<open>Filesystem commands\<close>

definition cmd_pwd :: "string list \<Rightarrow> 'a kernel_scheme \<Rightarrow> ('a kernel_scheme \<times> int) run" where
  "cmd_pwd argv s = finish
     (run_bind (ramfs_path (shell_cwd s) RAMFS_PATH_MAX s) (\<lambda>path.
      kprintf (''%s'' @ [NL]) [Str (Some path)] s))"

definition cmd_cd :: "string list \<Rightarrow> 'a kernel_scheme \<Rightarrow> ('a kernel_scheme \<times> int) run" where
  "cmd_cd argv s =
     (let target = (if length argv > 1 then argv ! 1 else ''/'') in
      run_bind (ramfs_resolve (shell_cwd s) target s) (\<lambda>n.
      if n = NULL then fail_with (''cd: %s: no such directory'' @ [NL]) [Str (Some target)] s
      else run_bind (node_at n s) (\<lambda>x.
        if n_type x \<noteq> RAMFS_DIR then fail_with (''cd: %s: not a directory'' @ [NL]) [Str (Some target)] s
        else ret (s\<lparr>shell_cwd := n\<rparr>, 0))))"

primrec ls_args :: "string list \<Rightarrow> bool \<Rightarrow> string option \<Rightarrow> bool \<times> string option" where
  "ls_args [] detail path = (detail, path)"
| "ls_args (a # as) detail path =
     (if str_cmp a ''-l'' = 0 then ls_args as True path else ls_args as detail (Some a))"

partial_function (option) ls_loop :: "addr \<Rightarrow> bool \<Rightarrow> 'a kernel_scheme \<Rightarrow> 'a kernel_scheme run" where
  "ls_loop c detail s =
     (if c = NULL then ret s
      else run_bind (node_at c s) (\<lambda>n.
        run_bind
          (if detail
           then kprintf (''%c %8u  %s%s'' @ [NL])
                  [Word (if n_type n = RAMFS_DIR then 0x64 else 0x2D), Word (n_size n), Str (Some (n_name n)),
                   Str (Some (if n_type n = RAMFS_DIR then ''/'' else []))] s
           else
             let s = (if n_type n = RAMFS_DIR then console_set_color VGA_LIGHT_CYAN VGA_BLACK s else s) in
             run_bind (kprintf ''%s%s  ''
                        [Str (Some (n_name n)), Str (Some (if n_type n = RAMFS_DIR then ''/'' else []))] s)
               (\<lambda>s. ret (console_set_color VGA_LIGHT_GREY VGA_BLACK s)))
          (\<lambda>s. run_bind (node_at c s) (\<lambda>n. ls_loop (n_next n) detail s))))"

definition cmd_ls :: "string list \<Rightarrow> 'a kernel_scheme \<Rightarrow> ('a kernel_scheme \<times> int) run" where
  "cmd_ls argv s =
     (case ls_args (tl argv) False None of (detail, path) \<Rightarrow>
      run_bind (ramfs_resolve (shell_cwd s) (case path of Some p \<Rightarrow> p | None \<Rightarrow> ''.'') s) (\<lambda>n.
      if n = NULL then fail_with (''ls: %s: no such file or directory'' @ [NL]) [Str path] s
      else run_bind (node_at n s) (\<lambda>x.
        if n_type x = RAMFS_FILE then finish (kprintf (''%s'' @ [NL]) [Str (Some (n_name x))] s)
        else run_bind (ls_loop (n_children x) detail s) (\<lambda>s.
             finish (if \<not> detail then console_putc NL s else ret s)))))"

text \<open>Printing the bytes of a file: the size is read again in every iteration.\<close>

partial_function (option) put_data :: "addr \<Rightarrow> u32 \<Rightarrow> 'a kernel_scheme \<Rightarrow> 'a kernel_scheme run" where
  "put_data f j s = run_bind (node_at f s) (\<lambda>n.
     if j < n_size n
     then run_bind (console_putc (bytes (heap s) (n_data n + j)) s) (\<lambda>s. put_data f (j + 1) s)
     else ret s)"

primrec cat_loop :: "string list \<Rightarrow> 'a kernel_scheme \<Rightarrow> ('a kernel_scheme \<times> int) run" where
  "cat_loop [] s = ret (s, 0)"
| "cat_loop (a # as) s =
     run_bind (want_file a s) (\<lambda>(s, f).
     if f = NULL then ret (s, 1)
     else run_bind (put_data f 0 s) (\<lambda>s.
          run_bind (node_at f s) (\<lambda>n.
          run_bind (if n_size n \<noteq> 0 \<and> bytes (heap s) (n_data n + (n_size n - 1)) \<noteq> NL
                    then console_putc NL s else ret s) (cat_loop as))))"

definition cmd_cat :: "string list \<Rightarrow> 'a kernel_scheme \<Rightarrow> ('a kernel_scheme \<times> int) run" where
  "cmd_cat argv s =
     (if length argv < 2 then usage (''usage: cat <file>...'' @ [NL]) s else cat_loop (tl argv) s)"

primrec mkdir_loop :: "string list \<Rightarrow> 'a kernel_scheme \<Rightarrow> ('a kernel_scheme \<times> int) run" where
  "mkdir_loop [] s = ret (s, 0)"
| "mkdir_loop (a # as) s =
     run_bind (ramfs_create (shell_cwd s) a RAMFS_DIR s) (\<lambda>(s, n).
     if n = NULL then fail_with (''mkdir: cannot create %s'' @ [NL]) [Str (Some a)] s
     else mkdir_loop as s)"

definition cmd_mkdir :: "string list \<Rightarrow> 'a kernel_scheme \<Rightarrow> ('a kernel_scheme \<times> int) run" where
  "cmd_mkdir argv s =
     (if length argv < 2 then usage (''usage: mkdir <dir>...'' @ [NL]) s else mkdir_loop (tl argv) s)"

primrec touch_loop :: "string list \<Rightarrow> 'a kernel_scheme \<Rightarrow> ('a kernel_scheme \<times> int) run" where
  "touch_loop [] s = ret (s, 0)"
| "touch_loop (a # as) s =
     run_bind (ramfs_resolve (shell_cwd s) a s) (\<lambda>n.
     if n \<noteq> NULL then touch_loop as s
     else run_bind (ramfs_create (shell_cwd s) a RAMFS_FILE s) (\<lambda>(s, n).
       if n = NULL then fail_with (''touch: cannot create %s'' @ [NL]) [Str (Some a)] s
       else touch_loop as s))"

definition cmd_touch :: "string list \<Rightarrow> 'a kernel_scheme \<Rightarrow> ('a kernel_scheme \<times> int) run" where
  "cmd_touch argv s =
     (if length argv < 2 then usage (''usage: touch <file>...'' @ [NL]) s else touch_loop (tl argv) s)"

primrec rm_loop :: "string list \<Rightarrow> bool \<Rightarrow> nat \<Rightarrow> 'a kernel_scheme \<Rightarrow> ('a kernel_scheme \<times> int) run" where
  "rm_loop [] recursive removed s =
     (if removed = 0 then usage (''usage: rm [-r] <path>...'' @ [NL]) s else ret (s, 0))"
| "rm_loop (a # as) recursive removed s =
     (if str_cmp a ''-r'' = 0 then rm_loop as True removed s
      else run_bind (ramfs_resolve (shell_cwd s) a s) (\<lambda>n.
        if n = NULL then fail_with (''rm: %s: no such file or directory'' @ [NL]) [Str (Some a)] s
        else if n = shell_cwd s then usage (''rm: refusing to remove the working directory'' @ [NL]) s
        else run_bind (ramfs_delete n recursive s) (\<lambda>(s, ok).
          if \<not> ok then fail_with (''rm: %s: directory not empty (use -r)'' @ [NL]) [Str (Some a)] s
          else rm_loop as recursive (removed + 1) s)))"

definition cmd_rm :: "string list \<Rightarrow> 'a kernel_scheme \<Rightarrow> ('a kernel_scheme \<times> int) run" where
  "cmd_rm argv s = rm_loop (tl argv) False 0 s"

text \<open>The part before and after the last slash of a path, if it has one.\<close>

definition last_slash :: "string \<Rightarrow> (string \<times> string) option" where
  "last_slash path =
     (if \<exists>c \<in> set path. slash c
      then let name = rev (takeWhile (\<lambda>c. \<not> slash c) (rev path))
           in Some (take (length path - length name - 1) path, name)
      else None)"

definition split_parent :: "string \<Rightarrow> 'a kernel_scheme \<Rightarrow> (addr \<times> string) run" where
  "split_parent path s =
     (case last_slash path of
        None \<Rightarrow> ret (shell_cwd s, path)
      | Some (dir, name) \<Rightarrow>
          if dir = [] then ret (ramfs_root s, name)
          else if length dir \<ge> RAMFS_PATH_MAX then ret (NULL, name)
          else run_bind (ramfs_resolve (shell_cwd s) dir s) (\<lambda>n. ret (n, name)))"

definition cmd_cp :: "string list \<Rightarrow> 'a kernel_scheme \<Rightarrow> ('a kernel_scheme \<times> int) run" where
  "cmd_cp argv s =
     (if length argv \<noteq> 3 then usage (''usage: cp <src> <dst>'' @ [NL]) s
      else run_bind (want_file (argv ! 1) s) (\<lambda>(s, src).
        if src = NULL then ret (s, 1)
        else
          let dstpath = str_lcpy RAMFS_PATH_MAX (argv ! 2) in
          run_bind (ramfs_resolve (shell_cwd s) dstpath s) (\<lambda>dst.
          run_bind
            (if dst = NULL then ret (dst, dstpath)
             else run_bind (node_at dst s) (\<lambda>d.
               if n_type d = RAMFS_DIR
               then run_bind (node_at src s) (\<lambda>x.
                    let dstpath = append_bounded RAMFS_PATH_MAX (append_bounded RAMFS_PATH_MAX dstpath ''/'') (n_name x) in
                    run_bind (ramfs_resolve (shell_cwd s) dstpath s) (\<lambda>dst. ret (dst, dstpath)))
               else ret (dst, dstpath)))
            (\<lambda>(dst, dstpath).
               run_bind (if dst = NULL then ramfs_create (shell_cwd s) dstpath RAMFS_FILE s else ret (s, dst)) (\<lambda>(s, dst).
               run_bind (if dst = NULL then ret False
                         else run_bind (node_at dst s) (\<lambda>d. ret (n_type d = RAMFS_FILE))) (\<lambda>is_file.
               if \<not> is_file then fail_with (''cp: cannot create %s'' @ [NL]) [Str (Some dstpath)] s
               else run_bind (node_at src s) (\<lambda>x.
                 run_bind (ramfs_write dst (At (n_data x)) (n_size x) False s) (\<lambda>(s, ok).
                 if \<not> ok then usage (''cp: out of memory'' @ [NL]) s
                 else ret (s, 0)))))))))"

definition cmd_mv :: "string list \<Rightarrow> 'a kernel_scheme \<Rightarrow> ('a kernel_scheme \<times> int) run" where
  "cmd_mv argv s =
     (if length argv \<noteq> 3 then usage (''usage: mv <src> <dst>'' @ [NL]) s
      else run_bind (ramfs_resolve (shell_cwd s) (argv ! 1) s) (\<lambda>src.
        if src = NULL then fail_with (''mv: %s: no such file or directory'' @ [NL]) [Str (Some (argv ! 1))] s
        else run_bind (ramfs_resolve (shell_cwd s) (argv ! 2) s) (\<lambda>dst.
          run_bind
            (if dst \<noteq> NULL
             then run_bind (node_at dst s) (\<lambda>d.
                  if n_type d = RAMFS_DIR
                  then run_bind (node_at src s) (\<lambda>x. ret (Inr (dst, n_name x)))
                  else ret (Inl ''mv: %s: destination exists''))
             else run_bind (split_parent (argv ! 2) s) (\<lambda>(parent, name).
                  if parent = NULL then ret (Inl ''mv: %s: no such directory'')
                  else run_bind (node_at parent s) (\<lambda>p.
                       if n_type p \<noteq> RAMFS_DIR then ret (Inl ''mv: %s: no such directory'')
                       else ret (Inr (parent, name)))))
            (\<lambda>r. case r of
               Inl msg \<Rightarrow> fail_with (msg @ [NL]) [Str (Some (argv ! 2))] s
             | Inr (parent, name) \<Rightarrow>
                 run_bind (ramfs_move src parent name s) (\<lambda>(s, ok).
                 if \<not> ok then usage (''mv: move failed'' @ [NL]) s else ret (s, 0))))))"

text \<open>The byte of a file at an offset, as \<^verbatim>\<open>f->data[i]\<close> reads it.\<close>

definition file_byte :: "ramfs_node \<Rightarrow> u32 \<Rightarrow> 'a kernel_scheme \<Rightarrow> char" where
  "file_byte n i s = bytes (heap s) (n_data n + i)"

primrec hex_columns :: "u32 list \<Rightarrow> addr \<Rightarrow> u32 \<Rightarrow> 'a kernel_scheme \<Rightarrow> 'a kernel_scheme run" where
  "hex_columns [] f off s = ret s"
| "hex_columns (i # is) f off s =
     run_bind (node_at f s) (\<lambda>n.
     run_bind (if off + i < n_size n
               then kprintf ''%02x '' [Word (word_of_int (uchar (file_byte n (off + i) s)))] s
               else console_write ''   '' s) (\<lambda>s.
     run_bind (if i = 7 then console_putc CHR '' '' s else ret s) (hex_columns is f off)))"

primrec ascii_columns :: "u32 list \<Rightarrow> addr \<Rightarrow> u32 \<Rightarrow> 'a kernel_scheme \<Rightarrow> 'a kernel_scheme run" where
  "ascii_columns [] f off s = ret s"
| "ascii_columns (i # is) f off s =
     run_bind (node_at f s) (\<lambda>n.
     if off + i < n_size n
     then let c = file_byte n (off + i) s in
          run_bind (console_putc (if schar c \<ge> 0x20 \<and> schar c < 0x7f then c else CHR ''.'') s)
            (ascii_columns is f off)
     else ret s)"

definition columns :: "u32 list" where
  "columns = map of_nat [0..<16]"

partial_function (option) hexdump_loop :: "addr \<Rightarrow> u32 \<Rightarrow> 'a kernel_scheme \<Rightarrow> 'a kernel_scheme run" where
  "hexdump_loop f off s = run_bind (node_at f s) (\<lambda>n.
     if off < n_size n
     then run_bind (kprintf ''%08x  '' [Word off] s) (\<lambda>s.
          run_bind (hex_columns columns f off s) (\<lambda>s.
          run_bind (console_write '' |'' s) (\<lambda>s.
          run_bind (ascii_columns columns f off s) (\<lambda>s.
          run_bind (console_write (''|'' @ [NL]) s) (\<lambda>s.
          hexdump_loop f (off + 16) s)))))
     else ret s)"

definition cmd_hexdump :: "string list \<Rightarrow> 'a kernel_scheme \<Rightarrow> ('a kernel_scheme \<times> int) run" where
  "cmd_hexdump argv s =
     (if length argv < 2 then usage (''usage: hexdump <file>'' @ [NL]) s
      else run_bind (want_file (argv ! 1) s) (\<lambda>(s, f).
        if f = NULL then ret (s, 1) else finish (hexdump_loop f 0 s)))"

section \<open>Text tools\<close>

text \<open>
  \<open>line\<close> is the buffer \<^verbatim>\<open>line[0..pos)\<close>; \<open>cstr\<close> is what string functions see of it.
\<close>

definition cstr :: "string \<Rightarrow> string" where
  "cstr str = takeWhile (\<lambda>c. c \<noteq> NUL) str"

partial_function (option) grep_loop ::
    "string \<Rightarrow> addr \<Rightarrow> u32 \<Rightarrow> string \<Rightarrow> nat \<Rightarrow> 'a kernel_scheme \<Rightarrow> ('a kernel_scheme \<times> nat) run" where
  "grep_loop pat f i line matches s = run_bind (node_at f s) (\<lambda>n.
     if i \<le> n_size n
     then let c = (if i < n_size n then file_byte n i s else NL) in
          if c = NL then
            if line \<noteq> [] \<and> str_str (cstr line) pat \<noteq> None
            then run_bind (kprintf (''%s'' @ [NL]) [Str (Some (cstr line))] s)
                   (\<lambda>s. grep_loop pat f (i + 1) [] (matches + 1) s)
            else grep_loop pat f (i + 1) [] matches s
          else if length line + 1 < SHELL_LINE_MAX then grep_loop pat f (i + 1) (line @ [c]) matches s
          else grep_loop pat f (i + 1) line matches s
     else ret (s, matches))"

definition cmd_grep :: "string list \<Rightarrow> 'a kernel_scheme \<Rightarrow> ('a kernel_scheme \<times> int) run" where
  "cmd_grep argv s =
     (if length argv \<noteq> 3 then usage (''usage: grep <pattern> <file>'' @ [NL]) s
      else run_bind (want_file (argv ! 2) s) (\<lambda>(s, f).
        if f = NULL then ret (s, 1)
        else run_bind (grep_loop (argv ! 1) f 0 [] 0 s) (\<lambda>(s, matches).
             ret (s, if matches \<noteq> 0 then 0 else 1))))"

partial_function (option) wc_count ::
    "addr \<Rightarrow> u32 \<Rightarrow> u32 \<Rightarrow> u32 \<Rightarrow> bool \<Rightarrow> 'a kernel_scheme \<Rightarrow> (u32 \<times> u32) run" where
  "wc_count f j lines words in_word s = run_bind (node_at f s) (\<lambda>n.
     if j < n_size n
     then let c = file_byte n j s;
              lines = (if c = NL then lines + 1 else lines)
          in if c = CHR '' '' \<or> c = CHR 0x09 \<or> c = NL then wc_count f (j + 1) lines words False s
             else if \<not> in_word then wc_count f (j + 1) lines (words + 1) True s
             else wc_count f (j + 1) lines words True s
     else ret (lines, words))"

primrec wc_loop :: "string list \<Rightarrow> 'a kernel_scheme \<Rightarrow> ('a kernel_scheme \<times> int) run" where
  "wc_loop [] s = ret (s, 0)"
| "wc_loop (a # as) s =
     run_bind (want_file a s) (\<lambda>(s, f).
     if f = NULL then ret (s, 1)
     else run_bind (wc_count f 0 0 0 False s) (\<lambda>(lines, words).
          run_bind (node_at f s) (\<lambda>n.
          run_bind (kprintf (''%6u %6u %6u %s'' @ [NL])
                     [Word lines, Word words, Word (n_size n), Str (Some a)] s) (wc_loop as))))"

definition cmd_wc :: "string list \<Rightarrow> 'a kernel_scheme \<Rightarrow> ('a kernel_scheme \<times> int) run" where
  "cmd_wc argv s =
     (if length argv < 2 then usage (''usage: wc <file>...'' @ [NL]) s else wc_loop (tl argv) s)"

fun head_args :: "string list \<Rightarrow> u32 \<Rightarrow> string option \<Rightarrow> u32 \<times> string option" where
  "head_args [] limit path = (limit, path)"
| "head_args [a] limit path = (limit, Some a)"
| "head_args (a # b # as) limit path =
     (if str_cmp a ''-n'' = 0 then head_args as (word_of_int (atoi_simple b)) path
      else head_args (b # as) limit (Some a))"

partial_function (option) head_loop :: "addr \<Rightarrow> u32 \<Rightarrow> u32 \<Rightarrow> u32 \<Rightarrow> 'a kernel_scheme \<Rightarrow> 'a kernel_scheme run" where
  "head_loop f i lines limit s = run_bind (node_at f s) (\<lambda>n.
     if i < n_size n \<and> lines < limit
     then run_bind (console_putc (file_byte n i s) s) (\<lambda>s.
          run_bind (node_at f s) (\<lambda>n.
          head_loop f (i + 1) (if file_byte n i s = NL then lines + 1 else lines) limit s))
     else ret s)"

definition cmd_head :: "string list \<Rightarrow> 'a kernel_scheme \<Rightarrow> ('a kernel_scheme \<times> int) run" where
  "cmd_head argv s =
     (case head_args (tl argv) 10 None of (limit, path) \<Rightarrow>
      (case path of
         None \<Rightarrow> usage (''usage: head [-n N] <file>'' @ [NL]) s
       | Some p \<Rightarrow> run_bind (want_file p s) (\<lambda>(s, f).
           if f = NULL then ret (s, 1) else finish (head_loop f 0 0 limit s))))"

section \<open>Hardware inspection\<close>

definition word_chars :: "u32 \<Rightarrow> string" where
  "word_chars w = map (\<lambda>k. char_of (uint (drop_bit (8 * k) w) mod 256)) [0..<4]"

definition edx_flags :: "(nat \<times> string) list" where
  "edx_flags = [(0, ''fpu''), (3, ''pse''), (4, ''tsc''), (5, ''msr''), (6, ''pae''), (9, ''apic''),
     (13, ''pge''), (15, ''cmov''), (23, ''mmx''), (25, ''sse''), (26, ''sse2'')]"

primrec flags_loop :: "(nat \<times> string) list \<Rightarrow> u32 \<Rightarrow> 'a kernel_scheme \<Rightarrow> 'a kernel_scheme run" where
  "flags_loop [] d s = ret s"
| "flags_loop (f # fs) d s =
     run_bind (if d AND push_bit (fst f) 1 \<noteq> 0 then kprintf '' %s'' [Str (Some (snd f))] s else ret s)
       (flags_loop fs d)"

definition cmd_lscpu :: "string list \<Rightarrow> 'a kernel_scheme \<Rightarrow> ('a kernel_scheme \<times> int) run" where
  "cmd_lscpu argv s =
     (let cpuid = cpuid_hw s;
          (a, b, c, d) = cpuid 0;
          vendor = cstr (word_chars b @ word_chars d @ word_chars c)
      in run_bind (kprintf (''Vendor:      %s'' @ [NL]) [Str (Some vendor)] s) (\<lambda>s.
         run_bind
           (if fst (cpuid 0x80000000) \<ge> 0x80000004
            then let brand = concat (map (\<lambda>leaf. case cpuid (0x80000002 + of_nat leaf) of (a, b, c, d) \<Rightarrow>
                       word_chars a @ word_chars b @ word_chars c @ word_chars d) [0..<3])
                 in kprintf (''Model name:  %s'' @ [NL])
                      [Str (Some (dropWhile (\<lambda>ch. ch = CHR '' '') (cstr brand)))] s
            else ret s) (\<lambda>s.
         let (a, b, c, d) = cpuid 1 in
         run_bind (kprintf (''Family:      %u  Model: %u  Stepping: %u'' @ [NL])
                    [Word (drop_bit 8 a AND 0xf),
                     Word ((drop_bit 4 a AND 0xf) OR (drop_bit 12 a AND 0xf0)),
                     Word (a AND 0xf)] s) (\<lambda>s.
         run_bind (console_write ''Flags:      '' s) (\<lambda>s.
         run_bind (flags_loop edx_flags d s) (\<lambda>s.
         run_bind (if c AND 1 \<noteq> 0 then console_write '' sse3'' s else ret s) (\<lambda>s.
         finish (console_putc NL s)))))))) "

definition PCI_CONFIG_ADDR :: u16 where "PCI_CONFIG_ADDR = 0xCF8"
definition PCI_CONFIG_DATA :: u16 where "PCI_CONFIG_DATA = 0xCFC"

definition pci_read :: "u8 \<Rightarrow> u8 \<Rightarrow> u8 \<Rightarrow> u8 \<Rightarrow> 'a io_scheme \<Rightarrow> 'a io_scheme \<times> u32" where
  "pci_read bus dev fn off s =
     inl PCI_CONFIG_DATA (outl PCI_CONFIG_ADDR
       (0x80000000 OR push_bit 16 (ucast bus) OR push_bit 11 (ucast dev) OR push_bit 8 (ucast fn) OR
        ucast (off AND 0xFC)) s)"

definition pci_class_name :: "u8 \<Rightarrow> string" where
  "pci_class_name class_code =
     (if class_code = 0x00 then ''Unclassified''
      else if class_code = 0x01 then ''Mass storage controller''
      else if class_code = 0x02 then ''Network controller''
      else if class_code = 0x03 then ''Display controller''
      else if class_code = 0x04 then ''Multimedia controller''
      else if class_code = 0x05 then ''Memory controller''
      else if class_code = 0x06 then ''Bridge''
      else if class_code = 0x0C then ''Serial bus controller''
      else ''Other'')"

primrec lspci_functions :: "nat list \<Rightarrow> nat \<Rightarrow> 'a kernel_scheme \<Rightarrow> 'a kernel_scheme run" where
  "lspci_functions [] dev s = ret s"
| "lspci_functions (fn # fns) dev s =
     (case pci_read 0 (of_nat dev) (of_nat fn) 0x00 s of (s, devid) \<Rightarrow>
      run_bind
        (if devid AND 0xffff = 0xffff then ret s
         else case pci_read 0 (of_nat dev) (of_nat fn) 0x08 s of (s, class_reg) \<Rightarrow>
              kprintf (''00:%02x.%u  %04x:%04x  %s'' @ [NL])
                [Word (of_nat dev), Word (of_nat fn), Word (devid AND 0xffff), Word (drop_bit 16 devid),
                 Str (Some (pci_class_name (ucast (drop_bit 24 class_reg))))] s)
        (lspci_functions fns dev))"

primrec lspci_devices :: "nat list \<Rightarrow> 'a kernel_scheme \<Rightarrow> 'a kernel_scheme run" where
  "lspci_devices [] s = ret s"
| "lspci_devices (dev # devs) s =
     (case pci_read 0 (of_nat dev) 0 0x00 s of (s, devid) \<Rightarrow>
      run_bind
        (if devid AND 0xffff = 0xffff then ret s
         else case pci_read 0 (of_nat dev) 0 0x0C s of (s, hdrtype) \<Rightarrow>
              lspci_functions [0..<(if hdrtype AND 0x00800000 \<noteq> 0 then 8 else 1)] dev s)
        (lspci_devices devs))"

definition cmd_lspci :: "string list \<Rightarrow> 'a kernel_scheme \<Rightarrow> ('a kernel_scheme \<times> int) run" where
  "cmd_lspci argv s = finish (lspci_devices [0..<32] s)"

section \<open>System\<close>

definition cmd_free :: "string list \<Rightarrow> 'a kernel_scheme \<Rightarrow> ('a kernel_scheme \<times> int) run" where
  "cmd_free argv s =
     (case kheap_stats (heap s) of
        None \<Rightarrow> None
      | Some (heap_total, heap_used, heap_largest) \<Rightarrow>
          run_bind (console_write (''              total        used        free'' @ [NL]) s) (\<lambda>s.
          run_bind (kprintf (''Mem:    %8u KiB %8u KiB %8u KiB'' @ [NL])
                     [Word (pmm_total_kib (frames s)), Word (pmm_used_kib (frames s)),
                      Word (pmm_total_kib (frames s) - pmm_used_kib (frames s))] s) (\<lambda>s.
          finish (kprintf (''Heap:   %8u KiB %8u KiB %8u KiB  (largest free block %u KiB)'' @ [NL])
                   [Word (heap_total div 1024), Word (heap_used div 1024),
                    Word ((heap_total - heap_used) div 1024), Word (heap_largest div 1024)] s))))"

definition cmd_uptime :: "string list \<Rightarrow> 'a kernel_scheme \<Rightarrow> ('a kernel_scheme \<times> int) run" where
  "cmd_uptime argv s =
     (let ms = timer_uptime_ms s;
          secs = ucast (ms div 1000) :: u32
      in finish (kprintf (''up %u:%02u:%02u (%u ticks at %u Hz)'' @ [NL])
           [Word (secs div 3600), Word ((secs div 60) mod 60), Word (secs mod 60),
            Word (ucast (timer_ticks s)), Word (ucast TIMER_HZ)] s))"

definition cmd_date :: "string list \<Rightarrow> 'a kernel_scheme \<Rightarrow> ('a kernel_scheme \<times> int) run" where
  "cmd_date argv s = run_bind (rtc_read s) (\<lambda>(s, t).
     finish (kprintf (''%u-%02u-%02u %02u:%02u:%02u UTC'' @ [NL])
       [Word (ucast (year t)), Word (ucast (month t)), Word (ucast (day t)),
        Word (ucast (hour t)), Word (ucast (minute t)), Word (ucast (second t))] s))"

definition cmd_sleep :: "string list \<Rightarrow> 'a kernel_scheme \<Rightarrow> ('a kernel_scheme \<times> int) run" where
  "cmd_sleep argv s =
     (if length argv < 2 then usage (''usage: sleep <seconds>'' @ [NL]) s
      else finish (timer_sleep_ms (word_of_int (atoi_simple (argv ! 1)) * 1000) s))"

text \<open>
  The three commands that stop the machine: what they do to the ports, after which the processor
  halts for good and the command never returns.
\<close>

partial_function (option) kbc_wait :: "'a io_scheme \<Rightarrow> 'a io_scheme run" where
  "kbc_wait s = (let r = inb 0x64 s in if snd r AND 0x02 \<noteq> 0 then kbc_wait (fst r) else ret (fst r))"

definition reboot_ports :: "'a kernel_scheme \<Rightarrow> 'a kernel_scheme run" where
  "reboot_ports s =
     run_bind (console_write (''Rebooting...'' @ [NL]) s) (\<lambda>s.
     run_bind (kbc_wait s) (\<lambda>s. ret (outb 0x64 0xFE s)))"

definition cmd_reboot :: "string list \<Rightarrow> 'a kernel_scheme \<Rightarrow> ('a kernel_scheme \<times> int) run" where
  "cmd_reboot argv s = run_bind (reboot_ports s) (\<lambda>_. None)"

definition poweroff_ports :: "'a kernel_scheme \<Rightarrow> 'a kernel_scheme run" where
  "poweroff_ports s =
     run_bind (console_write (''Powering off...'' @ [NL]) s) (\<lambda>s.
     let s = outw 0x604 0x2000 s;
         s = outw 0xB004 0x2000 s;
         s = outw 0x4004 0x3400 s;
         s = outb 0xf4 0x10 s
     in console_write (''Power-off not supported here; halting instead.'' @ [NL]) s)"

definition cmd_poweroff :: "string list \<Rightarrow> 'a kernel_scheme \<Rightarrow> ('a kernel_scheme \<times> int) run" where
  "cmd_poweroff argv s = run_bind (poweroff_ports s) (\<lambda>_. None)"

definition cmd_halt :: "string list \<Rightarrow> 'a kernel_scheme \<Rightarrow> ('a kernel_scheme \<times> int) run" where
  "cmd_halt argv s =
     run_bind (console_write (''System halted. It is now safe to close the VM.'' @ [NL]) s) (\<lambda>_. None)"

section \<open>Running a command\<close>

fun run_command :: "command \<Rightarrow> string list \<Rightarrow> 'a kernel_scheme \<Rightarrow> ('a kernel_scheme \<times> int) run" where
  "run_command Help = cmd_help" | "run_command Banner = cmd_banner" | "run_command Clear = cmd_clear"
| "run_command Echo = cmd_echo" | "run_command Ls = cmd_ls" | "run_command Cat = cmd_cat"
| "run_command Cd = cmd_cd" | "run_command Pwd = cmd_pwd" | "run_command Mkdir = cmd_mkdir"
| "run_command Touch = cmd_touch" | "run_command Rm = cmd_rm" | "run_command Cp = cmd_cp"
| "run_command Mv = cmd_mv" | "run_command Hexdump = cmd_hexdump" | "run_command Grep = cmd_grep"
| "run_command Wc = cmd_wc" | "run_command Head = cmd_head" | "run_command Lscpu = cmd_lscpu"
| "run_command Lspci = cmd_lspci" | "run_command Free = cmd_free" | "run_command Uptime = cmd_uptime"
| "run_command Date = cmd_date" | "run_command Sleep = cmd_sleep" | "run_command History = cmd_history"
| "run_command Uname = cmd_uname" | "run_command Whoami = cmd_whoami" | "run_command License = cmd_license"
| "run_command Reboot = cmd_reboot" | "run_command Poweroff = cmd_poweroff" | "run_command Halt = cmd_halt"

end
