(* ===== verification/Shell.thy ===== *)
theory Shell
  imports Commands
begin

text \<open>
  The shell (shell/shell.c): line editing with a history ring, splitting a line into words, output
  redirection through a capture buffer, and the read-eval-print loop. A line is the string of the
  characters before its terminator.
\<close>

section \<open>History and line editing\<close>

definition CAPTURE_MAX :: u32 where "CAPTURE_MAX = 16384"

definition history_add :: "string \<Rightarrow> 'a kernel_scheme \<Rightarrow> 'a kernel_scheme" where
  "history_add line s =
     s\<lparr>history_ring := (history_ring s)(history_total s mod SHELL_HISTORY_MAX := str_lcpy SHELL_LINE_MAX line),
       history_total := history_total s + 1\<rparr>"

definition print_prompt :: "'a kernel_scheme \<Rightarrow> 'a kernel_scheme run" where
  "print_prompt s =
     run_bind (ramfs_path (shell_cwd s) RAMFS_PATH_MAX s) (\<lambda>path.
     run_bind (console_write ''root@raptor'' (console_set_color VGA_LIGHT_GREEN VGA_BLACK s)) (\<lambda>s.
     run_bind (console_putc CHR '':'' (console_set_color VGA_LIGHT_GREY VGA_BLACK s)) (\<lambda>s.
     run_bind (console_write path (console_set_color VGA_LIGHT_CYAN VGA_BLACK s)) (\<lambda>s.
     console_write ''# '' (console_set_color VGA_LIGHT_GREY VGA_BLACK s)))))"

definition rubout :: string where "rubout = [CHR 0x08, CHR '' '', CHR 0x08]"

primrec erase :: "nat \<Rightarrow> 'a kernel_scheme \<Rightarrow> 'a kernel_scheme run" where
  "erase 0 s = ret s"
| "erase (Suc n) s = run_bind (console_write rubout s) (erase n)"

definition replace_line :: "nat \<Rightarrow> nat \<Rightarrow> string option \<Rightarrow> 'a kernel_scheme \<Rightarrow> ('a kernel_scheme \<times> string) run" where
  "replace_line cap len line s =
     run_bind (erase len s) (\<lambda>s.
     case line of
       None \<Rightarrow> fault_run
     | Some str \<Rightarrow> run_bind (console_write (str_lcpy cap str) s) (\<lambda>s. ret (s, str_lcpy cap str)))"

text \<open>\<open>buf\<close> holds the characters typed so far, \<^verbatim>\<open>buf[0..len)\<close>.\<close>

partial_function (option) read_line_loop ::
    "nat \<Rightarrow> string \<Rightarrow> nat \<Rightarrow> 'a kernel_scheme \<Rightarrow> ('a kernel_scheme \<times> string) run" where
  "read_line_loop cap buf browse s = run_bind (console_getchar s) (\<lambda>(s, c).
     if c = 0x0A then run_bind (console_putc NL s) (\<lambda>s. ret (s, buf))
     else if c = 0x08 then
       if buf \<noteq> [] then run_bind (console_write rubout s) (read_line_loop cap (butlast buf) browse)
       else read_line_loop cap buf browse s
     else if c = KEY_UP then
       if browse > 0
       then run_bind (replace_line cap (length buf) (shell_history (int browse - 1) s) s)
              (\<lambda>(s, buf). read_line_loop cap buf (browse - 1) s)
       else read_line_loop cap buf browse s
     else if c = KEY_DOWN then
       if browse < shell_history_count s
       then run_bind (replace_line cap (length buf)
                       (if browse + 1 = shell_history_count s then Some [] else shell_history (int browse + 1) s) s)
              (\<lambda>(s, buf). read_line_loop cap buf (browse + 1) s)
       else read_line_loop cap buf browse s
     else
       let c = (if c = 0x09 then uchar CHR '' '' else c) in
       if c < 0x20 \<or> c > 0x7e then read_line_loop cap buf browse s
       else if length buf + 1 < cap
       then run_bind (console_putc (char_of c) s) (read_line_loop cap (buf @ [char_of c]) browse)
       else read_line_loop cap buf browse s)"

definition read_line :: "nat \<Rightarrow> 'a kernel_scheme \<Rightarrow> ('a kernel_scheme \<times> string) run" where
  "read_line cap s = read_line_loop cap [] (shell_history_count s) s"

section \<open>Splitting a line\<close>

abbreviation blank :: "char \<Rightarrow> bool" where "blank c \<equiv> c = CHR '' ''"

text \<open>The words, each ended in place by a terminator: at most \<open>max - argc\<close> more of them.\<close>

function tokenize_loop :: "nat \<Rightarrow> nat \<Rightarrow> string \<Rightarrow> string list" where
  "tokenize_loop argc maxargs line =
     (let p = dropWhile blank line in
      if p = [] \<or> argc \<ge> maxargs then []
      else if hd p = DQ
      then let w = takeWhile (\<lambda>c. c \<noteq> DQ) (tl p)
           in w # tokenize_loop (argc + 1) maxargs (drop (length w + 1) (tl p))
      else let w = takeWhile (\<lambda>c. \<not> blank c) p
           in w # tokenize_loop (argc + 1) maxargs (drop (length w + 1) p))"
  by pat_completeness auto
termination
  by (relation "measure (\<lambda>(argc, maxargs, _). maxargs - argc)") auto

declare tokenize_loop.simps [simp del]

definition tokenize :: "string \<Rightarrow> nat \<Rightarrow> string list" where
  "tokenize line maxargs = tokenize_loop 0 maxargs line"

primrec find_in :: "(string \<times> string \<times> command) list \<Rightarrow> string \<Rightarrow> command option" where
  "find_in [] name = None"
| "find_in (c # cs) name = (if str_cmp (fst c) name = 0 then Some (snd (snd c)) else find_in cs name)"

definition find_command :: "string \<Rightarrow> command option" where
  "find_command name = find_in shell_commands name"

section \<open>Executing a line\<close>

definition redirect_to_file :: "string \<Rightarrow> addr \<Rightarrow> u32 \<Rightarrow> bool \<Rightarrow> 'a kernel_scheme \<Rightarrow> 'a kernel_scheme run" where
  "redirect_to_file path data len app s =
     run_bind (ramfs_resolve (shell_cwd s) path s) (\<lambda>f.
     run_bind (if f = NULL then ramfs_create (shell_cwd s) path RAMFS_FILE s else ret (s, f)) (\<lambda>(s, f).
     run_bind (if f = NULL then ret False
               else run_bind (node_at f s) (\<lambda>n. ret (n_type n = RAMFS_FILE))) (\<lambda>is_file.
     if \<not> is_file then kprintf (''rsh: cannot write to %s'' @ [NL]) [Str (Some path)] s
     else run_bind (ramfs_write f (At data) len app s) (\<lambda>(s, ok).
          if \<not> ok then kprintf (''rsh: write to %s failed'' @ [NL]) [Str (Some path)] s
          else ret s))))"

text \<open>
  The redirection scan: the words before the first operator and, if there is one, its append flag
  and the words after it.
\<close>

definition is_redirect :: "string \<Rightarrow> bool" where
  "is_redirect w \<longleftrightarrow> str_cmp w ''>'' = 0 \<or> str_cmp w ''>>'' = 0"

fun split_redirect :: "string list \<Rightarrow> string list \<times> (bool \<times> string list) option" where
  "split_redirect [] = ([], None)"
| "split_redirect (w # ws) =
     (if is_redirect w then ([], Some (length w > 1 \<and> w ! 1 = CHR ''>'', ws))
      else case split_redirect ws of (args, r) \<Rightarrow> (w # args, r))"

definition execute :: "string \<Rightarrow> 'a kernel_scheme \<Rightarrow> 'a kernel_scheme run" where
  "execute line s =
     (let words = tokenize line SHELL_ARGV_MAX in
      if words = [] then ret s
      else case split_redirect words of (argv, redirect) \<Rightarrow>
        if (case redirect of Some (_, []) \<Rightarrow> True | _ \<Rightarrow> False)
        then console_write (''rsh: missing redirection target'' @ [NL]) s
        else if argv = [] then ret s
        else case find_command (hd argv) of
          None \<Rightarrow> kprintf (''rsh: %s: command not found (try 'help')'' @ [NL]) [Str (Some (hd argv))] s
        | Some cmd \<Rightarrow>
            (case redirect of
               None \<Rightarrow> run_bind (run_command cmd argv s) (\<lambda>(s, _). ret s)
             | Some (app, targets) \<Rightarrow>
                 run_bind (kmalloc (heap s) CAPTURE_MAX) (\<lambda>(h, buf).
                 let s = s\<lparr>heap := h\<rparr> in
                 if buf = NULL then console_write (''rsh: out of memory for redirection'' @ [NL]) s
                 else run_bind (run_command cmd argv (console_capture_begin buf CAPTURE_MAX s)) (\<lambda>(s, _).
                      case console_capture_end s of (s, len) \<Rightarrow>
                      run_bind (redirect_to_file (hd targets) buf len app s) (\<lambda>s.
                      run_bind (kfree (heap s) buf) (\<lambda>h. ret (s\<lparr>heap := h\<rparr>)))))))"

section \<open>The read-eval-print loop\<close>

text \<open>
  The shell greets the user and then repeats \<open>shell_step\<close> for ever: as a run it never returns, and
  \<open>shell_steps\<close> are the states it passes through.
\<close>

definition shell_greet :: "'a kernel_scheme \<Rightarrow> 'a kernel_scheme run" where
  "shell_greet s =
     (let s = s\<lparr>shell_cwd := ramfs_root s\<rparr> in
      run_bind (ramfs_resolve (shell_cwd s) ''/etc/motd'' s) (\<lambda>motd.
      run_bind (if motd = NULL then ret False
                else run_bind (node_at motd s) (\<lambda>n. ret (n_type n = RAMFS_FILE))) (\<lambda>is_file.
      if is_file then run_bind (put_data motd 0 s) (console_putc NL) else ret s)))"

definition shell_step :: "'a kernel_scheme \<Rightarrow> 'a kernel_scheme run" where
  "shell_step s =
     run_bind (print_prompt s) (\<lambda>s.
     run_bind (read_line SHELL_LINE_MAX s) (\<lambda>(s, line).
     execute line (if line \<noteq> [] then history_add line s else s)))"

partial_function (option) shell_loop :: "'a kernel_scheme \<Rightarrow> 'b run" where
  "shell_loop s = run_bind (shell_step s) shell_loop"

definition shell_run :: "'a kernel_scheme \<Rightarrow> 'b run" where
  "shell_run s = run_bind (shell_greet s) shell_loop"

inductive shell_steps :: "'a kernel_scheme \<Rightarrow> 'a kernel_scheme \<Rightarrow> bool" where
  start: "shell_greet s = ret t \<Longrightarrow> shell_steps s t"
| again: "shell_steps s t \<Longrightarrow> shell_step t = ret u \<Longrightarrow> shell_steps s u"

end
