(* ===== verification/ShellText.thy ===== *)
theory ShellText
  imports Shell
begin

text \<open>
  The text side of the shell: words of a line (\<^verbatim>\<open>tokenize\<close>), the history ring, and the counters of
  \<^verbatim>\<open>wc\<close>, each against a plain specification on lists.
\<close>

section \<open>Words\<close>

definition plain_word :: "string \<Rightarrow> bool" where
  "plain_word w \<longleftrightarrow> w \<noteq> [] \<and> hd w \<noteq> DQ \<and> CHR '' '' \<notin> set w"

text \<open>How a user writes a word: as it is, or in double quotes.\<close>

definition quote :: "string \<Rightarrow> string" where
  "quote w = (if plain_word w then w else DQ # w @ [DQ])"

fun join_words :: "string list \<Rightarrow> string" where
  "join_words [] = []"
| "join_words [w] = quote w"
| "join_words (w # ws) = quote w @ CHR '' '' # join_words ws"

lemma tokenize_blank: "tokenize_loop k m (CHR '' '' # line) = tokenize_loop k m line"
  by (subst (1 2) tokenize_loop.simps) simp

lemma DQ_blank [simp]: "DQ \<noteq> CHR '' ''" "CHR '' '' \<noteq> DQ"
  by (simp_all add: DQ_def)

lemma tokenize_word:
  assumes "DQ \<notin> set w" "k < m" "rest = [] \<or> hd rest = CHR '' ''"
  shows "tokenize_loop k m (quote w @ rest) = w # tokenize_loop (k + 1) m rest"
proof (cases "plain_word w")
  case True
  then obtain c cs where w: "w = c # cs" "c \<noteq> DQ" "c \<noteq> CHR '' ''" "CHR '' '' \<notin> set cs"
    by (cases w) (auto simp: plain_word_def)
  have tw: "takeWhile (\<lambda>c. \<not> blank c) (w @ rest) = w"
    using True assms(3) by (cases rest) (auto simp: plain_word_def takeWhile_append)
  have "tokenize_loop k m (w @ rest) = w # tokenize_loop (k + 1) m (drop (length w + 1) (w @ rest))"
    using assms(2) w tw by (subst tokenize_loop.simps) (simp add: Let_def)
  moreover have "tokenize_loop (k + 1) m (drop (length w + 1) (w @ rest)) = tokenize_loop (k + 1) m rest"
    using assms(3) by (cases rest) (simp_all add: tokenize_blank)
  ultimately show ?thesis using True by (simp add: quote_def)
next
  case False
  have tw: "takeWhile (\<lambda>c. c \<noteq> DQ) (w @ DQ # rest) = w"
    using assms(1) by (auto simp: takeWhile_append)
  have "tokenize_loop k m (DQ # w @ DQ # rest) = w # tokenize_loop (k + 1) m (drop (length w + 1) (w @ DQ # rest))"
    using assms(2) tw by (subst tokenize_loop.simps) (simp add: Let_def)
  then show ?thesis using False by (simp add: quote_def)
qed

lemma tokenize_join:
  assumes "\<forall>w \<in> set ws. DQ \<notin> set w"
  shows "tokenize_loop k m (join_words ws) = take (m - k) ws"
  using assms
proof (induction ws arbitrary: k rule: join_words.induct)
  case 1
  show ?case by (subst tokenize_loop.simps) simp
next
  case (2 w)
  have empty: "tokenize_loop (k + 1) m [] = []" by (subst tokenize_loop.simps) simp
  show ?case
  proof (cases "k < m")
    case True
    have "tokenize_loop k m (quote w @ []) = w # tokenize_loop (k + 1) m []"
      by (rule tokenize_word) (use 2 True in simp_all)
    then show ?thesis using empty True by (simp add: take_Cons')
  next
    case False
    then show ?thesis by (subst tokenize_loop.simps) (simp add: Let_def)
  qed
next
  case (3 w v vs)
  show ?case
  proof (cases "k < m")
    case True
    have "tokenize_loop k m (quote w @ CHR '' '' # join_words (v # vs)) =
        w # tokenize_loop (k + 1) m (CHR '' '' # join_words (v # vs))"
      by (rule tokenize_word) (use 3 True in simp_all)
    then show ?thesis using 3 True by (simp add: tokenize_blank take_Cons' Suc_diff_Suc)
  next
    case False
    then show ?thesis by (subst tokenize_loop.simps) (simp add: Let_def)
  qed
qed

lemma tokenize_loop_cases:
  obtains "tokenize_loop k m line = []" | w r where "k < m" "tokenize_loop k m line = w # tokenize_loop (k + 1) m r"
  by (cases "dropWhile blank line = [] \<or> m \<le> k"; cases "hd (dropWhile blank line) = DQ")
    (use tokenize_loop.simps [of k m line] in \<open>auto simp: Let_def\<close>)

lemma tokenize_loop_length: "length (tokenize_loop k m line) \<le> m - k"
proof (induction "m - k" arbitrary: k line rule: less_induct)
  case less
  show ?case
  proof (cases rule: tokenize_loop_cases [of k m line])
    case (2 w r)
    have "length (tokenize_loop (k + 1) m r) \<le> m - (k + 1)" by (rule less.hyps) (use 2 in simp)
    then show ?thesis using 2 by simp
  qed simp
qed

section \<open>History\<close>

text \<open>What the ring holds: the last 16 lines, oldest first.\<close>

definition last_lines :: "string list \<Rightarrow> string list" where
  "last_lines ls = map (str_lcpy SHELL_LINE_MAX) (drop (length ls - SHELL_HISTORY_MAX) ls)"

definition history_holds :: "string list \<Rightarrow> 'a kernel_scheme \<Rightarrow> bool" where
  "history_holds ls s \<longleftrightarrow> history_total s = length ls \<and>
     (\<forall>i < length ls. length ls \<le> i + SHELL_HISTORY_MAX \<longrightarrow>
        history_ring s (i mod SHELL_HISTORY_MAX) = str_lcpy SHELL_LINE_MAX (ls ! i))"

lemma mod_window:
  fixes i j n :: nat
  assumes "i mod n = j mod n" "i < j" "j \<le> i + n"
  shows "j = i + n"
  using assms mod_eq_dvd_iff_nat [of i j n] dvd_imp_le [of n "j - i"] by simp

lemma history_add_holds:
  assumes "history_holds ls s"
  shows "history_holds (ls @ [line]) (history_add line s)"
proof -
  have "history_ring (history_add line s) (i mod SHELL_HISTORY_MAX) = str_lcpy SHELL_LINE_MAX ((ls @ [line]) ! i)"
    if i: "i < length (ls @ [line])" "length (ls @ [line]) \<le> i + SHELL_HISTORY_MAX" for i
  proof (cases "i = length ls")
    case True
    then show ?thesis using assms by (simp add: history_add_def history_holds_def)
  next
    case False
    then have lt: "i < length ls" using i(1) by simp
    have "i mod SHELL_HISTORY_MAX \<noteq> length ls mod SHELL_HISTORY_MAX"
      using mod_window [of i SHELL_HISTORY_MAX "length ls"] lt i(2) by auto
    then show ?thesis using assms lt i(2) by (simp add: history_add_def history_holds_def nth_append)
  qed
  then show ?thesis using assms by (simp add: history_holds_def history_add_def)
qed

lemma history_lookup:
  assumes "history_holds ls s"
  shows "shell_history_count s = length (last_lines ls)"
    "shell_history i s = (if 0 \<le> i \<and> i < int (length (last_lines ls)) then Some (last_lines ls ! nat i) else None)"
proof -
  show c: "shell_history_count s = length (last_lines ls)"
    using assms by (auto simp: shell_history_count_def history_holds_def last_lines_def)
  show "shell_history i s = (if 0 \<le> i \<and> i < int (length (last_lines ls)) then Some (last_lines ls ! nat i) else None)"
  proof (cases "0 \<le> i \<and> i < int (length (last_lines ls))")
    case True
    let ?j = "length ls - length (last_lines ls) + nat i"
    have j: "?j < length ls" "length ls \<le> ?j + SHELL_HISTORY_MAX" using True by (auto simp: last_lines_def)
    have "shell_history i s = Some (history_ring s (?j mod SHELL_HISTORY_MAX))"
      using True c assms by (simp add: shell_history_def history_holds_def)
    also have "history_ring s (?j mod SHELL_HISTORY_MAX) = str_lcpy SHELL_LINE_MAX (ls ! ?j)"
      using assms j by (simp add: history_holds_def)
    also have "\<dots> = last_lines ls ! nat i"
      using True by (simp add: last_lines_def nat_less_iff)
    finally show ?thesis using True by simp
  next
    case False
    then show ?thesis using c by (auto simp: shell_history_def)
  qed
qed

lemma history_fold:
  assumes "history_holds ls s"
  shows "history_holds (ls @ ms) (fold history_add ms s)"
  using assms
proof (induction ms arbitrary: ls s)
  case (Cons m ms)
  then show ?case using Cons.IH [OF history_add_holds [OF Cons.prems]] by simp
qed simp

end
