(* ===== verification/RamfsTree.thy ===== *)
theory RamfsTree
  imports Ramfs
begin

text \<open>
  The shape of the node store of fs/ramfs.c: sibling lists, the parent relation, the invariant of
  a forest of nodes, the paths that name its nodes, and what attaching, detaching, renaming and
  dropping do to them. Everything here is about the store alone.
\<close>

type_synonym store = "addr \<Rightarrow> ramfs_node option"

section \<open>Sibling lists and the parent relation\<close>

primrec sibs :: "store \<Rightarrow> addr \<Rightarrow> addr list \<Rightarrow> bool" where
  "sibs N c [] \<longleftrightarrow> c = NULL"
| "sibs N c (x # xs) \<longleftrightarrow> c = x \<and> c \<noteq> NULL \<and> (\<exists>n. N c = Some n \<and> sibs N (n_next n) xs)"

definition edges :: "store \<Rightarrow> (addr \<times> addr) set" where
  "edges N = {(p, c). p \<noteq> NULL \<and> (\<exists>m. N c = Some m \<and> n_parent m = p)}"

definition below :: "store \<Rightarrow> addr \<Rightarrow> addr set" where
  "below N c = {x. (c, x) \<in> (edges N)\<^sup>*}"

definition name_of :: "store \<Rightarrow> addr \<Rightarrow> string" where
  "name_of N p = (case N p of Some n \<Rightarrow> n_name n | None \<Rightarrow> [])"

definition valid_name :: "string \<Rightarrow> bool" where
  "valid_name x \<longleftrightarrow> x \<noteq> [] \<and> length x < RAMFS_NAME_MAX \<and> NUL \<notin> set x \<and> CHR ''/'' \<notin> set x \<and> x \<noteq> ''.'' \<and> x \<noteq> ''..''"

text \<open>
  A forest of nodes with roots \<open>R\<close>; \<open>K p\<close> are the children of \<open>p\<close> in list order. While a node
  is being moved or removed it is a root of its own.
\<close>

definition node_ok :: "store \<Rightarrow> addr set \<Rightarrow> (addr \<Rightarrow> addr list) \<Rightarrow> addr \<Rightarrow> ramfs_node \<Rightarrow> bool" where
  "node_ok N R K p n \<longleftrightarrow>
     sibs N (n_children n) (K p) \<and> distinct (K p) \<and> (n_type n = RAMFS_FILE \<longrightarrow> K p = []) \<and>
     distinct (map (name_of N) (K p)) \<and>
     (\<forall>c \<in> set (K p). \<exists>m. N c = Some m \<and> n_parent m = p) \<and>
     (if p \<in> R then n_parent n = NULL
      else n_parent n \<in> dom N \<and> p \<in> set (K (n_parent n)) \<and> valid_name (n_name n))"

definition forest :: "store \<Rightarrow> addr set \<Rightarrow> (addr \<Rightarrow> addr list) \<Rightarrow> bool" where
  "forest N R K \<longleftrightarrow>
     finite (dom N) \<and> N NULL = None \<and> R \<subseteq> dom N \<and> acyclic (edges N) \<and>
     (\<forall>p n. N p = Some n \<longrightarrow> node_ok N R K p n)"

lemma forestD:
  assumes "forest N R K" "N p = Some n"
  shows "sibs N (n_children n) (K p)" "distinct (K p)" "n_type n = RAMFS_FILE \<Longrightarrow> K p = []"
    "distinct (map (name_of N) (K p))" "\<And>c. c \<in> set (K p) \<Longrightarrow> \<exists>m. N c = Some m \<and> n_parent m = p"
    "p \<in> R \<Longrightarrow> n_parent n = NULL" "p \<notin> R \<Longrightarrow> n_parent n \<in> dom N"
    "p \<notin> R \<Longrightarrow> p \<in> set (K (n_parent n))" "p \<notin> R \<Longrightarrow> valid_name (n_name n)"
    "p \<noteq> NULL"
  using assms unfolding forest_def node_ok_def by (auto split: if_splits)

lemma forest_basic:
  assumes "forest N R K"
  shows "finite (dom N)" "N NULL = None" "R \<subseteq> dom N" "acyclic (edges N)"
  using assms by (auto simp: forest_def)

lemma edges_iff: "(p, c) \<in> edges N \<longleftrightarrow> p \<noteq> NULL \<and> (\<exists>m. N c = Some m \<and> n_parent m = p)"
  by (simp add: edges_def)

lemma forest_kids:
  assumes "forest N R K" "p \<in> dom N"
  shows "c \<in> set (K p) \<longleftrightarrow> (p, c) \<in> edges N"
proof -
  obtain n where n: "N p = Some n" using assms(2) by auto
  have "p \<noteq> NULL" using forestD(10) [OF assms(1) n] .
  then show ?thesis
    using forestD(5) [OF assms(1) n] forestD(6,8) [OF assms(1)] by (fastforce simp: edges_iff)
qed

lemma finite_edges:
  assumes "forest N R K"
  shows "finite (edges N)"
proof (rule finite_subset)
  show "edges N \<subseteq> (\<lambda>c. (n_parent (the (N c)), c)) ` dom N" by (force simp: edges_def)
  show "finite ((\<lambda>c. (n_parent (the (N c)), c)) ` dom N)" using assms by (simp add: forest_def)
qed

lemma wf_edges: "forest N R K \<Longrightarrow> wf (edges N)" "forest N R K \<Longrightarrow> wf ((edges N)\<inverse>)"
  by (auto intro: finite_acyclic_wf finite_acyclic_wf_converse finite_edges simp: forest_basic(4))

lemma sibs_unique: "sibs N c xs \<Longrightarrow> sibs N c ys \<Longrightarrow> xs = ys"
proof (induction xs arbitrary: c ys)
  case Nil
  then show ?case by (cases ys) auto
next
  case (Cons x xs)
  then show ?case by (cases ys) auto
qed

text \<open>Agreement on the next links is enough for a sibling list.\<close>

lemma sibs_cong:
  assumes "\<And>x. x \<in> set xs \<Longrightarrow> map_option n_next (N x) = map_option n_next (N' x)"
  shows "sibs N c xs \<longleftrightarrow> sibs N' c xs"
  using assms
proof (induction xs arbitrary: c)
  case (Cons x xs)
  have "map_option n_next (N x) = map_option n_next (N' x)" using Cons.prems by simp
  moreover have "sibs N a xs \<longleftrightarrow> sibs N' a xs" for a using Cons by simp
  ultimately show ?case by (cases "N x"; cases "N' x") auto
qed simp

lemma sibs_mem: "sibs N c xs \<Longrightarrow> x \<in> set xs \<Longrightarrow> x \<in> dom N \<and> x \<noteq> NULL"
  by (induction xs arbitrary: c) auto

lemma below_refl [simp]: "c \<in> below N c"
  by (simp add: below_def)

lemma below_edge: "p \<in> below N c \<Longrightarrow> (p, q) \<in> edges N \<Longrightarrow> q \<in> below N c"
  by (simp add: below_def)

lemma root_not_below:
  assumes "forest N R K" "r \<in> R" "r \<noteq> c"
  shows "r \<notin> below N c"
proof
  assume "r \<in> below N c"
  then obtain p where "(p, r) \<in> edges N" using assms(3) by (auto simp: below_def elim: rtranclE)
  moreover obtain n where "N r = Some n" using assms(1,2) by (auto simp: forest_def)
  ultimately show False using forestD(6) [OF assms(1)] assms(2) by (auto simp: edges_iff)
qed

section \<open>Paths\<close>

text \<open>The node a list of names leads to from a start node, by names and parent links.\<close>

inductive at :: "store \<Rightarrow> addr \<Rightarrow> string list \<Rightarrow> addr \<Rightarrow> bool" for N r where
  here: "at N r [] r"
| child: "at N r P p \<Longrightarrow> (p, c) \<in> edges N \<Longrightarrow> x = name_of N c \<Longrightarrow> at N r (P @ [x]) c"

inductive_cases at_NilE: "at N r [] p"
inductive_cases at_snocE: "at N r (P @ [x]) c"

lemma at_Nil [simp]: "at N r [] p \<longleftrightarrow> p = r"
  by (auto elim: at_NilE intro: at.here)

lemma at_snoc: "at N r (P @ [x]) c \<longleftrightarrow> (\<exists>p. at N r P p \<and> (p, c) \<in> edges N \<and> x = name_of N c)"
  by (auto elim: at_snocE intro: at.child)

lemma at_append: "at N r (P @ Q) q \<longleftrightarrow> (\<exists>p. at N r P p \<and> at N p Q q)"
proof (induction Q arbitrary: q rule: rev_induct)
  case (snoc x Q)
  have "at N r (P @ Q @ [x]) q \<longleftrightarrow> at N r ((P @ Q) @ [x]) q" by simp
  also have "\<dots> \<longleftrightarrow> (\<exists>p. at N r P p \<and> at N p (Q @ [x]) q)" unfolding at_snoc snoc.IH by blast
  finally show ?case .
qed simp

lemma at_Cons: "at N r (x # Q) q \<longleftrightarrow> (\<exists>c. (r, c) \<in> edges N \<and> x = name_of N c \<and> at N c Q q)"
  using at_append [of N r "[x]" Q q] at_snoc [of N r "[]" x] by auto

lemma below_at: "q \<in> below N c \<longleftrightarrow> (\<exists>P. at N c P q)"
proof
  have "(c, q) \<in> (edges N)\<^sup>* \<Longrightarrow> \<exists>P. at N c P q"
  proof (induction rule: rtrancl_induct)
    case (step y z)
    then obtain P where "at N c P y" by blast
    then show ?case using step(2) at.child by blast
  qed (use at.here in blast)
  then show "q \<in> below N c \<Longrightarrow> \<exists>P. at N c P q" by (simp add: below_def)
next
  assume "\<exists>P. at N c P q"
  then obtain P where "at N c P q" ..
  then show "q \<in> below N c"
    by induction (auto intro: below_edge)
qed

text \<open>A path leads to one node only, and a node has one path only.\<close>

lemma edge_names:
  assumes "forest N R K" "(p, c) \<in> edges N" "(p, d) \<in> edges N" "name_of N c = name_of N d"
  shows "c = d"
proof -
  obtain m where m: "N c = Some m" "n_parent m = p" "p \<noteq> NULL" using assms(2) by (auto simp: edges_iff)
  have "c \<notin> R" using forestD(6) [OF assms(1) m(1)] m by auto
  then obtain n where n: "N p = Some n" using forestD(7) [OF assms(1) m(1)] m(2) by auto
  have "c \<in> set (K p)" "d \<in> set (K p)" using assms(2,3) forest_kids [OF assms(1)] n by auto
  then show ?thesis
    using forestD(4) [OF assms(1) n] assms(4) by (metis distinct_map inj_onD)
qed

lemma at_functional:
  assumes "forest N R K"
  shows "at N r P p \<Longrightarrow> at N r P q \<Longrightarrow> p = q"
proof (induction P arbitrary: p q rule: rev_induct)
  case (snoc x P)
  then show ?case using edge_names [OF assms] unfolding at_snoc by metis
qed simp

lemma edge_parent: "(p, c) \<in> edges N \<Longrightarrow> (q, c) \<in> edges N \<Longrightarrow> p = q"
  by (auto simp: edges_iff)

lemma at_cycle:
  assumes "forest N R K" "at N p P p"
  shows "P = []"
proof (cases P rule: rev_exhaust)
  case (snoc Q x)
  obtain q where q: "at N p Q q" "(q, p) \<in> edges N" using assms(2) unfolding snoc at_snoc by blast
  then have "(p, q) \<in> (edges N)\<^sup>*" using below_at by (force simp: below_def)
  then have "(p, p) \<in> (edges N)\<^sup>+" using q(2) by (rule rtrancl_into_trancl1)
  then show ?thesis using assms(1) by (simp add: forest_def acyclic_def)
qed

lemma at_injective:
  assumes "forest N R K"
  shows "at N r P p \<Longrightarrow> at N r Q p \<Longrightarrow> P = Q"
proof (induction P arbitrary: p Q rule: rev_induct)
  case Nil
  then show ?case using at_cycle [OF assms, of r Q] by simp
next
  case (snoc x P)
  obtain q where q: "at N r P q" "(q, p) \<in> edges N" "x = name_of N p"
    using snoc.prems(1) unfolding at_snoc by blast
  show ?case
  proof (cases Q rule: rev_exhaust)
    case Nil
    then show ?thesis using snoc.prems at_cycle [OF assms, of r "P @ [x]"] by simp
  next
    case (snoc Q' y)
    obtain q' where q': "at N r Q' q'" "(q', p) \<in> edges N" "y = name_of N p"
      using snoc.prems(2) unfolding \<open>Q = Q' @ [y]\<close> at_snoc by blast
    have "q' = q" by (rule edge_parent [OF q'(2) q(2)])
    then show ?thesis using snoc.IH [OF q(1), of Q'] q q' snoc by simp
  qed
qed

text \<open>Every node hangs below a root.\<close>

lemma below_root:
  assumes "forest N R K" "p \<in> dom N"
  shows "\<exists>r \<in> R. p \<in> below N r"
  using assms(2)
proof (induction p rule: wf_induct_rule [OF wf_edges(1) [OF assms(1)]])
  case (1 p)
  obtain n where n: "N p = Some n" using 1(2) by auto
  show ?case
  proof (cases "p \<in> R")
    case False
    have d: "n_parent n \<in> dom N" using forestD(7) [OF assms(1) n False] .
    then have "(n_parent n, p) \<in> edges N" using n forest_basic(2) [OF assms(1)] by (auto simp: edges_iff)
    then show ?thesis using 1(1) d below_edge by blast
  qed (use below_refl in blast)
qed

lemma below_dom:
  assumes "c \<in> dom N" "x \<in> below N c"
  shows "x \<in> dom N"
proof -
  have "(c, x) \<in> (edges N)\<^sup>*" using assms(2) by (simp add: below_def)
  then show ?thesis using assms(1) by induction (auto simp: edges_iff)
qed

lemma below_total:
  assumes "p \<in> below N c" "p \<in> below N d"
  shows "c \<in> below N d \<or> d \<in> below N c"
proof -
  have "(c, p) \<in> (edges N)\<^sup>*" using assms(1) by (simp add: below_def)
  then show ?thesis using assms(2)
  proof (induction rule: rtrancl_induct)
    case (step y z)
    show ?case
    proof (cases "z = d")
      case True
      then show ?thesis using step below_def by (auto intro: rtrancl_into_rtrancl)
    next
      case False
      then obtain q where "q \<in> below N d" "(q, z) \<in> edges N"
        using step(4) by (auto simp: below_def elim: rtranclE)
      then show ?thesis using step(3) edge_parent [OF step(2)] by blast
    qed
  qed simp
qed

section \<open>Changing the store\<close>

text \<open>Nodes with the same links; only a root may change its name.\<close>

definition same_links :: "addr set \<Rightarrow> store \<Rightarrow> store \<Rightarrow> bool" where
  "same_links R N N' \<longleftrightarrow> (\<forall>p.
     map_option (\<lambda>n. (n_type n, n_parent n, n_children n, n_next n)) (N' p) =
     map_option (\<lambda>n. (n_type n, n_parent n, n_children n, n_next n)) (N p) \<and>
     (p \<in> R \<or> name_of N' p = name_of N p))"

lemma same_linksD:
  assumes "same_links R N N'" "N' p = Some n'"
  obtains n where "N p = Some n" "n_type n' = n_type n" "n_parent n' = n_parent n"
    "n_children n' = n_children n" "n_next n' = n_next n" "p \<in> R \<or> n_name n' = n_name n"
  using spec [OF assms(1) [unfolded same_links_def], of p] assms(2)
  by (cases "N p") (auto simp: name_of_def)

lemma same_links_upd:
  assumes "N p = Some n" "n_type n' = n_type n" "n_parent n' = n_parent n" "n_children n' = n_children n"
    "n_next n' = n_next n" "p \<in> R \<or> n_name n' = n_name n"
  shows "same_links R N (N(p \<mapsto> n'))"
  using assms by (auto simp: same_links_def name_of_def)

lemma same_links_dom:
  assumes "same_links R N N'"
  shows "dom N' = dom N"
proof -
  have "N' p = None \<longleftrightarrow> N p = None" for p
    using spec [OF assms [unfolded same_links_def], of p] by (cases "N p"; cases "N' p") simp_all
  then show ?thesis by (simp add: dom_def)
qed

lemma same_links_edges:
  assumes "same_links R N N'"
  shows "edges N' = edges N"
proof -
  have "(\<exists>m. N' c = Some m \<and> n_parent m = p) \<longleftrightarrow> (\<exists>m. N c = Some m \<and> n_parent m = p)" for c p
    using spec [OF assms [unfolded same_links_def], of c] by (cases "N c"; cases "N' c") simp_all
  then show ?thesis by (simp add: edges_def)
qed

lemma same_links_sibs:
  assumes "same_links R N N'"
  shows "sibs N' c xs \<longleftrightarrow> sibs N c xs"
proof (rule sibs_cong)
  show "map_option n_next (N' x) = map_option n_next (N x)" for x
    using spec [OF assms [unfolded same_links_def], of x] by (cases "N x"; cases "N' x") simp_all
qed

lemma forest_same_links:
  assumes f: "forest N R K" and eq: "same_links R N N'"
  shows "forest N' R K"
proof -
  have "node_ok N' R K p n'" if p: "N' p = Some n'" for p n'
  proof -
    obtain n where n: "N p = Some n" "n_type n' = n_type n" "n_parent n' = n_parent n"
        "n_children n' = n_children n" "p \<in> R \<or> n_name n' = n_name n"
      using same_linksD [OF eq p] by metis
    have kid: "\<exists>m. N' c = Some m \<and> n_parent m = p \<and> name_of N' c = name_of N c" if c: "c \<in> set (K p)" for c
    proof -
      obtain m where m: "N c = Some m" "n_parent m = p" using forestD(5) [OF f n(1) c] by blast
      have "c \<notin> R" using forestD(6) [OF f m(1)] forestD(10) [OF f n(1)] m(2) by auto
      moreover obtain m' where "N' c = Some m'" using same_links_dom [OF eq] m(1) by blast
      moreover have "n_parent m' = p" by (rule same_linksD [OF eq \<open>N' c = Some m'\<close>]) (use m in simp)
      ultimately show ?thesis using eq by (auto simp: same_links_def)
    qed
    have "map (name_of N') (K p) = map (name_of N) (K p)" using kid by auto
    then have "distinct (map (name_of N') (K p))" using forestD(4) [OF f n(1)] by (rule ssubst)
    then show ?thesis
      using forestD [OF f n(1)] n kid same_links_sibs [OF eq] same_links_dom [OF eq]
      unfolding node_ok_def by auto
  qed
  then show ?thesis
    using f same_links_dom [OF eq] same_links_edges [OF eq] unfolding forest_def by (metis domIff)
qed

text \<open>A new node is a root without children.\<close>

lemma forest_new:
  assumes f: "forest N R K" and p: "N p = None" "p \<noteq> NULL"
    and n: "n_parent n = NULL" "n_children n = NULL"
  shows "forest (N(p \<mapsto> n)) (insert p R) (K(p := []))"
proof -
  let ?N = "N(p \<mapsto> n)"
  have names: "name_of ?N q = name_of N q" if "q \<in> dom N" for q
    using that p by (auto simp: name_of_def)
  have ed: "edges ?N = edges N" using p n by (auto simp: edges_def)
  have "node_ok ?N (insert p R) (K(p := [])) q m" if q: "N q = Some m" "q \<noteq> p" for q m
  proof -
    have kids: "x \<in> dom N" if "x \<in> set (K q)" for x using forestD(5) [OF f q(1) that] by auto
    have "sibs ?N (n_children m) (K q)"
      using forestD(1) [OF f q(1)] kids p(1) by (subst sibs_cong [where N' = N]) auto
    moreover have "map (name_of ?N) (K q) = map (name_of N) (K q)" using kids names by auto
    then have "distinct (map (name_of ?N) (K q))" using forestD(4) [OF f q(1)] by (rule ssubst)
    moreover have "\<exists>m. ?N c = Some m \<and> n_parent m = q" if "c \<in> set (K q)" for c
      using forestD(5) [OF f q(1) that] p(1) by auto
    moreover have "n_parent m \<noteq> p" if "q \<notin> R" using forestD(7) [OF f q(1) that] p(1) by auto
    ultimately show ?thesis
      using forestD [OF f q(1)] q(2) unfolding node_ok_def by auto
  qed
  moreover have "node_ok ?N (insert p R) (K(p := [])) p n" using n by (simp add: node_ok_def)
  ultimately show ?thesis
    using forest_basic [OF f] p(2) unfolding forest_def ed by auto
qed

text \<open>Attaching a root below a directory outside its own subtree.\<close>

definition attach_store :: "addr \<Rightarrow> addr \<Rightarrow> store \<Rightarrow> store" where
  "attach_store par c N =
     N(c \<mapsto> (the (N c))\<lparr>n_parent := par, n_next := n_children (the (N par))\<rparr>,
       par \<mapsto> (the (N par))\<lparr>n_children := c\<rparr>)"

lemma attach_store_props:
  assumes "N c = Some m" "N par = Some n" "par \<noteq> c"
  shows "name_of (attach_store par c N) = name_of N"
    "dom (attach_store par c N) = dom N"
    "n_parent m = NULL \<Longrightarrow> par \<noteq> NULL \<Longrightarrow> edges (attach_store par c N) = insert (par, c) (edges N)"
    "attach_store par c N c = Some (m\<lparr>n_parent := par, n_next := n_children n\<rparr>)"
    "attach_store par c N par = Some (n\<lparr>n_children := c\<rparr>)"
    "q \<noteq> c \<Longrightarrow> q \<noteq> par \<Longrightarrow> attach_store par c N q = N q"
proof -
  show "name_of (attach_store par c N) = name_of N"
    using assms by (auto simp: fun_eq_iff name_of_def attach_store_def)
  show "dom (attach_store par c N) = dom N"
    using assms by (auto simp: attach_store_def)
  show "edges (attach_store par c N) = insert (par, c) (edges N)" if "n_parent m = NULL" "par \<noteq> NULL"
    using assms that by (auto simp: edges_def attach_store_def)
qed (use assms in \<open>auto simp: attach_store_def\<close>)

text \<open>
  What attaching \<open>c\<close> needs: a detached tree, a directory outside it, and a name the directory has not got.
\<close>

definition attachable :: "store \<Rightarrow> addr set \<Rightarrow> (addr \<Rightarrow> addr list) \<Rightarrow> addr \<Rightarrow> addr \<Rightarrow> ramfs_node \<Rightarrow> ramfs_node \<Rightarrow> bool" where
  "attachable N R K par c n m \<longleftrightarrow> forest N (insert c R) K \<and> c \<notin> R \<and> N c = Some m \<and> N par = Some n \<and> n_type n = RAMFS_DIR \<and>
     par \<notin> below N c \<and> valid_name (n_name m) \<and> n_name m \<notin> name_of N ` set (K par)"

lemma attachableD:
  assumes "attachable N R K par c n m"
  shows "forest N (insert c R) K" "c \<notin> R" "N c = Some m" "N par = Some n" "par \<noteq> c" "par \<noteq> NULL" "c \<noteq> NULL" "n_parent m = NULL"
    "N q = Some k \<Longrightarrow> c \<notin> set (K q)"
proof -
  show f: "forest N (insert c R) K" "c \<notin> R" "N c = Some m" "N par = Some n" using assms by (simp_all add: attachable_def)
  have "par \<notin> below N c" using assms by (simp add: attachable_def)
  then show "par \<noteq> c" "par \<noteq> NULL" "c \<noteq> NULL" and top: "n_parent m = NULL"
    using forestD(10) [OF f(1,4)] forestD(10) [OF f(1,3)] forestD(6) [OF f(1,3)] by auto
  show "c \<notin> set (K q)" if "N q = Some k"
    using forestD(5) [OF f(1) that, of c] forestD(10) [OF f(1) that] f(3) top by auto
qed

text \<open>The old sibling lists stay as they are.\<close>

lemma attach_old:
  assumes A: "attachable N R K par c n m" and q: "N q = Some k"
  shows "sibs (attach_store par c N) a (K q) = sibs N a (K q)"
    "x \<in> set (K q) \<Longrightarrow> \<exists>u. attach_store par c N x = Some u \<and> n_parent u = q"
proof -
  note D = attachableD [OF A]
  note P = attach_store_props [where N = N, OF D(3,4,5)]
  show "sibs (attach_store par c N) a (K q) = sibs N a (K q)"
  proof (rule sibs_cong)
    fix x assume "x \<in> set (K q)"
    then have "x \<noteq> c" using D(9) [OF q] by auto
    then show "map_option n_next (attach_store par c N x) = map_option n_next (N x)"
      using P(5,6) D(4) by (cases "x = par") auto
  qed
  assume x: "x \<in> set (K q)"
  then have "x \<noteq> c" using D(9) [OF q] by auto
  then show "\<exists>u. attach_store par c N x = Some u \<and> n_parent u = q"
    using forestD(5) [OF D(1) q x] P(5,6) D(4) by (cases "x = par") auto
qed

lemma attach_node:
  assumes A: "attachable N R K par c n m" and q: "attach_store par c N q = Some k"
  shows "node_ok (attach_store par c N) R (K(par := c # K par)) q k"
proof -
  note D = attachableD [OF A] and name = A [unfolded attachable_def]
  note P = attach_store_props [where N = N, OF D(3,4,5)] and old = attach_old [OF A]
  consider (c) "q = c" | (par) "q = par" | (other) "q \<noteq> c" "q \<noteq> par" by blast
  then show ?thesis
  proof cases
    case c
    have k: "k = m\<lparr>n_parent := par, n_next := n_children n\<rparr>" using q P(4) c by simp
    show ?thesis
      using forestD(1-4) [OF D(1,3)] old [OF D(3)] D(2,4,5) name P(1,2) c unfolding node_ok_def k by auto
  next
    case par
    have k: "k = n\<lparr>n_children := c\<rparr>" using q P(5) par by simp
    have "sibs (attach_store par c N) c (c # K par)" using old(1) [OF D(4)] forestD(1) [OF D(1,4)] P(4) D(7) by simp
    moreover have "distinct (map (name_of N) (c # K par))"
      using forestD(4) [OF D(1,4)] name D(3) by (simp add: name_of_def)
    moreover have "n_parent n \<noteq> par"
    proof
      assume "n_parent n = par"
      then have "(par, par) \<in> edges N" using D(4,6) by (simp add: edges_iff)
      then show False using forest_basic(4) [OF D(1)] by (auto simp: acyclic_def)
    qed
    ultimately show ?thesis
      using forestD [OF D(1,4)] D(5,6) D(9) [OF D(4)] old(2) [OF D(4)] name P(1,2,4) par unfolding node_ok_def k by auto
  next
    case other
    have k: "N q = Some k" using q P(6) other by simp
    then show ?thesis
      using forestD [OF D(1) k] old [OF k] P(1,2) other unfolding node_ok_def by auto
  qed
qed

lemma forest_attach:
  assumes f: "forest N (insert c R) K" and c: "c \<notin> R" "N c = Some m"
    and par: "N par = Some n" "n_type n = RAMFS_DIR" "par \<notin> below N c"
    and name: "valid_name (n_name m)" "n_name m \<notin> name_of N ` set (K par)"
  shows "forest (attach_store par c N) R (K(par := c # K par))"
proof -
  let ?N = "attach_store par c N"
  have A: "attachable N R K par c n m" using assms by (simp add: attachable_def)
  note D = attachableD [OF A] and P = attach_store_props [where N = N, OF c(2) par(1)]
  have "edges ?N = insert (par, c) (edges N)" using P(3) D by simp
  then have "acyclic (edges ?N)" using forest_basic(4) [OF f] par(3) by (simp add: below_def)
  moreover have "?N NULL = None" using forest_basic(2) [OF f] P(6) D by auto
  ultimately show ?thesis
    using forest_basic(1,3) [OF f] P(2) D(5) attach_node [OF A] unfolding forest_def by simp
qed

text \<open>
  Detaching a node: the link before it takes its successor, then its own links are cleared.
  \<open>xs\<close> are the siblings before it.
\<close>

definition unlink_store :: "addr list \<Rightarrow> addr \<Rightarrow> store \<Rightarrow> store" where
  "unlink_store xs c N =
     (let m = the (N c) in
      if xs = [] then N(n_parent m \<mapsto> (the (N (n_parent m)))\<lparr>n_children := n_next m\<rparr>)
      else N(last xs \<mapsto> (the (N (last xs)))\<lparr>n_next := n_next m\<rparr>))"

definition detach_store :: "addr list \<Rightarrow> addr \<Rightarrow> store \<Rightarrow> store" where
  "detach_store xs c N =
     (unlink_store xs c N)(c \<mapsto> (the (N c))\<lparr>n_parent := NULL, n_next := NULL\<rparr>)"

lemma sibs_append: "sibs N a (xs @ c # ys) \<Longrightarrow> N c = Some m \<Longrightarrow> sibs N (n_next m) ys"
  by (induction xs arbitrary: a) auto

lemma sibs_unlink:
  assumes "sibs N a (xs @ c # ys)" "distinct (xs @ c # ys)" "N c = Some m" "xs \<noteq> []" "N (last xs) = Some l"
    "\<And>x. x \<in> set (xs @ ys) \<Longrightarrow> x \<noteq> last xs \<Longrightarrow> map_option n_next (N' x) = map_option n_next (N x)"
    "map_option n_next (N' (last xs)) = Some (n_next m)"
  shows "sibs N' a (xs @ ys)"
  using assms
proof (induction xs arbitrary: a)
  case (Cons x xs)
  have tail: "sibs N' (n_next m) ys"
  proof -
    have "sibs N (n_next m) ys" by (rule sibs_append [OF Cons.prems(1,3)])
    moreover have "map_option n_next (N' y) = map_option n_next (N y)" if "y \<in> set ys" for y
    proof -
      have "last (x # xs) \<in> set (x # xs)" by (rule last_in_set) simp
      then have "y \<noteq> last (x # xs)" using that Cons.prems(2) by (auto simp del: last.simps)
      then show ?thesis using Cons.prems(6) that by simp
    qed
    ultimately show ?thesis using sibs_cong [of ys N' N] by blast
  qed
  show ?case
  proof (cases "xs = []")
    case True
    then show ?thesis using tail Cons.prems(1,7) by auto
  next
    case False
    have x: "a = x" "x \<noteq> NULL" and nx: "\<exists>n. N x = Some n \<and> sibs N (n_next n) (xs @ c # ys)"
      using Cons.prems(1) by auto
    then obtain n where n: "N x = Some n" "sibs N (n_next n) (xs @ c # ys)" by blast
    have "last xs \<in> set xs" using False by simp
    then have "x \<noteq> last (x # xs)" using Cons.prems(2) False by auto
    then have "map_option n_next (N' x) = map_option n_next (N x)" using Cons.prems(6) by simp
    then obtain n' where n': "N' x = Some n'" "n_next n' = n_next n" using n(1) by auto
    have "sibs N' (n_next n) (xs @ ys)"
      by (rule Cons.IH [OF n(2)]) (use Cons.prems False in auto)
    then show ?thesis using n' x by simp
  qed
qed simp

lemma last_kid:
  assumes "forest N R K" "N p = Some n" "K p = xs @ c # ys" "xs \<noteq> []"
  shows "\<exists>l. N (last xs) = Some l \<and> n_parent l = p" "last xs \<noteq> c" "last xs \<noteq> p"
proof -
  have mem: "last xs \<in> set (K p)" using assms(3,4) by simp
  then show "\<exists>l. N (last xs) = Some l \<and> n_parent l = p" using forestD(5) [OF assms(1,2)] by blast
  show "last xs \<noteq> c" using forestD(2) [OF assms(1,2)] assms(3,4) last_in_set [OF assms(4)] by auto
  have "(p, last xs) \<in> edges N" using mem forest_kids [OF assms(1)] assms(2) by blast
  then show "last xs \<noteq> p" using forest_basic(4) [OF assms(1)] by (auto simp: acyclic_def)
qed

lemma detach_store_props:
  assumes f: "forest N R K" and c: "N c = Some m" "c \<notin> R" and k: "K (n_parent m) = xs @ c # ys"
  shows "name_of (detach_store xs c N) = name_of N"
    "dom (detach_store xs c N) = dom N"
    "edges (detach_store xs c N) = edges N - {(n_parent m, c)}"
    "detach_store xs c N c = Some (m\<lparr>n_parent := NULL, n_next := NULL\<rparr>)"
    "\<And>q. q \<noteq> c \<Longrightarrow> map_option n_parent (detach_store xs c N q) = map_option n_parent (N q)"
    "\<And>q. q \<noteq> c \<Longrightarrow> xs = [] \<or> q \<noteq> last xs \<Longrightarrow> map_option n_next (detach_store xs c N q) = map_option n_next (N q)"
    "xs \<noteq> [] \<Longrightarrow> map_option n_next (detach_store xs c N (last xs)) = Some (n_next m)"
    "\<And>q. q \<noteq> c \<Longrightarrow> q \<noteq> n_parent m \<or> xs \<noteq> [] \<Longrightarrow> map_option n_children (detach_store xs c N q) = map_option n_children (N q)"
    "xs = [] \<Longrightarrow> map_option n_children (detach_store xs c N (n_parent m)) = Some (n_next m)"
    "\<And>q. map_option (\<lambda>n. (n_type n, n_data n, n_size n, n_capacity n)) (detach_store xs c N q) =
      map_option (\<lambda>n. (n_type n, n_data n, n_size n, n_capacity n)) (N q)"
proof -
  obtain n where n: "N (n_parent m) = Some n" using forestD(7) [OF f c] by blast
  have "(n_parent m, c) \<in> edges N" using forestD(8) [OF f c] forest_kids [OF f] n by blast
  then have pc: "n_parent m \<noteq> c" using forest_basic(4) [OF f] by (auto simp: acyclic_def)
  let ?m = "m\<lparr>n_parent := NULL, n_next := NULL\<rparr>"
  obtain l where l: "xs \<noteq> [] \<Longrightarrow> N (last xs) = Some l" using last_kid [OF f n k] by blast
  have lc: "xs \<noteq> [] \<Longrightarrow> last xs \<noteq> c" by (rule last_kid [OF f n k])
  have E1: "xs = [] \<Longrightarrow> detach_store xs c N = N(n_parent m \<mapsto> n\<lparr>n_children := n_next m\<rparr>, c \<mapsto> ?m)"
    using n c by (simp add: detach_store_def unlink_store_def)
  have E2: "xs \<noteq> [] \<Longrightarrow> detach_store xs c N = N(last xs \<mapsto> l\<lparr>n_next := n_next m\<rparr>, c \<mapsto> ?m)"
    using l c by (simp add: detach_store_def unlink_store_def)
  consider (first) "xs = []" | (later) "xs \<noteq> []" by blast
  note cases = this
  show "name_of (detach_store xs c N) = name_of N"
    by (rule cases) (use E1 E2 n c l in \<open>simp_all add: fun_eq_iff name_of_def\<close>)
  show "dom (detach_store xs c N) = dom N"
    by (rule cases) (use E1 E2 n c l in auto)
  show P: "map_option n_parent (detach_store xs c N q) = map_option n_parent (N q)" if "q \<noteq> c" for q
    by (rule cases) (use E1 E2 n l that in simp_all)
  show C: "detach_store xs c N c = Some ?m"
    using c by (simp add: detach_store_def)
  have "(p, q) \<in> edges (detach_store xs c N) \<longleftrightarrow> (p, q) \<in> edges N - {(n_parent m, c)}" for p q
  proof (cases "q = c")
    case True
    then show ?thesis using C c(1) by (auto simp: edges_iff)
  next
    case False
    then show ?thesis
      using P [OF False] by (cases "N q"; cases "detach_store xs c N q") (simp_all add: edges_iff)
  qed
  then show "edges (detach_store xs c N) = edges N - {(n_parent m, c)}" by auto
  show "map_option n_next (detach_store xs c N q) = map_option n_next (N q)"
    if "q \<noteq> c" "xs = [] \<or> q \<noteq> last xs" for q
    by (rule cases) (use E1 E2 n that in simp_all)
  show "xs \<noteq> [] \<Longrightarrow> map_option n_next (detach_store xs c N (last xs)) = Some (n_next m)"
    using E2 lc by simp
  show "map_option n_children (detach_store xs c N q) = map_option n_children (N q)"
    if "q \<noteq> c" "q \<noteq> n_parent m \<or> xs \<noteq> []" for q
    by (rule cases) (use E1 E2 l that in simp_all)
  show "xs = [] \<Longrightarrow> map_option n_children (detach_store xs c N (n_parent m)) = Some (n_next m)"
    using E1 pc by simp
  show "map_option (\<lambda>n. (n_type n, n_data n, n_size n, n_capacity n)) (detach_store xs c N q) =
      map_option (\<lambda>n. (n_type n, n_data n, n_size n, n_capacity n)) (N q)" for q
    by (rule cases) (use E1 E2 n c l in simp_all)
qed

lemma kid_of_one:
  assumes "forest N R K" "N p = Some n" "N q = Some k" "x \<in> set (K p)" "x \<in> set (K q)"
  shows "p = q"
  using forestD(5) [OF assms(1,2,4)] forestD(5) [OF assms(1,3,5)] by auto

text \<open>The sibling lists after a detachment: the parent's list loses the node, every other one is as before.\<close>

lemma detach_sibs_parent:
  assumes f: "forest N R K" and c: "N c = Some m" "c \<notin> R" and k: "K (n_parent m) = xs @ c # ys"
    and n: "N (n_parent m) = Some n" "detach_store xs c N (n_parent m) = Some n'"
  shows "sibs (detach_store xs c N) (n_children n') (xs @ ys)"
proof -
  let ?N = "detach_store xs c N"
  note P = detach_store_props [OF f c k]
  have dist: "distinct (xs @ c # ys)" using forestD(2) [OF f n(1)] k by simp
  have pc: "n_parent m \<noteq> c" using n(1) forest_kids [OF f, of "n_parent m" c] k forest_basic(4) [OF f] by (auto simp: acyclic_def)
  have S: "sibs N (n_children n) (xs @ c # ys)" using forestD(1) [OF f n(1)] k by simp
  show ?thesis
  proof (cases "xs = []")
    case True
    have "sibs ?N (n_next m) ys \<longleftrightarrow> sibs N (n_next m) ys"
    proof (rule sibs_cong)
      fix x assume "x \<in> set ys"
      then have "x \<noteq> c" using dist by auto
      then show "map_option n_next (?N x) = map_option n_next (N x)" by (rule P(6)) (use True in simp)
    qed
    moreover have "n_children n' = n_next m" using P(9) [OF True] n(2) by simp
    ultimately show ?thesis using sibs_append [OF S c(1)] True by simp
  next
    case False
    obtain l where l: "N (last xs) = Some l" using last_kid(1) [OF f n(1) k False] by blast
    have "sibs ?N (n_children n) (xs @ ys)"
    proof (rule sibs_unlink [OF S dist c(1) False l])
      fix x assume "x \<in> set (xs @ ys)" "x \<noteq> last xs"
      then show "map_option n_next (?N x) = map_option n_next (N x)" by (intro P(6)) (use dist in auto)
    qed (rule P(7) [OF False])
    moreover have "n_children n' = n_children n" using P(8) [OF pc] False n by simp
    ultimately show ?thesis by simp
  qed
qed

lemma detach_sibs_other:
  assumes f: "forest N R K" and c: "N c = Some m" "c \<notin> R" and k: "K (n_parent m) = xs @ c # ys"
    and q: "N q = Some n" "detach_store xs c N q = Some n'" "q \<noteq> n_parent m"
  shows "sibs (detach_store xs c N) (n_children n') (K q)"
proof -
  let ?N = "detach_store xs c N"
  note P = detach_store_props [OF f c k]
  obtain u where u: "N (n_parent m) = Some u" using forestD(7) [OF f c] by blast
  have same: "n_children n' = n_children n"
  proof (cases "q = c")
    case True
    then show ?thesis using P(4) q c(1) by auto
  next
    case False
    then show ?thesis using P(8) [OF False] q by simp
  qed
  have "sibs ?N (n_children n) (K q) \<longleftrightarrow> sibs N (n_children n) (K q)"
  proof (rule sibs_cong)
    fix x assume x: "x \<in> set (K q)"
    have "x \<notin> set (K (n_parent m))" using kid_of_one [OF f u q(1)] x q(3) by blast
    then show "map_option n_next (?N x) = map_option n_next (N x)" by (intro P(6)) (use k in auto)
  qed
  then show ?thesis using same forestD(1) [OF f q(1)] by simp
qed

text \<open>The detached node is nobody's child.\<close>

lemma detach_kids:
  assumes f: "forest N R K" and c: "N c = Some m" "c \<notin> R" and k: "K (n_parent m) = xs @ c # ys" and q: "N q = Some n"
  shows "set ((K(n_parent m := xs @ ys)) q) \<subseteq> set (K q)" "c \<notin> set ((K(n_parent m := xs @ ys)) q)"
proof -
  obtain u where u: "N (n_parent m) = Some u" using forestD(7) [OF f c] by blast
  show "set ((K(n_parent m := xs @ ys)) q) \<subseteq> set (K q)" using k by auto
  show "c \<notin> set ((K(n_parent m := xs @ ys)) q)"
  proof (cases "q = n_parent m")
    case True
    then show ?thesis using forestD(2) [OF f u] k by simp
  next
    case False
    then have "c \<notin> set (K q)" using kid_of_one [OF f u q] k by auto
    then show ?thesis using False by simp
  qed
qed

lemma detach_up:
  assumes f: "forest N R K" and c: "N c = Some m" "c \<notin> R" and k: "K (n_parent m) = xs @ c # ys"
    and q: "N q = Some n" "detach_store xs c N q = Some n'"
  shows "if q \<in> insert c R then n_parent n' = NULL
    else n_parent n' \<in> dom (detach_store xs c N) \<and> q \<in> set ((K(n_parent m := xs @ ys)) (n_parent n')) \<and> valid_name (n_name n')"
proof (cases "q = c")
  case True
  then have "n' = m\<lparr>n_parent := NULL, n_next := NULL\<rparr>" using detach_store_props(4) [OF f c k] q by simp
  then show ?thesis using True by simp
next
  case False
  note P = detach_store_props [OF f c k]
  have "n_parent n' = n_parent n" using P(5) [OF False] q by simp
  moreover have "n_name n' = n_name n" using fun_cong [OF P(1), of q] q by (simp add: name_of_def)
  moreover have "q \<in> set ((K(n_parent m := xs @ ys)) (n_parent n))" if "q \<notin> R"
    using forestD(8) [OF f q(1) that] False k by (cases "n_parent n = n_parent m") simp_all
  ultimately show ?thesis using forestD(6,7,9) [OF f q(1)] False P(2) by simp
qed

lemma forest_detach:
  assumes f: "forest N R K" and c: "N c = Some m" "c \<notin> R" and k: "K (n_parent m) = xs @ c # ys"
  shows "forest (detach_store xs c N) (insert c R) (K(n_parent m := xs @ ys))"
proof -
  let ?N = "detach_store xs c N" and ?p = "n_parent m" and ?K = "K(n_parent m := xs @ ys)"
  note P = detach_store_props [OF f c k]
  obtain n where n: "N ?p = Some n" using forestD(7) [OF f c] by blast
  have "node_ok ?N (insert c R) ?K q k'" if q: "?N q = Some k'" for q k'
  proof -
    obtain k0 where k0: "N q = Some k0" using q P(2) by blast
    note kids = detach_kids [OF f c k k0]
    have sib: "sibs ?N (n_children k') (?K q)"
      using detach_sibs_parent [OF f c k n] detach_sibs_other [OF f c k k0 q] q by (cases "q = ?p") auto
    have kid: "\<exists>m. ?N x = Some m \<and> n_parent m = q" if "x \<in> set (?K q)" for x
    proof -
      have x: "x \<in> set (K q)" "x \<noteq> c" using kids that by auto
      then show ?thesis using forestD(5) [OF f k0 x(1)] P(5) [OF x(2)] by auto
    qed
    have "distinct (map (name_of N) (?K q))" "distinct (?K q)"
      using forestD(2,4) [OF f k0] forestD(2,4) [OF f n] k by (cases "q = ?p"; simp)+
    moreover have "n_type k' = RAMFS_FILE \<longrightarrow> ?K q = []"
      using forestD(3) [OF f k0] kids(1) P(10) [of q] q k0 by auto
    ultimately show ?thesis using sib kid P(1) detach_up [OF f c k k0 q] unfolding node_ok_def by simp
  qed
  moreover have "acyclic (edges ?N)" unfolding P(3) by (rule acyclic_subset [OF forest_basic(4) [OF f]]) auto
  moreover have "?N NULL = None" using P(2) forest_basic(2) [OF f] by (metis domIff)
  ultimately show ?thesis
    using forest_basic(1,3) [OF f] c P(2) unfolding forest_def by auto
qed

text \<open>Dropping the whole subtree of a root.\<close>

definition prune :: "addr \<Rightarrow> store \<Rightarrow> store" where
  "prune c N = N |` (- below N c)"

lemma edges_prune: "edges (prune c N) = {(p, q) \<in> edges N. q \<notin> below N c}"
  by (auto simp: edges_def prune_def restrict_map_def)

lemma prune_some: "prune c N p = (if p \<in> below N c then None else N p)"
  by (simp add: prune_def restrict_map_def)

lemma prune_outside:
  assumes f: "forest N (insert c R) K" and "p \<notin> below N c" "(p, x) \<in> edges N"
  shows "x \<notin> below N c"
proof
  assume "x \<in> below N c"
  then consider "x = c" | y where "y \<in> below N c" "(y, x) \<in> edges N"
    by (auto simp: below_def elim: rtranclE)
  then show False
  proof cases
    case 1
    obtain m where "N c = Some m" using forest_basic(3) [OF f] by auto
    then show ?thesis using assms(3) 1 forestD(6) [OF f] by (auto simp: edges_iff)
  next
    case 2
    then show ?thesis using edge_parent [OF assms(3)] assms(2) by blast
  qed
qed

lemma prune_node:
  assumes f: "forest N (insert c R) K" and "prune c N p = Some n"
  shows "node_ok (prune c N) R K p n"
proof -
  let ?N = "prune c N"
  have p: "N p = Some n" "p \<notin> below N c" using assms(2) by (auto simp: prune_some split: if_splits)
  then have pc: "p \<noteq> c" by auto
  have kids: "?N x = N x" "(p, x) \<in> edges N" if "x \<in> set (K p)" for x
    using prune_outside [OF f p(2)] forest_kids [OF f] that p(1) by (auto simp: prune_some)
  have "sibs ?N (n_children n) (K p) \<longleftrightarrow> sibs N (n_children n) (K p)"
    by (rule sibs_cong) (simp add: kids)
  moreover have "map (name_of ?N) (K p) = map (name_of N) (K p)" using kids by (simp add: name_of_def)
  then have "distinct (map (name_of ?N) (K p))" using forestD(4) [OF f p(1)] by (rule ssubst)
  moreover have "\<exists>m. ?N x = Some m \<and> n_parent m = p" if "x \<in> set (K p)" for x
    using forestD(5) [OF f p(1) that] kids(1) [OF that] by simp
  moreover have "n_parent n \<in> dom ?N" if "p \<notin> R"
  proof -
    have d: "n_parent n \<in> dom N" using forestD(7) [OF f p(1)] that pc by auto
    then have "(n_parent n, p) \<in> edges N" using p(1) forest_basic(2) [OF f] by (auto simp: edges_iff)
    then have "n_parent n \<notin> below N c" using p(2) below_edge by blast
    then show ?thesis using d by (simp add: prune_some domIff)
  qed
  ultimately show ?thesis using forestD [OF f p(1)] pc unfolding node_ok_def by auto
qed

lemma forest_prune:
  assumes f: "forest N (insert c R) K" and c: "c \<notin> R"
  shows "forest (prune c N) R K"
proof -
  let ?N = "prune c N"
  have "acyclic (edges ?N)"
    by (rule acyclic_subset [OF forest_basic(4) [OF f]]) (auto simp: edges_prune)
  moreover have "R \<subseteq> dom ?N"
  proof
    fix r assume r: "r \<in> R"
    then have "r \<notin> below N c" using root_not_below [OF f, of r c] c by auto
    then show "r \<in> dom ?N" using forest_basic(3) [OF f] r by (auto simp: domIff prune_some)
  qed
  moreover have "finite (dom ?N)" by (rule finite_subset [OF _ forest_basic(1) [OF f]]) (auto simp: prune_def)
  ultimately show ?thesis using forest_basic(2) [OF f] prune_node [OF f] unfolding forest_def by (simp add: prune_some)
qed

section \<open>Paths after a change\<close>

lemma at_mono:
  assumes "edges N \<subseteq> edges N'" "name_of N' = name_of N" "at N r P p"
  shows "at N' r P p"
  using assms(3) by (induction) (use assms(1,2) in \<open>auto intro: at.intros\<close>)

text \<open>After an attachment the subtree of \<open>c\<close> hangs below its new parent; everything else keeps its path.\<close>

lemma at_graft:
  assumes "edges N' = insert (par, c) (edges N)" "name_of N' = name_of N" "par \<notin> below N c"
  shows "at N' r Q q \<longleftrightarrow> at N r Q q \<or> (\<exists>P S. at N r P par \<and> Q = P @ name_of N c # S \<and> at N c S q)"
proof
  assume "at N' r Q q"
  then show "at N r Q q \<or> (\<exists>P S. at N r P par \<and> Q = P @ name_of N c # S \<and> at N c S q)"
  proof induction
    case (child Q p d x)
    have no: "\<not> at N c S par" for S using assms(3) below_at by blast
    show ?case
    proof (cases "(p, d) \<in> edges N")
      case True
      from child.IH show ?thesis
      proof
        assume "at N r Q p"
        then show ?thesis using True child.hyps(3) assms(2) at.child by metis
      next
        assume "\<exists>P S. at N r P par \<and> Q = P @ name_of N c # S \<and> at N c S p"
        then obtain P S where PS: "at N r P par" "Q = P @ name_of N c # S" "at N c S p" by blast
        have "at N c (S @ [x]) d" using PS(3) True child.hyps(3) assms(2) by (metis at.child)
        then show ?thesis using PS(1,2) by (intro disjI2 exI [of _ P] exI [of _ "S @ [x]"]) simp
      qed
    next
      case False
      then have d: "p = par" "d = c" using child.hyps(2) assms(1) by auto
      then have "at N r Q par" using child.IH no by blast
      then show ?thesis
        using d child.hyps(3) assms(2) by (intro disjI2 exI [of _ Q] exI [of _ "[]"]) simp
    qed
  qed (simp add: at.here)
next
  have mono: "at N a P b \<Longrightarrow> at N' a P b" for a P b by (rule at_mono [of N]) (auto simp: assms)
  assume "at N r Q q \<or> (\<exists>P S. at N r P par \<and> Q = P @ name_of N c # S \<and> at N c S q)"
  then show "at N' r Q q"
  proof
    assume "\<exists>P S. at N r P par \<and> Q = P @ name_of N c # S \<and> at N c S q"
    then obtain P S where PS: "at N r P par" "Q = P @ name_of N c # S" "at N c S q" by blast
    have "at N' par (name_of N c # S) q"
      unfolding at_Cons using assms(1,2) mono [OF PS(3)] by auto
    then show ?thesis using mono [OF PS(1)] PS(2) at_append by blast
  qed (rule mono)
qed

lemma at_same:
  assumes "edges N' = edges N" "\<And>p c. (p, c) \<in> edges N \<Longrightarrow> name_of N' c = name_of N c"
  shows "at N' r P p \<longleftrightarrow> at N r P p"
proof
  show "at N' r P p \<Longrightarrow> at N r P p"
    by (induction rule: at.induct) (use assms in \<open>auto intro: at.intros\<close>)
  show "at N r P p \<Longrightarrow> at N' r P p"
    by (induction rule: at.induct) (use assms in \<open>auto simp: at_snoc\<close>)
qed

lemma at_prune:
  assumes f: "forest N (insert c R) K" and r: "r \<in> R" and c: "c \<notin> R"
  shows "at (prune c N) r P p \<longleftrightarrow> at N r P p"
proof
  show "at (prune c N) r P p \<Longrightarrow> at N r P p"
  proof (induction rule: at.induct)
    case (child P p d x)
    have "d \<notin> below N c" "(p, d) \<in> edges N" using child.hyps(2) by (auto simp: edges_prune)
    moreover from this have "name_of (prune c N) d = name_of N d"
      by (simp add: name_of_def prune_def restrict_map_def)
    ultimately show ?case using child at.child by metis
  qed (rule at.here)
  have out: "p \<notin> below N c" if "at N r P p" for P p
  proof
    assume "p \<in> below N c"
    moreover have "p \<in> below N r" using that below_at by blast
    ultimately have "c \<in> below N r \<or> r \<in> below N c" by (rule below_total)
    then show False using root_not_below [OF f, of c r] root_not_below [OF f, of r c] r c by auto
  qed
  show "at N r P p \<Longrightarrow> at (prune c N) r P p"
  proof (induction rule: at.induct)
    case (child P p d x)
    have "d \<notin> below N c" using out at.child child.hyps by blast
    then have "(p, d) \<in> edges (prune c N)" using child.hyps(2) by (simp add: edges_prune)
    moreover have "name_of (prune c N) d = name_of N d"
      using \<open>d \<notin> below N c\<close> by (simp add: name_of_def prune_def restrict_map_def)
    ultimately show ?case using child at.child by metis
  qed (rule at.here)
qed

end
