(* ===== verification/RamfsLookup.thy ===== *)
theory RamfsLookup
  imports RamfsTree
begin

text \<open>
  Name and path lookup in fs/ramfs.c: \<^verbatim>\<open>find_child\<close>, \<^verbatim>\<open>walk\<close> and \<^verbatim>\<open>ramfs_resolve\<close> on a forest of
  nodes terminate without a fault and compute the lookup of the path's components.
\<close>

section \<open>Components of a path\<close>

primrec split_slash :: "string \<Rightarrow> string list" where
  "split_slash [] = [[]]"
| "split_slash (c # cs) =
     (if slash c then [] # split_slash cs
      else case split_slash cs of [] \<Rightarrow> [[c]] | w # ws \<Rightarrow> (c # w) # ws)"

definition components :: "string \<Rightarrow> string list" where
  "components p = filter (\<lambda>w. w \<noteq> []) (split_slash p)"

abbreviation nonslash :: "char \<Rightarrow> bool" where "nonslash c \<equiv> \<not> slash c"

lemma split_slash_unfold:
  "split_slash p = takeWhile nonslash p # (case dropWhile nonslash p of [] \<Rightarrow> [] | _ # r \<Rightarrow> split_slash r)"
  by (induction p) auto

lemma components_dropWhile [simp]: "components (dropWhile slash p) = components p"
  by (induction p) (simp_all add: components_def)

lemma components_Nil [simp]: "components [] = []"
  by (simp add: components_def)

lemma components_step:
  assumes "q \<noteq> []" "\<not> slash (hd q)"
  shows "components q = takeWhile nonslash q # components (dropWhile nonslash q)"
proof -
  have ne: "takeWhile nonslash q \<noteq> []" using assms by (cases q) auto
  show ?thesis
  proof (cases "dropWhile nonslash q")
    case Nil
    then show ?thesis
      using ne split_slash_unfold [of q] by (simp add: components_def del: dropWhile_eq_Nil_conv)
  next
    case (Cons c r)
    have "slash c" using Cons hd_dropWhile [of nonslash q] by simp
    then have "components (c # r) = components r" by (simp add: components_def)
    moreover have "components q = takeWhile nonslash q # components r"
      using ne split_slash_unfold [of q] Cons by (simp add: components_def)
    ultimately show ?thesis using Cons by simp
  qed
qed

lemma components_eq_Nil: "components p = [] \<longleftrightarrow> dropWhile slash p = []"
proof (cases "dropWhile slash p = []")
  case True
  then show ?thesis using components_dropWhile [of p] unfolding True by simp
next
  case False
  then show ?thesis
    using components_step [OF False] components_dropWhile [of p] hd_dropWhile [OF False] by simp
qed

lemma set_split_slash: "w \<in> set (split_slash p) \<Longrightarrow> set w \<subseteq> set p \<and> CHR ''/'' \<notin> set w"
proof (induction p arbitrary: w)
  case (Cons c cs)
  obtain v vs where v: "split_slash cs = v # vs" using split_slash_unfold [of cs] by blast
  note IH = Cons.IH [unfolded v]
  have w: "w = [] \<or> (\<not> slash c \<and> w = c # v) \<or> w \<in> set (v # vs)"
    using Cons.prems v by (auto split: if_splits)
  then show ?case using IH [of v] IH [of w] by auto
qed simp

lemma components_mem:
  assumes "w \<in> set (components p)"
  shows "w \<noteq> []" "set w \<subseteq> set p" "CHR ''/'' \<notin> set w"
  using assms set_split_slash by (auto simp: components_def)

section \<open>Lookup by name\<close>

definition kid :: "store \<Rightarrow> (addr \<Rightarrow> addr list) \<Rightarrow> addr \<Rightarrow> string \<Rightarrow> addr option" where
  "kid N K p x = find (\<lambda>c. name_of N c = x) (K p)"

abbreviation ptr :: "addr option \<Rightarrow> addr" where
  "ptr a \<equiv> (case a of Some p \<Rightarrow> p | None \<Rightarrow> NULL)"

lemma find_SomeD: "find P xs = Some c \<Longrightarrow> c \<in> set xs \<and> P c"
  by (auto simp: find_Some_iff)

lemma kid_Some:
  assumes "forest N R K" "p \<in> dom N"
  shows "kid N K p x = Some c \<longleftrightarrow> (p, c) \<in> edges N \<and> name_of N c = x"
proof
  assume "kid N K p x = Some c"
  then show "(p, c) \<in> edges N \<and> name_of N c = x"
    using forest_kids [OF assms] find_SomeD by (fastforce simp: kid_def)
next
  assume c: "(p, c) \<in> edges N \<and> name_of N c = x"
  then have "kid N K p x \<noteq> None"
    using forest_kids [OF assms] by (auto simp: kid_def find_None_iff)
  then obtain d where d: "kid N K p x = Some d" by blast
  then have "(p, d) \<in> edges N \<and> name_of N d = x"
    using forest_kids [OF assms] find_SomeD by (fastforce simp: kid_def)
  then show "kid N K p x = Some c" using edge_names [OF assms(1)] c d by metis
qed

lemma kid_None:
  assumes "forest N R K" "p \<in> dom N"
  shows "kid N K p x = None \<longleftrightarrow> x \<notin> name_of N ` set (K p)"
  by (auto simp: kid_def find_None_iff)

lemma kid_name_NUL:
  assumes "forest N R K" "N p = Some n" "c \<in> set (K p)"
  obtains m where "N c = Some m" "NUL \<notin> set (n_name m)" "name_of N c = n_name m" "c \<noteq> NULL"
proof -
  obtain m where m: "N c = Some m" "n_parent m = p" using forestD(5) [OF assms] by blast
  have "c \<notin> R" using forestD(6) [OF assms(1) m(1)] m(2) forestD(10) [OF assms(1,2)] by auto
  then have "valid_name (n_name m)" by (rule forestD(9) [OF assms(1) m(1)])
  then show thesis using that m forestD(10) [OF assms(1) m(1)] by (simp add: valid_name_def name_of_def)
qed

lemma find_child_loop_spec:
  assumes "sibs (nodes s) c xs" "NUL \<notin> set x"
    "\<And>q. q \<in> set xs \<Longrightarrow> \<exists>m. nodes s q = Some m \<and> NUL \<notin> set (n_name m) \<and> q \<noteq> NULL"
  shows "find_child_loop c x s = ret (ptr (find (\<lambda>q. name_of (nodes s) q = x) xs))"
  using assms(1,3)
proof (induction xs arbitrary: c)
  case Nil
  then show ?case by (simp add: find_child_loop.simps)
next
  case (Cons y ys)
  obtain m where m: "nodes s y = Some m" "NUL \<notin> set (n_name m)" "y \<noteq> NULL" using Cons.prems(2) [of y] by auto
  have c: "c = y" "sibs (nodes s) (n_next m) ys" using Cons.prems(1) m by auto
  have "find_child_loop y x s =
      (if n_name m = x then ret y else find_child_loop (n_next m) x s)"
    using m assms(2) by (subst find_child_loop.simps) (simp add: node_at_def str_cmp_eq_0)
  then show ?case using Cons.IH [OF c(2)] Cons.prems(2) c(1) m by (simp add: name_of_def)
qed

lemma find_child_spec:
  assumes "forest (nodes s) R K" "nodes s p = Some n" "NUL \<notin> set x"
  shows "find_child p x s = ret (ptr (kid (nodes s) K p x))"
proof -
  have "\<exists>m. nodes s q = Some m \<and> NUL \<notin> set (n_name m) \<and> q \<noteq> NULL" if "q \<in> set (K p)" for q
    using kid_name_NUL [OF assms(1,2) that] by metis
  then show ?thesis
    using find_child_loop_spec [OF forestD(1) [OF assms(1,2)] assms(3)] assms(2)
    by (simp add: find_child_def node_at_def kid_def)
qed

section \<open>Walking a path\<close>

text \<open>The result of \<^verbatim>\<open>walk\<close> as a function of the components.\<close>

definition up :: "store \<Rightarrow> addr \<Rightarrow> addr" where
  "up N p = (let q = n_parent (the (N p)) in if q \<noteq> NULL then q else p)"

fun walk_res :: "store \<Rightarrow> (addr \<Rightarrow> addr list) \<Rightarrow> addr \<Rightarrow> bool \<Rightarrow> string list \<Rightarrow> addr \<times> addr \<times> string" where
  "walk_res N K cur want [] = (cur, NULL, [])"
| "walk_res N K cur want (x # xs) =
     (if length x \<ge> RAMFS_NAME_MAX then (NULL, NULL, [])
      else if x = ''.'' then walk_res N K cur want xs
      else if x = ''..'' then walk_res N K (up N cur) want xs
      else if n_type (the (N cur)) \<noteq> RAMFS_DIR then (NULL, NULL, [])
      else if xs = [] \<and> want then (ptr (kid N K cur x), cur, x)
      else case kid N K cur x of None \<Rightarrow> (NULL, NULL, []) | Some c \<Rightarrow> walk_res N K c want xs)"

lemma up_dom:
  assumes "forest N R K" "p \<in> dom N"
  shows "up N p \<in> dom N"
proof -
  obtain n where n: "N p = Some n" using assms(2) by auto
  show ?thesis
  proof (cases "p \<in> R")
    case True
    then show ?thesis using forestD(6) [OF assms(1) n] assms(2) n by (simp add: up_def)
  next
    case False
    then show ?thesis using forestD(7) [OF assms(1) n] assms(2) n by (auto simp: up_def Let_def)
  qed
qed

lemma kid_dom: "forest N R K \<Longrightarrow> p \<in> dom N \<Longrightarrow> kid N K p x = Some c \<Longrightarrow> c \<in> dom N \<and> c \<noteq> NULL"
  using kid_Some forestD(10) unfolding edges_iff by blast

text \<open>How the loop cuts its path: the next component and what follows it.\<close>

definition next_part :: "string \<Rightarrow> string" where
  "next_part p = takeWhile nonslash (dropWhile slash p)"

definition later_part :: "string \<Rightarrow> string" where
  "later_part p = dropWhile slash (drop (length (next_part p)) (dropWhile slash p))"

lemma parts:
  assumes "dropWhile slash p \<noteq> []"
  shows "components p = next_part p # components (later_part p)" "length (later_part p) < length p"
    "NUL \<notin> set p \<Longrightarrow> NUL \<notin> set (next_part p)" "NUL \<notin> set p \<Longrightarrow> NUL \<notin> set (later_part p)"
    "later_part p = [] \<longleftrightarrow> components (later_part p) = []"
proof -
  define q where "q = dropWhile slash p"
  have ne: "q \<noteq> []" and hd: "\<not> slash (hd q)" using assms hd_dropWhile [of slash p] by (simp_all add: q_def)
  let ?x = "takeWhile nonslash q"
  have x: "next_part p = ?x" "later_part p = dropWhile slash (drop (length ?x) q)" by (simp_all add: next_part_def later_part_def q_def)
  have dr: "drop (length ?x) q = dropWhile nonslash q" by (simp add: dropWhile_eq_drop)
  have "components (later_part p) = components (dropWhile nonslash q)" by (simp only: x components_dropWhile dr)
  moreover have "components p = components q" by (simp only: q_def components_dropWhile)
  ultimately show "components p = next_part p # components (later_part p)" using components_step [OF ne hd] by (simp only: x)
  have "0 < length ?x" using ne hd by (cases q) auto
  moreover have "length (later_part p) \<le> length q - length ?x" unfolding x by (metis length_dropWhile_le length_drop)
  moreover have "length q \<le> length p" "0 < length q" using ne by (simp_all add: q_def length_dropWhile_le)
  ultimately show "length (later_part p) < length p" by linarith
  have sub: "set q \<subseteq> set p" by (auto simp: q_def dest: set_dropWhileD)
  show "NUL \<notin> set p \<Longrightarrow> NUL \<notin> set (next_part p)" "NUL \<notin> set p \<Longrightarrow> NUL \<notin> set (later_part p)"
    using sub unfolding x by (auto dest!: set_takeWhileD set_dropWhileD in_set_dropD)
  show "later_part p = [] \<longleftrightarrow> components (later_part p) = []" by (simp add: components_eq_Nil later_part_def)
qed

lemma dot_names:
  assumes "NUL \<notin> set x"
  shows "str_cmp x ''.'' = 0 \<longleftrightarrow> x = ''.''" "str_cmp x ''..'' = 0 \<longleftrightarrow> x = ''..''"
  using str_cmp_eq_0 [OF assms] by auto

lemma walk_loop_unfold:
  assumes "dropWhile slash p \<noteq> []" "NUL \<notin> set p"
  shows "walk_loop cur p want s =
    (if length (next_part p) \<ge> RAMFS_NAME_MAX then ret (NULL, NULL, [])
     else run_bind (walk_step cur (next_part p) s) (\<lambda>r.
             case r of
               None \<Rightarrow> ret (NULL, NULL, [])
             | Some nxt \<Rightarrow>
                 if later_part p = [] \<and> want \<and> next_part p \<noteq> ''.'' \<and> next_part p \<noteq> ''..''
                 then ret (nxt, cur, str_lcpy RAMFS_NAME_MAX (next_part p))
                 else if nxt = NULL then ret (NULL, NULL, [])
                 else walk_loop nxt (later_part p) want s))"
  unfolding walk_loop.simps [of cur p] Let_def next_part_def [symmetric] later_part_def [symmetric]
    dot_names [OF parts(3) [OF assms]] if_not_P [OF assms(1)] by (simp only: simp_thms)

lemma walk_step_spec:
  assumes f: "forest (nodes s) R K" and n: "nodes s cur = Some n" and x: "NUL \<notin> set x"
  shows "walk_step cur x s = ret
    (if x = ''.'' then Some cur else if x = ''..'' then Some (up (nodes s) cur)
     else if n_type n \<noteq> RAMFS_DIR then None else Some (ptr (kid (nodes s) K cur x)))"
  using n find_child_spec [OF f n x] by (simp add: walk_step_def dot_names [OF x] node_at_def up_def Let_def)

lemma walk_loop_spec:
  assumes f: "forest (nodes s) R K" and "cur \<in> dom (nodes s)" "NUL \<notin> set p"
  shows "walk_loop cur p want s = ret (walk_res (nodes s) K cur want (components p))"
  using assms(2,3)
proof (induction "length p" arbitrary: cur p rule: less_induct)
  case less
  show ?case
  proof (cases "dropWhile slash p = []")
    case True
    then have "components p = []" by (simp add: components_eq_Nil)
    then show ?thesis using True by (subst walk_loop.simps) simp
  next
    case False
    let ?x = "next_part p"
    note X = parts [OF False] and unfold = walk_loop_unfold [OF False less.prems(2)]
    note IH = less.hyps [OF X(2) _ X(4) [OF less.prems(2)]]
    obtain n where n: "nodes s cur = Some n" using less.prems(1) by auto
    have d: "cur \<noteq> NULL" "up (nodes s) cur \<noteq> NULL"
      using less.prems(1) up_dom [OF f less.prems(1)] forest_basic(2) [OF f] by auto
    note step = walk_step_spec [OF f n X(3) [OF less.prems(2)]]
    consider (long) "length ?x \<ge> RAMFS_NAME_MAX" | (dots) "length ?x < RAMFS_NAME_MAX" "?x = ''.'' \<or> ?x = ''..''"
      | (name) "length ?x < RAMFS_NAME_MAX" "?x \<noteq> ''.''" "?x \<noteq> ''..''" by linarith
    then show ?thesis
    proof cases
      case long
      then show ?thesis using unfold X(1) by simp
    next
      case dots
      then show ?thesis
        using d IH [OF less.prems(1)] IH [OF up_dom [OF f less.prems(1)]] unfolding unfold step X(1) by auto
    next
      case name
      have lcpy: "str_lcpy RAMFS_NAME_MAX ?x = ?x" using name(1) by (simp add: str_lcpy_def)
      show ?thesis
      proof (cases "kid (nodes s) K cur ?x")
        case None
        then show ?thesis using name n X(5) unfolding unfold step X(1) by (simp add: lcpy)
      next
        case (Some c)
        have c: "c \<in> dom (nodes s)" "c \<noteq> NULL" using kid_dom [OF f less.prems(1) Some] by auto
        then show ?thesis using name n X(5) Some IH [OF c(1)] unfolding unfold step X(1) by (simp add: lcpy)
      qed
    qed
  qed
qed

text \<open>The lookup a path stands for.\<close>

fun lookup :: "store \<Rightarrow> (addr \<Rightarrow> addr list) \<Rightarrow> addr \<Rightarrow> string list \<Rightarrow> addr option" where
  "lookup N K cur [] = Some cur"
| "lookup N K cur (x # xs) =
     (if length x \<ge> RAMFS_NAME_MAX then None
      else if x = ''.'' then lookup N K cur xs
      else if x = ''..'' then lookup N K (up N cur) xs
      else case kid N K cur x of None \<Rightarrow> None | Some c \<Rightarrow> lookup N K c xs)"

lemma kid_file: "forest N R K \<Longrightarrow> N p = Some n \<Longrightarrow> n_type n = RAMFS_FILE \<Longrightarrow> kid N K p x = None"
  using forestD(3) [of N R K p n] by (simp add: kid_def)

lemma walk_res_lookup:
  assumes "forest N R K" "cur \<in> dom N"
  shows "walk_res N K cur False cs = (ptr (lookup N K cur cs), NULL, [])"
  using assms(2)
proof (induction cs arbitrary: cur)
  case (Cons x xs)
  obtain n where n: "N cur = Some n" using Cons.prems by auto
  show ?case
  proof (cases "kid N K cur x")
    case None
    then show ?thesis using Cons.IH [OF Cons.prems] Cons.IH [OF up_dom [OF assms(1) Cons.prems]] by simp
  next
    case (Some c)
    then have "c \<in> dom N" "n_type n = RAMFS_DIR"
      using kid_dom [OF assms(1) Cons.prems] kid_file [OF assms(1) n] by (auto intro: ramfs_type.exhaust [of "n_type n"])
    then show ?thesis
      using Some n Cons.IH [OF Cons.prems] Cons.IH [OF up_dom [OF assms(1) Cons.prems]] Cons.IH [of c] by simp
  qed
qed simp

lemma lookup_dom:
  assumes "forest N R K" "cur \<in> dom N" "lookup N K cur cs = Some p"
  shows "p \<in> dom N"
  using assms(2,3)
proof (induction cs arbitrary: cur)
  case (Cons x xs)
  note IH = Cons.IH [OF Cons.prems(1)] Cons.IH [OF up_dom [OF assms(1) Cons.prems(1)]]
  show ?case
  proof (cases "kid N K cur x")
    case None
    then show ?thesis using IH Cons.prems(2) by (simp split: if_splits)
  next
    case (Some c)
    then have "c \<in> dom N" using kid_dom [OF assms(1) Cons.prems(1)] by blast
    then show ?thesis using IH Cons.IH [of c] Cons.prems(2) Some by (simp split: if_splits)
  qed
qed simp

lemma lookup_append:
  "lookup N K cur (cs @ ds) = Option.bind (lookup N K cur cs) (\<lambda>p. lookup N K p ds)"
  by (induction cs arbitrary: cur) (auto split: option.splits)

text \<open>Where \<^verbatim>\<open>ramfs_create\<close> looks: the parent by all but the last component.\<close>

lemma walk_res_create:
  assumes "forest N R K" "cur \<in> dom N" "x \<noteq> ''.''" "x \<noteq> ''..''" "length x < RAMFS_NAME_MAX"
  shows "walk_res N K cur True (cs @ [x]) =
    (case lookup N K cur cs of
       None \<Rightarrow> (NULL, NULL, [])
     | Some p \<Rightarrow> if n_type (the (N p)) \<noteq> RAMFS_DIR then (NULL, NULL, []) else (ptr (kid N K p x), p, x))"
  using assms(2)
proof (induction cs arbitrary: cur)
  case Nil
  then show ?case using assms(3-5) by simp
next
  case (Cons y ys)
  obtain n where n: "N cur = Some n" using Cons.prems by auto
  show ?case
  proof (cases "kid N K cur y")
    case None
    then show ?thesis using Cons.IH [OF Cons.prems] Cons.IH [OF up_dom [OF assms(1) Cons.prems]] by simp
  next
    case (Some c)
    then have "c \<in> dom N" "n_type n = RAMFS_DIR"
      using kid_dom [OF assms(1) Cons.prems] kid_file [OF assms(1) n] by (auto intro: ramfs_type.exhaust [of "n_type n"])
    then show ?thesis
      using Some n Cons.IH [OF Cons.prems] Cons.IH [OF up_dom [OF assms(1) Cons.prems]] Cons.IH [of c] by simp
  qed
qed

lemma lookup_at:
  assumes "forest N R K" "p \<in> dom N" "\<forall>x \<in> set cs. valid_name x"
  shows "lookup N K p cs = Some q \<longleftrightarrow> at N p cs q"
  using assms(2,3)
proof (induction cs arbitrary: p)
  case (Cons x xs)
  have x: "length x < RAMFS_NAME_MAX" "x \<noteq> ''.''" "x \<noteq> ''..''" using Cons.prems by (auto simp: valid_name_def)
  show ?case
  proof (cases "kid N K p x")
    case None
    then have "\<not> ((p, c) \<in> edges N \<and> name_of N c = x)" for c
      using kid_Some [OF assms(1) Cons.prems(1), of x c] by simp
    then show ?thesis using None x unfolding at_Cons by simp blast
  next
    case (Some c)
    then have c: "(p, c) \<in> edges N" "name_of N c = x" "c \<in> dom N"
      using kid_Some [OF assms(1) Cons.prems(1)] kid_dom [OF assms(1) Cons.prems(1)] by auto
    then have "(p, d) \<in> edges N \<and> x = name_of N d \<longleftrightarrow> d = c" for d
      using edge_names [OF assms(1), of p d c] by (cases "d = c") auto
    then have "at N p (x # xs) q \<longleftrightarrow> at N c xs q" unfolding at_Cons conj_assoc [symmetric] by simp
    then show ?thesis using Some x Cons.IH [OF c(3)] Cons.prems(2) by simp
  qed
qed auto

end
