(* ===== verification/RamfsOps.thy ===== *)
theory RamfsOps
  imports RamfsLookup
begin

text \<open>
  The operations of fs/ramfs.c on a sound filesystem: each terminates without a fault or a heap
  panic, keeps the invariant, and changes the abstract filesystem, a set of paths with their
  contents, as its name says.
\<close>

section \<open>The invariant and the abstract filesystem\<close>

text \<open>
  Every node is a live heap block; so is its data, which holds its capacity; nodes and data do not
  share blocks.
\<close>

definition data_ok :: "store \<Rightarrow> kheap \<Rightarrow> ramfs_node \<Rightarrow> bool" where
  "data_ok N h n \<longleftrightarrow> n_size n \<le> n_capacity n \<and>
     (if n_data n = NULL then n_capacity n = 0
      else n_data n \<notin> dom N \<and> (\<exists>c \<ge> unat (n_capacity n). (n_data n, c) \<in> live h))"

definition store_ok :: "store \<Rightarrow> kheap \<Rightarrow> bool" where
  "store_ok N h \<longleftrightarrow> heap_inv h \<and>
     (\<forall>p n. N p = Some n \<longrightarrow> (\<exists>c \<ge> unat sizeof_node. (p, c) \<in> live h) \<and> data_ok N h n) \<and>
     (\<forall>p q n m. N p = Some n \<longrightarrow> N q = Some m \<longrightarrow> p \<noteq> q \<longrightarrow> n_data n \<noteq> NULL \<longrightarrow> n_data n \<noteq> n_data m)"

lemma store_okD:
  assumes "store_ok N h"
  shows "heap_inv h" "N p = Some n \<Longrightarrow> \<exists>c \<ge> unat sizeof_node. (p, c) \<in> live h"
    "N p = Some n \<Longrightarrow> n_size n \<le> n_capacity n"
    "N p = Some n \<Longrightarrow> n_data n = NULL \<Longrightarrow> n_capacity n = 0"
    "N p = Some n \<Longrightarrow> n_data n \<noteq> NULL \<Longrightarrow> n_data n \<notin> dom N"
    "N p = Some n \<Longrightarrow> n_data n \<noteq> NULL \<Longrightarrow> \<exists>c \<ge> unat (n_capacity n). (n_data n, c) \<in> live h"
    "N p = Some n \<Longrightarrow> N q = Some m \<Longrightarrow> p \<noteq> q \<Longrightarrow> n_data n \<noteq> NULL \<Longrightarrow> n_data n \<noteq> n_data m"
  using assms unfolding store_ok_def data_ok_def by (auto split: if_splits)

text \<open>A file is no larger than the heap.\<close>

lemma heap_block_small: "heap_inv h \<Longrightarrow> (a, c) \<in> live h \<Longrightarrow> c \<le> 4194304"
  using live_bounds(3,4) [of h a c] by simp

lemma file_small:
  assumes "store_ok N h" "N p = Some n"
  shows "unat (n_size n) \<le> 4194304"
proof (cases "n_data n = NULL")
  case True
  then show ?thesis using store_okD(3,4) [OF assms] by (simp add: word_le_nat_alt)
next
  case False
  then obtain c where c: "unat (n_capacity n) \<le> c" "(n_data n, c) \<in> live h" using store_okD(6) [OF assms] by blast
  have "c \<le> 4194304" by (rule heap_block_small [OF store_okD(1) [OF assms(1)] c(2)])
  moreover have "unat (n_size n) \<le> unat (n_capacity n)" using store_okD(3) [OF assms] by (simp add: word_le_nat_alt)
  ultimately show ?thesis using c(1) by linarith
qed

definition dir_at :: "store \<Rightarrow> addr \<Rightarrow> bool" where
  "dir_at N p \<longleftrightarrow> (\<exists>n. N p = Some n \<and> n_type n = RAMFS_DIR)"

definition fs_ok :: "(addr \<Rightarrow> addr list) \<Rightarrow> 'a ramfs_scheme \<Rightarrow> bool" where
  "fs_ok K s \<longleftrightarrow> forest (nodes s) {root s} K \<and> store_ok (nodes s) (heap s) \<and> dir_at (nodes s) (root s)"

definition ramfs_inv :: "'a ramfs_scheme \<Rightarrow> bool" where
  "ramfs_inv s \<longleftrightarrow> (\<exists>K. fs_ok K s)"

datatype entry = File string | Dir

definition contents :: "kheap \<Rightarrow> ramfs_node \<Rightarrow> string" where
  "contents h n = map (\<lambda>i. bytes h (n_data n + of_nat i)) [0..<unat (n_size n)]"

definition entry_of :: "kheap \<Rightarrow> ramfs_node \<Rightarrow> entry" where
  "entry_of h n = (if n_type n = RAMFS_FILE then File (contents h n) else Dir)"

definition fs_view :: "'a ramfs_scheme \<Rightarrow> (string list \<times> entry) set" where
  "fs_view s = {(P, e). \<exists>p n. at (nodes s) (root s) P p \<and> nodes s p = Some n \<and> e = entry_of (heap s) n}"

lemma fs_view_iff:
  "(Q, e) \<in> fs_view s \<longleftrightarrow>
     (\<exists>q. at (nodes s) (root s) Q q \<and> (\<exists>n. nodes s q = Some n \<and> e = entry_of (heap s) n))"
  by (auto simp: fs_view_def)

lemma entry_of_links [simp]:
  "entry_of h (n\<lparr>n_children := a\<rparr>) = entry_of h n" "entry_of h (n\<lparr>n_next := a\<rparr>) = entry_of h n"
  "entry_of h (n\<lparr>n_parent := a\<rparr>) = entry_of h n" "entry_of h (n\<lparr>n_name := x\<rparr>) = entry_of h n"
  by (simp_all add: entry_of_def contents_def)

lemma valid_lcpy: "valid_name x \<Longrightarrow> str_lcpy RAMFS_NAME_MAX x = x"
  by (auto simp: valid_name_def str_lcpy_def)

text \<open>Live blocks keep their bytes.\<close>

definition keeps :: "kheap \<Rightarrow> kheap \<Rightarrow> bool" where
  "keeps h h' \<longleftrightarrow> (\<forall>a c i. (a, c) \<in> live h \<longrightarrow> i < c \<longrightarrow> bytes h' (a + of_nat i) = bytes h (a + of_nat i))"

lemma contents_keeps:
  assumes "store_ok N h" "N p = Some n" "keeps h h'"
  shows "contents h' n = contents h n"
proof (cases "n_data n = NULL")
  case True
  then have "unat (n_size n) = 0"
    using store_okD(3,4) [OF assms(1,2)] by (simp add: word_le_nat_alt unat_eq_zero)
  then show ?thesis by (simp add: contents_def)
next
  case False
  then obtain c where c: "unat (n_capacity n) \<le> c" "(n_data n, c) \<in> live h"
    using store_okD(6) [OF assms(1,2)] by blast
  have "unat (n_size n) \<le> c" using c(1) store_okD(3) [OF assms(1,2)] by (simp add: word_le_nat_alt)
  then show ?thesis using assms(3) c(2) by (auto simp: contents_def keeps_def)
qed

lemma fs_ok_root: "fs_ok K s \<Longrightarrow> root s \<in> dom (nodes s) \<and> root s \<noteq> NULL"
  using forestD(10) unfolding fs_ok_def dir_at_def by blast

text \<open>In a sound filesystem every node has exactly one path, and a path one entry.\<close>

lemma node_path:
  assumes "fs_ok K s" "p \<in> dom (nodes s)"
  obtains P where "at (nodes s) (root s) P p"
  using below_root [of "nodes s" "{root s}" K p] assms below_at unfolding fs_ok_def by blast

lemma valid_at:
  assumes "forest N {r} K" "at N r P p"
  shows "\<forall>x \<in> set P. valid_name x"
  using assms(2)
proof induction
  case (child P p c x)
  obtain m where m: "N c = Some m" "n_parent m = p" "p \<noteq> NULL" using child.hyps(2) by (auto simp: edges_iff)
  then have "c \<notin> {r}" using forestD(6) [OF assms(1) m(1)] by auto
  then have "valid_name (n_name m)" by (rule forestD(9) [OF assms(1) m(1)])
  then show ?case using child.IH child.hyps(3) m(1) by (simp add: name_of_def)
qed simp

section \<open>Resolving\<close>

definition start :: "addr \<Rightarrow> string \<Rightarrow> 'a ramfs_scheme \<Rightarrow> addr" where
  "start cwd path s = (if path \<noteq> [] \<and> slash (hd path) then root s else if cwd \<noteq> NULL then cwd else root s)"

lemma start_dom:
  assumes "fs_ok K s" "cwd = NULL \<or> cwd \<in> dom (nodes s)"
  shows "start cwd path s \<in> dom (nodes s)"
  using assms fs_ok_root [OF assms(1)] by (auto simp: start_def)

lemma walk_spec:
  assumes "fs_ok K s" "cwd = NULL \<or> cwd \<in> dom (nodes s)" "NUL \<notin> set path"
  shows "walk (if cwd \<noteq> NULL then cwd else root s) path want s =
    ret (walk_res (nodes s) K (start cwd path s) want (components path))"
proof -
  have f: "forest (nodes s) {root s} K" using assms(1) by (simp add: fs_ok_def)
  show ?thesis
    using walk_loop_spec [OF f start_dom [OF assms(1,2), of path] assms(3)] by (simp add: walk_def start_def)
qed

lemma ramfs_resolve_spec:
  assumes "fs_ok K s" "cwd = NULL \<or> cwd \<in> dom (nodes s)" "NUL \<notin> set path"
  shows "ramfs_resolve cwd path s = ret (ptr (lookup (nodes s) K (start cwd path s) (components path)))"
proof -
  have f: "forest (nodes s) {root s} K" using assms(1) by (simp add: fs_ok_def)
  show ?thesis
    unfolding ramfs_resolve_def walk_spec [OF assms] walk_res_lookup [OF f start_dom [OF assms(1,2)]] by simp
qed

section \<open>New nodes\<close>

lemma kzalloc_live:
  assumes inv: "heap_inv h" and sz: "0 < unat sz" "unat sz \<le> 2 ^ 32 - 8"
  shows "\<exists>h' p. kzalloc h sz = ret (h', p) \<and> heap_inv h' \<and> keeps h h' \<and> (p = NULL \<longrightarrow> h' = h) \<and>
    (p \<noteq> NULL \<longrightarrow> (\<exists>c \<ge> unat sz. live h' = insert (p, c) (live h) \<and> p \<notin> fst ` live h))"
proof -
  obtain h1 p where k: "kmalloc h sz = ret (h1, p)" "heap_inv h1" "bytes h1 = bytes h" "p = NULL \<longrightarrow> h1 = h"
    "p \<noteq> NULL \<longrightarrow> (\<exists>c \<ge> unat sz. live h1 = insert (p, c) (live h) \<and> p \<notin> fst ` live h)"
    using kmalloc_live [OF assms] by blast
  show ?thesis
  proof (cases "p = NULL")
    case True
    then show ?thesis using k by (auto simp: kzalloc_def keeps_def)
  next
    case False
    obtain c where c: "unat sz \<le> c" "live h1 = insert (p, c) (live h)" "p \<notin> fst ` live h"
      using k(5) False by blast
    let ?h = "h1\<lparr>bytes := memset (bytes h1) p 0 sz\<rparr>"
    have "keeps h ?h"
      unfolding keeps_def
    proof (intro allI impI)
      fix a d i assume a: "(a, d) \<in> live h" "i < d"
      have "a + of_nat i \<noteq> p + of_nat j" if "j < unat sz" for j
        by (rule kh.block_bytes_distinct [OF k(2), of a d p c]) (use a c that in force)+
      then show "bytes ?h (a + of_nat i) = bytes h (a + of_nat i)"
        by (simp add: memset_outside k(3))
    qed
    moreover have "kzalloc h sz = ret (?h, p)" using k(1) False by (simp add: kzalloc_def)
    ultimately show ?thesis using k(2) c False by auto
  qed
qed

lemma store_ok_add:
  assumes ok: "store_ok N h" and p: "p \<noteq> NULL" "p \<notin> fst ` live h" "unat sizeof_node \<le> c"
    and h': "heap_inv h'" "live h' = insert (p, c) (live h)"
    and n: "n_data n = NULL" "n_size n = 0" "n_capacity n = 0"
  shows "N p = None" "store_ok (N(p \<mapsto> n)) h'"
proof -
  show "N p = None" using store_okD(2) [OF ok, of p] p(2) by (cases "N p") force+
  have data: "n_data m \<noteq> p" if "N q = Some m" for q m
    using store_okD(6) [OF ok that] p(1,2) by (cases "n_data m = NULL") force+
  have "(\<exists>d \<ge> unat sizeof_node. (q, d) \<in> live h') \<and> data_ok (N(p \<mapsto> n)) h' m"
    if "(N(p \<mapsto> n)) q = Some m" for q m
  proof (cases "q = p")
    case True
    then show ?thesis using that n p(3) h'(2) by (auto simp: data_ok_def)
  next
    case False
    then have m: "N q = Some m" using that by simp
    show ?thesis
      using store_okD(2-6) [OF ok m] data [OF m] h'(2) unfolding data_ok_def by auto
  qed
  moreover have "n_data a \<noteq> n_data b"
    if "(N(p \<mapsto> n)) q = Some a" "(N(p \<mapsto> n)) r = Some b" "q \<noteq> r" "n_data a \<noteq> NULL" for q r a b
    using that n(1) store_okD(7) [OF ok, of q a r b] by (auto split: if_splits)
  ultimately show "store_ok (N(p \<mapsto> n)) h'" using h'(1) unfolding store_ok_def by blast
qed

lemma node_new_spec:
  assumes "store_ok (nodes s) (heap s)"
  obtains (full) "node_new x ty s = ret (s, NULL)"
  | (new) h' n c z where
      "node_new x ty s = ret (s\<lparr>heap := h', nodes := (nodes s)(n \<mapsto> z)\<rparr>, n)"
      "z = zero_node\<lparr>n_name := str_lcpy RAMFS_NAME_MAX x, n_type := ty\<rparr>"
      "n \<noteq> NULL" "nodes s n = None" "store_ok ((nodes s)(n \<mapsto> z)) h'" "keeps (heap s) h'"
      "live h' = insert (n, c) (live (heap s))" "n \<notin> fst ` live (heap s)"
proof -
  have sz: "0 < unat sizeof_node" "unat sizeof_node \<le> 2 ^ 32 - 8" by (simp_all add: sizeof_node_def)
  obtain h' n where k: "kzalloc (heap s) sizeof_node = ret (h', n)" "heap_inv h'" "keeps (heap s) h'"
    "n = NULL \<longrightarrow> h' = heap s"
    "n \<noteq> NULL \<longrightarrow> (\<exists>c \<ge> unat sizeof_node. live h' = insert (n, c) (live (heap s)) \<and> n \<notin> fst ` live (heap s))"
    using kzalloc_live [OF store_okD(1) [OF assms] sz] by blast
  let ?z = "zero_node\<lparr>n_name := str_lcpy RAMFS_NAME_MAX x, n_type := ty\<rparr>"
  show thesis
  proof (cases "n = NULL")
    case True
    then show thesis using full k(1,4) by (simp add: node_new_def)
  next
    case False
    then obtain c where c: "unat sizeof_node \<le> c" "live h' = insert (n, c) (live (heap s))" "n \<notin> fst ` live (heap s)"
      using k(5) by blast
    note add = store_ok_add [OF assms False c(3,1) k(2) c(2), of ?z]
    show thesis
      by (rule new [OF _ refl False])
        (use k(1) add k(3) c(2,3) False in \<open>simp_all add: node_new_def zero_node_def\<close>)
  qed
qed

lemma attach_run:
  assumes "nodes s c = Some m" "nodes s par = Some n" "par \<noteq> c"
  shows "attach par c s = ret (s\<lparr>nodes := attach_store par c (nodes s)\<rparr>)"
  using assms by (simp add: attach_def upd_node_def node_at_def attach_store_def fun_upd_twist)

lemma store_ok_same:
  assumes "store_ok N h" "\<And>q. map_option (\<lambda>n. (n_data n, n_size n, n_capacity n)) (N' q) =
      map_option (\<lambda>n. (n_data n, n_size n, n_capacity n)) (N q)"
  shows "store_ok N' h"
proof -
  have dm: "dom N' = dom N"
  proof -
    have "N' q = None \<longleftrightarrow> N q = None" for q using assms(2) [of q] by (cases "N q"; cases "N' q") simp_all
    then show ?thesis by (simp add: dom_def)
  qed
  have old: "\<exists>n. N q = Some n \<and> n_data n' = n_data n \<and> n_size n' = n_size n \<and> n_capacity n' = n_capacity n"
    if "N' q = Some n'" for q n'
    using assms(2) [of q] that by (cases "N q") simp_all
  have "(\<exists>c \<ge> unat sizeof_node. (p, c) \<in> live h) \<and> data_ok N' h n'" if p: "N' p = Some n'" for p n'
  proof -
    obtain n where n: "N p = Some n" "n_data n' = n_data n" "n_size n' = n_size n" "n_capacity n' = n_capacity n"
      using old [OF p] by blast
    then show ?thesis using store_okD(2-6) [OF assms(1) n(1)] dm by (simp add: data_ok_def)
  qed
  moreover have "n_data a \<noteq> n_data b" if "N' p = Some a" "N' q = Some b" "p \<noteq> q" "n_data a \<noteq> NULL" for p q a b
    using old [OF that(1)] old [OF that(2)] store_okD(7) [OF assms(1)] that(3,4) by metis
  ultimately show ?thesis using store_okD(1) [OF assms(1)] unfolding store_ok_def by blast
qed

section \<open>Creating\<close>

text \<open>Where a creation takes place: the parent directory and the new name, if the request is legal.\<close>

definition create_target :: "store \<Rightarrow> (addr \<Rightarrow> addr list) \<Rightarrow> addr \<Rightarrow> string list \<Rightarrow> (addr \<times> string) option" where
  "create_target N K cur cs =
     (if cs = [] \<or> \<not> valid_name (last cs) then None
      else case lookup N K cur (butlast cs) of
        None \<Rightarrow> None
      | Some p \<Rightarrow> if dir_at N p \<and> kid N K p (last cs) = None then Some (p, last cs) else None)"

lemma walk_res_no_name:
  assumes "x = ''.'' \<or> x = ''..'' \<or> length x \<ge> RAMFS_NAME_MAX"
  shows "snd (walk_res N K cur want (cs @ [x])) = (NULL, [])"
proof (induction cs arbitrary: cur)
  case Nil
  then show ?case using assms by auto
next
  case (Cons y ys)
  then show ?case by (simp split: option.split)
qed

lemma component_valid:
  assumes "x \<in> set (components path)" "NUL \<notin> set path"
  shows "valid_name x \<longleftrightarrow> \<not> (x = ''.'' \<or> x = ''..'' \<or> length x \<ge> RAMFS_NAME_MAX)"
  using components_mem [OF assms(1)] assms(2) by (auto simp: valid_name_def)

lemma create_target_Some:
  assumes "create_target N K cur cs = Some (p, x)"
  shows "valid_name x" "dir_at N p" "kid N K p x = None" "lookup N K cur (butlast cs) = Some p" "cs = butlast cs @ [x]"
  using assms by (auto simp: create_target_def split: if_splits option.splits)

lemma walk_res_target:
  assumes f: "forest N R K" and cur: "cur \<in> dom N" and path: "NUL \<notin> set path"
  shows "case walk_res N K cur True (components path) of (existing, parent, name) \<Rightarrow>
    (case create_target N K cur (components path) of
       None \<Rightarrow> existing \<noteq> NULL \<or> parent = NULL
     | Some (p, x) \<Rightarrow> existing = NULL \<and> parent = p \<and> name = x)"
proof (cases "components path" rule: rev_exhaust)
  case Nil
  then show ?thesis by (simp add: create_target_def)
next
  case (snoc cs x)
  have x: "x \<in> set (components path)" using snoc by simp
  show ?thesis
  proof (cases "valid_name x")
    case False
    have "snd (walk_res N K cur True (cs @ [x])) = (NULL, [])"
      by (rule walk_res_no_name) (use False component_valid [OF x path] in auto)
    then show ?thesis using snoc False by (simp add: create_target_def split: prod.split) auto
  next
    case True
    have "x \<noteq> ''.''" "x \<noteq> ''..''" "length x < RAMFS_NAME_MAX" using True by (auto simp: valid_name_def)
    note W = walk_res_create [OF f cur this]
    show ?thesis
    proof (cases "lookup N K cur cs")
      case None
      then show ?thesis using snoc W True by (simp add: create_target_def)
    next
      case (Some p)
      obtain n where n: "N p = Some n" using lookup_dom [OF f cur Some] by auto
      have "dir_at N p \<longleftrightarrow> n_type n = RAMFS_DIR" using n by (simp add: dir_at_def)
      moreover have "c \<noteq> NULL" if "kid N K p x = Some c" for c
        using kid_dom [OF f _ that] n by auto
      ultimately show ?thesis
        using snoc W True Some n by (auto simp: create_target_def split: option.split)
    qed
  qed
qed

lemma at_new:
  assumes f: "forest N R K" and n: "N n = None" "n_parent z = NULL"
  shows "edges (N(n \<mapsto> z)) = edges N" "r \<noteq> n \<Longrightarrow> at (N(n \<mapsto> z)) r P p \<longleftrightarrow> at N r P p"
    "at (N(n \<mapsto> z)) n S q \<longleftrightarrow> S = [] \<and> q = n"
proof -
  show ed: "edges (N(n \<mapsto> z)) = edges N" using n by (auto simp: edges_def)
  have nm: "name_of (N(n \<mapsto> z)) c = name_of N c" if "(p, c) \<in> edges N" for p c
    using that n by (auto simp: edges_iff name_of_def)
  show "at (N(n \<mapsto> z)) r P p \<longleftrightarrow> at N r P p" by (rule at_same [OF ed nm])
  have no: "(n, c) \<notin> edges N" for c
  proof
    assume "(n, c) \<in> edges N"
    then obtain m where m: "N c = Some m" "n_parent m = n" "n \<noteq> NULL" by (auto simp: edges_iff)
    then show False using forestD(6,7) [OF f m(1)] n(1) by (cases "c \<in> R") auto
  qed
  show "at (N(n \<mapsto> z)) n S q \<longleftrightarrow> S = [] \<and> q = n"
    using no ed by (cases S) (auto simp: at_Cons)
qed

lemma ramfs_create_none:
  assumes ok: "fs_ok K s" and cwd: "cwd = NULL \<or> cwd \<in> dom (nodes s)" and path: "NUL \<notin> set path"
    and t: "create_target (nodes s) K (start cwd path s) (components path) = None"
  shows "ramfs_create cwd path ty s = ret (s, NULL)"
proof -
  have f: "forest (nodes s) {root s} K" using ok by (simp add: fs_ok_def)
  obtain e p x where r: "walk_res (nodes s) K (start cwd path s) True (components path) = (e, p, x)"
    by (rule prod_cases3)
  have "e \<noteq> NULL \<or> p = NULL" using walk_res_target [OF f start_dom [OF ok cwd, of path] path] r t by simp
  then show ?thesis using r by (auto simp: ramfs_create_def walk_spec [OF ok cwd path])
qed

lemma ramfs_create_some:
  assumes ok: "fs_ok K s" and cwd: "cwd = NULL \<or> cwd \<in> dom (nodes s)" and path: "NUL \<notin> set path"
    and t: "create_target (nodes s) K (start cwd path s) (components path) = Some (p, x)"
  shows "ramfs_create cwd path ty s =
    run_bind (node_new x ty s) (\<lambda>(s, n). if n \<noteq> NULL then run_bind (attach p n s) (\<lambda>s. ret (s, n)) else ret (s, n))"
proof -
  have f: "forest (nodes s) {root s} K" using ok by (simp add: fs_ok_def)
  obtain e p' x' where r: "walk_res (nodes s) K (start cwd path s) True (components path) = (e, p', x')"
    by (rule prod_cases3)
  have w: "e = NULL" "p' = p" "x' = x" using walk_res_target [OF f start_dom [OF ok cwd, of path] path] r t by simp_all
  obtain n where n: "nodes s p = Some n" "n_type n = RAMFS_DIR"
    using create_target_Some(2) [OF t] by (auto simp: dir_at_def)
  have "p \<noteq> NULL" "x \<noteq> []"
    using forestD(10) [OF f n(1)] create_target_Some(1) [OF t] by (auto simp: valid_name_def)
  then show ?thesis using r w n by (simp add: ramfs_create_def walk_spec [OF ok cwd path] node_at_def)
qed

lemma ramfs_create_spec:
  assumes ok: "fs_ok K s" and cwd: "cwd = NULL \<or> cwd \<in> dom (nodes s)" and path: "NUL \<notin> set path"
    and t: "create_target (nodes s) K (start cwd path s) (components path) = Some (p, x)"
  obtains (full) "ramfs_create cwd path ty s = ret (s, NULL)"
  | (new) h' N' n c z where
      "ramfs_create cwd path ty s = ret (s\<lparr>heap := h', nodes := N'\<rparr>, n)" "n \<noteq> NULL" "nodes s n = None"
      "fs_ok (K(n := [], p := n # K p)) (s\<lparr>heap := h', nodes := N'\<rparr>)"
      "N' = attach_store p n ((nodes s)(n \<mapsto> z))" "z = zero_node\<lparr>n_name := x, n_type := ty\<rparr>"
      "keeps (heap s) h'" "live h' = insert (n, c) (live (heap s))" "n \<notin> fst ` live (heap s)"
proof -
  have f: "forest (nodes s) {root s} K" and st: "store_ok (nodes s) (heap s)"
    and rt: "dir_at (nodes s) (root s)" using ok by (simp_all add: fs_ok_def)
  note T = create_target_Some [OF t] and R = ramfs_create_some [OF ok cwd path t, of ty]
  from st show thesis
  proof (cases rule: node_new_spec [of s x ty])
    case full
    then show thesis using R that(1) by simp
  next
    case (new h' n c z)
    have x: "str_lcpy RAMFS_NAME_MAX x = x" by (rule valid_lcpy [OF T(1)])
    let ?N = "(nodes s)(n \<mapsto> z)"
    have z: "n_parent z = NULL" "n_children z = NULL" "n_name z = x" "n_data z = NULL"
      by (simp_all add: new(2) x zero_node_def)
    obtain d where d: "nodes s p = Some d" "n_type d = RAMFS_DIR" using T(2) by (auto simp: dir_at_def)
    have pn: "p \<noteq> n" using d(1) new(4) by auto
    have f1: "forest ?N (insert n {root s}) (K(n := []))" by (rule forest_new [OF f new(4,3) z(1,2)])
    have nr: "n \<notin> {root s}" using rt new(4) by (auto simp: dir_at_def)
    have "p \<notin> below ?N n" using at_new(3) [OF f new(4) z(1)] pn by (simp add: below_at)
    moreover have "n_name z \<notin> name_of ?N ` set ((K(n := [])) p)"
    proof -
      have "name_of ?N q = name_of (nodes s) q" if "q \<in> set (K p)" for q
        using forestD(5) [OF f d(1) that] new(4) by (auto simp: name_of_def)
      then show ?thesis using kid_None [OF f, of p x] T(3) d(1) pn z(3) by auto
    qed
    ultimately have f2: "forest (attach_store p n ?N) {root s} ((K(n := []))(p := n # (K(n := [])) p))"
      using f1 nr d pn T(1) z(3) by (intro forest_attach [where m = z and n = d]) auto
    let ?s = "s\<lparr>heap := h', nodes := attach_store p n ?N\<rparr>"
    have A: "attach_store p n ?N q = (if q = n then Some (z\<lparr>n_parent := p, n_next := n_children d\<rparr>)
        else if q = p then Some (d\<lparr>n_children := n\<rparr>) else nodes s q)" for q
      using d pn by (simp add: attach_store_def)
    have "store_ok (attach_store p n ?N) h'"
      by (rule store_ok_same [OF new(5)]) (use d pn in \<open>simp add: A\<close>)
    moreover have "dir_at (attach_store p n ?N) (root s)"
      using rt d nr by (auto simp: dir_at_def A)
    ultimately have "fs_ok (K(n := [], p := n # K p)) ?s" using f2 pn by (simp add: fs_ok_def)
    moreover have "ramfs_create cwd path ty s = ret (?s, n)"
      using R new(1,3) attach_run [of "s\<lparr>heap := h', nodes := ?N\<rparr>" n z p d] d pn by simp
    ultimately show thesis using that(2) new x by metis
  qed
qed

lemma fs_view_create:
  assumes ok: "fs_ok K s" and P: "at (nodes s) (root s) P p" and d: "nodes s p = Some d"
    and n: "nodes s n = None" and k: "keeps (heap s) h'"
    and z: "z = zero_node\<lparr>n_name := x, n_type := ty\<rparr>"
    and s': "s' = s\<lparr>heap := h', nodes := attach_store p n ((nodes s)(n \<mapsto> z))\<rparr>"
  shows "fs_view s' = insert (P @ [x], if ty = RAMFS_FILE then File [] else Dir) (fs_view s)"
    "at (nodes s') (root s') (P @ [x]) n" "\<And>Q q. at (nodes s) (root s) Q q \<Longrightarrow> at (nodes s') (root s') Q q"
proof -
  have f: "forest (nodes s) {root s} K" and st: "store_ok (nodes s) (heap s)" using ok by (simp_all add: fs_ok_def)
  let ?N = "(nodes s)(n \<mapsto> z)"
  have z': "n_parent z = NULL" "n_name z = x" by (simp_all add: z zero_node_def)
  have pn: "p \<noteq> n" using d n by auto
  have rn: "root s \<noteq> n" using fs_ok_root [OF ok] n by auto
  note new = at_new [where N = "nodes s", OF f n z'(1)]
  have p0: "p \<noteq> NULL" by (rule forestD(10) [OF f d])
  note A = attach_store_props [of ?N n z p d]
  have at': "at (attach_store p n ?N) (root s) Q q \<longleftrightarrow> at (nodes s) (root s) Q q \<or> Q = P @ [x] \<and> q = n" for Q q
  proof -
    have "at (attach_store p n ?N) (root s) Q q \<longleftrightarrow>
        at (nodes s) (root s) Q q \<or> (\<exists>P S. at (nodes s) (root s) P p \<and> Q = P @ x # S \<and> S = [] \<and> q = n)"
      using at_graft [of "attach_store p n ?N" p n ?N "root s" Q q] A d pn p0 new rn z'
      by (simp add: below_at name_of_def)
    then show ?thesis using at_injective [OF f _ P] P by blast
  qed
  show "at (nodes s') (root s') (P @ [x]) n" using at' s' by simp
  show "at (nodes s) (root s) Q q \<Longrightarrow> at (nodes s') (root s') Q q" for Q q using at' s' by simp
  have old: "attach_store p n ?N q = (if q = n then Some (z\<lparr>n_parent := p, n_next := n_children d\<rparr>)
      else if q = p then Some (d\<lparr>n_children := n\<rparr>) else nodes s q)" for q
    using d pn by (simp add: attach_store_def)
  have ent: "entry_of h' m = entry_of (heap s) m" if "nodes s q = Some m" for q m
    using contents_keeps [OF st that k] by (simp add: entry_of_def)
  have same: "(\<exists>m. attach_store p n ?N q = Some m \<and> e = entry_of h' m) \<longleftrightarrow>
      (\<exists>m. nodes s q = Some m \<and> e = entry_of (heap s) m)" if "at (nodes s) (root s) Q q" for q e Q
  proof -
    have "q \<noteq> n" using that n below_dom [of "root s" "nodes s" q] below_at fs_ok_root [OF ok] by blast
    then show ?thesis
      using d ent by (cases "q = p") (auto simp: old)
  qed
  have fresh: "entry_of h' (z\<lparr>n_parent := p, n_next := n_children d\<rparr>) = (if ty = RAMFS_FILE then File [] else Dir)"
    by (simp add: z zero_node_def entry_of_def contents_def)
  have "(Q, e) \<in> fs_view s' \<longleftrightarrow> (Q, e) \<in> insert (P @ [x], if ty = RAMFS_FILE then File [] else Dir) (fs_view s)" for Q e
  proof -
    have "(Q, e) \<in> fs_view s' \<longleftrightarrow>
      (\<exists>q. at (nodes s) (root s) Q q \<and> (\<exists>m. attach_store p n ?N q = Some m \<and> e = entry_of h' m)) \<or>
      Q = P @ [x] \<and> e = (if ty = RAMFS_FILE then File [] else Dir)"
      using fresh by (auto simp: fs_view_iff s' at' old)
    also have "(\<exists>q. at (nodes s) (root s) Q q \<and> (\<exists>m. attach_store p n ?N q = Some m \<and> e = entry_of h' m)) \<longleftrightarrow>
      (Q, e) \<in> fs_view s"
      unfolding fs_view_iff using same by blast
    finally show ?thesis by blast
  qed
  then show "fs_view s' = insert (P @ [x], if ty = RAMFS_FILE then File [] else Dir) (fs_view s)" by auto
qed

end
