(* ===== verification/RamfsWrite.thy ===== *)
theory RamfsWrite
  imports RamfsOps
begin

text \<open>
  Writing files (\<^verbatim>\<open>ramfs_write\<close> of fs/ramfs.c): the capacity loop, moving the data to a larger
  buffer, and the effect on the contents of this file and of all others.
\<close>

section \<open>The capacity loop\<close>

lemma grow_capacity_returns:
  assumes "0 < unat c" "unat needed \<le> 2 ^ 31"
  shows "\<exists>c'. grow_capacity c needed = ret c' \<and> unat needed \<le> unat c' \<and> unat c \<le> unat c' \<and>
    (unat c' < 2 * unat needed \<or> c' = c)"
  using assms(1)
proof (induction "unat needed - unat c" arbitrary: c rule: less_induct)
  case less
  show ?case
  proof (cases "c < needed")
    case False
    then show ?thesis by (subst grow_capacity.simps) (simp add: word_less_nat_alt)
  next
    case True
    have lt: "unat c < unat needed" using True by (simp add: word_less_nat_alt)
    have dbl: "unat (c * 2) = 2 * unat c"
    proof -
      have "unat c * unat (2 :: u32) < 2 ^ 32" using lt assms(2) by simp
      then show ?thesis by (subst unat_mult_lem [THEN iffD1]) (simp_all add: mult.commute)
    qed
    have "\<exists>c'. grow_capacity (c * 2) needed = ret c' \<and> unat needed \<le> unat c' \<and> unat (c * 2) \<le> unat c' \<and>
        (unat c' < 2 * unat needed \<or> c' = c * 2)"
      by (rule less.hyps) (use lt dbl less.prems in simp_all)
    then show ?thesis using True lt dbl by (subst grow_capacity.simps) auto
  qed
qed

text \<open>Past 2 GiB the doubled capacity wraps to 0 and the loop never ends.\<close>

lemma grow_capacity_stuck:
  assumes "grow_capacity c needed = Some r"
  shows "c \<noteq> 0 \<or> needed = 0"
proof (rule grow_capacity.raw_induct [OF _ assms])
  fix g :: "u32 \<Rightarrow> u32 \<Rightarrow> u32 run" and c n r
  assume IH: "\<And>c n r. g c n = Some r \<Longrightarrow> c \<noteq> 0 \<or> n = 0"
    and eq: "(if c < n then g (c * 2) n else ret c) = Some r"
  show "c \<noteq> 0 \<or> n = 0"
    using IH [of "c * 2" n r] eq by (cases "c < n") (auto simp: word_gt_0)
qed

lemma grow_capacity_diverges:
  assumes "2 ^ 31 < unat needed"
  shows "grow_capacity 64 needed = None"
proof -
  have stuck: "grow_capacity 0 needed = None"
    using grow_capacity_stuck [of 0 needed] assms by (cases "grow_capacity 0 needed") auto
  have up: "grow_capacity (2 ^ k) needed = grow_capacity (2 ^ k * 2) needed" if "k < 32" for k
  proof -
    have "(2 :: nat) ^ k \<le> 2 ^ 31" using that by (intro power_increasing) simp_all
    moreover from this have "unat (of_nat (2 ^ k) :: u32) = 2 ^ k" by (intro unat_of_nat_u32) simp
    ultimately have "unat (2 ^ k :: u32) \<le> 2 ^ 31" by simp
    then show ?thesis using assms by (subst grow_capacity.simps) (simp add: word_less_nat_alt)
  qed
  have "grow_capacity (2 ^ (32 - k)) needed = None" if "k \<le> 32" for k
    using that
  proof (induction k)
    case 0
    have "(2 ^ (32 - 0) :: u32) = 0" by simp
    then show ?case using stuck by (rule ssubst)
  next
    case (Suc k)
    have "(2 ^ (32 - Suc k) * 2 :: u32) = 2 ^ (32 - k)" using Suc.prems 
      by (metis Suc_diff_Suc Suc_le_eq mult.commute power_Suc)
    then show ?case using up [of "32 - Suc k"] Suc by simp
  qed
  from this [of 26] show ?thesis by simp
qed

section \<open>Moving the data\<close>

text \<open>A node whose data moves to a fresh block, the old one being freed.\<close>

lemma store_ok_data:
  assumes ok: "store_ok N h" and p: "N p = Some f" and h': "heap_inv h'"
    and lv: "live h' = insert (buf, c) (live h - {(n_data f, d) | d. True})"
    and buf: "buf \<noteq> NULL" "buf \<notin> fst ` live h" "unat (n_capacity g) \<le> c"
    and g: "n_data g = buf" "n_size g \<le> n_capacity g"
  shows "store_ok (N(p \<mapsto> g)) h'"
proof -
  have notbuf: "q \<noteq> buf" "n_data m \<noteq> buf" if "N q = Some m" for q m
    using store_okD(2) [OF ok that] store_okD(6) [OF ok that] buf(1,2) by force+
  have own: "q \<noteq> n_data f \<or> n_data f = NULL" if "N q = Some m" for q m
    using store_okD(5) [OF ok p] that by blast
  have "(\<exists>c \<ge> unat sizeof_node. (q, c) \<in> live h') \<and> data_ok (N(p \<mapsto> g)) h' m"
    if q: "(N(p \<mapsto> g)) q = Some m" for q m
  proof -
    obtain m0 where m0: "N q = Some m0" using q p by (cases "q = p") auto
    have "q \<noteq> NULL" using store_okD(2) [OF ok m0] live_bounds(1) [OF store_okD(1) [OF ok]] by blast
    then have node: "\<exists>c \<ge> unat sizeof_node. (q, c) \<in> live h'"
      using store_okD(2) [OF ok m0] own [OF m0] lv by (auto simp: lv)
    show ?thesis
    proof (cases "q = p")
      case True
      then have "m = g" using q by simp
      moreover have "buf \<notin> dom (N(p \<mapsto> g))" using notbuf(1) [of buf] notbuf(1) [OF p] by (cases "N buf") auto
      moreover have "(buf, c) \<in> live h'" using lv by simp
      ultimately show ?thesis using node g buf by (auto simp: data_ok_def)
    next
      case False
      then have m: "N q = Some m" using q by simp
      have "n_data m \<noteq> n_data f" if "n_data m \<noteq> NULL" using store_okD(7) [OF ok m p False that] .
      then show ?thesis
        using node store_okD(3-6) [OF ok m] notbuf(2) [OF m] lv p by (auto simp: data_ok_def)
    qed
  qed
  moreover have "n_data a \<noteq> n_data b"
    if "(N(p \<mapsto> g)) q = Some a" "(N(p \<mapsto> g)) r = Some b" "q \<noteq> r" "n_data a \<noteq> NULL" for q r a b
    using that g(1) notbuf(2) [of q a] notbuf(2) [of r b] store_okD(7) [OF ok, of q a r b]
    by (auto split: if_splits)
  ultimately show ?thesis using h' unfolding store_ok_def by blast
qed

text \<open>Blocks other than one at \<open>a\<close> stay live with their bytes.\<close>

definition keeps_but :: "addr \<Rightarrow> kheap \<Rightarrow> kheap \<Rightarrow> bool" where
  "keeps_but a h h' \<longleftrightarrow> (\<forall>b c. (b, c) \<in> live h \<longrightarrow> b \<noteq> a \<longrightarrow>
     (b, c) \<in> live h' \<and> (\<forall>i < c. bytes h' (b + of_nat i) = bytes h (b + of_nat i)))"

lemma kfree_data:
  assumes "store_ok N h" "N p = Some f" "heap_inv h'" "live h' = insert (buf, c) (live h)" "buf \<notin> fst ` live h"
  obtains h'' where "kfree h' (n_data f) = ret h''" "heap_inv h''" "bytes h'' = bytes h'"
    "live h'' = insert (buf, c) (live h - {(n_data f, d) | d. True})"
proof (cases "n_data f = NULL")
  case True
  have "(NULL, d) \<notin> live h" for d using live_bounds(1) [OF store_okD(1) [OF assms(1)]] by blast
  then show thesis using that [of h'] True assms(3,4) by (auto simp: kfree_def)
next
  case False
  obtain d where d: "(n_data f, d) \<in> live h" using store_okD(6) [OF assms(1,2) False] by blast
  have "live h - {(n_data f, d) | d. True} = live h - {(n_data f, d)}"
    using live_distinct_ptr [OF store_okD(1) [OF assms(1)] d] by blast
  moreover have "(buf, c) \<noteq> (n_data f, d)" using assms(5) d by force
  ultimately have "insert (buf, c) (live h) - {(n_data f, d)} = insert (buf, c) (live h - {(n_data f, d) | d. True})"
    by auto
  moreover obtain h'' where "kfree h' (n_data f) = ret h''" "heap_inv h''" "live h'' = live h' - {(n_data f, d)}"
    "bytes h'' = bytes h'"
    using kh.release_block [OF assms(3), of "n_data f" d] d assms(4) by auto
  ultimately show thesis using that assms(4) by simp
qed

text \<open>The copy into a fresh buffer: the old bytes arrive, and no byte of an older block changes.\<close>

lemma reserve_copy:
  assumes ok: "store_ok (nodes s) (heap s)" and f: "nodes s p = Some f" and base: "base \<le> n_size f"
    and h1: "heap_inv h1" "bytes h1 = bytes (heap s)" "live h1 = insert (buf, c) (live (heap s))" "buf \<notin> fst ` live (heap s)"
    and c: "unat base \<le> c" and m: "m = (if base \<noteq> 0 then memcpy (bytes h1) buf (n_data f) base else bytes h1)"
  shows "(b, d) \<in> live (heap s) \<Longrightarrow> i < d \<Longrightarrow> m (b + of_nat i) = bytes (heap s) (b + of_nat i)"
    "i < unat base \<Longrightarrow> m (buf + of_nat i) = bytes (heap s) (n_data f + of_nat i)"
proof -
  have apart: "b + of_nat i \<noteq> buf + of_nat j" if "(b, d) \<in> live (heap s)" "i < d" "j < unat base" for b d i j
    by (rule kh.block_bytes_distinct [OF h1(1), of b d buf c]) (use that h1 c in force)+
  show "m (b + of_nat i) = bytes (heap s) (b + of_nat i)" if "(b, d) \<in> live (heap s)" "i < d"
    using apart [OF that] by (simp add: m h1(2) memcpy_outside)
  assume i: "i < unat base"
  have "0 < unat (n_capacity f)" using i base store_okD(3) [OF ok f] by (simp add: word_le_nat_alt)
  then have "n_data f \<noteq> NULL" using store_okD(4) [OF ok f] by auto
  then obtain d where d: "unat (n_capacity f) \<le> d" "(n_data f, d) \<in> live (heap s)"
    using store_okD(6) [OF ok f] by blast
  have bd: "unat base \<le> d" using base store_okD(3) [OF ok f] d(1) by (simp add: word_le_nat_alt)
  have "memcpy (bytes h1) buf (n_data f) base (buf + of_nat i) = bytes h1 (n_data f + of_nat i)"
    by (rule memcpy_inside [OF i]) (use apart [OF d(2)] bd in \<open>metis less_trans order.strict_trans2\<close>)
  then show "m (buf + of_nat i) = bytes (heap s) (n_data f + of_nat i)" using i by (auto simp: m h1(2))
qed

text \<open>The capacity the doubling loop arrives at, small enough for the heap to be asked for it.\<close>

lemma reserve_capacity:
  assumes "n_capacity f < needed" "unat needed \<le> 2 ^ 30"
  obtains cap where "grow_capacity (if n_capacity f \<noteq> 0 then n_capacity f else 64) needed = ret cap"
    "unat needed \<le> unat cap" "0 < unat cap" "unat cap \<le> 2 ^ 32 - 8"
proof -
  let ?c0 = "if n_capacity f \<noteq> 0 then n_capacity f else 64"
  have c0: "0 < unat ?c0" by (simp add: unat_gt_0)
  obtain cap where cap: "grow_capacity ?c0 needed = ret cap" "unat needed \<le> unat cap"
    "unat cap < 2 * unat needed \<or> cap = ?c0" "unat ?c0 \<le> unat cap"
    using grow_capacity_returns [OF c0, of needed] assms(2) by auto
  moreover have "0 < unat cap" "unat cap \<le> 2 ^ 32 - 8"
    using cap c0 assms by (auto simp: word_less_nat_alt split: if_splits)
  ultimately show thesis using that by blast
qed

lemma write_reserve_spec:
  assumes ok: "store_ok (nodes s) (heap s)" and f: "nodes s p = Some f"
    and base: "base \<le> n_size f" and need: "unat needed \<le> 2 ^ 30" "base \<le> needed"
  obtains (full) "write_reserve p base needed s = ret (s, False)"
  | (room) h' g where
      "write_reserve p base needed s = ret (s\<lparr>heap := h', nodes := (nodes s)(p \<mapsto> g)\<rparr>, True)"
      "store_ok ((nodes s)(p \<mapsto> g)) h'" "unat needed \<le> unat (n_capacity g)"
      "\<exists>a c. g = f\<lparr>n_data := a, n_capacity := c\<rparr>" "keeps_but (n_data f) (heap s) h'"
      "\<forall>i < unat base. bytes h' (n_data g + of_nat i) = bytes (heap s) (n_data f + of_nat i)"
      "n_data g = n_data f \<or> n_data g \<notin> fst ` live (heap s)"
proof (cases "needed > n_capacity f")
  case False
  have "\<exists>a c. f = f\<lparr>n_data := a, n_capacity := c\<rparr>"
    by (intro exI [of _ "n_data f"] exI [of _ "n_capacity f"]) simp
  then show thesis
    using room [of f "heap s"] False ok f by (auto simp: write_reserve_def node_at_def keeps_but_def word_less_nat_alt fun_upd_idem)
next
  case True
  obtain cap where cap: "grow_capacity (if n_capacity f \<noteq> 0 then n_capacity f else 64) needed = ret cap"
      "unat needed \<le> unat cap" "0 < unat cap" "unat cap \<le> 2 ^ 32 - 8"
    by (rule reserve_capacity [OF True need(1)])
  obtain h1 buf where k: "kmalloc (heap s) cap = ret (h1, buf)" "heap_inv h1" "bytes h1 = bytes (heap s)"
    "buf = NULL \<longrightarrow> h1 = heap s"
    "buf \<noteq> NULL \<longrightarrow> (\<exists>c \<ge> unat cap. live h1 = insert (buf, c) (live (heap s)) \<and> buf \<notin> fst ` live (heap s))"
    using kmalloc_live [OF store_okD(1) [OF ok] cap(3,4)] by blast
  show thesis
  proof (cases "buf = NULL")
    case nul: True
    then show thesis using full k True cap f by (simp add: write_reserve_def node_at_def)
  next
    case False
    obtain c where c: "unat cap \<le> c" "live h1 = insert (buf, c) (live (heap s))" "buf \<notin> fst ` live (heap s)"
      using k(5) False by blast
    define m where "m = (if base \<noteq> 0 then memcpy (bytes h1) buf (n_data f) base else bytes h1)"
    have "unat base \<le> c" using need(2) cap(2) c(1) by (simp add: word_le_nat_alt)
    note copy = reserve_copy [OF ok f base k(2,3) c(2,3) this m_def]
    have inv2: "heap_inv (h1\<lparr>bytes := m\<rparr>)" "live (h1\<lparr>bytes := m\<rparr>) = insert (buf, c) (live (heap s))"
      using k(2) c(2) by simp_all
    obtain h2 where h2: "kfree (h1\<lparr>bytes := m\<rparr>) (n_data f) = ret h2" "heap_inv h2" "bytes h2 = m"
      "live h2 = insert (buf, c) (live (heap s) - {(n_data f, d) | d. True})"
      using kfree_data [OF ok f inv2 c(3)] by auto
    let ?g = "f\<lparr>n_data := buf, n_capacity := cap\<rparr>"
    have "write_reserve p base needed s = ret (s\<lparr>heap := h2, nodes := (nodes s)(p \<mapsto> ?g)\<rparr>, True)"
      using True False f cap(1) k(1) h2(1)
      by (cases "base = 0") (simp_all add: write_reserve_def node_at_def upd_node_def m_def Let_def cong: if_cong)
    moreover have "store_ok ((nodes s)(p \<mapsto> ?g)) h2"
      by (rule store_ok_data [OF ok f h2(2,4) False c(3)])
        (use c(1) store_okD(3) [OF ok f] True cap in \<open>auto simp: word_le_nat_alt word_less_nat_alt\<close>)
    moreover have "keeps_but (n_data f) (heap s) h2" using copy(1) h2(3,4) by (auto simp: keeps_but_def)
    ultimately show thesis using room [of ?g h2] cap(2) copy(2) h2(3) c(3) by auto
  qed
qed

section \<open>Writing\<close>

text \<open>What a source buffer holds, and when a write may use it: its bytes are no part of the file.\<close>

primrec buffer_text :: "buffer \<Rightarrow> u32 \<Rightarrow> mem \<Rightarrow> string" where
  "buffer_text (At src) len m = map (\<lambda>i. m (src + of_nat i)) [0..<unat len]"
| "buffer_text (Const str) len m = take (unat len) str"

primrec buffer_ok :: "buffer \<Rightarrow> u32 \<Rightarrow> addr \<Rightarrow> kheap \<Rightarrow> bool" where
  "buffer_ok (At src) len a h \<longleftrightarrow> len = 0 \<or> src \<noteq> a \<and> (\<exists>c \<ge> unat len. (src, c) \<in> live h)"
| "buffer_ok (Const str) len a h \<longleftrightarrow> unat len \<le> length str"

lemma length_buffer_text: "buffer_ok data len a h \<Longrightarrow> length (buffer_text data len m) = unat len"
  by (cases data) auto

lemma copy_from_outside:
  assumes "\<And>i. i < unat len \<Longrightarrow> x \<noteq> dst + of_nat i"
  shows "copy_from data dst len m x = m x"
proof (cases data)
  case (Const str)
  have "poke dst (take (unat len) str) m x = m x" by (rule poke_outside) (use assms in simp)
  then show ?thesis using Const by simp
qed (use assms in \<open>simp add: memcpy_outside\<close>)

lemma copy_from_inside:
  assumes "i < unat len" "buffer_ok data len a h"
    "\<And>src j k. data = At src \<Longrightarrow> j < unat len \<Longrightarrow> k < unat len \<Longrightarrow> dst + of_nat j \<noteq> src + of_nat k"
  shows "copy_from data dst len m (dst + of_nat i) = buffer_text data len m ! i"
proof (cases data)
  case (At src)
  have "memcpy m dst src len (dst + of_nat i) = m (src + of_nat i)"
    by (rule memcpy_inside [OF assms(1)]) (use assms(3) [OF At] less_trans in blast)
  then show ?thesis using At assms(1) by simp
next
  case (Const str)
  then show ?thesis
    using assms(1,2) poke_inside [of i "take (unat len) str" dst m] unat_u32_lt [of len] by simp
qed

lemma store_ok_size:
  assumes "store_ok N h" "N p = Some g" "sz \<le> n_capacity g"
  shows "store_ok (N(p \<mapsto> g\<lparr>n_size := sz\<rparr>)) (h\<lparr>bytes := m\<rparr>)"
proof -
  let ?g = "g\<lparr>n_size := sz\<rparr>" and ?N = "N(p \<mapsto> g\<lparr>n_size := sz\<rparr>)"
  have dm: "dom ?N = dom N" using assms(2) by auto
  have "(\<exists>c \<ge> unat sizeof_node. (q, c) \<in> live h) \<and> data_ok ?N (h\<lparr>bytes := m\<rparr>) k" if "?N q = Some k" for q k
  proof (cases "q = p")
    case True
    then show ?thesis
      using that store_okD(2-6) [OF assms(1,2)] assms(3) dm by (auto simp: data_ok_def)
  next
    case False
    then have "N q = Some k" using that by simp
    then show ?thesis using store_okD(2-6) [OF assms(1)] dm by (simp add: data_ok_def)
  qed
  moreover have "n_data a \<noteq> n_data b"
    if "?N q = Some a" "?N r = Some b" "q \<noteq> r" "n_data a \<noteq> NULL" for q r a b
    using that assms(2) store_okD(7) [OF assms(1), of q "if q = p then g else a" r "if r = p then g else b"]
    by (auto split: if_splits)
  ultimately show ?thesis using store_okD(1) [OF assms(1)] unfolding store_ok_def by simp
qed

lemma same_links_data:
  "N p = Some f \<Longrightarrow> same_links R N (N(p \<mapsto> f\<lparr>n_data := a, n_capacity := c, n_size := z\<rparr>))"
  by (erule same_links_upd) simp_all

text \<open>The final copy: into the file's own block, past the first \<open>base\<close> bytes.\<close>

lemma copy_into_file:
  assumes ok: "store_ok N h" and g: "N p = Some g" and fit: "unat base + unat len \<le> unat (n_capacity g)"
    and src: "buffer_ok data len (n_data g) h" and h': "h' = h\<lparr>bytes := copy_from data (n_data g + base) len (bytes h)\<rparr>"
  shows "keeps_but (n_data g) h h'"
    "i < unat base \<Longrightarrow> bytes h' (n_data g + of_nat i) = bytes h (n_data g + of_nat i)"
    "i < unat len \<Longrightarrow> bytes h' (n_data g + of_nat (unat base + i)) = buffer_text data len (bytes h) ! i"
proof -
  have inv: "heap_inv h" by (rule store_okD(1) [OF ok])
  have dst: "n_data g + base + of_nat j = n_data g + of_nat (unat base + j)" for j by simp
  have block: "\<exists>e \<ge> unat (n_capacity g). (n_data g, e) \<in> live h" if "j < unat len" for j
  proof -
    have "n_data g \<noteq> NULL" using store_okD(4) [OF ok g] fit that by auto
    then show ?thesis using store_okD(6) [OF ok g] by blast
  qed
  have apart: "b + of_nat k \<noteq> n_data g + base + of_nat j"
    if b: "(b, d) \<in> live h" "b \<noteq> n_data g" "k < d" "j < unat len" for b d k j
  proof -
    obtain e where e: "unat (n_capacity g) \<le> e" "(n_data g, e) \<in> live h" using block [OF b(4)] by blast
    have j: "unat base + j < e" using e(1) fit b(4) by linarith
    show ?thesis unfolding dst by (rule kh.block_bytes_distinct [OF inv b(1) e(2) b(2,3) j])
  qed
  show "keeps_but (n_data g) h h'"
    unfolding keeps_but_def h' using apart by (auto intro!: copy_from_outside)
  show "bytes h' (n_data g + of_nat i) = bytes h (n_data g + of_nat i)" if "i < unat base"
    unfolding h'
  proof (simp, rule copy_from_outside)
    fix j assume "j < unat len"
    then have "unat base + j < 2 ^ 32" "i < 2 ^ 32" "i \<noteq> unat base + j"
      using fit unat_u32_lt [of "n_capacity g"] that by linarith+
    then show "n_data g + of_nat i \<noteq> n_data g + base + of_nat j"
      unfolding dst using addr_offset_inj by blast
  qed
  show "bytes h' (n_data g + of_nat (unat base + i)) = buffer_text data len (bytes h) ! i" if i: "i < unat len"
  proof -
    have "copy_from data (n_data g + base) len (bytes h) (n_data g + base + of_nat i) = buffer_text data len (bytes h) ! i"
    proof (rule copy_from_inside [OF i src])
      fix q j k assume "data = At q" "j < unat len" "k < unat len"
      then show "n_data g + base + of_nat j \<noteq> q + of_nat k"
        using src apart [of q _ k j] by fastforce
    qed
    then show ?thesis unfolding h' dst by simp
  qed
qed

lemma buffer_keeps:
  assumes "buffer_ok data len a h" "keeps_but a h h'" "b = a \<or> b \<notin> fst ` live h"
  shows "buffer_ok data len b h'" "buffer_text data len (bytes h') = buffer_text data len (bytes h)"
proof -
  have "buffer_ok data len b h' \<and> buffer_text data len (bytes h') = buffer_text data len (bytes h)"
  proof (cases data)
    case (At src)
    show ?thesis
    proof (cases "len = 0")
      case False
      then obtain c where c: "unat len \<le> c" "(src, c) \<in> live h" "src \<noteq> a" using assms(1) At by auto
      then have k: "(src, c) \<in> live h'" "\<forall>i < c. bytes h' (src + of_nat i) = bytes h (src + of_nat i)"
        using assms(2) by (auto simp: keeps_but_def)
      have "src \<noteq> b" using assms(3) c(2,3) by force
      then show ?thesis using At c(1) k by auto
    qed (simp add: At)
  qed (use assms(1) in simp)
  then show "buffer_ok data len b h'" "buffer_text data len (bytes h') = buffer_text data len (bytes h)" by auto
qed

lemma keeps_but_trans:
  assumes "keeps_but a h h1" "keeps_but b h1 h2" "b = a \<or> b \<notin> fst ` live h"
  shows "keeps_but a h h2"
  unfolding keeps_but_def
proof (intro allI impI)
  fix q c assume q: "(q, c) \<in> live h" "q \<noteq> a"
  then have "(q, c) \<in> live h1" "\<forall>i < c. bytes h1 (q + of_nat i) = bytes h (q + of_nat i)"
    using assms(1) by (auto simp: keeps_but_def)
  moreover have "q \<noteq> b" using assms(3) q by force
  ultimately show "(q, c) \<in> live h2 \<and> (\<forall>i < c. bytes h2 (q + of_nat i) = bytes h (q + of_nat i))"
    using assms(2) by (simp add: keeps_but_def)
qed

lemma contents_append:
  assumes "\<And>i. i < length xs \<Longrightarrow> bytes h (n_data g + of_nat i) = xs ! i"
    "\<And>i. i < length ys \<Longrightarrow> bytes h (n_data g + of_nat (length xs + i)) = ys ! i"
    "unat (n_size g) = length xs + length ys"
  shows "contents h g = xs @ ys"
proof (rule nth_equalityI)
  fix i assume "i < length (contents h g)"
  then have i: "i < length xs + length ys" by (simp add: contents_def assms(3))
  show "contents h g ! i = (xs @ ys) ! i"
  proof (cases "i < length xs")
    case True
    then show ?thesis using i assms(1,3) by (simp add: contents_def nth_append)
  next
    case False
    then show ?thesis using i assms(2) [of "i - length xs"] assms(3) by (simp add: contents_def nth_append)
  qed
qed (simp add: contents_def assms(3))

text \<open>
  The new file node, the contents after the write, and the blocks that stay: everything but the
  file's own data.
\<close>

lemma ramfs_write_spec:
  assumes ok: "store_ok (nodes s) (heap s)" and f: "nodes s p = Some f" "n_type f = RAMFS_FILE" "p \<noteq> NULL"
    and src: "buffer_ok data len (n_data f) (heap s)"
    and need: "unat (if app then n_size f else 0) + unat len \<le> 2 ^ 30"
  obtains (full) "ramfs_write p data len app s = ret (s, False)"
  | (stored) h' g where
      "ramfs_write p data len app s = ret (s\<lparr>heap := h', nodes := (nodes s)(p \<mapsto> g)\<rparr>, True)"
      "store_ok ((nodes s)(p \<mapsto> g)) h'" "keeps_but (n_data f) (heap s) h'"
      "\<exists>a c z. g = f\<lparr>n_data := a, n_capacity := c, n_size := z\<rparr>"
      "contents h' g = (if app then contents (heap s) f else []) @ buffer_text data len (bytes (heap s))"
      "n_data g = n_data f \<or> n_data g \<notin> fst ` live (heap s)"
proof -
  define base where "base = (if app then n_size f else 0)"
  have bl: "unat (base + len) = unat base + unat len" and small: "unat (base + len) \<le> 2 ^ 30"
    using need by (simp_all add: base_def unat_word_ariths)
  have le: "base \<le> n_size f" "base \<le> base + len" using bl by (simp_all add: base_def word_le_nat_alt)
  have unfold: "ramfs_write p data len app s = run_bind (write_reserve p base (base + len) s) (\<lambda>(s, ok).
      if \<not> ok then ret (s, False)
      else run_bind (node_at p s) (\<lambda>f.
        let s = s\<lparr>heap := (heap s)\<lparr>bytes := copy_from data (n_data f + base) len (bytes (heap s))\<rparr>\<rparr>
        in run_bind (upd_node p (\<lambda>f. f\<lparr>n_size := base + len\<rparr>) s) (\<lambda>s. ret (s, True))))"
    using f unfolding ramfs_write_def base_def Let_def by (simp add: node_at_def cong: if_cong)
  from ok f(1) le(1) small le(2) show thesis
  proof (cases rule: write_reserve_spec)
    case full
    then show thesis using unfold that(1) by simp
  next
    case (room h1 g)
    obtain a c where g: "g = f\<lparr>n_data := a, n_capacity := c\<rparr>" using room(4) by blast
    define h2 where "h2 = h1\<lparr>bytes := copy_from data (n_data g + base) len (bytes h1)\<rparr>"
    let ?g = "g\<lparr>n_size := base + len\<rparr>"
    have gp: "((nodes s)(p \<mapsto> g)) p = Some g" by simp
    note src1 = buffer_keeps [OF src room(5,7)]
    have fit: "unat base + unat len \<le> unat (n_capacity g)" using room(3) bl by simp
    note copy = copy_into_file [OF room(2) gp fit src1(1) h2_def]
    have "ramfs_write p data len app s = ret (s\<lparr>heap := h2, nodes := (nodes s)(p \<mapsto> ?g)\<rparr>, True)"
      unfolding unfold h2_def using room(1) by (simp add: node_at_def upd_node_def)
    moreover have "store_ok ((nodes s)(p \<mapsto> ?g)) h2"
      using store_ok_size [OF room(2) gp, of "base + len"] room(3)
      by (simp only: h2_def word_le_nat_alt fun_upd_upd)
    moreover have "keeps_but (n_data f) (heap s) h2" by (rule keeps_but_trans [OF room(5) copy(1) room(7)])
    moreover have "contents h2 ?g = (if app then contents (heap s) f else []) @ buffer_text data len (bytes (heap s))"
    proof (rule contents_append)
      show "i < length (if app then contents (heap s) f else []) \<Longrightarrow>
          bytes h2 (n_data ?g + of_nat i) = (if app then contents (heap s) f else []) ! i" for i
        using copy(2) [of i] room(6) by (auto simp: contents_def base_def split: if_splits)
      show "i < length (buffer_text data len (bytes (heap s))) \<Longrightarrow>
          bytes h2 (n_data ?g + of_nat (length (if app then contents (heap s) f else []) + i)) =
          buffer_text data len (bytes (heap s)) ! i" for i
        using copy(3) [of i] src1(2) length_buffer_text [OF src] by (simp add: contents_def base_def split: if_splits)
    qed (use length_buffer_text [OF src] bl in \<open>simp add: contents_def base_def\<close>)
    ultimately show thesis using that(2) [of ?g h2] g room(7) by auto
  qed
qed

text \<open>No other file changes.\<close>

lemma contents_keeps_but:
  assumes "store_ok N h" "N p = Some f" "N q = Some m" "q \<noteq> p" "keeps_but (n_data f) h h'"
  shows "contents h' m = contents h m"
proof (cases "n_data m = NULL")
  case True
  then have "unat (n_size m) = 0"
    using store_okD(3,4) [OF assms(1,3)] by (simp add: word_le_nat_alt unat_eq_zero)
  then show ?thesis by (simp add: contents_def)
next
  case False
  then obtain c where c: "unat (n_capacity m) \<le> c" "(n_data m, c) \<in> live h"
    using store_okD(6) [OF assms(1,3)] by blast
  have "n_data m \<noteq> n_data f" by (rule store_okD(7) [OF assms(1,3,2,4) False])
  then have "\<forall>i < c. bytes h' (n_data m + of_nat i) = bytes h (n_data m + of_nat i)"
    using assms(5) c(2) by (auto simp: keeps_but_def)
  moreover have "unat (n_size m) \<le> c" using c(1) store_okD(3) [OF assms(1,3)] by (simp add: word_le_nat_alt)
  ultimately show ?thesis by (simp add: contents_def)
qed

lemma fs_write:
  assumes ok: "fs_ok K s" and f: "nodes s p = Some f" "n_type f = RAMFS_FILE"
    and g: "\<exists>a c z. g = f\<lparr>n_data := a, n_capacity := c, n_size := z\<rparr>"
    and h': "store_ok ((nodes s)(p \<mapsto> g)) h'" "keeps_but (n_data f) (heap s) h'"
    and s': "s' = s\<lparr>heap := h', nodes := (nodes s)(p \<mapsto> g)\<rparr>"
  shows "fs_ok K s'"
    "at (nodes s) (root s) P p \<Longrightarrow> fs_view s' = {(Q, e) \<in> fs_view s. Q \<noteq> P} \<union> {(P, File (contents h' g))}"
    "at (nodes s') (root s') Q q \<longleftrightarrow> at (nodes s) (root s) Q q"
proof -
  have fo: "forest (nodes s) {root s} K" and st: "store_ok (nodes s) (heap s)" using ok by (simp_all add: fs_ok_def)
  obtain a c z where g': "g = f\<lparr>n_data := a, n_capacity := c, n_size := z\<rparr>" using g by blast
  let ?N = "(nodes s)(p \<mapsto> g)"
  have sl: "same_links {root s} (nodes s) ?N" unfolding g' by (rule same_links_data [where N = "nodes s", OF f(1)])
  have "dir_at ?N (root s)" using ok f by (auto simp: fs_ok_def dir_at_def)
  then show "fs_ok K s'" using forest_same_links [OF fo sl] h'(1) by (simp add: fs_ok_def s')
  have nm: "name_of ?N q = name_of (nodes s) q" for q using f(1) g' by (simp add: name_of_def)
  have at': "at ?N (root s) Q q \<longleftrightarrow> at (nodes s) (root s) Q q" for Q q
    by (rule at_same [OF same_links_edges [OF sl] nm])
  show "at (nodes s') (root s') Q q \<longleftrightarrow> at (nodes s) (root s) Q q" using at' s' by simp
  assume P: "at (nodes s) (root s) P p"
  have this_file: "Q = P \<longleftrightarrow> q = p" if "at (nodes s) (root s) Q q" for Q q
    using at_injective [OF fo that] at_functional [OF fo that] P by blast
  have ent: "entry_of h' m = entry_of (heap s) m" if "nodes s q = Some m" "q \<noteq> p" for q m
    using contents_keeps_but [OF st f(1) that h'(2)] by (simp add: entry_of_def)
  have "(Q, e) \<in> fs_view s' \<longleftrightarrow> (Q, e) \<in> {(Q, e) \<in> fs_view s. Q \<noteq> P} \<union> {(P, File (contents h' g))}" for Q e
  proof (cases "Q = P")
    case True
    have "(P, e) \<in> fs_view s' \<longleftrightarrow> e = entry_of h' g"
      unfolding fs_view_iff s' using this_file P at' by auto
    also have "entry_of h' g = File (contents h' g)" using f(2) g' by (simp add: entry_of_def)
    finally show ?thesis using True by simp
  next
    case False
    have "(\<exists>n. ?N q = Some n \<and> e = entry_of h' n) \<longleftrightarrow> (\<exists>n. nodes s q = Some n \<and> e = entry_of (heap s) n)"
      if "at (nodes s) (root s) Q q" for q
    proof -
      have "q \<noteq> p" using this_file [OF that] False by blast
      then show ?thesis using ent [of q] by auto
    qed
    then have "(\<exists>q. at (nodes s) (root s) Q q \<and> (\<exists>n. ?N q = Some n \<and> e = entry_of h' n)) \<longleftrightarrow>
        (Q, e) \<in> fs_view s"
      unfolding fs_view_iff by blast
    then have "(Q, e) \<in> fs_view s' \<longleftrightarrow> (Q, e) \<in> fs_view s"
      unfolding fs_view_iff [of Q e s'] by (simp add: s' at' del: fun_upd_apply)
    then show ?thesis using False by simp
  qed
  then show "fs_view s' = {(Q, e) \<in> fs_view s. Q \<noteq> P} \<union> {(P, File (contents h' g))}" by auto
qed

end
