(* ===== verification/RamfsRemove.thy ===== *)
theory RamfsRemove
  imports RamfsOps
begin

text \<open>
  Unlinking, freeing and moving subtrees (\<^verbatim>\<open>detach\<close>, \<^verbatim>\<open>free_tree\<close>, \<^verbatim>\<open>ramfs_delete\<close>,
  \<^verbatim>\<open>ramfs_move\<close> of fs/ramfs.c).
\<close>

section \<open>Detaching\<close>

lemma detach_find_spec:
  assumes "read_link pp s = ret a" "sibs (nodes s) a (xs @ c # ys)" "c \<notin> set xs"
  shows "detach_find pp c s = ret (if xs = [] then pp else Next_of (last xs), c)"
  using assms
proof (induction xs arbitrary: pp a)
  case Nil
  then show ?case by (subst detach_find.simps) simp
next
  case (Cons x xs)
  obtain n where n: "nodes s x = Some n" "x \<noteq> NULL" "a = x" "sibs (nodes s) (n_next n) (xs @ c # ys)"
    using Cons.prems(2) by auto
  have "detach_find pp c s = detach_find (Next_of x) c s"
    using Cons.prems(1,3) n by (subst detach_find.simps) auto
  also have "\<dots> = ret (if xs = [] then Next_of x else Next_of (last xs), c)"
    by (rule Cons.IH [of _ "n_next n"]) (use n Cons.prems(3) in \<open>simp_all add: node_at_def\<close>)
  finally show ?case by simp
qed

lemma detach_run:
  assumes f: "forest (nodes s) R K" and c: "nodes s c = Some m" "c \<notin> R" and k: "K (n_parent m) = xs @ c # ys"
  shows "detach c s = ret (s\<lparr>nodes := detach_store xs c (nodes s)\<rparr>)"
proof -
  obtain n where n: "nodes s (n_parent m) = Some n" using forestD(7) [OF f c] by blast
  have dist: "c \<notin> set xs" using forestD(2) [OF f n] k by simp
  have find: "detach_find (Child_of (n_parent m)) c s =
      ret (if xs = [] then Child_of (n_parent m) else Next_of (last xs), c)"
    by (rule detach_find_spec [of _ _ "n_children n"])
      (use n forestD(1) [OF f n] k dist in \<open>simp_all add: node_at_def\<close>)
  have c0: "c \<noteq> NULL" by (rule forestD(10) [OF f c(1)])
  have pc: "n_parent m \<noteq> c"
    using forest_kids [OF f, of "n_parent m" c] n k forest_basic(4) [OF f] by (auto simp: acyclic_def)
  show ?thesis
  proof (cases "xs = []")
    case True
    then show ?thesis
      using c n c0 pc find
      by (simp add: detach_def node_at_def upd_node_def detach_store_def unlink_store_def)
  next
    case False
    obtain l where l: "nodes s (last xs) = Some l" "last xs \<noteq> c"
      using last_kid(1,2) [OF f n k False] by blast
    then show ?thesis
      using c c0 False find
      by (simp add: detach_def node_at_def upd_node_def detach_store_def unlink_store_def)
  qed
qed

section \<open>Freeing a subtree\<close>

text \<open>The loop over the children calls \<^verbatim>\<open>free_tree\<close> on each, as the code does.\<close>

lemma free_list_unfold:
  "free_list c s = (if c = NULL then ret s
     else run_bind (node_at c s) (\<lambda>n. run_bind (free_tree c s) (free_list (n_next n))))"
proof (cases "c = NULL")
  case False
  then show ?thesis
    by (subst free_list.simps, cases "nodes s c")
      (simp_all add: free_tree_def node_at_def run_bind_assoc)
qed (simp add: free_list.simps)

text \<open>The blocks of a set of nodes: the nodes and their data.\<close>

definition owned :: "store \<Rightarrow> addr set \<Rightarrow> addr set" where
  "owned N D = (D \<union> {n_data n | n x. x \<in> D \<and> N x = Some n}) - {NULL}"

lemma owned_disjoint:
  assumes "store_ok N h" "A \<subseteq> dom N" "B \<subseteq> dom N" "A \<inter> B = {}"
  shows "owned N A \<inter> owned N B = {}"
proof -
  have "a \<notin> owned N B" if a: "a \<in> owned N A" for a
  proof
    assume b: "a \<in> owned N B"
    have nn: "a \<noteq> NULL" using a by (simp add: owned_def)
    have no: "\<not> (a \<in> dom N \<and> (\<exists>x n. N x = Some n \<and> n_data n = a))"
      using store_okD(5) [OF assms(1)] nn by blast
    show False
    proof (cases "a \<in> dom N")
      case True
      then have "a \<in> A" "a \<in> B" using a b no by (auto simp: owned_def)
      then show False using assms(4) by blast
    next
      case False
      then have ab: "a \<notin> A" "a \<notin> B" using assms(2,3) by auto
      obtain x n where x: "x \<in> A" "N x = Some n" "n_data n = a" using a ab(1) by (auto simp: owned_def)
      obtain y m where y: "y \<in> B" "N y = Some m" "n_data m = a" using b ab(2) by (auto simp: owned_def)
      have "x \<noteq> y" using assms(4) x(1) y(1) by blast
      then show False using store_okD(7) [OF assms(1) x(2) y(2)] x(3) y(3) nn by auto
    qed
  qed
  then show ?thesis by blast
qed

lemma owned_Un: "owned N (A \<union> B) = owned N A \<union> owned N B"
  by (auto simp: owned_def)

lemma owned_live:
  assumes "store_ok N h" "a \<in> owned N D" "D \<subseteq> dom N"
  shows "\<exists>c. (a, c) \<in> live h"
  using assms(2,3) store_okD(2) [OF assms(1)] store_okD(6) [OF assms(1)] unfolding owned_def by fastforce

text \<open>
  \<open>frees act D\<close>: whatever the rest of the state is, as long as the nodes \<open>D\<close> of the original
  store \<open>N\<close> and their blocks are intact, \<open>act\<close> returns, removes exactly these nodes and frees
  exactly their blocks.
\<close>

definition frees :: "store \<Rightarrow> kheap \<Rightarrow> ('a ramfs_scheme \<Rightarrow> 'a ramfs_scheme run) \<Rightarrow> addr set \<Rightarrow> bool" where
  "frees N h act D \<longleftrightarrow> (\<forall>s. (\<forall>x \<in> D. nodes s x = N x) \<longrightarrow> heap_inv (heap s) \<longrightarrow>
     (\<forall>a c. (a, c) \<in> live h \<longrightarrow> a \<in> owned N D \<longrightarrow> (a, c) \<in> live (heap s)) \<longrightarrow>
     (\<exists>h'. act s = ret (s\<lparr>heap := h', nodes := nodes s |` (- D)\<rparr>) \<and> heap_inv h' \<and>
        live h' = {(a, c) \<in> live (heap s). a \<notin> owned N D} \<and> bytes h' = bytes (heap s)))"

lemma freesD:
  assumes "frees N h act D" "\<And>x. x \<in> D \<Longrightarrow> nodes s x = N x" "heap_inv (heap s)"
    "\<And>a c. (a, c) \<in> live h \<Longrightarrow> a \<in> owned N D \<Longrightarrow> (a, c) \<in> live (heap s)"
  obtains h' where "act s = ret (s\<lparr>heap := h', nodes := nodes s |` (- D)\<rparr>)" "heap_inv h'"
    "live h' = {(a, c) \<in> live (heap s). a \<notin> owned N D}" "bytes h' = bytes (heap s)"
  using assms unfolding frees_def by blast

lemma frees_seq:
  assumes A: "frees N h f A" and B: "frees N h g B" and st: "store_ok N h"
    and sub: "A \<subseteq> dom N" "B \<subseteq> dom N" "A \<inter> B = {}"
  shows "frees N h (\<lambda>s. run_bind (f s) g) (A \<union> B)"
  unfolding frees_def
proof (intro allI impI)
  fix s :: "'a ramfs_scheme"
  assume s: "\<forall>x \<in> A \<union> B. nodes s x = N x" "heap_inv (heap s)"
    "\<forall>a c. (a, c) \<in> live h \<longrightarrow> a \<in> owned N (A \<union> B) \<longrightarrow> (a, c) \<in> live (heap s)"
  obtain h1 where h1: "f s = ret (s\<lparr>heap := h1, nodes := nodes s |` (- A)\<rparr>)" "heap_inv h1"
    "live h1 = {(a, c) \<in> live (heap s). a \<notin> owned N A}" "bytes h1 = bytes (heap s)"
    by (rule freesD [OF A, of s]) (use s in \<open>auto simp: owned_Un\<close>)
  let ?s = "s\<lparr>heap := h1, nodes := nodes s |` (- A)\<rparr>"
  have B1: "nodes ?s x = N x" if "x \<in> B" for x using s(1) sub(3) that by (auto simp: restrict_map_def)
  have B2: "(a, c) \<in> live (heap ?s)" if "(a, c) \<in> live h" "a \<in> owned N B" for a c
    using s(3) owned_disjoint [OF st sub] h1(3) that by (auto simp: owned_Un)
  have B3: "heap_inv (heap ?s)" using h1(2) by simp
  obtain h2 where h2: "g ?s = ret (?s\<lparr>heap := h2, nodes := nodes ?s |` (- B)\<rparr>)" "heap_inv h2"
    "live h2 = {(a, c) \<in> live (heap ?s). a \<notin> owned N B}" "bytes h2 = bytes (heap ?s)"
    by (rule freesD [OF B B1 B3 B2])
  show "\<exists>h'. run_bind (f s) g = ret (s\<lparr>heap := h', nodes := nodes s |` (- (A \<union> B))\<rparr>) \<and> heap_inv h' \<and>
      live h' = {(a, c) \<in> live (heap s). a \<notin> owned N (A \<union> B)} \<and> bytes h' = bytes (heap s)"
  proof (intro exI conjI)
    have "- A \<inter> - B = - (A \<union> B)" by blast
    then show "run_bind (f s) g = ret (s\<lparr>heap := h2, nodes := nodes s |` (- (A \<union> B))\<rparr>)" using h1(1) h2(1) by simp
    show "live h2 = {(a, c) \<in> live (heap s). a \<notin> owned N (A \<union> B)}" using h1(3) h2(3) by (auto simp: owned_Un)
  qed (use h1 h2 in simp_all)
qed

lemma frees_none: "frees N h ret {}"
  unfolding frees_def
proof (intro allI impI)
  fix s :: "'a ramfs_scheme"
  assume "heap_inv (heap s)"
  moreover have "nodes s |` (- {}) = nodes s" by (simp add: restrict_map_def)
  moreover have "owned N {} = {}" by (simp add: owned_def)
  ultimately show "\<exists>h'. ret s = ret (s\<lparr>heap := h', nodes := nodes s |` (- {})\<rparr>) \<and> heap_inv h' \<and>
      live h' = {(a, c) \<in> live (heap s). a \<notin> owned N {}} \<and> bytes h' = bytes (heap s)"
    by (intro exI [of _ "heap s"]) simp
qed

text \<open>Freeing the data of one node and then the node itself.\<close>

definition free_one :: "addr \<Rightarrow> 'a ramfs_scheme \<Rightarrow> 'a ramfs_scheme run" where
  "free_one x s = run_bind (node_at x s) (\<lambda>n. run_bind (kfree (heap s) (n_data n)) (\<lambda>h. free_node x (s\<lparr>heap := h\<rparr>)))"

lemma frees_one:
  assumes st: "store_ok N h" and n: "N x = Some n"
  shows "frees N h (free_one x :: 'a ramfs_scheme \<Rightarrow> _) {x}"
  unfolding frees_def
proof (intro allI impI)
  fix s :: "'a ramfs_scheme"
  assume s: "\<forall>y \<in> {x}. nodes s y = N y" and inv: "heap_inv (heap s)"
    and lv: "\<forall>a c. (a, c) \<in> live h \<longrightarrow> a \<in> owned N {x} \<longrightarrow> (a, c) \<in> live (heap s)"
  have x0: "x \<noteq> NULL" using store_okD(2) [OF st n] live_bounds(1) [OF store_okD(1) [OF st]] by blast
  have own: "owned N {x} = {x, n_data n} - {NULL}" using n by (auto simp: owned_def)
  have xd: "x \<noteq> n_data n" using store_okD(5) [OF st n] n x0 by auto
  obtain c where c: "(x, c) \<in> live (heap s)" using store_okD(2) [OF st n] lv own x0 by blast
  obtain h1 where h1: "kfree (heap s) (n_data n) = ret h1" "heap_inv h1" "bytes h1 = bytes (heap s)"
    "live h1 = {(a, c) \<in> live (heap s). a \<noteq> n_data n}"
  proof (cases "n_data n = NULL")
    case True
    have "a \<noteq> NULL" if "(a, c) \<in> live (heap s)" for a c using live_bounds(1) [OF inv that] .
    then show thesis using that [of "heap s"] True inv by (auto simp: kfree_def)
  next
    case False
    obtain d where d: "(n_data n, d) \<in> live (heap s)" using store_okD(6) [OF st n False] lv own False by blast
    have "live (heap s) - {(n_data n, d)} = {(a, c) \<in> live (heap s). a \<noteq> n_data n}"
      using live_distinct_ptr [OF inv d] by blast
    then show thesis using that kh.release_block [OF inv d] by auto
  qed
  have c1: "(x, c) \<in> live h1" using c xd h1(4) by simp
  obtain h2 where h2: "kfree h1 x = ret h2" "heap_inv h2" "live h2 = live h1 - {(x, c)}" "bytes h2 = bytes h1"
    using kh.release_block [OF h1(2) c1] by auto
  have "live h2 = {(a, c) \<in> live (heap s). a \<notin> owned N {x}}"
  proof -
    have "live h2 = {(a, c) \<in> live h1. a \<noteq> x}" using h2(3) live_distinct_ptr [OF h1(2) c1] by blast
    moreover have "a \<noteq> NULL" if "(a, c) \<in> live (heap s)" for a c using live_bounds(1) [OF inv that] .
    ultimately show ?thesis using h1(4) own by auto
  qed
  moreover have "(nodes s)(x := None) = nodes s |` (- {x})" by (simp add: fun_eq_iff restrict_map_def)
  ultimately show "\<exists>h'. free_one x s = ret (s\<lparr>heap := h', nodes := nodes s |` (- {x})\<rparr>) \<and> heap_inv h' \<and>
      live h' = {(a, c) \<in> live (heap s). a \<notin> owned N {x}} \<and> bytes h' = bytes (heap s)"
    using s n h1 h2 by (intro exI [of _ h2]) (simp add: free_one_def node_at_def free_node_def)
qed

lemma free_tree_one:
  assumes "nodes s x = Some n"
  shows "free_tree x s = run_bind (free_list (n_children n) s) (free_one x)"
  using assms by (simp add: free_tree_def free_one_def [abs_def] node_at_def)

lemma frees_cong:
  assumes "frees N h f D" "D = E" "\<And>s. (\<forall>x \<in> E. nodes s x = N x) \<Longrightarrow> g s = f s"
  shows "frees N h g E"
  using assms unfolding frees_def by simp

lemma sibling_not_below:
  assumes "forest N R K" "(p, a) \<in> edges N" "(p, b) \<in> edges N" "a \<noteq> b"
  shows "b \<notin> below N a"
proof
  assume "b \<in> below N a"
  then have "(a, b) \<in> (edges N)\<^sup>*" by (simp add: below_def)
  then obtain q where q: "(a, q) \<in> (edges N)\<^sup>*" "(q, b) \<in> edges N" using assms(4) by (cases rule: rtranclE) auto
  then have "(a, p) \<in> (edges N)\<^sup>*" using edge_parent [OF assms(3)] by blast
  then have "(p, p) \<in> (edges N)\<^sup>+" by (rule rtrancl_into_trancl2 [OF assms(2)])
  then show False using forest_basic(4) [OF assms(1)] by (simp add: acyclic_def)
qed

lemma frees_list:
  assumes st: "store_ok N h" and f: "forest N R K" and p: "N p = Some k"
    and xs: "sibs N c xs" "set xs \<subseteq> set (K p)" "distinct xs"
    and IH: "\<And>x. x \<in> set xs \<Longrightarrow> frees N h (free_tree x :: 'a ramfs_scheme \<Rightarrow> _) (below N x)"
  shows "frees N h (free_list c :: 'a ramfs_scheme \<Rightarrow> _) (\<Union>x \<in> set xs. below N x)"
  using xs IH
proof (induction xs arbitrary: c)
  case Nil
  have "free_list c = (ret :: 'a ramfs_scheme \<Rightarrow> _)" using Nil by (simp add: fun_eq_iff free_list_unfold)
  then show ?case using frees_none by simp
next
  case (Cons x xs)
  obtain n where n: "c = x" "x \<noteq> NULL" "N x = Some n" "sibs N (n_next n) xs" using Cons.prems(1) by auto
  have rest: "frees N h (free_list (n_next n) :: 'a ramfs_scheme \<Rightarrow> _) (\<Union>y \<in> set xs. below N y)"
    by (rule Cons.IH [OF n(4)]) (use Cons.prems in simp_all)
  have disj: "below N x \<inter> (\<Union>y \<in> set xs. below N y) = {}"
  proof -
    have "below N x \<inter> below N y = {}" if y: "y \<in> set xs" for y
    proof (rule ccontr)
      assume "below N x \<inter> below N y \<noteq> {}"
      then have xy: "x \<in> below N y \<or> y \<in> below N x" using below_total by blast
      have e: "(p, x) \<in> edges N" "(p, y) \<in> edges N"
        using forest_kids [OF f] p Cons.prems(2) y by auto
      have "x \<noteq> y" using Cons.prems(3) y by auto
      then show False using xy sibling_not_below [OF f e] sibling_not_below [OF f e(2,1)] by auto
    qed
    then show ?thesis by blast
  qed
  have dom: "below N y \<subseteq> dom N" if "y \<in> set (x # xs)" for y
    using below_dom sibs_mem [OF Cons.prems(1) that] by blast
  have seq: "frees N h (\<lambda>s :: 'a ramfs_scheme. run_bind (free_tree x s) (free_list (n_next n)))
      (below N x \<union> (\<Union>y \<in> set xs. below N y))"
    by (rule frees_seq [OF Cons.prems(4) rest st dom _ disj]) (use dom in auto)
  show ?case
  proof (rule frees_cong [OF seq])
    fix s :: "'a ramfs_scheme" assume "\<forall>y \<in> \<Union> (below N ` set (x # xs)). nodes s y = N y"
    then have "nodes s x = Some n" using n(3) by auto
    then show "free_list c s = run_bind (free_tree x s) (free_list (n_next n))"
      using n(1,2) by (subst free_list_unfold) (simp add: node_at_def)
  qed simp
qed

lemma below_unfold:
  assumes "forest N R K" "N x = Some n"
  shows "below N x = (\<Union>y \<in> set (K x). below N y) \<union> {x}" "x \<notin> (\<Union>y \<in> set (K x). below N y)"
proof -
  have k: "y \<in> set (K x) \<longleftrightarrow> (x, y) \<in> edges N" for y using forest_kids [OF assms(1)] assms(2) by blast
  show "below N x = (\<Union>y \<in> set (K x). below N y) \<union> {x}"
  proof (intro set_eqI iffI)
    fix z assume "z \<in> below N x"
    then have "(x, z) \<in> (edges N)\<^sup>*" by (simp add: below_def)
    then show "z \<in> (\<Union>y \<in> set (K x). below N y) \<union> {x}"
      using k by (cases rule: converse_rtranclE) (auto simp: below_def)
  next
    fix z assume "z \<in> (\<Union>y \<in> set (K x). below N y) \<union> {x}"
    then show "z \<in> below N x" using k by (auto simp: below_def intro: converse_rtrancl_into_rtrancl)
  qed
  show "x \<notin> (\<Union>y \<in> set (K x). below N y)"
  proof
    assume "x \<in> (\<Union>y \<in> set (K x). below N y)"
    then obtain y where "(x, y) \<in> edges N" "(y, x) \<in> (edges N)\<^sup>*" using k by (auto simp: below_def)
    then have "(x, x) \<in> (edges N)\<^sup>+" by (rule rtrancl_into_trancl2)
    then show False using forest_basic(4) [OF assms(1)] by (simp add: acyclic_def)
  qed
qed

lemma frees_tree:
  assumes st: "store_ok N h" and f: "forest N R K" and x: "x \<in> dom N"
  shows "frees N h (free_tree x :: 'a ramfs_scheme \<Rightarrow> _) (below N x)"
  using x
proof (induction x rule: wf_induct_rule [OF wf_edges(2) [OF f]])
  case (1 x)
  obtain n where n: "N x = Some n" using 1(2) by auto
  have kids: "(x, y) \<in> edges N" "y \<in> dom N" if "y \<in> set (K x)" for y
    using forest_kids [OF f] n that forestD(5) [OF f n that] by auto
  have lst: "frees N h (free_list (n_children n) :: 'a ramfs_scheme \<Rightarrow> _) (\<Union>y \<in> set (K x). below N y)"
  proof (rule frees_list [OF st f n forestD(1) [OF f n] _ forestD(2) [OF f n]])
    fix y assume "y \<in> set (K x)"
    then show "frees N h (free_tree y :: 'a ramfs_scheme \<Rightarrow> _) (below N y)"
      using 1(1) [of y] kids [of y] by auto
  qed simp
  note B = below_unfold [OF f n]
  have "(\<Union>y \<in> set (K x). below N y) \<subseteq> dom N" using kids(2) below_dom by blast
  then have seq: "frees N h (\<lambda>s :: 'a ramfs_scheme. run_bind (free_list (n_children n) s) (free_one x))
      ((\<Union>y \<in> set (K x). below N y) \<union> {x})"
    by (rule frees_seq [OF lst frees_one [OF st n] st]) (use n B(2) in auto)
  show ?case
  proof (rule frees_cong [OF seq B(1) [symmetric]])
    fix s :: "'a ramfs_scheme" assume "\<forall>y \<in> below N x. nodes s y = N y"
    then have "nodes s x = Some n" using n by auto
    then show "free_tree x s = run_bind (free_list (n_children n) s) (free_one x)" by (rule free_tree_one)
  qed
qed

section \<open>The forest without a subtree\<close>

definition same_data :: "store \<Rightarrow> store \<Rightarrow> bool" where
  "same_data N N' \<longleftrightarrow> (\<forall>q.
     map_option (\<lambda>n. (n_type n, n_data n, n_size n, n_capacity n)) (N' q) =
     map_option (\<lambda>n. (n_type n, n_data n, n_size n, n_capacity n)) (N q))"

lemma same_dataD:
  assumes "same_data N N'" "N' q = Some n'"
  obtains n where "N q = Some n" "n_type n' = n_type n" "n_data n' = n_data n" "n_size n' = n_size n"
    "n_capacity n' = n_capacity n"
  using spec [OF assms(1) [unfolded same_data_def], of q] assms(2) by (cases "N q") auto

lemma same_data_sym: "same_data N N' \<Longrightarrow> same_data N' N"
  by (simp add: same_data_def)

lemma same_data_trans: "same_data N N' \<Longrightarrow> same_data N' N'' \<Longrightarrow> same_data N N''"
  by (simp add: same_data_def)

lemma same_data_entry:
  assumes "same_data N N'"
  shows "(\<exists>n. N' q = Some n \<and> e = entry_of h n) \<longleftrightarrow> (\<exists>n. N q = Some n \<and> e = entry_of h n)"
proof -
  have one: "\<exists>n. M q = Some n \<and> e = entry_of h n" if M: "same_data M M'" "\<exists>n. M' q = Some n \<and> e = entry_of h n" for M M'
  proof -
    obtain n' where n': "M' q = Some n'" "e = entry_of h n'" using M(2) by blast
    obtain n where "M q = Some n" "n_type n' = n_type n" "n_data n' = n_data n" "n_size n' = n_size n"
      by (rule same_dataD [OF M(1) n'(1)])
    then show ?thesis using n'(2) by (intro exI [of _ n]) (simp add: entry_of_def contents_def)
  qed
  show ?thesis using one [OF assms] one [OF same_data_sym [OF assms]] by blast
qed

lemma store_ok_same_data: "store_ok N h \<Longrightarrow> same_data N N' \<Longrightarrow> store_ok N' h"
proof (erule store_ok_same)
  fix q assume "same_data N N'"
  then show "map_option (\<lambda>n. (n_data n, n_size n, n_capacity n)) (N' q) =
      map_option (\<lambda>n. (n_data n, n_size n, n_capacity n)) (N q)"
    using spec [of _ q] unfolding same_data_def by (cases "N q"; cases "N' q") (auto dest!: spec [of _ q])
qed

lemma store_ok_prune:
  assumes st: "store_ok N h" and h': "heap_inv h'" "live h' = {(a, c) \<in> live h. a \<notin> owned N D}"
    and D: "D \<subseteq> dom N"
  shows "store_ok (N |` (- D)) h'"
proof -
  have disj: "owned N (dom N - D) \<inter> owned N D = {}" by (rule owned_disjoint [OF st _ D]) auto
  have some: "N q = Some m" "q \<notin> D" if "(N |` (- D)) q = Some m" for q m
    using that by (auto simp: restrict_map_def split: if_splits)
  have keep: "(a, c) \<in> live h'" if "(N |` (- D)) q = Some m" "a = q \<or> a = n_data m" "(a, c) \<in> live h" for q m a c
  proof -
    have "a \<noteq> NULL" using live_bounds(1) [OF store_okD(1) [OF st] that(3)] .
    then have "a \<in> owned N (dom N - D)" using some [OF that(1)] that(2) by (auto simp: owned_def)
    then show ?thesis using disj that(3) h'(2) by blast
  qed
  have "(\<exists>c \<ge> unat sizeof_node. (q, c) \<in> live h') \<and> data_ok (N |` (- D)) h' m" if q: "(N |` (- D)) q = Some m" for q m
    using store_okD(2-6) [OF st some(1) [OF q]] keep [OF q] unfolding data_ok_def by auto
  then show ?thesis using h'(1) store_okD(7) [OF st] some unfolding store_ok_def by blast
qed

text \<open>Cutting off the subtree of \<open>c\<close>: what is below \<open>c\<close> stays below it, and the rest keeps its paths.\<close>

definition is_cut :: "store \<Rightarrow> addr \<Rightarrow> (addr \<Rightarrow> addr list) \<Rightarrow> addr \<Rightarrow> ramfs_node \<Rightarrow> addr list \<Rightarrow> addr list \<Rightarrow> bool" where
  "is_cut N r K c m xs ys \<longleftrightarrow> forest N {r} K \<and> N c = Some m \<and> c \<noteq> r \<and> K (n_parent m) = xs @ c # ys"

lemma cutD:
  assumes "is_cut N r K c m xs ys"
  shows "forest N {r} K" "N c = Some m" "c \<noteq> r" "c \<notin> {r}" "K (n_parent m) = xs @ c # ys"
  using assms by (simp_all add: is_cut_def)

lemma cut_props:
  assumes C: "is_cut N r K c m xs ys"
  shows "name_of (detach_store xs c N) = name_of N" "dom (detach_store xs c N) = dom N"
    "edges (detach_store xs c N) = edges N - {(n_parent m, c)}"
    "detach_store xs c N c = Some (m\<lparr>n_parent := NULL, n_next := NULL\<rparr>)"
    "same_data N (detach_store xs c N)"
    "forest (detach_store xs c N) (insert c {r}) (K(n_parent m := xs @ ys))"
proof -
  note P = detach_store_props [OF cutD(1) [OF C] cutD(2) [OF C] cutD(4) [OF C] cutD(5) [OF C]]
  show "name_of (detach_store xs c N) = name_of N" "dom (detach_store xs c N) = dom N"
    "edges (detach_store xs c N) = edges N - {(n_parent m, c)}"
    "detach_store xs c N c = Some (m\<lparr>n_parent := NULL, n_next := NULL\<rparr>)" by (rule P)+
  show "same_data N (detach_store xs c N)" unfolding same_data_def by (intro allI P(10))
  show "forest (detach_store xs c N) (insert c {r}) (K(n_parent m := xs @ ys))"
    by (rule forest_detach [OF cutD(1) [OF C] cutD(2) [OF C] cutD(4) [OF C] cutD(5) [OF C]])
qed

lemma cut_parent:
  assumes "is_cut N r K c m xs ys"
  shows "(n_parent m, c) \<in> edges N" "edges N = insert (n_parent m, c) (edges (detach_store xs c N))"
proof -
  note C = cutD [OF assms]
  show "(n_parent m, c) \<in> edges N"
    using forest_kids [OF C(1), of "n_parent m" c] forestD(7) [OF C(1,2,4)] C(5) by auto
  then show "edges N = insert (n_parent m, c) (edges (detach_store xs c N))"
    using cut_props(3) [OF assms] by auto
qed

lemma cut_below:
  assumes C: "is_cut N r K c m xs ys"
  shows "below (detach_store xs c N) c = below N c" "n_parent m \<notin> below N c"
proof -
  let ?N = "detach_store xs c N"
  have sub: "edges ?N \<subseteq> edges N" using cut_parent(2) [OF C] by blast
  show "below ?N c = below N c"
  proof (intro set_eqI iffI)
    show "z \<in> below ?N c \<Longrightarrow> z \<in> below N c" for z
      using rtrancl_mono [OF sub] by (auto simp: below_def)
    fix z assume "z \<in> below N c"
    then have "(c, z) \<in> (edges N)\<^sup>*" by (simp add: below_def)
    then show "z \<in> below ?N c"
    proof induction
      case (step y z)
      then show ?case using cut_parent(2) [OF C] below_edge below_refl by (cases "z = c") auto
    qed simp
  qed
  show "n_parent m \<notin> below N c"
  proof
    assume "n_parent m \<in> below N c"
    then have "(c, n_parent m) \<in> (edges N)\<^sup>*" by (simp add: below_def)
    then have "(c, c) \<in> (edges N)\<^sup>+" using cut_parent(1) [OF C] by (rule rtrancl_into_trancl1)
    then show False using forest_basic(4) [OF cutD(1) [OF C]] by (simp add: acyclic_def)
  qed
qed

lemma cut_at:
  assumes C: "is_cut N r K c m xs ys"
  shows "at N a Q q \<longleftrightarrow> at (detach_store xs c N) a Q q \<or>
    (\<exists>P S. at (detach_store xs c N) a P (n_parent m) \<and> Q = P @ name_of N c # S \<and> at (detach_store xs c N) c S q)"
proof -
  have "n_parent m \<notin> below (detach_store xs c N) c" using cut_below [OF C] by simp
  then show ?thesis
    using at_graft [OF cut_parent(2) [OF C], of a Q q] cut_props(1) [OF C] by simp
qed

lemma cut_at_below:
  assumes C: "is_cut N r K c m xs ys"
  shows "at (detach_store xs c N) c S q \<longleftrightarrow> at N c S q"
  using cut_at [OF C, of c S q] cut_below [OF C] below_at [of "n_parent m" "detach_store xs c N" c] by blast

lemma cut_at_outside:
  assumes C: "is_cut N r K c m xs ys" and P0: "at N r P0 c"
  shows "at (detach_store xs c N) r Q q \<longleftrightarrow> at N r Q q \<and> \<not> prefix P0 Q"
proof
  let ?N = "detach_store xs c N"
  note f = cutD(1) [OF C] and f1 = cut_props(6) [OF C] and cr = cutD(3) [OF C]
  assume q: "at ?N r Q q"
  then have qN: "at N r Q q" using cut_at [OF C] by blast
  moreover have "\<not> prefix P0 Q"
  proof
    assume "prefix P0 Q"
    then obtain S where "Q = P0 @ S" by (auto elim: prefixE)
    then obtain d where "at N r P0 d" "at N d S q" using qN at_append by blast
    then have "at N c S q" using at_functional [OF f P0] by blast
    then have "q \<in> below ?N c" using below_at cut_below(1) [OF C] by blast
    moreover have "q \<in> below ?N r" using q below_at by blast
    ultimately have "c \<in> below ?N r \<or> r \<in> below ?N c" by (rule below_total)
    then show False using root_not_below [OF f1, of r c] root_not_below [OF f1, of c r] cr by auto
  qed
  ultimately show "at N r Q q \<and> \<not> prefix P0 Q" by blast
next
  let ?N = "detach_store xs c N"
  assume q: "at N r Q q \<and> \<not> prefix P0 Q"
  have "\<not> (at ?N r P (n_parent m) \<and> Q = P @ name_of N c # S)" for P S
  proof
    assume PS: "at ?N r P (n_parent m) \<and> Q = P @ name_of N c # S"
    then have "at N r P (n_parent m)" using cut_at [OF C] by blast
    then have "at N r (P @ [name_of N c]) c" using cut_parent(1) [OF C] at_snoc by blast
    then have "P0 = P @ [name_of N c]" by (rule at_injective [OF cutD(1) [OF C] P0])
    then show False using q PS by simp
  qed
  then show "at ?N r Q q" using q cut_at [OF C] by blast
qed

lemma cut_exists:
  assumes "forest N {r} K" "N c = Some m" "c \<noteq> r"
  obtains xs ys where "is_cut N r K c m xs ys"
proof -
  have "c \<in> set (K (n_parent m))" using forestD(8) [OF assms(1,2)] assms(3) by simp
  then show thesis using that assms by (auto simp: is_cut_def dest: split_list)
qed

section \<open>Deleting\<close>

lemma ramfs_delete_refused:
  assumes ok: "fs_ok K s" and c: "c = NULL \<or> c = root s \<or>
      (\<exists>m. nodes s c = Some m \<and> n_type m = RAMFS_DIR \<and> K c \<noteq> [] \<and> \<not> recursive)"
  shows "ramfs_delete c recursive s = ret (s, False)"
proof (cases "c = NULL \<or> c = root s")
  case False
  then obtain m where m: "nodes s c = Some m" "n_type m = RAMFS_DIR" "K c \<noteq> []" "\<not> recursive" using c by blast
  have "sibs (nodes s) (n_children m) (K c)" using ok forestD(1) m(1) unfolding fs_ok_def by blast
  then have "n_children m \<noteq> NULL" using m(3) by (cases "K c") auto
  then show ?thesis using False m by (simp add: ramfs_delete_def node_at_def)
qed (simp add: ramfs_delete_def)

lemma prune_at:
  assumes C: "is_cut N r K c m xs ys" and P0: "at N r P0 c"
  shows "at (prune c (detach_store xs c N)) r Q q \<longleftrightarrow> at N r Q q \<and> \<not> prefix P0 Q"
proof -
  have "r \<in> {r}" "c \<notin> {r}" using cutD [OF C] by auto
  from at_prune [OF cut_props(6) [OF C] this] show ?thesis using cut_at_outside [OF C P0] by simp
qed

lemma cut_view:
  assumes C: "is_cut (nodes s) (root s) K c m xs ys" and P0: "at (nodes s) (root s) P0 c"
    and h': "bytes h' = bytes (heap s)"
  shows "fs_view (s\<lparr>heap := h', nodes := prune c (detach_store xs c (nodes s))\<rparr>) =
    {(Q, e) \<in> fs_view s. \<not> prefix P0 Q}"
proof -
  let ?N = "nodes s" and ?N1 = "detach_store xs c (nodes s)"
  let ?N' = "prune c ?N1"
  note P = cut_props [OF C]
  have c: "root s \<in> {root s}" "c \<notin> {root s}" using cutD [OF C] by auto
  note at' = prune_at [OF C P0]
  have r: "root s \<in> dom ?N'" using forest_basic(3) [OF forest_prune [OF P(6) c(2)]] by simp
  have ent: "(\<exists>n. ?N' q = Some n \<and> e = entry_of h' n) \<longleftrightarrow> (\<exists>n. ?N q = Some n \<and> e = entry_of (heap s) n)"
    if "at ?N' (root s) Q q" for Q q e
  proof -
    have "q \<in> dom ?N'" using below_dom [OF r] below_at that by blast
    then have "?N' q = ?N1 q" by (auto simp: prune_def restrict_map_def split: if_splits)
    moreover have "entry_of h' n = entry_of (heap s) n" for n using h' by (simp add: entry_of_def contents_def)
    ultimately show ?thesis using same_data_entry [OF P(5)] by simp
  qed
  have "(Q, e) \<in> fs_view (s\<lparr>heap := h', nodes := ?N'\<rparr>) \<longleftrightarrow> (Q, e) \<in> fs_view s \<and> \<not> prefix P0 Q" for Q e
  proof -
    have "(Q, e) \<in> fs_view (s\<lparr>heap := h', nodes := ?N'\<rparr>) \<longleftrightarrow>
        (\<exists>q. at ?N' (root s) Q q \<and> (\<exists>n. ?N q = Some n \<and> e = entry_of (heap s) n))"
      unfolding fs_view_iff by (simp add: ent cong: conj_cong)
    then show ?thesis unfolding fs_view_iff at' by auto
  qed
  then show ?thesis by auto
qed

lemma ramfs_delete_spec:
  assumes ok: "fs_ok K s" and m: "nodes s c = Some m" "c \<noteq> root s"
    and empty: "recursive \<or> n_type m = RAMFS_FILE \<or> K c = []"
  obtains h' N' K' where "ramfs_delete c recursive s = ret (s\<lparr>heap := h', nodes := N'\<rparr>, True)"
    "fs_ok K' (s\<lparr>heap := h', nodes := N'\<rparr>)" "bytes h' = bytes (heap s)"
    "live h' = {(a, d) \<in> live (heap s). a \<notin> owned (nodes s) (below (nodes s) c)}"
    "dom N' = dom (nodes s) - below (nodes s) c"
    "\<forall>P. at (nodes s) (root s) P c \<longrightarrow>
       fs_view (s\<lparr>heap := h', nodes := N'\<rparr>) = {(Q, e) \<in> fs_view s. \<not> prefix P Q}"
    "\<forall>q n. N' q = Some n \<longrightarrow> (\<exists>n0. nodes s q = Some n0 \<and> n_data n = n_data n0)"
    "\<forall>P Q q. at (nodes s) (root s) P c \<longrightarrow> at N' (root s) Q q \<longleftrightarrow> at (nodes s) (root s) Q q \<and> \<not> prefix P Q"
proof -
  let ?N = "nodes s"
  have f: "forest ?N {root s} K" and st: "store_ok ?N (heap s)" and rt: "dir_at ?N (root s)"
    using ok by (simp_all add: fs_ok_def)
  obtain xs ys where C: "is_cut ?N (root s) K c m xs ys" using cut_exists [OF f m] .
  let ?N1 = "detach_store xs c ?N" and ?K1 = "K(n_parent m := xs @ ys)"
  note P = cut_props [OF C]
  have st1: "store_ok ?N1 (heap s)" by (rule store_ok_same_data [OF st P(5)])
  have c1: "c \<in> dom ?N1" using P(2) m(1) by auto
  have D: "below ?N1 c \<subseteq> dom ?N1" using below_dom [OF c1] by blast
  have own: "owned ?N1 (below ?N1 c) = owned ?N (below ?N c)"
  proof -
    have "{n_data n | n x. x \<in> A \<and> ?N1 x = Some n} = {n_data n | n x. x \<in> A \<and> ?N x = Some n}" for A
      using same_dataD [OF P(5)] same_dataD [OF same_data_sym [OF P(5)]] by (metis (no_types, lifting))
    then show ?thesis using cut_below(1) [OF C] by (simp add: owned_def)
  qed
  let ?s1 = "s\<lparr>nodes := ?N1\<rparr>"
  obtain h' where h': "free_tree c ?s1 = ret (?s1\<lparr>heap := h', nodes := nodes ?s1 |` (- below ?N1 c)\<rparr>)" "heap_inv h'"
    "live h' = {(a, d) \<in> live (heap ?s1). a \<notin> owned ?N1 (below ?N1 c)}" "bytes h' = bytes (heap ?s1)"
    by (rule freesD [OF frees_tree [OF st1 P(6) c1], of ?s1]) (use store_okD(1) [OF st1] in auto)
  let ?N' = "prune c ?N1"
  let ?s' = "s\<lparr>heap := h', nodes := ?N'\<rparr>"
  have par: "n_parent m \<noteq> NULL" using cut_parent(1) [OF C] by (simp add: edges_iff)
  have "sibs ?N (n_children m) (K c)" by (rule forestD(1) [OF f m(1)])
  then have "K c = [] \<Longrightarrow> n_children m = NULL" by simp
  moreover have "detach c s = ret ?s1"
    by (rule detach_run [OF f m(1) cutD(4) [OF C] cutD(5) [OF C]])
  ultimately have run: "ramfs_delete c recursive s = ret (?s', True)"
    using m par empty forestD(10) [OF f m(1)] h'(1) by (auto simp: ramfs_delete_def node_at_def prune_def)
  have fN': "forest ?N' {root s} ?K1" using forest_prune [OF P(6)] m(2) by simp
  have stN': "store_ok ?N' h'" unfolding prune_def by (rule store_ok_prune [OF st1 h'(2) _ D]) (use h'(3) in simp)
  have r_out: "root s \<notin> below ?N1 c" using root_not_below [OF P(6), of "root s" c] m(2) by auto
  then have "dir_at ?N' (root s)"
    using same_dataD [OF same_data_sym [OF P(5)]] rt unfolding dir_at_def
    by (metis (no_types, lifting) ComplI prune_def restrict_in)
  then have okN': "fs_ok ?K1 ?s'" using fN' stN' by (simp add: fs_ok_def)
  have "dom ?N' = dom ?N - below ?N c" using P(2) cut_below(1) [OF C] by (auto simp: prune_def)
  moreover have "\<exists>n0. ?N q = Some n0 \<and> n_data n = n_data n0" if q: "?N' q = Some n" for q n
  proof -
    have "?N1 q = Some n" using q by (auto simp: prune_def restrict_map_def split: if_splits)
    then show ?thesis by (rule same_dataD [OF P(5)]) simp
  qed
  ultimately show thesis using that [OF run okN'] h'(3,4) own cut_view [OF C, of _ h'] prune_at [OF C] by simp
qed

section \<open>Moving\<close>

lemma is_below_spec:
  assumes f: "forest (nodes s) R K" and p: "p \<in> dom (nodes s)"
  shows "is_below p c s = ret (p \<in> below (nodes s) c)"
  using p
proof (induction p rule: wf_induct_rule [OF wf_edges(1) [OF f]])
  case (1 p)
  obtain n where n: "nodes s p = Some n" using 1(2) by auto
  have p0: "p \<noteq> NULL" by (rule forestD(10) [OF f n])
  have unf: "is_below p c s = (if p = c then ret True else is_below (n_parent n) c s)"
    using p0 n by (subst is_below.simps) (simp add: node_at_def)
  have step: "p \<in> below (nodes s) c \<longleftrightarrow> p = c \<or> (n_parent n \<noteq> NULL \<and> n_parent n \<in> below (nodes s) c)"
  proof
    assume "p \<in> below (nodes s) c"
    then show "p = c \<or> (n_parent n \<noteq> NULL \<and> n_parent n \<in> below (nodes s) c)"
      using n by (auto simp: below_def edges_iff elim: rtranclE)
  next
    assume "p = c \<or> (n_parent n \<noteq> NULL \<and> n_parent n \<in> below (nodes s) c)"
    then show "p \<in> below (nodes s) c" using n below_edge [of "n_parent n"] by (auto simp: edges_iff)
  qed
  show ?case
  proof (cases "p \<in> R")
    case True
    then have "n_parent n = NULL" by (rule forestD(6) [OF f n])
    moreover have "is_below NULL c s = ret False" by (subst is_below.simps) simp
    ultimately show ?thesis using unf step by simp
  next
    case False
    then have d: "n_parent n \<in> dom (nodes s)" by (rule forestD(7) [OF f n])
    then have "n_parent n \<noteq> NULL" using forest_basic(2) [OF f] by auto
    moreover from this have "(n_parent n, p) \<in> edges (nodes s)" using n by (simp add: edges_iff)
    ultimately show ?thesis using unf step 1(1) d by simp
  qed
qed

lemma ramfs_move_refused:
  assumes ok: "fs_ok K s" and np: "np \<in> dom (nodes s)" and x: "NUL \<notin> set x"
    and bad: "c = NULL \<or> c = root s \<or> \<not> dir_at (nodes s) np \<or> kid (nodes s) K np x \<noteq> None \<or>
      np \<in> below (nodes s) c"
  shows "ramfs_move c np x s = ret (s, False)"
proof -
  have f: "forest (nodes s) {root s} K" using ok by (simp add: fs_ok_def)
  obtain n where n: "nodes s np = Some n" using np by auto
  have "d \<noteq> NULL" if "kid (nodes s) K np x = Some d" for d using kid_dom [OF f np that] by simp
  then show ?thesis
    using bad n find_child_spec [OF f n x] is_below_spec [OF f np, of c]
    by (auto simp: ramfs_move_def node_at_def dir_at_def split: option.split)
qed

lemma rename_root:
  assumes f: "forest N (insert c R) K" and c: "N c = Some m"
  shows "same_links (insert c R) N (N(c \<mapsto> m\<lparr>n_name := x\<rparr>))"
    "forest (N(c \<mapsto> m\<lparr>n_name := x\<rparr>)) (insert c R) K"
    "edges (N(c \<mapsto> m\<lparr>n_name := x\<rparr>)) = edges N"
    "at (N(c \<mapsto> m\<lparr>n_name := x\<rparr>)) a Q q \<longleftrightarrow> at N a Q q"
    "q \<noteq> c \<Longrightarrow> name_of (N(c \<mapsto> m\<lparr>n_name := x\<rparr>)) q = name_of N q"
proof -
  let ?N = "N(c \<mapsto> m\<lparr>n_name := x\<rparr>)"
  show sl: "same_links (insert c R) N ?N" by (rule same_links_upd [where N = N, OF c]) simp_all
  show "forest ?N (insert c R) K" by (rule forest_same_links [OF f sl])
  show ed: "edges ?N = edges N" by (rule same_links_edges [OF sl])
  show nm: "name_of ?N q = name_of N q" if "q \<noteq> c" for q using that by (simp add: name_of_def)
  show "at ?N a Q q \<longleftrightarrow> at N a Q q"
  proof (rule at_same [OF ed])
    fix p d assume "(p, d) \<in> edges N"
    then have "d \<noteq> c" using forestD(6) [OF f c] c by (auto simp: edges_iff)
    then show "name_of ?N d = name_of N d" by (rule nm)
  qed
qed

text \<open>The store after a move: detached, renamed, attached.\<close>

definition move_store :: "addr list \<Rightarrow> addr \<Rightarrow> addr \<Rightarrow> string \<Rightarrow> store \<Rightarrow> store" where
  "move_store xs c np x N =
     (let N1 = detach_store xs c N in attach_store np c (N1(c \<mapsto> (the (N1 c))\<lparr>n_name := x\<rparr>)))"

lemma move_store_at:
  assumes C: "is_cut N r K c m xs ys" and np: "N np = Some n" "np \<notin> below N c"
    and P: "at N r P0 c" "at N r Pn np"
  shows "at (move_store xs c np x N) r Q q \<longleftrightarrow>
      (at N r Q q \<and> \<not> prefix P0 Q) \<or> (\<exists>S. Q = Pn @ x # S \<and> at N r (P0 @ S) q)"
proof -
  let ?N1 = "detach_store xs c N" and ?m2 = "m\<lparr>n_parent := NULL, n_next := NULL, n_name := x\<rparr>"
  let ?N2 = "?N1(c \<mapsto> ?m2)"
  note D = cut_props [OF C] and f = cutD(1) [OF C]
  note E = rename_root [where N = ?N1 and x = x, OF D(6,4)]
  have pc: "np \<noteq> c" "np \<noteq> NULL" using np(2) forestD(10) [OF f np(1)] by auto
  obtain n1 where n1: "?N1 np = Some n1" using D(2) np(1) by (metis domD domI)
  have n2: "?N2 np = Some n1" "?N2 c = Some ?m2" using n1 pc by simp_all
  have out: "np \<notin> below ?N2 c" using np(2) cut_below(1) [OF C] E(3) by (simp add: below_def)
  note A = attach_store_props [where N = ?N2, OF n2(2,1) pc(1)]
  have "edges (attach_store np c ?N2) = insert (np, c) (edges ?N2)" using A(3) pc by simp
  then have graft: "at (attach_store np c ?N2) r Q q \<longleftrightarrow> at ?N2 r Q q \<or>
      (\<exists>P S. at ?N2 r P np \<and> Q = P @ name_of ?N2 c # S \<and> at ?N2 c S q)"
    by (rule at_graft [OF _ A(1) out])
  have nmc: "name_of ?N2 c = x" by (simp add: name_of_def)
  have out1: "\<not> prefix P0 Pn"
  proof
    assume "prefix P0 Pn"
    then obtain S where "Pn = P0 @ S" by (auto elim: prefixE)
    then have "at N c S np" using P(2) at_append at_functional [OF f P(1)] by metis
    then show False using np(2) below_at by blast
  qed
  have r: "at ?N2 r R k \<longleftrightarrow> at N r R k \<and> \<not> prefix P0 R" for R k
    using E(4) cut_at_outside [OF C P(1)] by simp
  have top: "at ?N2 r R np \<longleftrightarrow> R = Pn" for R
    unfolding r using P(2) at_injective [OF f _ P(2), of R] out1 by blast
  have "at ?N2 c S q \<longleftrightarrow> at N c S q" for S using E(4) cut_at_below [OF C] by simp
  moreover have "at N c S q \<longleftrightarrow> at N r (P0 @ S) q" for S
    unfolding at_append using P(1) at_functional [OF f P(1)] by blast
  ultimately have sub: "at ?N2 c S q \<longleftrightarrow> at N r (P0 @ S) q" for S by simp
  have "move_store xs c np x N = attach_store np c ?N2" by (simp add: move_store_def D(4))
  then show ?thesis using graft unfolding nmc r [of Q] top sub by simp
qed

lemma move_store_ok:
  assumes C: "is_cut N r K c m xs ys" and np: "dir_at N np" "np \<notin> below N c"
  shows "same_data N (move_store xs c np x N)"
    "valid_name x \<Longrightarrow> kid N K np x = None \<Longrightarrow> \<exists>K'. forest (move_store xs c np x N) {r} K'"
proof -
  let ?N1 = "detach_store xs c N" and ?K1 = "K(n_parent m := xs @ ys)"
    and ?m2 = "m\<lparr>n_parent := NULL, n_next := NULL, n_name := x\<rparr>"
  let ?N2 = "?N1(c \<mapsto> ?m2)"
  note D = cut_props [OF C] and f = cutD(1) [OF C]
  note E = rename_root [where N = ?N1 and x = x, OF D(6,4)]
  have ms: "move_store xs c np x N = attach_store np c ?N2" by (simp add: move_store_def D(4))
  obtain n where n: "N np = Some n" "n_type n = RAMFS_DIR" using np(1) by (auto simp: dir_at_def)
  have pc: "np \<noteq> c" "np \<noteq> NULL" using np(2) forestD(10) [OF f n(1)] by auto
  obtain n1 where n1: "?N1 np = Some n1" "n_type n1 = RAMFS_DIR"
    using same_dataD [OF same_data_sym [OF D(5)] n(1)] n(2) by metis
  have n2: "?N2 np = Some n1" "?N2 c = Some ?m2" using n1 pc by simp_all
  have "same_data ?N1 (attach_store np c ?N2)"
    using n1 n2 pc D(4) by (auto simp: same_data_def attach_store_def)
  then show "same_data N (move_store xs c np x N)" unfolding ms by (rule same_data_trans [OF D(5)])
  assume x: "valid_name x" "kid N K np x = None"
  have out: "np \<notin> below ?N2 c" using np(2) cut_below(1) [OF C] E(3) by (simp add: below_def)
  have names: "x \<notin> name_of ?N2 ` set (?K1 np)"
  proof
    assume "x \<in> name_of ?N2 ` set (?K1 np)"
    then obtain d where d: "d \<in> set (?K1 np)" "x = name_of ?N2 d" by blast
    obtain k where k: "?N1 d = Some k" "n_parent k = np" using forestD(5) [OF D(6) n1(1) d(1)] by blast
    then have "d \<noteq> c" using D(4) pc(2) by auto
    then have "x = name_of N d" using d(2) E(5) D(1) by simp
    moreover have "d \<in> set (K np)" using d(1) cutD(5) [OF C] by (auto split: if_splits)
    ultimately show False using x(2) kid_None [OF f, of np x] n(1) by auto
  qed
  have "forest (attach_store np c ?N2) {r} (?K1(np := c # ?K1 np))"
    by (rule forest_attach [OF E(2) cutD(4) [OF C] n2(2,1) n1(2) out]) (use x(1) names in simp_all)
  then show "\<exists>K'. forest (move_store xs c np x N) {r} K'" unfolding ms by blast
qed

text \<open>A move that passes the checks; the name is cut to fit the node.\<close>

lemma ramfs_move_run:
  assumes ok: "fs_ok K s" and C: "is_cut (nodes s) (root s) K c m xs ys"
    and np: "dir_at (nodes s) np" "np \<notin> below (nodes s) c"
    and x: "NUL \<notin> set x" "kid (nodes s) K np x = None"
  shows "ramfs_move c np x s = ret (s\<lparr>nodes := move_store xs c np (str_lcpy RAMFS_NAME_MAX x) (nodes s)\<rparr>, True)"
proof -
  have f: "forest (nodes s) {root s} K" using ok by (simp add: fs_ok_def)
  note D = cut_props [OF C] and m = cutD(2,3) [OF C]
  obtain n where n: "nodes s np = Some n" "n_type n = RAMFS_DIR" using np(1) by (auto simp: dir_at_def)
  have pc: "np \<noteq> c" "np \<noteq> NULL" "c \<noteq> NULL"
    using np(2) forestD(10) [OF f n(1)] forestD(10) [OF f m(1)] by auto
  have find: "find_child np x s = ret NULL" using find_child_spec [OF f n(1) x(1)] x(2) by simp
  have below: "is_below np c s = ret False" using is_below_spec [OF f, of np c] n(1) np(2) by auto
  let ?N1 = "detach_store xs c (nodes s)" and ?x = "str_lcpy RAMFS_NAME_MAX x"
  have det: "detach c s = ret (s\<lparr>nodes := ?N1\<rparr>)"
    by (rule detach_run [OF f m(1) cutD(4) [OF C] cutD(5) [OF C]])
  let ?m2 = "m\<lparr>n_parent := NULL, n_next := NULL, n_name := ?x\<rparr>"
  let ?s2 = "s\<lparr>nodes := ?N1(c \<mapsto> ?m2)\<rparr>"
  obtain n1 where n1: "?N1 np = Some n1" using D(2) n(1) by (metis domD domI)
  have att: "attach np c ?s2 = ret (?s2\<lparr>nodes := attach_store np c (nodes ?s2)\<rparr>)"
    by (rule attach_run [of _ _ ?m2 _ n1]) (use n1 pc in simp_all)
  show ?thesis
    using m pc n find below det att D(4) by (simp add: ramfs_move_def node_at_def upd_node_def move_store_def)
qed

lemma move_inv:
  assumes ok: "fs_ok K s" and C: "is_cut (nodes s) (root s) K c m xs ys"
    and np: "dir_at (nodes s) np" "np \<notin> below (nodes s) c" and x: "valid_name x" "kid (nodes s) K np x = None"
  shows "ramfs_inv (s\<lparr>nodes := move_store xs c np x (nodes s)\<rparr>)"
proof -
  have st: "store_ok (nodes s) (heap s)" and rt: "dir_at (nodes s) (root s)" using ok by (simp_all add: fs_ok_def)
  note M = move_store_ok [OF C np, of x]
  have "dir_at (move_store xs c np x (nodes s)) (root s)"
    using same_dataD [OF same_data_sym [OF M(1)]] rt unfolding dir_at_def by metis
  moreover have "store_ok (move_store xs c np x (nodes s)) (heap s)" by (rule store_ok_same_data [OF st M(1)])
  ultimately show ?thesis using M(2) [OF x] by (auto simp: ramfs_inv_def fs_ok_def)
qed

lemma move_view:
  assumes C: "is_cut (nodes s) (root s) K c m xs ys" and np: "dir_at (nodes s) np" "np \<notin> below (nodes s) c"
    and P: "at (nodes s) (root s) P0 c" "at (nodes s) (root s) Pn np"
  shows "fs_view (s\<lparr>nodes := move_store xs c np x (nodes s)\<rparr>) =
    {(Q, e) \<in> fs_view s. \<not> prefix P0 Q} \<union> {(Pn @ x # S, e) | S e. (P0 @ S, e) \<in> fs_view s}"
proof -
  obtain n where n: "nodes s np = Some n" using np(1) by (auto simp: dir_at_def)
  note A = move_store_at [OF C n np(2) P] and M = move_store_ok(1) [OF C np]
  have "(Q, e) \<in> fs_view (s\<lparr>nodes := move_store xs c np x (nodes s)\<rparr>) \<longleftrightarrow>
    (Q, e) \<in> {(Q, e) \<in> fs_view s. \<not> prefix P0 Q} \<union> {(Pn @ x # S, e) | S e. (P0 @ S, e) \<in> fs_view s}" for Q e
  proof -
    have "(Q, e) \<in> fs_view (s\<lparr>nodes := move_store xs c np x (nodes s)\<rparr>) \<longleftrightarrow>
      (\<exists>q. ((at (nodes s) (root s) Q q \<and> \<not> prefix P0 Q) \<or> (\<exists>S. Q = Pn @ x # S \<and> at (nodes s) (root s) (P0 @ S) q)) \<and>
        (\<exists>n. nodes s q = Some n \<and> e = entry_of (heap s) n))"
      unfolding fs_view_iff by (simp add: A same_data_entry [OF M])
    also have "\<dots> \<longleftrightarrow> (Q, e) \<in> fs_view s \<and> \<not> prefix P0 Q \<or> (\<exists>S. Q = Pn @ x # S \<and> (P0 @ S, e) \<in> fs_view s)"
      unfolding fs_view_iff by blast
    finally show ?thesis by blast
  qed
  then show ?thesis by auto
qed

end
