(* ===== verification/RamfsSpec.thy ===== *)
theory RamfsSpec
  imports RamfsWrite RamfsRemove
begin

text \<open>
  What fs/ramfs.c promises, over the abstract filesystem \<open>fs_view\<close>: a set of absolute paths (lists
  of names) with their entries. The properties of the component are at the end.
\<close>

section \<open>Walking the abstract filesystem\<close>

text \<open>
  The path a walk along components reaches from the path \<open>P\<close>: every step but \<^verbatim>\<open>.\<close> and \<^verbatim>\<open>..\<close>
  must exist, and a component must fit into a name.
\<close>

fun walk_view :: "(string list \<times> entry) set \<Rightarrow> string list \<Rightarrow> string list \<Rightarrow> string list option" where
  "walk_view V P [] = Some P"
| "walk_view V P (x # xs) =
     (if length x \<ge> RAMFS_NAME_MAX then None
      else if x = ''.'' then walk_view V P xs
      else if x = ''..'' then walk_view V (butlast P) xs
      else if P @ [x] \<in> fst ` V then walk_view V (P @ [x]) xs else None)"

lemma view_path: "P \<in> fst ` fs_view s \<longleftrightarrow> (\<exists>p n. at (nodes s) (root s) P p \<and> nodes s p = Some n)"
  by (force simp: fs_view_def)

lemma at_dom:
  assumes "fs_ok K s" "at (nodes s) (root s) P p"
  shows "p \<in> dom (nodes s)" "p \<noteq> NULL"
proof -
  show "p \<in> dom (nodes s)" using below_dom [of "root s" "nodes s" p] below_at assms(2) fs_ok_root [OF assms(1)] by blast
  then show "p \<noteq> NULL" using assms(1) forestD(10) unfolding fs_ok_def by blast
qed

lemma up_at:
  assumes ok: "fs_ok K s" and P: "at (nodes s) (root s) P p"
  shows "at (nodes s) (root s) (butlast P) (up (nodes s) p)"
proof -
  have f: "forest (nodes s) {root s} K" using ok by (simp add: fs_ok_def)
  obtain n where n: "nodes s p = Some n" using at_dom(1) [OF ok P] by blast
  show ?thesis
  proof (cases P rule: rev_exhaust)
    case Nil
    then have "p = root s" using P by simp
    then have "n_parent n = NULL" using forestD(6) [OF f n] by simp
    then show ?thesis using Nil P n by (simp add: up_def)
  next
    case (snoc Q x)
    then obtain q where q: "at (nodes s) (root s) Q q" "(q, p) \<in> edges (nodes s)" using P at_snoc by blast
    then have "up (nodes s) p = q" using n by (auto simp: up_def edges_iff)
    then show ?thesis using snoc q(1) by simp
  qed
qed

lemma lookup_walk_view:
  assumes ok: "fs_ok K s" and P: "at (nodes s) (root s) P p"
  shows "case walk_view (fs_view s) P cs of
      None \<Rightarrow> lookup (nodes s) K p cs = None
    | Some Q \<Rightarrow> \<exists>q. lookup (nodes s) K p cs = Some q \<and> at (nodes s) (root s) Q q"
  using P
proof (induction cs arbitrary: P p)
  case (Cons x xs)
  have f: "forest (nodes s) {root s} K" using ok by (simp add: fs_ok_def)
  note d = at_dom [OF ok Cons.prems]
  have step: "P @ [x] \<in> fst ` fs_view s \<longleftrightarrow> (\<exists>c. kid (nodes s) K p x = Some c)"
  proof -
    have "P @ [x] \<in> fst ` fs_view s \<longleftrightarrow> (\<exists>c. at (nodes s) (root s) (P @ [x]) c)"
      unfolding view_path using at_dom(1) [OF ok] by blast
    also have "\<dots> \<longleftrightarrow> (\<exists>c. (p, c) \<in> edges (nodes s) \<and> x = name_of (nodes s) c)"
      unfolding at_snoc using at_functional [OF f Cons.prems] Cons.prems by blast
    finally show ?thesis using kid_Some [OF f d(1)] by auto
  qed
  consider (long) "length x \<ge> RAMFS_NAME_MAX" | (dot) "length x < RAMFS_NAME_MAX" "x = ''.''"
    | (dots) "length x < RAMFS_NAME_MAX" "x = ''..''"
    | (none) "length x < RAMFS_NAME_MAX" "x \<noteq> ''.''" "x \<noteq> ''..''" "kid (nodes s) K p x = None"
    | (some) c where "length x < RAMFS_NAME_MAX" "x \<noteq> ''.''" "x \<noteq> ''..''" "kid (nodes s) K p x = Some c"
    by (cases "kid (nodes s) K p x") fastforce+
  then show ?case
  proof cases
    case dot
    then have eq: "lookup (nodes s) K p (x # xs) = lookup (nodes s) K p xs"
      "walk_view (fs_view s) P (x # xs) = walk_view (fs_view s) P xs" by simp_all
    show ?thesis unfolding eq by (rule Cons.IH [OF Cons.prems])
  next
    case dots
    then have eq: "lookup (nodes s) K p (x # xs) = lookup (nodes s) K (up (nodes s) p) xs"
      "walk_view (fs_view s) P (x # xs) = walk_view (fs_view s) (butlast P) xs" by simp_all
    show ?thesis unfolding eq by (rule Cons.IH [OF up_at [OF ok Cons.prems]])
  next
    case some
    have "(p, c) \<in> edges (nodes s) \<and> name_of (nodes s) c = x" using kid_Some [OF f d(1)] some(4) by simp
    then have here: "at (nodes s) (root s) (P @ [x]) c" unfolding at_snoc using Cons.prems by blast
    have eq: "lookup (nodes s) K p (x # xs) = lookup (nodes s) K c xs"
      "walk_view (fs_view s) P (x # xs) = walk_view (fs_view s) (P @ [x]) xs" using some step by simp_all
    show ?thesis unfolding eq by (rule Cons.IH [OF here])
  qed (use step in simp_all)
qed simp

text \<open>The directory a relative path starts from.\<close>

definition start_path :: "string list \<Rightarrow> string \<Rightarrow> string list" where
  "start_path P path = (if path \<noteq> [] \<and> slash (hd path) then [] else P)"

lemma start_at:
  assumes "at (nodes s) (root s) P cwd" "cwd \<noteq> NULL"
  shows "at (nodes s) (root s) (start_path P path) (start cwd path s)"
  using assms by (simp add: start_path_def start_def)

lemma resolve_view:
  assumes ok: "fs_ok K s" and P: "at (nodes s) (root s) P cwd" and path: "NUL \<notin> set path"
  shows "\<exists>p. ramfs_resolve cwd path s = ret p \<and>
    (case walk_view (fs_view s) (start_path P path) (components path) of
       None \<Rightarrow> p = NULL | Some Q \<Rightarrow> p \<noteq> NULL \<and> at (nodes s) (root s) Q p)"
proof -
  note d = at_dom [OF ok P]
  note A = start_at [OF P d(2), of path]
  show ?thesis
    using ramfs_resolve_spec [OF ok disjI2 [OF d(1)] path] lookup_walk_view [OF ok A, of "components path"]
    by (auto split: option.splits dest: at_dom(2) [OF ok])
qed

text \<open>The abstract meaning of a legal creation.\<close>

definition create_path :: "(string list \<times> entry) set \<Rightarrow> string list \<Rightarrow> string list \<Rightarrow> string list option" where
  "create_path V P cs =
     (if cs = [] \<or> \<not> valid_name (last cs) then None
      else case walk_view V P (butlast cs) of
        None \<Rightarrow> None
      | Some Q \<Rightarrow> if (Q, Dir) \<in> V \<and> Q @ [last cs] \<notin> fst ` V then Some (Q @ [last cs]) else None)"

lemma dir_view:
  assumes ok: "fs_ok K s" and Q: "at (nodes s) (root s) Q q"
  shows "(Q, Dir) \<in> fs_view s \<longleftrightarrow> dir_at (nodes s) q"
proof -
  have f: "forest (nodes s) {root s} K" using ok by (simp add: fs_ok_def)
  have "(Q, Dir) \<in> fs_view s \<longleftrightarrow> (\<exists>n. nodes s q = Some n \<and> Dir = entry_of (heap s) n)"
    unfolding fs_view_iff using Q at_functional [OF f Q] by blast
  also have "\<dots> \<longleftrightarrow> dir_at (nodes s) q"
  proof -
    have "Dir = entry_of (heap s) n \<longleftrightarrow> n_type n = RAMFS_DIR" for n
      by (cases "n_type n") (simp_all add: entry_of_def)
    then show ?thesis by (simp add: dir_at_def)
  qed
  finally show ?thesis .
qed

lemma create_target_path:
  assumes ok: "fs_ok K s" and P: "at (nodes s) (root s) P p"
  shows "case create_path (fs_view s) P cs of
      None \<Rightarrow> create_target (nodes s) K p cs = None
    | Some R \<Rightarrow> \<exists>Q q x. R = Q @ [x] \<and> create_target (nodes s) K p cs = Some (q, x) \<and> at (nodes s) (root s) Q q"
proof (cases "cs = [] \<or> \<not> valid_name (last cs)")
  case True
  then show ?thesis by (simp add: create_path_def create_target_def)
next
  case False
  let ?x = "last cs"
  have f: "forest (nodes s) {root s} K" using ok by (simp add: fs_ok_def)
  note L = lookup_walk_view [OF ok P, of "butlast cs"]
  show ?thesis
  proof (cases "walk_view (fs_view s) P (butlast cs)")
    case None
    then show ?thesis using L False by (simp add: create_path_def create_target_def)
  next
    case (Some Q)
    then obtain q where q: "lookup (nodes s) K p (butlast cs) = Some q" "at (nodes s) (root s) Q q" using L by auto
    have qd: "q \<in> dom (nodes s)" using at_dom(1) [OF ok q(2)] .
    have "Q @ [?x] \<in> fst ` fs_view s \<longleftrightarrow> (\<exists>c. at (nodes s) (root s) (Q @ [?x]) c)"
      unfolding view_path using at_dom(1) [OF ok] by blast
    also have "\<dots> \<longleftrightarrow> (\<exists>c. (q, c) \<in> edges (nodes s) \<and> ?x = name_of (nodes s) c)"
      unfolding at_snoc using at_functional [OF f q(2)] q(2) by blast
    also have "\<dots> \<longleftrightarrow> kid (nodes s) K q ?x \<noteq> None" using kid_Some [OF f qd, of ?x] by auto
    finally show ?thesis
      using False Some q dir_view [OF ok q(2)] by (simp add: create_path_def create_target_def)
  qed
qed

section \<open>Operations over the abstract filesystem\<close>

abbreviation named :: "'a ramfs_scheme \<Rightarrow> string list \<Rightarrow> addr \<Rightarrow> bool" where
  "named s P p \<equiv> at (nodes s) (root s) P p"

text \<open>Nothing but the heap and the nodes changes, and the blocks of other components stay.\<close>

definition fs_only :: "'a ramfs_scheme \<Rightarrow> 'a ramfs_scheme \<Rightarrow> bool" where
  "fs_only s s' \<longleftrightarrow> s' = s\<lparr>heap := heap s', nodes := nodes s'\<rparr>"

definition fs_blocks :: "'a ramfs_scheme \<Rightarrow> addr set" where
  "fs_blocks s = owned (nodes s) (dom (nodes s))"

lemma fs_blocks_iff:
  "a \<in> fs_blocks s \<longleftrightarrow> a \<noteq> NULL \<and> (a \<in> dom (nodes s) \<or> (\<exists>x n. nodes s x = Some n \<and> a = n_data n))"
  by (auto simp: fs_blocks_def owned_def)

definition foreign_kept :: "'a ramfs_scheme \<Rightarrow> 'a ramfs_scheme \<Rightarrow> bool" where
  "foreign_kept s s' \<longleftrightarrow> (\<forall>a c. (a, c) \<in> live (heap s) \<longrightarrow> a \<notin> fs_blocks s \<longrightarrow>
     (a, c) \<in> live (heap s') \<and> a \<notin> fs_blocks s' \<and>
     (\<forall>i < c. bytes (heap s') (a + of_nat i) = bytes (heap s) (a + of_nat i)))"

lemma fs_only_refl [simp]: "fs_only s s" "foreign_kept s s"
  by (simp_all add: fs_only_def foreign_kept_def)

lemma fs_only_trans: "fs_only s t \<Longrightarrow> fs_only t u \<Longrightarrow> fs_only s u"
  unfolding fs_only_def by (erule ssubst [of u], erule ssubst [of t]) simp

lemma foreign_kept_trans:
  assumes "foreign_kept s t" "foreign_kept t u"
  shows "foreign_kept s u"
  unfolding foreign_kept_def
proof (intro allI impI)
  fix a c assume a: "(a, c) \<in> live (heap s)" "a \<notin> fs_blocks s"
  then have t: "(a, c) \<in> live (heap t)" "a \<notin> fs_blocks t"
    "\<forall>i < c. bytes (heap t) (a + of_nat i) = bytes (heap s) (a + of_nat i)"
    using assms(1) unfolding foreign_kept_def by blast+
  then show "(a, c) \<in> live (heap u) \<and> a \<notin> fs_blocks u \<and>
      (\<forall>i < c. bytes (heap u) (a + of_nat i) = bytes (heap s) (a + of_nat i))"
    using assms(2) unfolding foreign_kept_def by metis
qed

lemma ramfs_create_view:
  assumes ok: "fs_ok K s" and P: "named s P cwd" and path: "NUL \<notin> set path"
  shows "case create_path (fs_view s) (start_path P path) (components path) of
      None \<Rightarrow> ramfs_create cwd path ty s = ret (s, NULL)
    | Some Q \<Rightarrow> ramfs_create cwd path ty s = ret (s, NULL) \<or>
       (\<exists>s' n. ramfs_create cwd path ty s = ret (s', n) \<and> n \<noteq> NULL \<and> ramfs_inv s' \<and> fs_only s s' \<and>
          foreign_kept s s' \<and> named s' Q n \<and> (\<forall>R p. named s R p \<longrightarrow> named s' R p) \<and>
          fs_view s' = insert (Q, if ty = RAMFS_FILE then File [] else Dir) (fs_view s))"
proof -
  have d: "cwd = NULL \<or> cwd \<in> dom (nodes s)" using at_dom [OF ok P] by blast
  note T = create_target_path [OF ok start_at [OF P at_dom(2) [OF ok P], of path], of "components path"]
  show ?thesis
  proof (cases "create_path (fs_view s) (start_path P path) (components path)")
    case None
    then show ?thesis using T ramfs_create_none [OF ok d path] by simp
  next
    case (Some Q)
    then obtain Q0 q x where q: "Q = Q0 @ [x]" "named s Q0 q"
        "create_target (nodes s) K (start cwd path s) (components path) = Some (q, x)"
      using T by auto
    from ok d path q(3) show ?thesis
    proof (cases rule: ramfs_create_spec [where ty = ty])
      case full
      then show ?thesis using Some by simp
    next
      case (new h' N' n c z)
      let ?s = "s\<lparr>heap := h', nodes := N'\<rparr>"
      obtain dq where dq: "nodes s q = Some dq" using at_dom(1) [OF ok q(2)] by blast
      have s': "?s = s\<lparr>heap := h', nodes := attach_store q n ((nodes s)(n \<mapsto> z))\<rparr>" using new(5) by simp
      note V = fs_view_create [OF ok q(2) dq new(3,7,6) s']
      have blocks: "fs_blocks ?s \<subseteq> insert n (fs_blocks s)"
      proof
        fix a assume "a \<in> fs_blocks ?s"
        then show "a \<in> insert n (fs_blocks s)"
          using dq new(3) by (auto simp: fs_blocks_iff new(5,6) attach_store_def zero_node_def split: if_splits)
      qed
      have "foreign_kept s ?s"
        using new(7,8,9) blocks by (force simp: foreign_kept_def keeps_def)
      then show ?thesis
        using Some new(1,2,4) V q(1) by (auto simp: fs_only_def ramfs_inv_def)
    qed
  qed
qed

lemma view_file:
  assumes ok: "fs_ok K s" and P: "named s P p" "(P, File old) \<in> fs_view s"
  obtains f where "nodes s p = Some f" "n_type f = RAMFS_FILE" "contents (heap s) f = old"
proof -
  have f: "forest (nodes s) {root s} K" using ok by (simp add: fs_ok_def)
  obtain q n where q: "named s P q" "nodes s q = Some n" "File old = entry_of (heap s) n"
    using P(2) unfolding fs_view_iff by blast
  have "q = p" by (rule at_functional [OF f q(1) P(1)])
  then show thesis using that [of n] q(2,3) by (simp add: entry_of_def split: if_splits)
qed

lemma ramfs_write_view:
  assumes ok: "fs_ok K s" and P: "named s P p" "(P, File old) \<in> fs_view s"
    and src: "buffer_ok data len (n_data (the (nodes s p))) (heap s)"
    and need: "length (if app then old else []) + unat len \<le> 2 ^ 30"
  shows "ramfs_write p data len app s = ret (s, False) \<or>
    (\<exists>s'. ramfs_write p data len app s = ret (s', True) \<and> ramfs_inv s' \<and> fs_only s s' \<and> foreign_kept s s' \<and>
       (\<forall>R q. named s' R q \<longleftrightarrow> named s R q) \<and>
       fs_view s' = {(Q, e) \<in> fs_view s. Q \<noteq> P} \<union>
         {(P, File ((if app then old else []) @ buffer_text data len (bytes (heap s))))})"
proof -
  have st: "store_ok (nodes s) (heap s)" using ok by (simp add: fs_ok_def)
  obtain f where f: "nodes s p = Some f" "n_type f = RAMFS_FILE" "contents (heap s) f = old"
    using view_file [OF ok P] .
  have need': "unat (if app then n_size f else 0) + unat len \<le> 2 ^ 30"
    using need f(3) by (auto simp: contents_def)
  have src': "buffer_ok data len (n_data f) (heap s)" using src f(1) by simp
  from st f(1,2) at_dom(2) [OF ok P(1)] src' need' show ?thesis
  proof (cases rule: ramfs_write_spec)
    case (stored h' g)
    let ?s = "s\<lparr>heap := h', nodes := (nodes s)(p \<mapsto> g)\<rparr>"
    note W = fs_write [OF ok f(1,2) stored(4,2,3) refl]
    obtain a c z where g: "g = f\<lparr>n_data := a, n_capacity := c, n_size := z\<rparr>" using stored(4) by blast
    have "fs_blocks ?s \<subseteq> insert (n_data g) (fs_blocks s)"
      using f(1) by (auto simp: fs_blocks_iff split: if_splits)
    moreover have own: "n_data f \<noteq> NULL \<Longrightarrow> n_data f \<in> fs_blocks s" using f(1) by (auto simp: fs_blocks_iff)
    moreover have "a \<noteq> NULL" if "(a, c) \<in> live (heap s)" for a c using live_bounds(1) [OF store_okD(1) [OF st] that] .
    ultimately have "foreign_kept s ?s"
      unfolding foreign_kept_def
    proof (intro allI impI)
      fix b d assume b: "(b, d) \<in> live (heap s)" "b \<notin> fs_blocks s"
      have "b \<noteq> NULL" using live_bounds(1) [OF store_okD(1) [OF st] b(1)] .
      then have bf: "b \<noteq> n_data f" using own b(2) by auto
      moreover have "b \<noteq> n_data g" using stored(6) bf b(1) by force
      ultimately show "(b, d) \<in> live (heap ?s) \<and> b \<notin> fs_blocks ?s \<and>
          (\<forall>i < d. bytes (heap ?s) (b + of_nat i) = bytes (heap s) (b + of_nat i))"
        using stored(3) b \<open>fs_blocks ?s \<subseteq> insert (n_data g) (fs_blocks s)\<close> by (auto simp: keeps_but_def)
    qed
    moreover have "fs_view ?s = {(Q, e) \<in> fs_view s. Q \<noteq> P} \<union>
         {(P, File ((if app then old else []) @ buffer_text data len (bytes (heap s))))}"
      using W(2) [OF P(1)] stored(5) f(3) by simp
    ultimately show ?thesis
      using stored(1) W(1,3) by (intro disjI2 exI [of _ ?s]) (auto simp: fs_only_def ramfs_inv_def)
  qed simp
qed

lemma ramfs_delete_gone:
  assumes ok: "fs_ok K s" and m: "nodes s p = Some m" "p \<noteq> root s"
    and gone: "recursive \<or> n_type m = RAMFS_FILE \<or> K p = []"
  obtains s' where "ramfs_delete p recursive s = ret (s', True)" "ramfs_inv s'" "fs_only s s'" "foreign_kept s s'"
    "dom (nodes s') = dom (nodes s) - below (nodes s) p"
    "live (heap s') = {(a, d) \<in> live (heap s). a \<notin> owned (nodes s) (below (nodes s) p)}"
    "\<forall>P. named s P p \<longrightarrow> fs_view s' = {(Q, e) \<in> fs_view s. \<not> prefix P Q}"
    "\<forall>P Q q. named s P p \<longrightarrow> named s' Q q \<longleftrightarrow> named s Q q \<and> \<not> prefix P Q"
proof -
  obtain h' N' K' where d: "ramfs_delete p recursive s = ret (s\<lparr>heap := h', nodes := N'\<rparr>, True)"
    "fs_ok K' (s\<lparr>heap := h', nodes := N'\<rparr>)" "bytes h' = bytes (heap s)"
    "live h' = {(a, d) \<in> live (heap s). a \<notin> owned (nodes s) (below (nodes s) p)}"
    "dom N' = dom (nodes s) - below (nodes s) p"
    "\<forall>P. named s P p \<longrightarrow> fs_view (s\<lparr>heap := h', nodes := N'\<rparr>) = {(Q, e) \<in> fs_view s. \<not> prefix P Q}"
    "\<forall>q n. N' q = Some n \<longrightarrow> (\<exists>n0. nodes s q = Some n0 \<and> n_data n = n_data n0)"
    "\<forall>P Q q. named s P p \<longrightarrow> at N' (root s) Q q \<longleftrightarrow> named s Q q \<and> \<not> prefix P Q"
    by (rule ramfs_delete_spec [OF ok m gone])
  let ?s = "s\<lparr>heap := h', nodes := N'\<rparr>"
  have "fs_blocks ?s \<subseteq> fs_blocks s" using d(7) by (fastforce simp: fs_blocks_iff)
  moreover have "owned (nodes s) (below (nodes s) p) \<subseteq> fs_blocks s"
    using below_dom [of p "nodes s"] m by (fastforce simp: fs_blocks_def owned_def)
  ultimately have "foreign_kept s ?s" using d(3,4) by (auto simp: foreign_kept_def)
  moreover have "ramfs_inv ?s" using d(2) by (auto simp: ramfs_inv_def)
  ultimately show thesis using that [of ?s] d(1,4-6,8) by (simp add: fs_only_def)
qed

lemma ramfs_delete_view:
  assumes ok: "fs_ok K s" and P: "named s P p" "P \<noteq> []"
  shows "if (P, Dir) \<in> fs_view s \<and> (\<exists>x. P @ [x] \<in> fst ` fs_view s) \<and> \<not> recursive
    then ramfs_delete p recursive s = ret (s, False)
    else \<exists>s'. ramfs_delete p recursive s = ret (s', True) \<and> ramfs_inv s' \<and> fs_only s s' \<and> foreign_kept s s' \<and>
      fs_view s' = {(Q, e) \<in> fs_view s. \<not> prefix P Q} \<and>
      live (heap s') = {(a, d) \<in> live (heap s). a \<notin> owned (nodes s) (below (nodes s) p)}"
proof -
  have f: "forest (nodes s) {root s} K" using ok by (simp add: fs_ok_def)
  obtain m where m: "nodes s p = Some m" using at_dom(1) [OF ok P(1)] by blast
  have pr: "p \<noteq> root s" using at_cycle [OF f] P by blast
  have kids: "(\<exists>x. P @ [x] \<in> fst ` fs_view s) \<longleftrightarrow> K p \<noteq> []"
  proof -
    have "(\<exists>x. P @ [x] \<in> fst ` fs_view s) \<longleftrightarrow> (\<exists>x c. named s (P @ [x]) c)"
      unfolding view_path using at_dom(1) [OF ok] by blast
    also have "\<dots> \<longleftrightarrow> (\<exists>c. (p, c) \<in> edges (nodes s))"
      unfolding at_snoc using at_functional [OF f P(1)] P(1) by blast
    also have "\<dots> \<longleftrightarrow> K p \<noteq> []" using forest_kids [OF f, of p] m by (cases "K p") auto
    finally show ?thesis .
  qed
  have dir: "(P, Dir) \<in> fs_view s \<longleftrightarrow> n_type m = RAMFS_DIR"
    using dir_view [OF ok P(1)] m by (simp add: dir_at_def)
  show ?thesis
  proof (cases "n_type m = RAMFS_DIR \<and> K p \<noteq> [] \<and> \<not> recursive")
    case True
    then show ?thesis using ramfs_delete_refused [OF ok, of p recursive] m kids dir by auto
  next
    case False
    then have gone: "recursive \<or> n_type m = RAMFS_FILE \<or> K p = []" by (cases "n_type m") auto
    obtain s' where d: "ramfs_delete p recursive s = ret (s', True)" "ramfs_inv s'" "fs_only s s'" "foreign_kept s s'"
      "dom (nodes s') = dom (nodes s) - below (nodes s) p"
      "live (heap s') = {(a, d) \<in> live (heap s). a \<notin> owned (nodes s) (below (nodes s) p)}"
      "\<forall>P. named s P p \<longrightarrow> fs_view s' = {(Q, e) \<in> fs_view s. \<not> prefix P Q}"
      by (rule ramfs_delete_gone [OF ok m pr gone])
    show ?thesis using False d P(1) kids dir by auto
  qed
qed

lemma ramfs_move_view:
  assumes ok: "fs_ok K s" and P: "named s P p" "P \<noteq> []" and Pn: "named s Pn np" and x: "valid_name x"
  shows "if (Pn, Dir) \<notin> fs_view s \<or> Pn @ [x] \<in> fst ` fs_view s \<or> prefix P Pn
    then ramfs_move p np x s = ret (s, False)
    else \<exists>N'. ramfs_move p np x s = ret (s\<lparr>nodes := N'\<rparr>, True) \<and> ramfs_inv (s\<lparr>nodes := N'\<rparr>) \<and>
      fs_view (s\<lparr>nodes := N'\<rparr>) =
        {(Q, e) \<in> fs_view s. \<not> prefix P Q} \<union> {(Pn @ x # S, e) | S e. (P @ S, e) \<in> fs_view s} \<and>
      same_data (nodes s) N'"
proof -
  have f: "forest (nodes s) {root s} K" using ok by (simp add: fs_ok_def)
  obtain m where m: "nodes s p = Some m" using at_dom(1) [OF ok P(1)] by blast
  have npd: "np \<in> dom (nodes s)" using at_dom(1) [OF ok Pn] .
  have pr: "p \<noteq> root s" using at_cycle [OF f] P by blast
  have nul: "NUL \<notin> set x" using x by (simp add: valid_name_def)
  have dir: "(Pn, Dir) \<in> fs_view s \<longleftrightarrow> dir_at (nodes s) np" by (rule dir_view [OF ok Pn])
  have there: "Pn @ [x] \<in> fst ` fs_view s \<longleftrightarrow> kid (nodes s) K np x \<noteq> None"
  proof -
    have "Pn @ [x] \<in> fst ` fs_view s \<longleftrightarrow> (\<exists>c. named s (Pn @ [x]) c)"
      unfolding view_path using at_dom(1) [OF ok] by blast
    also have "\<dots> \<longleftrightarrow> (\<exists>c. (np, c) \<in> edges (nodes s) \<and> x = name_of (nodes s) c)"
      unfolding at_snoc using at_functional [OF f Pn] Pn by blast
    finally show ?thesis using kid_Some [OF f npd, of x] by auto
  qed
  have under: "prefix P Pn \<longleftrightarrow> np \<in> below (nodes s) p"
  proof
    assume "prefix P Pn"
    then obtain S where "Pn = P @ S" by (auto elim: prefixE)
    then obtain d where d: "named s P d" "at (nodes s) d S np" using Pn at_append by blast
    have "d = p" by (rule at_functional [OF f d(1) P(1)])
    then show "np \<in> below (nodes s) p" using d(2) below_at by blast
  next
    assume "np \<in> below (nodes s) p"
    then obtain S where "at (nodes s) p S np" using below_at by blast
    then have "named s (P @ S) np" using P(1) at_append by blast
    then have "Pn = P @ S" by (rule at_injective [OF f Pn])
    then show "prefix P Pn" by simp
  qed
  show ?thesis
  proof (cases "(Pn, Dir) \<notin> fs_view s \<or> Pn @ [x] \<in> fst ` fs_view s \<or> prefix P Pn")
    case True
    then show ?thesis using ramfs_move_refused [OF ok npd nul, of p] dir there under by auto
  next
    case False
    then have np: "dir_at (nodes s) np" "np \<notin> below (nodes s) p" "kid (nodes s) K np x = None"
      using dir there under by auto
    obtain xs ys where C: "is_cut (nodes s) (root s) K p m xs ys" using cut_exists [OF f m pr] .
    let ?N = "move_store xs p np x (nodes s)"
    have "ramfs_move p np x s = ret (s\<lparr>nodes := ?N\<rparr>, True)"
      using ramfs_move_run [OF ok C np(1,2) nul np(3)] valid_lcpy [OF x] by simp
    moreover have "ramfs_inv (s\<lparr>nodes := ?N\<rparr>)" by (rule move_inv [OF ok C np(1,2) x np(3)])
    moreover have "fs_view (s\<lparr>nodes := ?N\<rparr>) =
        {(Q, e) \<in> fs_view s. \<not> prefix P Q} \<union> {(Pn @ x # S, e) | S e. (P @ S, e) \<in> fs_view s}"
      by (rule move_view [OF C np(1,2) P(1) Pn])
    moreover have "same_data (nodes s) ?N" by (rule move_store_ok(1) [OF C np(1,2)])
    ultimately show ?thesis using False unfolding if_not_P [OF False] by blast
  qed
qed

section \<open>The contract for clients that store files\<close>

text \<open>
  The shell and the boot code store text under a path: they resolve it, create the file if it is
  missing, and write. \<open>source\<close> says that a buffer outside the filesystem holds a text, \<open>kept\<close> that
  an operation touched only the filesystem.
\<close>

text \<open>The file a path names, with its contents, or the file it would create, empty.\<close>

definition write_target ::
    "(string list \<times> entry) set \<Rightarrow> string list \<Rightarrow> string \<Rightarrow> string list \<Rightarrow> string \<Rightarrow> bool" where
  "write_target V P path Q old \<longleftrightarrow>
     (case walk_view V (start_path P path) (components path) of
        Some R \<Rightarrow> R = Q \<and> (Q, File old) \<in> V
      | None \<Rightarrow> create_path V (start_path P path) (components path) = Some Q \<and> old = [])"

locale file_store =
  fixes inv :: "'s \<Rightarrow> bool" and view :: "'s \<Rightarrow> (string list \<times> entry) set"
    and name :: "'s \<Rightarrow> string list \<Rightarrow> addr \<Rightarrow> bool"
    and resolve :: "addr \<Rightarrow> string \<Rightarrow> 's \<Rightarrow> addr run"
    and create :: "addr \<Rightarrow> string \<Rightarrow> 's \<Rightarrow> ('s \<times> addr) run"
    and store :: "addr \<Rightarrow> buffer \<Rightarrow> u32 \<Rightarrow> bool \<Rightarrow> 's \<Rightarrow> ('s \<times> bool) run"
    and source :: "'s \<Rightarrow> buffer \<Rightarrow> u32 \<Rightarrow> string \<Rightarrow> bool" and kept :: "'s \<Rightarrow> 's \<Rightarrow> bool"
  assumes resolve_law: "inv s \<Longrightarrow> name s P cwd \<Longrightarrow> NUL \<notin> set path \<Longrightarrow>
      \<exists>p. resolve cwd path s = ret p \<and>
        (case walk_view (view s) (start_path P path) (components path) of
           None \<Rightarrow> p = NULL | Some Q \<Rightarrow> p \<noteq> NULL \<and> name s Q p)"
    and create_law: "inv s \<Longrightarrow> name s P cwd \<Longrightarrow> NUL \<notin> set path \<Longrightarrow>
      create_path (view s) (start_path P path) (components path) = Some Q \<Longrightarrow>
      create cwd path s = ret (s, NULL) \<or>
      (\<exists>s' n. create cwd path s = ret (s', n) \<and> n \<noteq> NULL \<and> inv s' \<and> kept s s' \<and> name s' Q n \<and>
         view s' = insert (Q, File []) (view s))"
    and store_law: "inv s \<Longrightarrow> name s P p \<Longrightarrow> (P, File old) \<in> view s \<Longrightarrow> source s b len body \<Longrightarrow>
      length (if app then old else []) + length body \<le> 2 ^ 30 \<Longrightarrow>
      store p b len app s = ret (s, False) \<or>
      (\<exists>s'. store p b len app s = ret (s', True) \<and> inv s' \<and> kept s s' \<and>
         view s' = {(Q, e) \<in> view s. Q \<noteq> P} \<union> {(P, File ((if app then old else []) @ body))})"
    and source_kept: "source s b len body \<Longrightarrow> kept s s' \<Longrightarrow> source s' b len body"
    and kept_refl: "kept s s" and kept_trans: "kept s t \<Longrightarrow> kept t u \<Longrightarrow> kept s u"
begin

definition save :: "addr \<Rightarrow> string \<Rightarrow> buffer \<Rightarrow> u32 \<Rightarrow> bool \<Rightarrow> 's \<Rightarrow> ('s \<times> bool) run" where
  "save cwd path b len app s =
     run_bind (resolve cwd path s) (\<lambda>f.
     run_bind (if f = NULL then create cwd path s else ret (s, f)) (\<lambda>(s, f).
     if f = NULL then ret (s, False) else store f b len app s))"

lemma save_existing:
  assumes "inv s" "resolve cwd path s = ret p" "p \<noteq> NULL" "name s Q p" "(Q, File old) \<in> view s"
    and src: "source s b len body" "length (if app then old else []) + length body \<le> 2 ^ 30"
  shows "\<exists>s' ok. save cwd path b len app s = ret (s', ok) \<and> inv s' \<and> kept s s' \<and>
    (if ok then view s' = {(R, e) \<in> view s. R \<noteq> Q} \<union> {(Q, File ((if app then old else []) @ body))} else view s' = view s)"
proof -
  have run: "save cwd path b len app s = store p b len app s" using assms(2,3) by (simp add: save_def)
  from store_law [OF assms(1,4,5) src] show ?thesis
  proof
    assume "store p b len app s = ret (s, False)"
    then show ?thesis using run assms(1) kept_refl by (intro exI [of _ s] exI [of _ False]) simp
  next
    assume "\<exists>s'. store p b len app s = ret (s', True) \<and> inv s' \<and> kept s s' \<and>
       view s' = {(R, e) \<in> view s. R \<noteq> Q} \<union> {(Q, File ((if app then old else []) @ body))}"
    then obtain s' where "store p b len app s = ret (s', True)" "inv s'" "kept s s'"
      "view s' = {(R, e) \<in> view s. R \<noteq> Q} \<union> {(Q, File ((if app then old else []) @ body))}" by blast
    then show ?thesis using run by (intro exI [of _ s'] exI [of _ True]) simp
  qed
qed

lemma save_new:
  assumes s: "inv s" "name s P cwd" "NUL \<notin> set path" and none: "resolve cwd path s = ret NULL"
    and Q: "create_path (view s) (start_path P path) (components path) = Some Q"
    and src: "source s b len body" "length body \<le> 2 ^ 30"
  shows "\<exists>s' ok. save cwd path b len app s = ret (s', ok) \<and> inv s' \<and> kept s s' \<and>
    (if ok then view s' = {(R, e) \<in> view s. R \<noteq> Q} \<union> {(Q, File body)}
     else view s' = view s \<or> view s' = insert (Q, File []) (view s))"
proof (cases "create cwd path s = ret (s, NULL)")
  case True
  then have "save cwd path b len app s = ret (s, False)" using none by (simp add: save_def)
  then show ?thesis using s(1) kept_refl by (intro exI [of _ s] exI [of _ False]) simp
next
  case False
  then obtain s1 n where n: "create cwd path s = ret (s1, n)" "n \<noteq> NULL" "inv s1" "kept s s1" "name s1 Q n"
    "view s1 = insert (Q, File []) (view s)"
    using create_law [OF s Q] by blast
  have here: "(Q, File []) \<in> view s1" using n(6) by simp
  have len: "length (if app then [] else []) + length body \<le> 2 ^ 30" using src(2) by simp
  have run: "save cwd path b len app s = store n b len app s1" using none n(1,2) by (simp add: save_def)
  from store_law [OF n(3,5) here source_kept [OF src(1) n(4)] len] show ?thesis
  proof
    assume "store n b len app s1 = ret (s1, False)"
    then show ?thesis using run n(3,4,6) by (intro exI [of _ s1] exI [of _ False]) simp
  next
    assume "\<exists>s'. store n b len app s1 = ret (s', True) \<and> inv s' \<and> kept s1 s' \<and>
       view s' = {(R, e) \<in> view s1. R \<noteq> Q} \<union> {(Q, File ((if app then [] else []) @ body))}"
    then obtain s' where s': "store n b len app s1 = ret (s', True)" "inv s'" "kept s1 s'"
      "view s' = {(R, e) \<in> view s1. R \<noteq> Q} \<union> {(Q, File ((if app then [] else []) @ body))}" by blast
    have v: "{(R, e) \<in> view s1. R \<noteq> Q} = {(R, e) \<in> view s. R \<noteq> Q}" using n(6) by auto
    show ?thesis using s' run kept_trans [OF n(4)] unfolding v by (intro exI [of _ s'] exI [of _ True]) simp
  qed
qed

lemma save_law:
  assumes s: "inv s" "name s P cwd" "NUL \<notin> set path" and t: "write_target (view s) P path Q old"
    and src: "source s b len body" "length (if app then old else []) + length body \<le> 2 ^ 30"
  shows "\<exists>s' ok. save cwd path b len app s = ret (s', ok) \<and> inv s' \<and> kept s s' \<and>
    (if ok then view s' = {(R, e) \<in> view s. R \<noteq> Q} \<union> {(Q, File ((if app then old else []) @ body))}
     else view s' = view s \<or> view s' = insert (Q, File []) (view s))"
proof -
  obtain p where p: "resolve cwd path s = ret p" "case walk_view (view s) (start_path P path) (components path) of
      None \<Rightarrow> p = NULL | Some Q \<Rightarrow> p \<noteq> NULL \<and> name s Q p"
    using resolve_law [OF s] by blast
  show ?thesis
  proof (cases "walk_view (view s) (start_path P path) (components path)")
    case (Some R)
    then have R: "p \<noteq> NULL" "name s Q p" "(Q, File old) \<in> view s" using p(2) t by (auto simp: write_target_def)
    obtain s' ok where "save cwd path b len app s = ret (s', ok)" "inv s'" "kept s s'"
        "if ok then view s' = {(R, e) \<in> view s. R \<noteq> Q} \<union> {(Q, File ((if app then old else []) @ body))} else view s' = view s"
      using save_existing [OF s(1) p(1) R src] by blast
    then show ?thesis by (intro exI [of _ s'] exI [of _ ok]) simp
  next
    case None
    then have c: "p = NULL" "create_path (view s) (start_path P path) (components path) = Some Q" "old = []"
      using p(2) t by (auto simp: write_target_def)
    have len: "length body \<le> 2 ^ 30" using src(2) by simp
    show ?thesis using save_new [OF s p(1) [unfolded c(1)] c(2) src(1) len, of app] by (simp only: c(3) if_cancel append_Nil)
  qed
qed

end

primrec foreign_buffer :: "'a ramfs_scheme \<Rightarrow> u32 \<Rightarrow> buffer \<Rightarrow> bool" where
  "foreign_buffer s len (At src) \<longleftrightarrow> len = 0 \<or> (\<exists>c \<ge> unat len. (src, c) \<in> live (heap s) \<and> src \<notin> fs_blocks s)"
| "foreign_buffer s len (Const str) \<longleftrightarrow> unat len \<le> length str"

definition fs_source :: "'a ramfs_scheme \<Rightarrow> buffer \<Rightarrow> u32 \<Rightarrow> string \<Rightarrow> bool" where
  "fs_source s b len body \<longleftrightarrow>
     foreign_buffer s len b \<and> buffer_text b len (bytes (heap s)) = body \<and> length body = unat len"

definition fs_kept :: "'a ramfs_scheme \<Rightarrow> 'a ramfs_scheme \<Rightarrow> bool" where
  "fs_kept s s' \<longleftrightarrow> fs_only s s' \<and> foreign_kept s s'"

lemma fs_source_ok:
  assumes ok: "fs_ok K s" and f: "nodes s p = Some f" and src: "fs_source s b len body"
  shows "buffer_ok b len (n_data f) (heap s)"
proof (cases b)
  case (At src)
  have "n_data f = NULL \<or> n_data f \<in> fs_blocks s" using f by (auto simp: fs_blocks_iff)
  moreover have "a \<noteq> NULL" if "(a, c) \<in> live (heap s)" for a c
    using live_bounds(1) [OF store_okD(1) that] ok by (auto simp: fs_ok_def)
  ultimately show ?thesis using At assms(3) by (auto simp: fs_source_def)
qed (use src in \<open>simp add: fs_source_def\<close>)

lemma fs_source_kept:
  assumes "fs_source s b len body" "fs_kept s s'"
  shows "fs_source s' b len body"
proof (cases b)
  case (At src)
  show ?thesis
  proof (cases "len = 0")
    case False
    then obtain c where c: "unat len \<le> c" "(src, c) \<in> live (heap s)" "src \<notin> fs_blocks s"
      using assms(1) At by (auto simp: fs_source_def)
    then have "(src, c) \<in> live (heap s')" "src \<notin> fs_blocks s'"
      "\<forall>i < c. bytes (heap s') (src + of_nat i) = bytes (heap s) (src + of_nat i)"
      using assms(2) by (auto simp: fs_kept_def foreign_kept_def)
    then show ?thesis using assms(1) At c(1) by (auto simp: fs_source_def)
  qed (use assms(1) At in \<open>simp add: fs_source_def\<close>)
qed (use assms(1) in \<open>simp add: fs_source_def\<close>)

interpretation rf: file_store ramfs_inv fs_view named ramfs_resolve
  "\<lambda>cwd path. ramfs_create cwd path RAMFS_FILE" ramfs_write fs_source fs_kept
proof
  fix s :: "'a ramfs_scheme" and P Q :: "string list" and cwd p :: addr and path old body :: string
    and b :: buffer and len :: u32 and app :: bool
  assume "ramfs_inv s"
  then obtain K where ok: "fs_ok K s" by (auto simp: ramfs_inv_def)
  {
    assume P: "named s P cwd" "NUL \<notin> set path"
    show "\<exists>p. ramfs_resolve cwd path s = ret p \<and>
        (case walk_view (fs_view s) (start_path P path) (components path) of
           None \<Rightarrow> p = NULL | Some Q \<Rightarrow> p \<noteq> NULL \<and> named s Q p)"
      by (rule resolve_view [OF ok P])
    assume "create_path (fs_view s) (start_path P path) (components path) = Some Q"
    then show "ramfs_create cwd path RAMFS_FILE s = ret (s, NULL) \<or>
      (\<exists>s' n. ramfs_create cwd path RAMFS_FILE s = ret (s', n) \<and> n \<noteq> NULL \<and> ramfs_inv s' \<and> fs_kept s s' \<and>
         named s' Q n \<and> fs_view s' = insert (Q, File []) (fs_view s))"
      using ramfs_create_view [OF ok P, of RAMFS_FILE] by (auto simp: fs_kept_def)
  }
  assume P: "named s P p" "(P, File old) \<in> fs_view s" and src: "fs_source s b len body"
    and len: "length (if app then old else []) + length body \<le> 2 ^ 30"
  obtain f where f: "nodes s p = Some f" using at_dom(1) [OF ok P(1)] by blast
  have "buffer_ok b len (n_data (the (nodes s p))) (heap s)" using fs_source_ok [OF ok f src] f by simp
  moreover have "length (if app then old else []) + unat len \<le> 2 ^ 30"
    "buffer_text b len (bytes (heap s)) = body" using len src by (auto simp: fs_source_def)
  ultimately show "ramfs_write p b len app s = ret (s, False) \<or>
      (\<exists>s'. ramfs_write p b len app s = ret (s', True) \<and> ramfs_inv s' \<and> fs_kept s s' \<and>
         fs_view s' = {(Q, e) \<in> fs_view s. Q \<noteq> P} \<union> {(P, File ((if app then old else []) @ body))})"
    using ramfs_write_view [OF ok P, of b len app] by (auto simp: fs_kept_def)
next
  show "fs_kept s s" for s :: "'a ramfs_scheme" by (simp add: fs_kept_def)
  show "fs_kept s t \<Longrightarrow> fs_kept t u \<Longrightarrow> fs_kept s u" for s t u :: "'a ramfs_scheme"
    using fs_only_trans foreign_kept_trans unfolding fs_kept_def by blast
  show "fs_source s b len body \<Longrightarrow> fs_kept s s' \<Longrightarrow> fs_source s' b len body"
    for s s' :: "'a ramfs_scheme" and b len body by (rule fs_source_kept)
qed

end
