(* ===== verification/RamfsRoom.thy ===== *)
theory RamfsRoom
  imports RamfsSpec
begin

text \<open>
  When the filesystem operations succeed: a creation or a write fails only for lack of memory, so a
  heap with one large enough free block is enough. Bounds are on the size of that block.
\<close>

section \<open>Room on the heap\<close>

definition has_room :: "nat \<Rightarrow> kheap \<Rightarrow> bool" where
  "has_room k h \<longleftrightarrow> (\<exists>segs. heap_rep h segs \<and> (\<exists>p sz. (p, sz, True) \<in> set segs \<and> k \<le> sz))"

lemma has_room_bytes [simp]: "has_room k (h\<lparr>bytes := m\<rparr>) \<longleftrightarrow> has_room k h"
  by (simp add: has_room_def)

lemma has_room_mono: "has_room k h \<Longrightarrow> j \<le> k \<Longrightarrow> has_room j h"
  unfolding has_room_def using order_trans by blast

lemma carve_room:
  assumes "segs = xs @ (p, s, True) # ys" "(r, t, True) \<in> set segs" "k \<le> t" "n + 36 \<le> k"
  shows "\<exists>q u. (q, u, True) \<in> set (xs @ carve n p s @ ys) \<and> k - (n + 20) \<le> u"
proof (cases "(r, t, True) = (p, s, True)")
  case True
  then have "(p + 20 + n, s - n - 20, True) \<in> set (xs @ carve n p s @ ys)" "k - (n + 20) \<le> s - n - 20"
    using assms(3,4) by (simp_all add: carve_def)
  then show ?thesis by blast
next
  case False
  then have "(r, t, True) \<in> set (xs @ carve n p s @ ys)" using assms(1,2) by auto
  moreover have "k - (n + 20) \<le> t" using assms(3) by simp
  ultimately show ?thesis by blast
qed

lemma kmalloc_room:
  assumes room: "has_room k h" and sz: "0 < unat sz" "unat sz + 43 \<le> k"
  obtains h' p where "kmalloc h sz = ret (h', p)" "p \<noteq> NULL" "has_room (k - (unat sz + 27)) h'"
proof -
  obtain segs r t where rep: "heap_rep h segs" and rt: "(r, t, True) \<in> set segs" "k \<le> t"
    using room by (auto simp: has_room_def)
  have "t < 2 ^ 32 - 20" using tiles_mem [OF conjunct1 [OF heap_rep_tiles [OF rep]] rt(1)] heap_rep_tiles [OF rep] by simp
  then have big: "unat sz \<le> 2 ^ 32 - 8" using sz(2) rt(2) by simp
  define n where "n = unat (ALIGN_UP sz 8)"
  have n: "n \<le> unat sz + 7" using ALIGN_UP_8 [OF big] by (simp add: n_def)
  have "n \<le> t" using rt(2) sz(2) n by simp
  then have "alloc_segs n segs \<noteq> None" using rt(1) unfolding alloc_segs_None by fastforce
  then obtain segs' q where al: "alloc_segs n segs = Some (segs', q)" by auto
  have ne: "sz \<noteq> 0" using sz(1) by auto
  obtain h' where h': "kmalloc h sz = ret (h', of_nat q)" "heap_rep h' segs'"
    using kmalloc_refines [OF rep ne, folded n_def] al by auto
  moreover have "of_nat q \<noteq> NULL" using kmalloc_null_iff [OF rep ne h'(1)] al by (simp add: n_def)
  moreover have "has_room (k - (n + 20)) h'"
  proof -
    obtain xs p s ys where c: "segs = xs @ (p, s, True) # ys" "segs' = xs @ carve n p s @ ys"
      using alloc_segs_Some [OF al] by blast
    have "n + 36 \<le> k" using n sz(2) by simp
    then show ?thesis using carve_room [OF c(1) rt] h'(2) unfolding has_room_def c(2) by blast
  qed
  then have "has_room (k - (unat sz + 27)) h'" by (rule has_room_mono) (use n in simp)
  ultimately show thesis using that by blast
qed

lemma kzalloc_room:
  assumes "has_room k h" "0 < unat sz" "unat sz + 43 \<le> k"
  obtains h' p where "kzalloc h sz = ret (h', p)" "p \<noteq> NULL" "has_room (k - (unat sz + 27)) h'"
proof -
  obtain h' p where h': "kmalloc h sz = ret (h', p)" "p \<noteq> NULL" "has_room (k - (unat sz + 27)) h'"
    using kmalloc_room [OF assms] .
  then have "kzalloc h sz = ret (h'\<lparr>bytes := memset (bytes h') p 0 sz\<rparr>, p)" by (simp add: kzalloc_def)
  then show thesis using that h'(2,3) by simp
qed

text \<open>Freeing keeps the room there is: a free block survives or is merged into a larger one.\<close>

lemma absorb_room:
  assumes "(r, t, True) \<in> set (xs @ (p, s, False) # ys)"
  shows "\<exists>q u. (q, u, True) \<in> set (absorb xs p s ys) \<and> t \<le> u"
proof -
  obtain s' ys' where a: "absorb_right s ys = (s', ys')" by (cases "absorb_right s ys")
  have ys: "(r, t, True) \<in> set ys' \<or> t \<le> s'" if "(r, t, True) \<in> set ys"
    using that a by (auto simp: absorb_right_def split: list.splits bool.splits prod.splits)
  have xs: "(r, t, True) \<in> set (butlast xs) \<or> (r, t, True) = last xs" if "(r, t, True) \<in> set xs"
    using that by (cases xs rule: rev_cases) auto
  show ?thesis
  proof (cases "xs \<noteq> [] \<and> seg_free (last xs)")
    case True
    let ?m = "(fst (last xs), fst (snd (last xs)) + (20 + s'), True)"
    have eq: "absorb xs p s ys = butlast xs @ ?m # ys'" using True a by (simp add: absorb_def)
    have "(r, t, True) \<in> set (absorb xs p s ys) \<or> t \<le> fst (snd (last xs)) + (20 + s')"
    proof (cases "(r, t, True) = last xs")
      case True
      then show ?thesis by (metis fst_conv snd_conv le_add1)
    next
      case False
      then show ?thesis using assms ys xs unfolding eq by auto
    qed
    moreover have "?m \<in> set (absorb xs p s ys)" unfolding eq by simp
    ultimately show ?thesis by blast
  next
    case False
    then have eq: "absorb xs p s ys = xs @ (p, s', True) # ys'" using a by (auto simp: absorb_def)
    have "(r, t, True) \<in> set (absorb xs p s ys) \<or> t \<le> s'" using assms ys unfolding eq by auto
    moreover have "(p, s', True) \<in> set (absorb xs p s ys)" unfolding eq by simp
    ultimately show ?thesis by blast
  qed
qed

lemma kfree_room:
  assumes room: "has_room k h" and p: "p = NULL \<or> (p, c) \<in> live h"
  obtains h' where "kfree h p = ret h'" "has_room k h'"
proof (cases "p = NULL")
  case True
  then show thesis using that [of h] room by (simp add: kfree_def)
next
  case False
  obtain segs r t where rep: "heap_rep h segs" and rt: "(r, t, True) \<in> set segs" "k \<le> t"
    using room by (auto simp: has_room_def)
  obtain a where a: "p = of_nat (a + 20)" "(a, c, False) \<in> set segs"
    using p False by (auto simp: live_rep [OF rep] elim: live_segsE)
  obtain xs ys where segs: "segs = xs @ (a, c, False) # ys" using a(2) by (meson split_list)
  have "free_segs (a + 20) segs = absorb xs a c ys"
    using free_segs_absorb [OF conjunct1 [OF heap_rep_tiles [OF rep], unfolded segs]] rep segs
    by (simp add: heap_rep_def)
  moreover obtain h' where "kfree h p = ret h'" "heap_rep h' (free_segs (a + 20) segs)"
    using kfree_refines [OF rep a(2)] a(1) by auto
  moreover obtain q u where "(q, u, True) \<in> set (absorb xs a c ys)" "t \<le> u"
    using absorb_room [OF rt(1) [unfolded segs]] by blast
  ultimately show thesis using that [of h'] rt(2) order_trans unfolding has_room_def by fastforce
qed

section \<open>Creations and writes that succeed\<close>

lemma attach_heap: "attach p c s = ret s' \<Longrightarrow> heap s' = heap s \<and> root s' = root s"
  by (auto simp: attach_def upd_node_def node_at_def split: option.splits)

lemma unat_sizeof_node [simp]: "unat sizeof_node = 60"
  by (simp add: sizeof_node_def)

lemma create_room:
  assumes ok: "fs_ok K s" and P: "named s P cwd" and path: "NUL \<notin> set path"
    and Q: "create_path (fs_view s) (start_path P path) (components path) = Some Q"
    and room: "has_room k (heap s)" "103 \<le> k"
  obtains s' n where "ramfs_create cwd path ty s = ret (s', n)" "n \<noteq> NULL" "has_room (k - 87) (heap s')"
proof -
  have d: "cwd = NULL \<or> cwd \<in> dom (nodes s)" using at_dom [OF ok P] by blast
  obtain q x where t: "create_target (nodes s) K (start cwd path s) (components path) = Some (q, x)"
    using create_target_path [OF ok start_at [OF P at_dom(2) [OF ok P], of path], of "components path"] Q by auto
  note R = ramfs_create_some [OF ok d path t, of ty]
  obtain h n where k: "kzalloc (heap s) sizeof_node = ret (h, n)" "n \<noteq> NULL" "has_room (k - 87) h"
    by (rule kzalloc_room [OF room(1), of sizeof_node]) (use room(2) in simp_all)
  obtain s1 where s1: "node_new x ty s = ret (s1, n)" "heap s1 = h"
    using k(1,2) by (simp add: node_new_def)
  have run: "ramfs_create cwd path ty s = run_bind (attach q n s1) (\<lambda>s. ret (s, n))" using R s1 k(2) by simp
  have "\<exists>r. ramfs_create cwd path ty s = ret r"
    using ramfs_create_view [OF ok P path, of ty] Q by auto
  then obtain s' where s': "attach q n s1 = ret s'"
    unfolding run by (auto simp: run_bind_def ret_def split: Option.bind_splits outcome.splits)
  show thesis using that [of s' n] run s' k(2,3) attach_heap [OF s'] s1(2) by simp
qed

text \<open>A write that stores \<open>n\<close> bytes asks for less than \<open>2 n + 64\<close> bytes of memory.\<close>

lemma reserve_room:
  assumes st: "store_ok (nodes s) (heap s)" and f: "nodes s p = Some f"
    and base: "base \<le> n_size f" and need: "unat needed \<le> 2 ^ 30" "base \<le> needed"
    and room: "has_room k (heap s)" "2 * unat needed + 107 \<le> k"
  obtains s' where "write_reserve p base needed s = ret (s', True)" "has_room (k - (2 * unat needed + 91)) (heap s')"
proof (cases "needed > n_capacity f")
  case False
  then have "write_reserve p base needed s = ret (s, True)" using f by (simp add: write_reserve_def node_at_def)
  then show thesis using that has_room_mono [OF room(1)] by simp
next
  case True
  let ?c0 = "if n_capacity f \<noteq> 0 then n_capacity f else 64"
  have c0: "0 < unat ?c0" by (simp add: unat_gt_0)
  obtain cap where cap: "grow_capacity ?c0 needed = ret cap" "unat needed \<le> unat cap"
    "unat cap < 2 * unat needed \<or> cap = ?c0" "unat ?c0 \<le> unat cap"
    using grow_capacity_returns [OF c0, of needed] need by auto
  have small: "unat cap \<le> 2 * unat needed + 64" "0 < unat cap"
    using cap(3) True cap(4) c0 by (auto simp: word_less_nat_alt split: if_splits)
  have big: "unat cap \<le> 2 ^ 32 - 8" using small need(1) by simp
  obtain h1 buf where k: "kmalloc (heap s) cap = ret (h1, buf)" "buf \<noteq> NULL" "has_room (k - (unat cap + 27)) h1"
    by (rule kmalloc_room [OF room(1) small(2)]) (use small room(2) in simp_all)
  have k': "heap_inv h1" "\<exists>c \<ge> unat cap. live h1 = insert (buf, c) (live (heap s)) \<and> buf \<notin> fst ` live (heap s)"
    using kmalloc_live [OF store_okD(1) [OF st] small(2) big] k(1,2) by auto
  define m where "m = (if base \<noteq> 0 then memcpy (bytes h1) buf (n_data f) base else bytes h1)"
  obtain d where d: "n_data f = NULL \<or> (n_data f, d) \<in> live (h1\<lparr>bytes := m\<rparr>)"
    using store_okD(6) [OF st f] k'(2) by auto
  have "has_room (k - (unat cap + 27)) (h1\<lparr>bytes := m\<rparr>)" using k(3) by simp
  then obtain h2 where h2: "kfree (h1\<lparr>bytes := m\<rparr>) (n_data f) = ret h2" "has_room (k - (unat cap + 27)) h2"
    by (rule kfree_room [OF _ d])
  have "write_reserve p base needed s =
      ret (s\<lparr>heap := h2, nodes := (nodes s)(p \<mapsto> f\<lparr>n_data := buf, n_capacity := cap\<rparr>)\<rparr>, True)"
    using True f cap(1) k(1,2) h2(1)
    by (cases "base = 0") (simp_all add: write_reserve_def node_at_def upd_node_def m_def Let_def cong: if_cong)
  then show thesis using that has_room_mono [OF h2(2)] small(1) by simp
qed

lemma write_room:
  assumes ok: "fs_ok K s" and P: "named s P p" "(P, File old) \<in> fs_view s"
    and src: "buffer_ok data len (n_data (the (nodes s p))) (heap s)"
    and need: "n = length (if app then old else []) + unat len" "n \<le> 2 ^ 30"
    and room: "has_room k (heap s)" "2 * n + 107 \<le> k"
  obtains s' where "ramfs_write p data len app s = ret (s', True)" "has_room (k - (2 * n + 91)) (heap s')"
proof -
  have st: "store_ok (nodes s) (heap s)" using ok by (simp add: fs_ok_def)
  obtain f where f: "nodes s p = Some f" "n_type f = RAMFS_FILE" "contents (heap s) f = old"
    using view_file [OF ok P] .
  define base where "base = (if app then n_size f else 0)"
  have n: "n = unat base + unat len" using need(1) f(3) by (auto simp: contents_def base_def)
  have bl: "unat (base + len) = n" using n need(2) by (simp add: unat_word_ariths)
  have le: "base \<le> n_size f" "base \<le> base + len" using bl n by (simp_all add: base_def word_le_nat_alt)
  obtain s1 where s1: "write_reserve p base (base + len) s = ret (s1, True)" "has_room (k - (2 * n + 91)) (heap s1)"
    using reserve_room [OF st f(1) le(1) _ le(2) room(1)] bl need(2) room(2) by auto
  have "ramfs_write p data len app s = run_bind (node_at p s1) (\<lambda>f.
        let s = s1\<lparr>heap := (heap s1)\<lparr>bytes := copy_from data (n_data f + base) len (bytes (heap s1))\<rparr>\<rparr>
        in run_bind (upd_node p (\<lambda>f. f\<lparr>n_size := base + len\<rparr>) s) (\<lambda>s. ret (s, True)))"
    using f(1,2) s1(1) at_dom(2) [OF ok P(1)]
    unfolding ramfs_write_def base_def Let_def by (simp add: node_at_def cong: if_cong)
  moreover have "\<exists>g. nodes s1 p = Some g"
  proof -
    have "n \<le> 2 ^ 30" using need(2) .
    then show ?thesis
      using write_reserve_spec [OF st f(1) le(1) _ le(2)] bl s1(1) by fastforce
  qed
  ultimately show thesis using that s1(2) by (auto simp: node_at_def upd_node_def)
qed

section \<open>Saving a file with enough room\<close>

locale sized_store = file_store +
  fixes room :: "nat \<Rightarrow> 'a \<Rightarrow> bool"
  assumes room_mono: "room k s \<Longrightarrow> j \<le> k \<Longrightarrow> room j s"
    and create_enough: "inv s \<Longrightarrow> name s P cwd \<Longrightarrow> NUL \<notin> set path \<Longrightarrow>
      create_path (view s) (start_path P path) (components path) = Some Q \<Longrightarrow> room k s \<Longrightarrow> 103 \<le> k \<Longrightarrow>
      \<exists>s' n. create cwd path s = ret (s', n) \<and> n \<noteq> NULL \<and> room (k - 87) s'"
    and store_enough: "inv s \<Longrightarrow> name s P p \<Longrightarrow> (P, File old) \<in> view s \<Longrightarrow> source s b len body \<Longrightarrow>
      n = length (if app then old else []) + length body \<Longrightarrow> n \<le> 2 ^ 30 \<Longrightarrow> room k s \<Longrightarrow> 2 * n + 107 \<le> k \<Longrightarrow>
      \<exists>s'. store p b len app s = ret (s', True) \<and> room (k - (2 * n + 91)) s'"
begin

lemma save_succeeds:
  assumes s: "inv s" "name s P cwd" "NUL \<notin> set path" and t: "write_target (view s) P path Q old"
    and src: "source s b len body" and n: "n = length (if app then old else []) + length body" "n \<le> 2 ^ 30"
    and k: "room k s" "2 * n + 194 \<le> k"
  shows "\<exists>s'. save cwd path b len app s = ret (s', True) \<and> inv s' \<and> kept s s' \<and> room (k - (2 * n + 178)) s' \<and>
    view s' = {(R, e) \<in> view s. R \<noteq> Q} \<union> {(Q, File ((if app then old else []) @ body))}"
proof -
  have small: "length (if app then old else []) + length body \<le> 2 ^ 30" using n by simp
  note L = save_law [OF s t src small]
  obtain p where p: "resolve cwd path s = ret p" "case walk_view (view s) (start_path P path) (components path) of
      None \<Rightarrow> p = NULL | Some Q \<Rightarrow> p \<noteq> NULL \<and> name s Q p"
    using resolve_law [OF s] by blast
  have "\<exists>s'. save cwd path b len app s = ret (s', True) \<and> room (k - (2 * n + 178)) s'"
  proof (cases "walk_view (view s) (start_path P path) (components path)")
    case (Some R)
    then have R: "p \<noteq> NULL" "name s Q p" "(Q, File old) \<in> view s" using p(2) t by (auto simp: write_target_def)
    have "2 * n + 107 \<le> k" using k(2) by simp
    then obtain s' where "store p b len app s = ret (s', True)" "room (k - (2 * n + 91)) s'"
      using store_enough [OF s(1) R(2,3) src n k(1)] by blast
    then show ?thesis using p(1) R(1) room_mono [of "k - (2 * n + 91)" s'] by (auto simp: save_def)
  next
    case None
    then have c: "p = NULL" "create_path (view s) (start_path P path) (components path) = Some Q" "old = []"
      using p(2) t by (auto simp: write_target_def)
    have "103 \<le> k" using k(2) by simp
    then obtain s1 m where m: "create cwd path s = ret (s1, m)" "m \<noteq> NULL" "room (k - 87) s1"
      using create_enough [OF s c(2) k(1)] by blast
    then have m': "inv s1" "kept s s1" "name s1 Q m" "view s1 = insert (Q, File []) (view s)"
      using create_law [OF s c(2)] by auto
    have old: "(Q, File old) \<in> view s1" using m'(4) c(3) by simp
    have "2 * n + 107 \<le> k - 87" using k(2) by simp
    then obtain s' where "store m b len app s1 = ret (s', True)" "room (k - 87 - (2 * n + 91)) s'"
      using store_enough [OF m'(1,3) old source_kept [OF src m'(2)] n m(3)] by blast
    then show ?thesis using p(1) c(1) m(1,2) room_mono [of "k - 87 - (2 * n + 91)" s'] by (auto simp: save_def)
  qed
  then show ?thesis using L by auto
qed

end

interpretation rfs: sized_store ramfs_inv fs_view named ramfs_resolve
  "\<lambda>cwd path. ramfs_create cwd path RAMFS_FILE" ramfs_write fs_source fs_kept "\<lambda>k s. has_room k (heap s)"
proof
  fix s :: "'a ramfs_scheme" and P Q :: "string list" and cwd p :: addr and path old body :: string
    and b :: buffer and len :: u32 and app :: bool and k n :: nat
  assume "ramfs_inv s"
  then obtain K where ok: "fs_ok K s" by (auto simp: ramfs_inv_def)
  {
    assume a: "named s P cwd" "NUL \<notin> set path"
      "create_path (fs_view s) (start_path P path) (components path) = Some Q" "has_room k (heap s)" "103 \<le> k"
    show "\<exists>s' n. ramfs_create cwd path RAMFS_FILE s = ret (s', n) \<and> n \<noteq> NULL \<and> has_room (k - 87) (heap s')"
      by (rule create_room [OF ok a]) blast
  }
  assume P: "named s P p" "(P, File old) \<in> fs_view s" and src: "fs_source s b len body"
    and n: "n = length (if app then old else []) + length body" "n \<le> 2 ^ 30"
    and k: "has_room k (heap s)" "2 * n + 107 \<le> k"
  obtain f where f: "nodes s p = Some f" using at_dom(1) [OF ok P(1)] by blast
  have buf: "buffer_ok b len (n_data (the (nodes s p))) (heap s)" using fs_source_ok [OF ok f src] f by simp
  have n': "n = length (if app then old else []) + unat len" using n(1) src by (simp add: fs_source_def)
  show "\<exists>s'. ramfs_write p b len app s = ret (s', True) \<and> has_room (k - (2 * n + 91)) (heap s')"
    by (rule write_room [OF ok P buf n' n(2) k]) blast
next
  show "has_room k (heap s) \<Longrightarrow> j \<le> k \<Longrightarrow> has_room j (heap s)" for s :: "'a ramfs_scheme" and j k
    by (rule has_room_mono)
qed

end
