(* ===== verification/RamfsBoot.thy ===== *)
theory RamfsBoot
  imports RamfsRoom
begin

text \<open>
  Printing paths and mounting: \<^verbatim>\<open>ramfs_path\<close> names the node it is given, and \<^verbatim>\<open>ramfs_init\<close> builds the
  initial tree. The properties of the filesystem are in the theory \<open>RamfsProps\<close>.
\<close>

section \<open>Printing paths\<close>

definition path_text :: "string list \<Rightarrow> string" where
  "path_text P = concat (map (\<lambda>x. CHR ''/'' # x) P)"

lemma split_slash_word:
  assumes "CHR ''/'' \<notin> set x"
  shows "split_slash (x @ CHR ''/'' # r) = x # split_slash r" "split_slash x = [x]"
  using assms by (induction x) auto

lemma components_text:
  assumes "\<forall>x \<in> set P. valid_name x"
  shows "components (path_text P) = P"
proof -
  have "split_slash (path_text P) = [] # P" if "\<forall>x \<in> set P. valid_name x" "P \<noteq> []" for P
    using that
  proof (induction P)
    case (Cons x P)
    have x: "CHR ''/'' \<notin> set x" using Cons.prems(1) by (simp add: valid_name_def)
    show ?case
    proof (cases P)
      case Nil
      then show ?thesis using split_slash_word(2) [OF x] by (simp add: path_text_def)
    next
      case (Cons y Q)
      then have "path_text (x # P) = CHR ''/'' # x @ CHR ''/'' # tl (path_text P)"
        "split_slash (path_text P) = [] # split_slash (tl (path_text P))" by (simp_all add: path_text_def)
      then show ?thesis using Cons.IH Cons.prems Cons split_slash_word(1) [OF x] by simp
    qed
  qed simp
  moreover have "\<forall>x \<in> set P. x \<noteq> []" using assms by (simp add: valid_name_def)
  ultimately show ?thesis
    using assms by (cases "P = []") (simp_all add: components_def filter_id_conv path_text_def)
qed

text \<open>The chain holds the deepest 32 names.\<close>

lemma path_chain_at:
  assumes ok: "fs_ok K s" and P: "named s P p"
  shows "path_chain p d s = ret (take (32 - d) (rev P))"
  using P
proof (induction P arbitrary: p d rule: rev_induct)
  have f: "forest (nodes s) {root s} K" using ok by (simp add: fs_ok_def)
  case Nil
  obtain n where n: "nodes s (root s) = Some n" using fs_ok_root [OF ok] by blast
  then have "n_parent n = NULL" using forestD(6) [OF f n] by simp
  then show ?case using Nil n by (subst path_chain.simps) (simp add: node_at_def)
next
  case (snoc x P)
  obtain q where q: "named s P q" "(q, p) \<in> edges (nodes s)" "x = name_of (nodes s) p"
    using snoc.prems at_snoc by blast
  obtain n where n: "nodes s p = Some n" "n_parent n = q" "q \<noteq> NULL" using q(2) by (auto simp: edges_iff)
  have x: "n_name n = x" using n(1) q(3) by (simp add: name_of_def)
  show ?case
  proof (cases "d < 32")
    case True
    then have "32 - d = Suc (32 - (d + 1))" by simp
    then show ?thesis
      using True n x snoc.IH [OF q(1), of "d + 1"] by (subst path_chain.simps) (simp add: node_at_def)
  next
    case False
    then show ?thesis using n by (subst path_chain.simps) (simp add: node_at_def)
  qed
qed

lemma append_bounded_fits: "length buf + length str < len \<Longrightarrow> append_bounded len buf str = buf @ str"
  by (simp add: append_bounded_def str_lcpy_def)

lemma fold_path_text:
  assumes "length buf + length (path_text P) < len"
  shows "fold (\<lambda>name buf. append_bounded len (append_bounded len buf ''/'') name) P buf = buf @ path_text P"
  using assms
proof (induction P arbitrary: buf)
  case (Cons x P)
  then show ?case
    using Cons.IH [of "buf @ CHR ''/'' # x"]
      append_bounded_fits [of buf "''/''" len] append_bounded_fits [of "buf @ ''/''" x len]
    by (simp add: path_text_def)
qed (simp add: path_text_def)

text \<open>What \<^verbatim>\<open>ramfs_path\<close> prints of a node at \<open>P\<close>: its deepest 32 names.\<close>

definition shown_path :: "string list \<Rightarrow> string" where
  "shown_path P = (if P = [] then ''/'' else path_text (drop (length P - 32) P))"

lemma ramfs_path_at:
  assumes ok: "fs_ok K s" and P: "named s P p" and len: "length (shown_path P) < len"
  shows "ramfs_path p len s = ret (shown_path P)"
proof -
  have f: "forest (nodes s) {root s} K" using ok by (simp add: fs_ok_def)
  obtain n where n: "nodes s p = Some n" using at_dom(1) [OF ok P] by blast
  have top: "n_parent n = NULL \<longleftrightarrow> P = []"
  proof (cases P rule: rev_exhaust)
    case Nil
    then show ?thesis using P forestD(6) [OF f n] by simp
  next
    case (snoc Q x)
    then show ?thesis using P n by (auto simp: at_snoc edges_iff)
  qed
  show ?thesis
  proof (cases "P = []")
    case True
    then show ?thesis using n top len by (simp add: ramfs_path_def node_at_def shown_path_def str_lcpy_def)
  next
    case False
    have "rev (take 32 (rev P)) = drop (length P - 32) P" by (simp add: rev_take)
    then show ?thesis
      using False n top len path_chain_at [OF ok P, of 0] fold_path_text [of "[]" "drop (length P - 32) P" len]
      by (simp add: ramfs_path_def node_at_def shown_path_def)
  qed
qed

section \<open>Mounting\<close>

text \<open>A filesystem in a known state, with room for \<open>k\<close> more bytes.\<close>

definition mounted :: "(string list \<times> entry) set \<Rightarrow> nat \<Rightarrow> 'a ramfs_scheme \<Rightarrow> bool" where
  "mounted V k s \<longleftrightarrow> ramfs_inv s \<and> fs_view s = V \<and> has_room k (heap s)"

text \<open>Only heap, nodes and root change while mounting.\<close>

definition fs_moved :: "'a ramfs_scheme \<Rightarrow> 'a ramfs_scheme \<Rightarrow> bool" where
  "fs_moved s s' \<longleftrightarrow> s' = s\<lparr>heap := heap s', nodes := nodes s', root := root s'\<rparr>"

lemma fs_moved_refl [simp]: "fs_moved s s"
  by (simp add: fs_moved_def)

lemma fs_moved_trans: "fs_moved s t \<Longrightarrow> fs_moved t u \<Longrightarrow> fs_moved s u"
  unfolding fs_moved_def by (erule ssubst [of u], erule ssubst [of t]) simp

lemma fs_moved_only: "fs_only s s' \<Longrightarrow> fs_moved s s'"
  unfolding fs_moved_def fs_only_def by (erule ssubst [of s']) simp

lemma mount_root:
  assumes e: "nodes s = Map.empty" "heap_inv (heap s)" and room: "has_room k (heap s)" "103 \<le> k"
  obtains s' r where "node_new [] RAMFS_DIR s = ret (s', r)" "mounted {([], Dir)} (k - 87) (s'\<lparr>root := r\<rparr>)"
    "fs_moved s (s'\<lparr>root := r\<rparr>)"
proof -
  have st: "store_ok (nodes s) (heap s)" using e by (simp add: store_ok_def)
  obtain h n where k: "kzalloc (heap s) sizeof_node = ret (h, n)" "n \<noteq> NULL" "has_room (k - 87) h"
    by (rule kzalloc_room [OF room(1), of sizeof_node]) (use room(2) in simp_all)
  from st show thesis
  proof (cases rule: node_new_spec [of s "[]" RAMFS_DIR])
    case full
    then show thesis using k(1,2) by (simp add: node_new_def)
  next
    case (new h' r c z)
    let ?s = "s\<lparr>heap := h', nodes := (nodes s)(r \<mapsto> z), root := r\<rparr>"
    have "heap (fst (s\<lparr>heap := h', nodes := (nodes s)(r \<mapsto> z)\<rparr>, r)) = h"
    proof -
      have "\<exists>s'. node_new [] RAMFS_DIR s = ret (s', n) \<and> heap s' = h" using k(1,2) by (simp add: node_new_def)
      then show ?thesis using new(1) by auto
    qed
    then have h: "h' = h" by simp
    have z: "n_parent z = NULL" "n_children z = NULL" "n_type z = RAMFS_DIR" by (simp_all add: new(2) zero_node_def)
    have f: "forest (Map.empty :: store) {} (\<lambda>_. [])" by (simp add: forest_def edges_def acyclic_def)
    have "forest ((nodes s)(r \<mapsto> z)) {r} ((\<lambda>_. [])(r := []))"
      using forest_new [OF f _ new(3) z(1,2)] e(1) by simp
    then have "fs_ok ((\<lambda>_. [])(r := [])) ?s" using new(5) z(3) by (simp add: fs_ok_def dir_at_def)
    moreover have "fs_view ?s = {([], Dir)}"
    proof -
      have "at ((nodes s)(r \<mapsto> z)) r P p \<longleftrightarrow> P = [] \<and> p = r" for P p
        using at_new(3) [OF f _ z(1), of r P p] e(1) by simp
      then show ?thesis using z(3) by (auto simp: fs_view_def entry_of_def)
    qed
    moreover have "has_room (k - 87) h'" using k(3) h by simp
    ultimately have "mounted {([], Dir)} (k - 87) ?s" by (auto simp: mounted_def ramfs_inv_def)
    then show thesis using that [OF new(1)] by (simp add: fs_moved_def)
  qed
qed

lemma mounted_create:
  assumes m: "mounted V k s" and path: "NUL \<notin> set path"
    and Q: "create_path V [] (components path) = Some Q" and room: "103 \<le> k"
  obtains s' n where "ramfs_create (root s) path ty s = ret (s', n)" "n \<noteq> NULL" "named s' Q n" "fs_kept s s'"
    "mounted (insert (Q, if ty = RAMFS_FILE then File [] else Dir) V) (k - 87) s'"
proof -
  obtain K where ok: "fs_ok K s" and V: "fs_view s = V" "has_room k (heap s)"
    using m by (auto simp: mounted_def ramfs_inv_def)
  have r: "named s [] (root s)" by simp
  have sp: "start_path [] path = []" by (simp add: start_path_def)
  obtain s' n where c: "ramfs_create (root s) path ty s = ret (s', n)" "n \<noteq> NULL" "has_room (k - 87) (heap s')"
    using create_room [OF ok r path _ V(2) room] Q V(1) sp by metis
  then show thesis
    using that [OF c(1,2)] ramfs_create_view [OF ok r path, of ty] Q V(1) sp
    by (auto simp: mounted_def fs_kept_def)
qed

text \<open>The directories a list of paths names, made one after the other.\<close>

primrec legal_dirs :: "(string list \<times> entry) set \<Rightarrow> string list \<Rightarrow> bool" where
  "legal_dirs V [] \<longleftrightarrow> True"
| "legal_dirs V (d # ds) \<longleftrightarrow> NUL \<notin> set d \<and> create_path V [] (components d) = Some (components d) \<and>
     legal_dirs (insert (components d, Dir) V) ds"

lemma create_dirs_view:
  assumes "mounted V k s" "legal_dirs V ds" "87 * length ds + 16 \<le> k"
  shows "\<exists>s'. create_dirs ds s = ret s' \<and> fs_moved s s' \<and>
    mounted ((\<lambda>d. (components d, Dir)) ` set ds \<union> V) (k - 87 * length ds) s'"
  using assms
proof (induction ds arbitrary: V k s)
  case (Cons d ds)
  obtain s1 n where s1: "ramfs_create (root s) d RAMFS_DIR s = ret (s1, n)"
    "mounted (insert (components d, Dir) V) (k - 87) s1" "fs_kept s s1"
    by (rule mounted_create [OF Cons.prems(1), of d "components d" RAMFS_DIR]) (use Cons.prems in auto)
  have "\<exists>s'. create_dirs ds s1 = ret s' \<and> fs_moved s1 s' \<and>
      mounted ((\<lambda>d. (components d, Dir)) ` set ds \<union> insert (components d, Dir) V) (k - 87 - 87 * length ds) s'"
    by (rule Cons.IH [OF s1(2)]) (use Cons.prems in auto)
  moreover have "fs_moved s s1" using s1(3) fs_moved_only [of s s1] by (simp add: fs_kept_def)
  ultimately show ?case using s1(1) fs_moved_trans by (fastforce simp: algebra_simps)
qed (simp add: mounted_def)

lemma preload_view:
  assumes m: "mounted V k s" and path: "NUL \<notin> set path"
    and Q: "create_path V [] (components path) = Some Q"
    and room: "2 * length body + 194 \<le> k" "length body \<le> 2 ^ 30"
  shows "\<exists>s'. preload_file path body s = ret s' \<and> fs_moved s s' \<and> mounted (insert (Q, File body) V) (k - (2 * length body + 178)) s'"
proof -
  obtain s1 n where s1: "ramfs_create (root s) path RAMFS_FILE s = ret (s1, n)" "n \<noteq> NULL" "named s1 Q n"
    "mounted (insert (Q, File []) V) (k - 87) s1" "fs_kept s s1"
    by (rule mounted_create [OF m path Q, of RAMFS_FILE]) (use room in auto)
  obtain K where ok: "fs_ok K s1" and V: "fs_view s1 = insert (Q, File []) V" "has_room (k - 87) (heap s1)"
    using s1(4) by (auto simp: mounted_def ramfs_inv_def)
  have fresh: "Q \<notin> fst ` V" using Q by (auto simp: create_path_def split: if_splits option.splits)
  have len: "unat (of_nat (length body) :: u32) = length body" using room(2) by (intro unat_of_nat_u32) simp
  have src: "buffer_ok (Const body) (of_nat (length body)) (n_data (the (nodes s1 n))) (heap s1)"
    by (simp add: len)
  have old: "(Q, File []) \<in> fs_view s1" by (simp add: V(1))
  have need: "length body = length (if False then [] else []) + unat (of_nat (length body) :: u32)"
    by (simp add: len)
  obtain s2 where s2: "ramfs_write n (Const body) (of_nat (length body)) False s1 = ret (s2, True)"
    "has_room (k - 87 - (2 * length body + 91)) (heap s2)"
    by (rule write_room [OF ok s1(3) old src need room(2) V(2)]) (use room(1) in simp_all)
  have W: "ramfs_inv s2" "fs_view s2 = {(R, e) \<in> fs_view s1. R \<noteq> Q} \<union> {(Q, File body)}" "fs_only s1 s2"
    using ramfs_write_view [OF ok s1(3) old src, of False] s2(1) room(2) len by simp_all
  have "fs_view s2 = insert (Q, File body) V" using fresh unfolding W(2) V(1) by force
  then have "mounted (insert (Q, File body) V) (k - (2 * length body + 178)) s2"
    using s2(2) W(1) by (simp add: mounted_def add.commute)
  moreover have "fs_moved s s2"
    using fs_moved_trans [OF fs_moved_only fs_moved_only [OF W(3)]] s1(5) by (simp add: fs_kept_def)
  ultimately show ?thesis using s1(1,2) s2(1) by (simp add: preload_file_def)
qed

section \<open>The initial tree\<close>

definition initial_dirs :: "string list set" where
  "initial_dirs = {[], [''bin''], [''etc''], [''home''], [''home'', ''user''], [''tmp''], [''usr''], [''var'']}"

definition initial_view :: "(string list \<times> entry) set" where
  "initial_view = (\<lambda>P. (P, Dir)) ` initial_dirs \<union>
     {([''etc'', ''motd''], File motd_text), ([''etc'', ''os-release''], File os_release_text),
      ([''README.txt''], File readme_text)}"

lemmas view_eval = create_path_def valid_name_def RAMFS_NAME_MAX_def components_def

lemma text_lengths: "length motd_text = 83" "length os_release_text = 137" "length readme_text = 241"
  by (simp_all add: motd_text_def os_release_text_def readme_text_def RAPTOR_NAME_def RAPTOR_VERSION_def
      RAPTOR_CODENAME_def)

lemma ramfs_init_mounts:
  assumes "nodes s = Map.empty" "heap_inv (heap s)" "has_room k (heap s)" "4096 \<le> k"
  shows "\<exists>s'. ramfs_init s = ret s' \<and> fs_moved s s' \<and> mounted initial_view (k - 4096) s'"
proof -
  obtain s1 r where s1: "node_new [] RAMFS_DIR s = ret (s1, r)" "mounted {([], Dir)} (k - 87) (s1\<lparr>root := r\<rparr>)"
    "fs_moved s (s1\<lparr>root := r\<rparr>)"
    by (rule mount_root [OF assms(1-3)]) (use assms(4) in simp)
  let ?ds = "[''/bin'', ''/etc'', ''/home'', ''/home/user'', ''/tmp'', ''/usr'', ''/var'']"
  have legal: "legal_dirs {([], Dir)} ?ds" by (simp add: view_eval)
  have big: "87 * length ?ds + 16 \<le> k - 87" using assms(4) by simp
  obtain s2 where s2: "create_dirs ?ds (s1\<lparr>root := r\<rparr>) = ret s2"
    "mounted ((\<lambda>d. (components d, Dir)) ` set ?ds \<union> {([], Dir)}) (k - 87 - 87 * length ?ds) s2"
    "fs_moved (s1\<lparr>root := r\<rparr>) s2"
    using create_dirs_view [OF s1(2) legal big] by blast
  have dirs: "(\<lambda>d. (components d, Dir)) ` set ?ds \<union> {([], Dir)} = (\<lambda>P. (P, Dir)) ` initial_dirs"
    by (auto simp: components_def initial_dirs_def)
  let ?V = "(\<lambda>P. (P, Dir)) ` initial_dirs"
  have m2: "mounted ?V (k - 696) s2" using s2(2) unfolding dirs by simp
  obtain s3 where s3: "preload_file ''/etc/motd'' motd_text s2 = ret s3"
    "mounted (insert ([''etc'', ''motd''], File motd_text) ?V) (k - 696 - 344) s3"
    "fs_moved s2 s3"
    by (rule exE [OF preload_view [OF m2, of "''/etc/motd''" "[''etc'', ''motd'']" motd_text]])
      (use assms(4) in \<open>simp_all add: view_eval initial_dirs_def text_lengths\<close>)
  obtain s4 where s4: "preload_file ''/etc/os-release'' os_release_text s3 = ret s4"
    "mounted (insert ([''etc'', ''os-release''], File os_release_text)
       (insert ([''etc'', ''motd''], File motd_text) ?V)) (k - 696 - 344 - 452) s4"
    "fs_moved s3 s4"
    by (rule exE [OF preload_view [OF s3(2), of "''/etc/os-release''" "[''etc'', ''os-release'']" os_release_text]])
      (use assms(4) in \<open>simp_all add: view_eval initial_dirs_def text_lengths\<close>)
  obtain s5 where s5: "preload_file ''/README.txt'' readme_text s4 = ret s5"
    "mounted (insert ([''README.txt''], File readme_text) (insert ([''etc'', ''os-release''], File os_release_text)
       (insert ([''etc'', ''motd''], File motd_text) ?V))) (k - 696 - 344 - 452 - 660) s5"
    "fs_moved s4 s5"
    by (rule exE [OF preload_view [OF s4(2), of "''/README.txt''" "[''README.txt'']" readme_text]])
      (use assms(4) in \<open>simp_all add: view_eval initial_dirs_def text_lengths\<close>)
  have "initial_view = insert ([''README.txt''], File readme_text) (insert ([''etc'', ''os-release''], File os_release_text)
       (insert ([''etc'', ''motd''], File motd_text) ?V))" unfolding initial_view_def by blast
  then have "mounted initial_view (k - 4096) s5"
    using s5(2) has_room_mono [of "k - 2152" "heap s5" "k - 4096"] by (simp add: mounted_def)
  moreover have "fs_moved s s5"
    using s1(3) s2(3) s3(3) s4(3) s5(3) by (blast intro: fs_moved_trans)
  ultimately show ?thesis using s1(1) s2(1) s3(1) s4(1) s5(1) by (simp add: ramfs_init_def)
qed

text \<open>A machine on which the boot code has run up to the mount.\<close>

definition ramfs_boot :: ramfs where
  "ramfs_boot = console.extend ((console_boot (\<lambda>_. 0x20) (\<lambda>_. None))\<lparr>heap := boot_heap\<rparr>)
     \<lparr>nodes = Map.empty, root = NULL\<rparr>"

lemma ramfs_boot_ready:
  "nodes ramfs_boot = Map.empty" "heap_inv (heap ramfs_boot)" "has_room 4194284 (heap ramfs_boot)"
proof -
  have h: "heap ramfs_boot = boot_heap" by (simp add: ramfs_boot_def console.defs)
  show "heap_inv (heap ramfs_boot)" using boot_heap_inv(1) h by simp
  show "nodes ramfs_boot = Map.empty" by (simp add: ramfs_boot_def console.defs)
  show "has_room 4194284 (heap ramfs_boot)" using boot_heap_rep h by (force simp: has_room_def)
qed

lemma booted:
  obtains s where "ramfs_init ramfs_boot = ret s" "mounted initial_view 4000000 s"
  using ramfs_init_mounts [OF ramfs_boot_ready] has_room_mono [of 4190188 _ 4000000] by (auto simp: mounted_def)

end
