(* ===== verification/ShellFiles.thy ===== *)
theory ShellFiles
  imports ShellText RamfsBoot
begin

text \<open>
  The shell on the filesystem: commands that read and change files, and output redirection, which
  runs a command with the console captured into a heap buffer and saves the buffer to a file.
\<close>

section \<open>Frames\<close>

text \<open>
  Whatever keeps the nodes, the live blocks of the filesystem and their bytes keeps the filesystem.
\<close>

definition fs_blocks_kept :: "'a ramfs_scheme \<Rightarrow> 'b ramfs_scheme \<Rightarrow> bool" where
  "fs_blocks_kept s t \<longleftrightarrow> nodes t = nodes s \<and> root t = root s \<and> heap_inv (heap t) \<and>
     (\<forall>a c. (a, c) \<in> live (heap s) \<longrightarrow> a \<in> fs_blocks s \<longrightarrow>
        (a, c) \<in> live (heap t) \<and> (\<forall>i < c. bytes (heap t) (a + of_nat i) = bytes (heap s) (a + of_nat i)))"

lemma fs_frame:
  assumes ok: "fs_ok K s" and k: "fs_blocks_kept s t"
  shows "fs_ok K t" "fs_view t = fs_view s" "named t = named s" "fs_blocks t = fs_blocks s"
proof -
  have st: "store_ok (nodes s) (heap s)" using ok by (simp add: fs_ok_def)
  have n: "nodes t = nodes s" "root t = root s" "heap_inv (heap t)" using k by (simp_all add: fs_blocks_kept_def)
  have keep: "(a, c) \<in> live (heap t) \<and> (\<forall>i < c. bytes (heap t) (a + of_nat i) = bytes (heap s) (a + of_nat i))"
    if "(a, c) \<in> live (heap s)" "a \<in> fs_blocks s" for a c
    using k that by (simp add: fs_blocks_kept_def)
  have own: "p \<in> fs_blocks s" "n_data m \<noteq> NULL \<Longrightarrow> n_data m \<in> fs_blocks s" if m: "nodes s p = Some m" for p m
    using m forestD(10) [of "nodes s" _ _ p m] ok by (auto simp: fs_blocks_iff fs_ok_def)
  have "(\<exists>c \<ge> unat sizeof_node. (p, c) \<in> live (heap t)) \<and> data_ok (nodes s) (heap t) m" if m: "nodes s p = Some m" for p m
    using store_okD(2-6) [OF st m] own [OF m] keep by (auto simp: data_ok_def)
  then have "store_ok (nodes s) (heap t)" using n(3) store_okD(7) [OF st] unfolding store_ok_def by blast
  then show "fs_ok K t" using ok n by (simp add: fs_ok_def)
  show "named t = named s" "fs_blocks t = fs_blocks s" using n by (simp_all add: fs_blocks_def)
  have "contents (heap t) m = contents (heap s) m" if m: "nodes s p = Some m" for p m
  proof (cases "n_data m = NULL")
    case True
    then show ?thesis using store_okD(3,4) [OF st m] by (simp add: contents_def word_le_nat_alt)
  next
    case False
    then obtain c where c: "unat (n_capacity m) \<le> c" "(n_data m, c) \<in> live (heap s)" using store_okD(6) [OF st m] by blast
    have "unat (n_size m) \<le> c" using c(1) store_okD(3) [OF st m] by (simp add: word_le_nat_alt)
    then show ?thesis using keep [OF c(2)] own(2) [OF m False] by (simp add: contents_def)
  qed
  then have "entry_of (heap t) m = entry_of (heap s) m" if "nodes s p = Some m" for p m
    using that by (simp add: entry_of_def)
  then show "fs_view t = fs_view s" unfolding fs_view_def n by (auto 4 3)
qed

lemma fs_frame_inv:
  assumes "ramfs_inv s" "fs_blocks_kept s t"
  shows "ramfs_inv t" "fs_view t = fs_view s" "named t = named s" "fs_blocks t = fs_blocks s"
  using assms fs_frame unfolding ramfs_inv_def by blast+

lemma fs_only_kernel:
  fixes s s' :: "'a kernel_scheme"
  assumes "fs_only s s'"
  shows "shell_cwd s' = shell_cwd s" "capture_buf s' = capture_buf s" "root s' = root s"
proof -
  note eq = assms [unfolded fs_only_def]
  show "shell_cwd s' = shell_cwd s" by (subst eq) simp
  show "capture_buf s' = capture_buf s" by (subst eq) simp
  show "root s' = root s" by (subst eq) simp
qed

section \<open>Saving captured output\<close>

lemma redirect_saves:
  assumes "rf.save (shell_cwd s) path (At data) len app s = ret (s', True)"
  shows "redirect_to_file path data len app s = ret s'"
proof -
  let ?save = "\<lambda>(s, f). if f = NULL then ret (s, False) else ramfs_write f (At data) len app s"
  let ?rest = "\<lambda>(s, f). run_bind (if f = NULL then ret False
               else run_bind (node_at f s) (\<lambda>n. ret (n_type n = RAMFS_FILE))) (\<lambda>is_file.
     if \<not> is_file then kprintf (''rsh: cannot write to %s'' @ [NL]) [Str (Some path)] s
     else run_bind (ramfs_write f (At data) len app s) (\<lambda>(s, ok).
          if \<not> ok then kprintf (''rsh: write to %s failed'' @ [NL]) [Str (Some path)] s
          else ret s))"
  have step: "?rest (t, f) = ret s'" if w: "?save (t, f) = ret (s', True)" for t f
  proof -
    have f: "f \<noteq> NULL" "ramfs_write f (At data) len app t = ret (s', True)" using w by (auto split: if_splits)
    then obtain n where "nodes t f = Some n" "n_type n = RAMFS_FILE"
      by (cases "nodes t f") (auto simp: ramfs_write_def node_at_def split: if_splits)
    then show ?thesis using f by (simp add: node_at_def)
  qed
  obtain f where f: "ramfs_resolve (shell_cwd s) path s = ret f"
    using assms unfolding rf.save_def run_bind_def ret_def
    by (auto split: Option.bind_splits outcome.splits)
  obtain t g where g: "(if f = NULL then ramfs_create (shell_cwd s) path RAMFS_FILE s else ret (s, f)) = ret (t, g)"
    "?save (t, g) = ret (s', True)"
    using assms f unfolding rf.save_def run_bind_def ret_def
    by (auto split: Option.bind_splits outcome.splits if_splits)
  show ?thesis using f g(1) step [OF g(2)] by (simp add: redirect_to_file_def)
qed

lemma fs_blocks_live:
  assumes "ramfs_inv s" "a \<in> fs_blocks s"
  shows "\<exists>c. (a, c) \<in> live (heap s)"
  using assms store_okD(2,6) [of "nodes s" "heap s"] by (auto simp: ramfs_inv_def fs_ok_def fs_blocks_iff) blast+

text \<open>The state of a redirection after the command: the captured text is a buffer outside the filesystem.\<close>

definition captured :: "addr \<Rightarrow> kheap \<Rightarrow> string \<Rightarrow> 'a kernel_scheme \<Rightarrow> 'a kernel_scheme" where
  "captured buf h body s = s\<lparr>heap := h\<lparr>bytes := poke buf body (bytes h)\<rparr>,
     capture_buf := NULL, capture_cap := CAPTURE_MAX, capture_len := of_nat (length body)\<rparr>"

lemma capture_runs:
  assumes "buf \<noteq> NULL" and body: "body = take (unat CAPTURE_MAX) out"
  shows "run_bind (console_write out (console_capture_begin buf CAPTURE_MAX (s\<lparr>heap := h\<rparr>))) (\<lambda>s. ret (console_capture_end s)) =
    ret (captured buf h body s, of_nat (length body))"
proof -
  let ?s = "console_capture_begin buf CAPTURE_MAX (s\<lparr>heap := h\<rparr>)"
  have k: "min (length out) (unat CAPTURE_MAX) = length body" "take (length body) out = body"
    by (auto simp: body min_def)
  have "console_write out ?s =
    (let k = min (length out) (unat (capture_cap ?s) - unat (capture_len ?s)) in
     ret (?s\<lparr>heap := (heap ?s)\<lparr>bytes := poke (capture_buf ?s + capture_len ?s) (take k out) (bytes (heap ?s))\<rparr>,
           capture_len := capture_len ?s + of_nat k\<rparr>))"
    by (rule console_write_capture) (simp_all add: console_capture_begin_def assms(1))
  then show ?thesis
    using k by (simp add: console_capture_begin_def console_capture_end_def captured_def Let_def)
qed

lemma captured_fs:
  fixes s :: "'a kernel_scheme"
  assumes inv: "ramfs_inv s" and h: "heap_inv h" "live h = insert (buf, c) (live (heap s))" "bytes h = bytes (heap s)"
    and buf: "buf \<notin> fst ` live (heap s)" "length body \<le> c"
  shows "fs_blocks_kept s (captured buf h body s)" "fs_source (captured buf h body s) (At buf) (of_nat (length body)) body"
proof -
  let ?t = "captured buf h body s"
  have c: "unat buf + c < 2 ^ 32" using live_bounds [OF h(1), of buf c] h(2) by simp
  have len: "unat (of_nat (length body) :: u32) = length body" using buf(2) c by (intro unat_of_nat_u32) simp
  have apart: "a + of_nat i \<noteq> buf + of_nat j" if "(a, d) \<in> live (heap s)" "i < d" "j < length body" for a d i j
    by (rule kh.block_bytes_distinct [OF h(1), of a d buf c]) (use that h(2) buf in force)+
  show kept: "fs_blocks_kept s ?t"
    using h apart by (auto simp: fs_blocks_kept_def captured_def intro!: poke_outside)
  have "buf \<notin> fs_blocks ?t"
    using fs_frame_inv(4) [OF inv kept] fs_blocks_live [OF inv] buf(1) by force
  moreover have "map (\<lambda>i. poke buf body (bytes h) (buf + of_nat i)) [0..<length body] = body"
    using c buf(2) poke_inside [of _ body buf "bytes h"] by (intro nth_equalityI) simp_all
  ultimately show "fs_source ?t (At buf) (of_nat (length body)) body"
    using h(2) buf(2) len by (auto simp: fs_source_def captured_def)
qed

text \<open>The tail of \<^verbatim>\<open>execute\<close> for a redirected command that only prints.\<close>

definition redirect_run ::
    "command \<Rightarrow> string list \<Rightarrow> bool \<Rightarrow> string \<Rightarrow> 'a kernel_scheme \<Rightarrow> 'a kernel_scheme run" where
  "redirect_run cmd argv app path s =
     run_bind (kmalloc (heap s) CAPTURE_MAX) (\<lambda>(h, buf).
     let s = s\<lparr>heap := h\<rparr> in
     if buf = NULL then console_write (''rsh: out of memory for redirection'' @ [NL]) s
     else run_bind (run_command cmd argv (console_capture_begin buf CAPTURE_MAX s)) (\<lambda>(s, _).
          case console_capture_end s of (s, len) \<Rightarrow>
          run_bind (redirect_to_file path buf len app s) (\<lambda>s.
          run_bind (kfree (heap s) buf) (\<lambda>h. ret (s\<lparr>heap := h\<rparr>)))))"

lemma redirect_run_saves:
  fixes s :: "'a kernel_scheme"
  assumes inv: "ramfs_inv s" and C: "named s C (shell_cwd s)" and path: "NUL \<notin> set path"
    and t: "write_target (fs_view s) C path Q old"
    and prints: "\<And>u :: 'a kernel_scheme. run_command cmd argv u = run_bind (console_write out u) (\<lambda>u. ret (u, st))"
    and body: "body = take (unat CAPTURE_MAX) out"
    and n: "n = length (if app then old else []) + length body" "n \<le> 2 ^ 30"
    and k: "has_room k (heap s)" "2 * n + 17000 \<le> k"
  shows "\<exists>s'. redirect_run cmd argv app path s = ret s' \<and> ramfs_inv s' \<and> capture_buf s' = NULL \<and>
    shell_cwd s' = shell_cwd s \<and> has_room (k - (2 * n + 16600)) (heap s') \<and>
    fs_view s' = {(R, e) \<in> fs_view s. R \<noteq> Q} \<union> {(Q, File ((if app then old else []) @ body))}"
proof -
  have cap: "unat CAPTURE_MAX = 16384" by (simp add: CAPTURE_MAX_def)
  have hinv: "heap_inv (heap s)" using inv store_okD(1) by (auto simp: ramfs_inv_def fs_ok_def)
  obtain h buf where a: "kmalloc (heap s) CAPTURE_MAX = ret (h, buf)" "buf \<noteq> NULL" "has_room (k - 16411) h"
    by (rule kmalloc_room [OF k(1), of CAPTURE_MAX]) (use k(2) cap in simp_all)
  obtain c where h: "heap_inv h" "bytes h = bytes (heap s)" "16384 \<le> c" "live h = insert (buf, c) (live (heap s))"
      "buf \<notin> fst ` live (heap s)"
    using kmalloc_live [OF hinv, of CAPTURE_MAX] a(1,2) cap by auto
  have len: "length body \<le> c" using body cap h(3) by simp
  let ?t = "captured buf h body s"
  note F = captured_fs [OF inv h(1,4,2,5) len]
  note T = fs_frame_inv [OF inv F(1)]
  have troom: "has_room (k - 16411) (heap ?t)" "2 * n + 194 \<le> k - 16411" using a(3) k(2) by (simp_all add: captured_def)
  have cwd: "named ?t C (shell_cwd s)" "write_target (fs_view ?t) C path Q old" using T C t by simp_all
  obtain s3 where s3: "rf.save (shell_cwd s) path (At buf) (of_nat (length body)) app ?t = ret (s3, True)" "ramfs_inv s3"
      "fs_kept ?t s3" "has_room (k - 16411 - (2 * n + 178)) (heap s3)"
      "fs_view s3 = {(R, e) \<in> fs_view ?t. R \<noteq> Q} \<union> {(Q, File ((if app then old else []) @ body))}"
    using rfs.save_succeeds [OF T(1) cwd(1) path cwd(2) F(2) n troom] by blast
  have only: "fs_only ?t s3" and foreign: "foreign_kept ?t s3" using s3(3) by (simp_all add: fs_kept_def)
  have fields: "shell_cwd s3 = shell_cwd s" "capture_buf s3 = NULL"
    using fs_only_kernel [OF only] by (simp_all add: captured_def)
  have bufs: "(buf, c) \<in> live (heap s3)" "buf \<notin> fs_blocks s3"
  proof -
    have "(buf, c) \<in> live (heap ?t)" "buf \<notin> fs_blocks ?t"
      using h(4,5) T(4) fs_blocks_live [OF inv] by (force simp: captured_def)+
    then show "(buf, c) \<in> live (heap s3)" "buf \<notin> fs_blocks s3" using foreign unfolding foreign_kept_def by blast+
  qed
  have inv3: "heap_inv (heap s3)" using s3(2) store_okD(1) by (auto simp: ramfs_inv_def fs_ok_def)
  obtain h4 where h4: "kfree (heap s3) buf = ret h4" "heap_inv h4" "live h4 = live (heap s3) - {(buf, c)}"
      "bytes h4 = bytes (heap s3)"
    using kfree_live [OF inv3 bufs(1)] by blast
  have room4: "has_room (k - 16411 - (2 * n + 178)) h4"
    by (rule kfree_room [OF s3(4), of buf c]) (use bufs(1) h4(1) in auto)
  have "fs_blocks_kept s3 (s3\<lparr>heap := h4\<rparr>)" using h4 bufs(2) by (auto simp: fs_blocks_kept_def)
  note S = fs_frame_inv [OF s3(2) this]
  have "redirect_to_file path buf (of_nat (length body)) app ?t = ret s3"
    by (rule redirect_saves) (use s3(1) in \<open>simp add: captured_def\<close>)
  moreover have "redirect_run cmd argv app path s =
      run_bind (run_bind (console_write out (console_capture_begin buf CAPTURE_MAX (s\<lparr>heap := h\<rparr>)))
        (\<lambda>s. ret (console_capture_end s))) (\<lambda>(s, len). run_bind (redirect_to_file path buf len app s) (\<lambda>s.
        run_bind (kfree (heap s) buf) (\<lambda>h. ret (s\<lparr>heap := h\<rparr>))))"
    using a(1,2) prints by (simp add: redirect_run_def run_bind_assoc Let_def)
  ultimately have "redirect_run cmd argv app path s = ret (s3\<lparr>heap := h4\<rparr>)"
    using capture_runs [OF a(2) body, of h s] h4(1) by simp
  moreover have "has_room (k - (2 * n + 16600)) h4" by (rule has_room_mono [OF room4]) simp
  ultimately show ?thesis using S(1,2) s3(5) T(2) fields by (intro exI [of _ "s3\<lparr>heap := h4\<rparr>"]) simp
qed

end
