(* ===== verification/ShellProps.thy ===== *)
theory ShellProps
  imports ShellFiles
begin

text \<open>
  Properties of the shell and of its commands (shell/shell.c, shell/commands.c).
\<close>

section \<open>Words and history\<close>

text \<open>
  C30. \<^verbatim>\<open>tokenize\<close> reads back what was quoted: for words without a double quote, written plainly when
  they are not empty and have no blank, and between double quotes otherwise, separated by blanks, it returns exactly
  these words, in order, cut after the first \<open>max\<close>.
\<close>

theorem tokenize_roundtrip:
  assumes "\<forall>w \<in> set ws. DQ \<notin> set w"
  shows "tokenize (join_words ws) maxargs = take maxargs ws"
  using tokenize_join [OF assms, of 0 maxargs] by (simp add: tokenize_def)

theorem tokenize_roundtrip_witness:
  "tokenize (''echo '' @ [DQ] @ ''two words'' @ [DQ] @ '' > f'') 16 = [''echo'', ''two words'', ''>'', ''f'']"
proof -
  have "join_words [''echo'', ''two words'', ''>'', ''f''] = ''echo '' @ [DQ] @ ''two words'' @ [DQ] @ '' > f''"
    by (simp add: quote_def plain_word_def DQ_def)
  moreover have "\<forall>w \<in> set [''echo'', ''two words'', ''>'', ''f'']. DQ \<notin> set w" by (simp add: DQ_def)
  ultimately show ?thesis using tokenize_roundtrip [of "[''echo'', ''two words'', ''>'', ''f'']" 16] by simp
qed

text \<open>
  The history ring keeps the last 16 lines: after any sequence of \<^verbatim>\<open>history_add\<close> calls from boot,
  \<^verbatim>\<open>shell_history(i)\<close> is the \<open>i\<close>-th oldest of the last 16 lines, each cut to 255 characters, and NULL
  for every other index.
\<close>

theorem history_keeps_last:
  assumes "history_total s = 0"
  shows "shell_history i (fold history_add ls s) =
    (if 0 \<le> i \<and> i < int (min 16 (length ls))
     then Some (take 255 (ls ! (length ls - min 16 (length ls) + nat i))) else None)"
proof -
  have "history_holds [] s" using assms by (simp add: history_holds_def)
  then have h: "history_holds ls (fold history_add ls s)" using history_fold [of "[]" s ls] by simp
  have "length (last_lines ls) = min 16 (length ls)" by (simp add: last_lines_def SHELL_HISTORY_MAX_def)
  moreover have "last_lines ls ! nat i = take 255 (ls ! (length ls - min 16 (length ls) + nat i))"
    if "0 \<le> i" "i < int (min 16 (length ls))"
    using that by (cases "16 \<le> length ls")
      (simp_all add: last_lines_def SHELL_HISTORY_MAX_def SHELL_LINE_MAX_def str_lcpy_def nat_less_iff)
  ultimately show ?thesis unfolding history_lookup(2) [OF h] by simp
qed

theorem history_keeps_last_witness:
  "\<exists>s :: kernel. shell_history 0 (fold history_add (map (\<lambda>i. replicate i CHR ''x'') [0..<20]) s) = Some (replicate 4 CHR ''x'')"
proof -
  obtain s :: kernel where "history_total s = 0"
    using that [of "x\<lparr>history_total := 0\<rparr>" for x] by simp
  from history_keeps_last [OF this, of 0 "map (\<lambda>i. replicate i CHR ''x'') [0..<20]"] show ?thesis by auto
qed

section \<open>Redirection\<close>

text \<open>What \<^verbatim>\<open>echo\<close> prints: its arguments with single blanks between them, and a newline.\<close>

fun echo_rest :: "string list \<Rightarrow> string" where
  "echo_rest [] = []"
| "echo_rest (w # ws) = CHR '' '' # w @ echo_rest ws"

lemma echo_loop_rest: "echo_loop ws False s = console_write (echo_rest ws) s"
  by (induction ws arbitrary: s) (auto simp: console_write_append run_bind_assoc intro!: run_bind_ext)

definition echo_line :: "string list \<Rightarrow> string" where
  "echo_line ws = (case ws of [] \<Rightarrow> [] | w # ws \<Rightarrow> w @ echo_rest ws) @ [NL]"

lemma cmd_echo_prints: "run_command Echo (c # ws) s = run_bind (console_write (echo_line ws) s) (\<lambda>s. ret (s, 0))"
  by (cases ws)
    (simp_all add: cmd_echo_def finish_def echo_line_def echo_loop_rest console_write_append console_write_Nil run_bind_assoc run_bind_ret_right)

lemma is_redirect_iff: "NUL \<notin> set w \<Longrightarrow> is_redirect w \<longleftrightarrow> w = ''>'' \<or> w = ''>>''"
  by (simp add: is_redirect_def str_cmp_eq_0)

lemma split_redirect_at:
  assumes "\<forall>w \<in> set ws. NUL \<notin> set w \<and> w \<notin> {''>'', ''>>''}" "v = (if app then ''>>'' else ''>'')"
  shows "split_redirect (ws @ v # rest) = (ws, Some (app, rest))"
  using assms(1)
proof (induction ws)
  case Nil
  have "is_redirect v" "(length v > 1 \<and> v ! 1 = CHR ''>'') = app"
    using assms(2) by (simp_all add: is_redirect_def)
  then show ?case by simp
next
  case (Cons w ws)
  then show ?case by (simp add: is_redirect_iff)
qed

text \<open>A line with a redirection at its end, split into the command, the operator and the target.\<close>

lemma redirect_words:
  assumes "\<forall>w \<in> set (c # ws). DQ \<notin> set w \<and> NUL \<notin> set w \<and> w \<notin> {''>'', ''>>''}"
    and path: "DQ \<notin> set path" and len: "length ws + 3 \<le> SHELL_ARGV_MAX"
  shows "split_redirect (tokenize (join_words (c # ws @ [if app then ''>>'' else ''>'', path])) SHELL_ARGV_MAX) =
    (c # ws, Some (app, [path]))"
proof -
  let ?op = "if app then ''>>'' else ''>''"
  have "DQ \<notin> set ?op" by (simp add: DQ_def)
  then have "\<forall>w \<in> set (c # ws @ [?op, path]). DQ \<notin> set w" using assms(1) path by auto
  then have tok: "tokenize (join_words (c # ws @ [?op, path])) SHELL_ARGV_MAX = c # ws @ [?op, path]"
    using tokenize_join [of "c # ws @ [?op, path]" 0 SHELL_ARGV_MAX] len by (simp only: tokenize_def) simp
  have "split_redirect ((c # ws) @ ?op # [path]) = (c # ws, Some (app, [path]))"
    by (rule split_redirect_at [OF _ refl]) (use assms(1) in auto)
  then show ?thesis unfolding tok by simp
qed

lemma execute_redirect:
  assumes "\<forall>w \<in> set (c # ws). DQ \<notin> set w \<and> NUL \<notin> set w \<and> w \<notin> {''>'', ''>>''}"
    and path: "DQ \<notin> set path" and len: "length ws + 3 \<le> SHELL_ARGV_MAX" and cmd: "find_command c = Some cmd"
  shows "execute (join_words (c # ws @ [if app then ''>>'' else ''>'', path])) s = redirect_run cmd (c # ws) app path s"
proof -
  let ?words = "tokenize (join_words (c # ws @ [if app then ''>>'' else ''>'', path])) SHELL_ARGV_MAX"
  have sp: "split_redirect ?words = (c # ws, Some (app, [path]))" by (rule redirect_words [OF assms(1-3)])
  have "?words \<noteq> []"
  proof
    assume "?words = []"
    then have "split_redirect [] = (c # ws, Some (app, [path]))" using sp by (simp only:)
    then show False by simp
  qed
  then show ?thesis using cmd sp by (simp add: execute_def Let_def del: split_redirect.simps) (simp only: redirect_run_def Let_def list.sel)
qed

lemma find_echo: "find_command ''echo'' = Some Echo"
  by (simp add: find_command_def shell_commands_def uchar_def)

text \<open>
  \<^verbatim>\<open>echo words > file\<close>, from the typed line to the stored bytes: on a sound filesystem, with memory
  for the capture buffer and the file, executing the line returns, and the file the path names (or that it
  creates) then holds exactly the words with single blanks between them and a newline, after the old
  contents for \<^verbatim>\<open>>>\<close>; every other entry is as before, the filesystem is sound, the capture is off and
  the working directory the same.
\<close>

theorem echo_redirect_stores:
  fixes s :: "'a kernel_scheme"
  assumes inv: "ramfs_inv s" and C: "named s C (shell_cwd s)"
    and words: "\<forall>w \<in> set ws. DQ \<notin> set w \<and> NUL \<notin> set w \<and> w \<notin> {''>'', ''>>''}" "length ws \<le> 13"
    and path: "DQ \<notin> set path" "NUL \<notin> set path" and t: "write_target (fs_view s) C path Q old"
    and len: "length (echo_line ws) \<le> 16384" "n = length (if app then old else []) + length (echo_line ws)" "n \<le> 2 ^ 30"
    and room: "has_room (2 * n + 17000) (heap s)"
  shows "\<exists>s'. execute (join_words (''echo'' # ws @ [if app then ''>>'' else ''>'', path])) s = ret s' \<and>
    ramfs_inv s' \<and> capture_buf s' = NULL \<and> shell_cwd s' = shell_cwd s \<and>
    fs_view s' = {(R, e) \<in> fs_view s. R \<noteq> Q} \<union> {(Q, File ((if app then old else []) @ echo_line ws))}"
proof -
  have run: "execute (join_words (''echo'' # ws @ [if app then ''>>'' else ''>'', path])) s =
      redirect_run Echo (''echo'' # ws) app path s"
    by (rule execute_redirect [OF _ path(1) _ find_echo])
      (use words in \<open>auto simp: DQ_def SHELL_ARGV_MAX_def\<close>)
  have body: "echo_line ws = take (unat CAPTURE_MAX) (echo_line ws)" using len(1) by (simp add: CAPTURE_MAX_def)
  show ?thesis
    unfolding run using redirect_run_saves [OF inv C path(2) t cmd_echo_prints body len(2,3) room order_refl] by blast
qed

text \<open>A kernel that has mounted its filesystem and whose shell works in the root directory.\<close>

definition kernel_bss :: kernel where
  "kernel_bss = ramfs.extend ramfs_boot
     \<lparr>frames = pmm_bss, pages = paging_bss, shell_cwd = NULL, history_ring = (\<lambda>_. []), history_total = 0,
      cpuid_hw = (\<lambda>_. (0, 0, 0, 0)), build_stamp = [], build_compiler = []\<rparr>"

lemma kernel_ready:
  obtains s :: kernel where "mounted initial_view 4000000 s" "shell_cwd s = root s"
proof -
  have "nodes kernel_bss = nodes ramfs_boot" "heap kernel_bss = heap ramfs_boot"
    by (simp_all add: kernel_bss_def ramfs.defs ramfs_boot_def console.defs)
  then obtain s where s: "ramfs_init kernel_bss = ret s" "mounted initial_view 4190188 s"
    using ramfs_init_mounts [of kernel_bss 4194284] ramfs_boot_ready by auto
  have "mounted initial_view 4000000 (s\<lparr>shell_cwd := root s\<rparr>)"
    using s(2) has_room_mono [of 4190188 "heap s" 4000000]
    by (simp add: mounted_def ramfs_inv_def fs_ok_def fs_view_def)
  then show thesis using that [of "s\<lparr>shell_cwd := root s\<rparr>"] by simp
qed

theorem echo_redirect_stores_witness:
  "\<exists>s s' :: kernel. execute ''echo hello world > /tmp/note'' s = ret s' \<and>
     ([''tmp'', ''note''], File (''hello world'' @ [NL])) \<in> fs_view s'"
proof -
  obtain s :: kernel where s: "mounted initial_view 4000000 s" "shell_cwd s = root s" by (rule kernel_ready)
  have line: "join_words (''echo'' # [''hello'', ''world''] @ [if False then ''>>'' else ''>'', ''/tmp/note'']) =
      ''echo hello world > /tmp/note''"
    by (simp add: quote_def plain_word_def DQ_def)
  have out: "echo_line [''hello'', ''world''] = ''hello world'' @ [NL]" by (simp add: echo_line_def)
  have t: "write_target (fs_view s) [] ''/tmp/note'' [''tmp'', ''note''] []"
    using s(1) by (simp add: mounted_def write_target_def initial_view_def initial_dirs_def view_eval start_path_def)
  have "has_room (2 * 12 + 17000) (heap s)" by (rule has_room_mono [of 4000000]) (use s(1) in \<open>simp_all add: mounted_def\<close>)
  then show ?thesis
    using echo_redirect_stores [OF _ _ _ _ _ _ t, of "[''hello'', ''world'']" 12 False] s
    unfolding line out by (force simp: mounted_def DQ_def)
qed

section \<open>Removing the ground under the shell\<close>

text \<open>
  \<^verbatim>\<open>rm -r\<close> refuses the working directory itself but not a directory above it: removing one succeeds
  with status 0, frees the node the shell still points to, and printing the next prompt reads freed
  memory.
\<close>

theorem rm_above_cwd_dangles:
  fixes s :: "'a kernel_scheme"
  assumes inv: "ramfs_inv s" and C: "named s C (shell_cwd s)" and path: "NUL \<notin> set path" "path \<noteq> ''-r''"
    and P: "walk_view (fs_view s) (start_path C path) (components path) = Some P" "P \<noteq> []" "strict_prefix P C"
  shows "\<exists>s'. cmd_rm [''rm'', ''-r'', path] s = ret (s', 0) \<and> shell_cwd s' \<notin> dom (nodes s') \<and> print_prompt s' = fault_run"
proof -
  obtain K where ok: "fs_ok K s" using inv by (auto simp: ramfs_inv_def)
  have f: "forest (nodes s) {root s} K" using ok by (simp add: fs_ok_def)
  obtain p where p: "ramfs_resolve (shell_cwd s) path s = ret p" "p \<noteq> NULL" "named s P p"
    using rf.resolve_law [OF inv C path(1)] P(1) by auto
  have ne: "p \<noteq> shell_cwd s" using at_injective [OF f p(3)] C P(3) by auto
  obtain s' where s': "ramfs_delete p True s = ret (s', True)" "ramfs_inv s'" "fs_only s s'"
      "live (heap s') = {(a, d) \<in> live (heap s). a \<notin> owned (nodes s) (below (nodes s) p)}"
    using ramfs_delete_view [OF ok p(3) P(2), of True] by auto
  have "shell_cwd s \<in> below (nodes s) p"
  proof -
    obtain S where "C = P @ S" using P(3) by (auto simp: strict_prefix_def prefix_def)
    then obtain d where d: "named s P d" "at (nodes s) d S (shell_cwd s)" using C at_append by blast
    have "d = p" by (rule at_functional [OF f d(1) p(3)])
    then show ?thesis using d(2) below_at by blast
  qed
  then have "shell_cwd s \<in> owned (nodes s) (below (nodes s) p)" using at_dom [OF ok C] by (auto simp: owned_def)
  then have "(shell_cwd s, c) \<notin> live (heap s')" for c using s'(4) by simp
  then have gone: "shell_cwd s \<notin> dom (nodes s')"
    using s'(2) store_okD(2) [of "nodes s'" "heap s'" "shell_cwd s"] by (auto simp: ramfs_inv_def fs_ok_def)
  have cwd: "shell_cwd s' = shell_cwd s" by (rule fs_only_kernel(1) [OF s'(3)])
  have "str_cmp path ''-r'' \<noteq> 0" using path str_cmp_eq_0 [of path "''-r''"] by simp
  then have "cmd_rm [''rm'', ''-r'', path] s = ret (s', 0)"
    using p(1,2) ne s'(1) by (simp add: cmd_rm_def)
  moreover have "print_prompt s' = fault_run"
    using gone cwd by (auto simp: print_prompt_def ramfs_path_def node_at_def split: option.splits)
  ultimately show ?thesis using gone cwd by auto
qed

theorem rm_above_cwd_dangles_witness:
  "\<exists>s s' :: kernel. cmd_rm [''rm'', ''-r'', ''/home''] s = ret (s', 0) \<and> print_prompt s' = fault_run"
proof -
  obtain s :: kernel where s: "mounted initial_view 4000000 s" by (rule kernel_ready)
  then have i: "ramfs_inv s" "fs_view s = initial_view" by (simp_all add: mounted_def)
  have "[''home'', ''user''] \<in> fst ` fs_view s" by (simp add: i(2) initial_view_def initial_dirs_def)
  then obtain c where c: "named s [''home'', ''user''] c" unfolding view_path by blast
  let ?s = "s\<lparr>shell_cwd := c\<rparr>"
  have j: "ramfs_inv ?s" "fs_view ?s = initial_view" "named ?s [''home'', ''user''] (shell_cwd ?s)"
    using i c by (simp_all add: ramfs_inv_def fs_ok_def fs_view_def)
  have "walk_view (fs_view ?s) (start_path [''home'', ''user''] ''/home'') (components ''/home'') = Some [''home'']"
    unfolding j(2) by (simp add: initial_view_def initial_dirs_def view_eval start_path_def)
  then show ?thesis
    using rm_above_cwd_dangles [OF j(1,3), of "''/home''" "[''home'']"] by (auto simp: strict_prefix_def)
qed

end
