(* ===== verification/CommandProps.thy ===== *)
theory CommandProps
  imports ShellProps
begin

text \<open>
  Commands that read files: \<^verbatim>\<open>cat\<close>, \<^verbatim>\<open>wc\<close>, and \<^verbatim>\<open>cp\<close>, with their effect on the console and on the
  filesystem.
\<close>

section \<open>Reading a file\<close>

lemma want_file_found:
  fixes s :: "'a kernel_scheme"
  assumes inv: "ramfs_inv s" and C: "named s C (shell_cwd s)" and path: "NUL \<notin> set path"
    and A: "walk_view (fs_view s) (start_path C path) (components path) = Some A" "(A, File body) \<in> fs_view s"
  obtains p n where "want_file path s = ret (s, p)" "p \<noteq> NULL" "named s A p" "nodes s p = Some n"
    "n_type n = RAMFS_FILE" "contents (heap s) n = body"
proof -
  obtain K where ok: "fs_ok K s" using inv by (auto simp: ramfs_inv_def)
  obtain p where p: "ramfs_resolve (shell_cwd s) path s = ret p" "p \<noteq> NULL" "named s A p"
    using rf.resolve_law [OF inv C path] A(1) by auto
  obtain n where n: "nodes s p = Some n" "n_type n = RAMFS_FILE" "contents (heap s) n = body"
    using view_file [OF ok p(3) A(2)] .
  have "want_file path s = ret (s, p)" using p n by (simp add: want_file_def node_at_def)
  then show thesis using that p n by blast
qed

text \<open>A file's bytes as the loops read them.\<close>

lemma contents_nth:
  assumes "unat i < unat (n_size n)"
  shows "bytes h (n_data n + i) = contents h n ! unat i"
  using assms by (simp add: contents_def)

lemma contents_drop:
  assumes "unat i < unat (n_size n)"
  shows "drop (unat i) (contents h n) = bytes h (n_data n + i) # drop (unat i + 1) (contents h n)"
proof -
  have "unat i < length (contents h n)" using assms by (simp add: contents_def)
  then show ?thesis using Cons_nth_drop_Suc contents_nth [OF assms] by (metis Suc_eq_plus1)
qed

lemma next_index: "unat (i :: u32) < unat (z :: u32) \<Longrightarrow> unat (i + 1) = unat i + 1"
  using unat_add_offset [of i 1] unat_u32_lt [of z] by simp

section \<open>wc\<close>

definition is_space :: "char \<Rightarrow> bool" where
  "is_space c \<longleftrightarrow> c = CHR '' '' \<or> c = CHR 0x09 \<or> c = NL"

text \<open>The words of a text: its maximal runs of characters that are no white space.\<close>

fun text_words :: "string \<Rightarrow> string list" where
  "text_words [] = []"
| "text_words (c # cs) =
     (if is_space c then text_words cs
      else case cs of
        [] \<Rightarrow> [[c]]
      | d # _ \<Rightarrow> if is_space d then [c] # text_words cs
                 else case text_words cs of [] \<Rightarrow> [[c]] | w # ws \<Rightarrow> (c # w) # ws)"

text \<open>Words still to be counted when the last character was inside a word or not.\<close>

definition new_words :: "bool \<Rightarrow> string \<Rightarrow> nat" where
  "new_words in_word cs = length (text_words cs) - (if in_word \<and> cs \<noteq> [] \<and> \<not> is_space (hd cs) then 1 else 0)"

lemma text_words_ne: "cs \<noteq> [] \<Longrightarrow> \<not> is_space (hd cs) \<Longrightarrow> text_words cs \<noteq> []"
  by (cases cs) (auto split: list.splits)

lemma new_words_space: "is_space c \<Longrightarrow> new_words b (c # cs) = new_words False cs"
  by (simp add: new_words_def)

lemma new_words_char: "\<not> is_space c \<Longrightarrow> new_words b (c # cs) = (if b then 0 else 1) + new_words True cs"
proof (cases cs)
  case (Cons d ds)
  assume c: "\<not> is_space c"
  show ?thesis
  proof (cases "is_space d")
    case True
    then show ?thesis using c Cons by (simp add: new_words_def)
  next
    case False
    then obtain w ws where "text_words cs = w # ws" using text_words_ne [of cs] Cons by (cases "text_words cs") auto
    then show ?thesis using c Cons False by (simp add: new_words_def del: text_words.simps(2)) (simp only: text_words.simps, simp)
  qed
qed (simp add: new_words_def)

lemmas new_words_step = new_words_space new_words_char

lemma wc_count_spec:
  assumes n: "nodes s f = Some n" and i: "unat i \<le> unat (n_size n)"
  shows "wc_count f i ls ws b s =
    ret (ls + of_nat (count_list (drop (unat i) (contents (heap s) n)) NL),
         ws + of_nat (new_words b (drop (unat i) (contents (heap s) n))))"
  using i
proof (induction "unat (n_size n) - unat i" arbitrary: i ls ws b)
  case 0
  then have "drop (unat i) (contents (heap s) n) = []" "\<not> i < n_size n"
    by (simp_all add: contents_def word_less_nat_alt)
  then show ?case using n by (subst wc_count.simps) (simp add: node_at_def new_words_def)
next
  case (Suc m)
  then have lt: "unat i < unat (n_size n)" "i < n_size n" by (simp_all add: word_less_nat_alt)
  note D = contents_drop [OF lt(1), of "heap s"] next_index [OF lt(1)]
  have IH: "wc_count f (i + 1) ls' ws' b' s =
      ret (ls' + of_nat (count_list (drop (unat i + 1) (contents (heap s) n)) NL),
           ws' + of_nat (new_words b' (drop (unat i + 1) (contents (heap s) n))))" for ls' ws' b'
    using Suc.hyps(1) [of "i + 1" ls' ws' b'] Suc.hyps(2) lt(1) D(2) by simp
  let ?c = "bytes (heap s) (n_data n + i)"
  show ?case
    unfolding D(1) using lt(2) n IH
    by (subst wc_count.simps) (auto simp: node_at_def file_byte_def Let_def new_words_step is_space_def)
qed

text \<open>
  The counters of \<^verbatim>\<open>wc\<close> are right: on any file the loop returns, the number of lines is the number of
  newline characters and the number of words is the number of maximal runs of characters other than
  blank, tab and newline.
\<close>

theorem wc_counts:
  assumes "nodes s f = Some n"
  shows "wc_count f 0 0 0 False s =
    ret (of_nat (count_list (contents (heap s) n) NL), of_nat (length (text_words (contents (heap s) n))))"
  using wc_count_spec [OF assms, of 0 0 0 False] by (simp add: new_words_def)

theorem wc_counts_witness:
  "\<exists>(s :: kernel) f. named s [''etc'', ''motd''] f \<and>
     wc_count f 0 0 0 False s = ret (of_nat (count_list motd_text NL), of_nat (length (text_words motd_text)))"
proof -
  obtain s :: kernel where s: "mounted initial_view 4000000 s" by (rule kernel_ready)
  then obtain K where ok: "fs_ok K s" and V: "fs_view s = initial_view" by (auto simp: mounted_def ramfs_inv_def)
  have here: "([''etc'', ''motd''], File motd_text) \<in> fs_view s" by (simp add: V initial_view_def)
  then obtain f where f: "named s [''etc'', ''motd''] f" unfolding fs_view_iff by blast
  obtain n where n: "nodes s f = Some n" "contents (heap s) n = motd_text" using view_file [OF ok f here] .
  show ?thesis using wc_counts [OF n(1)] n(2) f by auto
qed

section \<open>cat\<close>

lemma vga_frame_kernel:
  fixes s s' :: "'a kernel_scheme"
  assumes "vga_frame s s'"
  shows "nodes s' = nodes s" "heap s' = heap s" "root s' = root s" "shell_cwd s' = shell_cwd s" "capture_buf s' = capture_buf s"
proof -
  note eq = assms [unfolded vga_frame_def]
  show "nodes s' = nodes s" by (subst eq) simp
  show "heap s' = heap s" by (subst eq) simp
  show "root s' = root s" by (subst eq) simp
  show "shell_cwd s' = shell_cwd s" by (subst eq) simp
  show "capture_buf s' = capture_buf s" by (subst eq) simp
qed

lemma put_data_live:
  fixes s :: "'a kernel_scheme"
  assumes "live_console s" "capture_buf s = NULL" "nodes s f = Some n" "unat i \<le> unat (n_size n)"
  shows "put_data f i s = console_write (drop (unat i) (contents (heap s) n)) s"
  using assms
proof (induction "unat (n_size n) - unat i" arbitrary: i s)
  case 0
  then have "drop (unat i) (contents (heap s) n) = []" "\<not> i < n_size n"
    by (simp_all add: contents_def word_less_nat_alt)
  then show ?case using 0 by (subst put_data.simps) (simp add: node_at_def)
next
  case (Suc m)
  then have lt: "unat i < unat (n_size n)" "i < n_size n" by (simp_all add: word_less_nat_alt)
  note D = contents_drop [OF lt(1), of "heap s"] and nx = next_index [OF lt(1)]
  let ?c = "bytes (heap s) (n_data n + i)"
  obtain s1 where s1: "console_putc ?c s = ret s1" "live_console s1" "vga_frame s s1"
    using console_putc_live [OF Suc.prems(1,2)] by blast
  note K = vga_frame_kernel [OF s1(3)]
  have "put_data f (i + 1) s1 = console_write (drop (unat (i + 1)) (contents (heap s1) n)) s1"
    by (rule Suc.hyps(1)) (use Suc.hyps(2) Suc.prems K s1(2) nx lt(1) in simp_all)
  then show ?case
    unfolding D using Suc.prems(3) lt(2) s1(1) nx K by (subst put_data.simps) (simp add: node_at_def)
qed

text \<open>What \<^verbatim>\<open>cat\<close> prints of a text: a newline is added unless the text is empty or ends in one.\<close>

definition cat_text :: "string \<Rightarrow> string" where
  "cat_text body = (if body = [] \<or> last body = NL then body else body @ [NL])"


lemma kernel_console:
  obtains s :: kernel where "mounted initial_view 4000000 s" "shell_cwd s = root s" "live_console s" "capture_buf s = NULL"
proof -
  obtain s :: kernel where s: "mounted initial_view 4000000 s" "shell_cwd s = root s" by (rule kernel_ready)
  let ?s = "s\<lparr>port_in := \<lambda>_. 0x20, trace := [], cur_row := 0, cur_col := 0, capture_buf := NULL\<rparr>"
  have "mounted initial_view 4000000 ?s" "shell_cwd ?s = root ?s"
    using s by (simp_all add: mounted_def ramfs_inv_def fs_ok_def fs_view_def)
  moreover have "live_console ?s" by (simp add: live_console_def vga_inv_def uart_ready_drains)
  ultimately show thesis using that [of ?s] by simp
qed


section \<open>cp\<close>

lemma file_buffer_ok:
  assumes st: "store_ok N h" and n: "N p = Some n" and m: "N q = Some m" "q \<noteq> p"
  shows "buffer_ok (At (n_data n)) (n_size n) (n_data m) h"
proof (cases "n_size n = 0")
  case False
  then have "n_data n \<noteq> NULL" using store_okD(3,4) [OF st n] by auto
  moreover from this obtain c where "unat (n_capacity n) \<le> c" "(n_data n, c) \<in> live h" using store_okD(6) [OF st n] by blast
  ultimately show ?thesis
    using store_okD(7) [OF st n m(1)] m(2) store_okD(3) [OF st n] by (auto simp: word_le_nat_alt intro: order_trans)
qed simp

text \<open>The write at the end of \<^verbatim>\<open>cp\<close>: the destination receives the contents of another file.\<close>

lemma copy_file:
  assumes ok: "fs_ok K s" and src: "named s A p" "(A, File body) \<in> fs_view s" "nodes s p = Some n"
    and dst: "named s Q q" "(Q, File old) \<in> fs_view s" "Q \<noteq> A"
    and room: "length body \<le> 2 ^ 30" "has_room k (heap s)" "2 * length body + 107 \<le> k"
  obtains s' where "ramfs_write q (At (n_data n)) (n_size n) False s = ret (s', True)" "ramfs_inv s'" "fs_only s s'"
    "fs_view s' = {(R, e) \<in> fs_view s. R \<noteq> Q} \<union> {(Q, File body)}"
proof -
  have f: "forest (nodes s) {root s} K" and st: "store_ok (nodes s) (heap s)" using ok by (simp_all add: fs_ok_def)
  have c: "contents (heap s) n = body" using view_file [OF ok src(1,2)] src(3) by auto
  obtain m where m: "nodes s q = Some m" using at_dom(1) [OF ok dst(1)] by blast
  have "q \<noteq> p" using at_injective [OF f dst(1)] src(1) dst(3) by blast
  then have buf: "buffer_ok (At (n_data n)) (n_size n) (n_data (the (nodes s q))) (heap s)"
    using file_buffer_ok [OF st src(3) m] m by simp
  have len: "length body = length (if False then old else []) + unat (n_size n)" using c by (auto simp: contents_def)
  have same: "buffer_text (At (n_data n)) (n_size n) (bytes (heap s)) = body" using c by (simp add: contents_def)
  obtain s' where s': "ramfs_write q (At (n_data n)) (n_size n) False s = ret (s', True)"
    by (rule write_room [OF ok dst(1,2) buf len room])
  have "length (if False then old else []) + unat (n_size n) \<le> 2 ^ 30" using len room(1) by simp
  from ramfs_write_view [OF ok dst(1,2) buf this] show thesis
    using that [OF s'] s' same by auto
qed

lemma named_file:
  assumes ok: "fs_ok K s" and "named s Q q" "(Q, File old) \<in> fs_view s"
  shows "\<exists>n. node_at q s = ret n \<and> n_type n = RAMFS_FILE"
proof -
  obtain n where "nodes s q = Some n" "n_type n = RAMFS_FILE" using view_file [OF assms] .
  then show ?thesis by (simp add: node_at_def)
qed

text \<open>
  C14. \<^verbatim>\<open>cp a b\<close> copies: when \<open>a\<close> names a file and \<open>b\<close> another file or a path where one can be created, and
  memory suffices, the command returns status 0, \<open>b\<close> then has exactly the contents of \<open>a\<close>, and every other
  entry, the source included, is as before.
\<close>

theorem cp_copies:
  fixes s :: "'a kernel_scheme"
  assumes inv: "ramfs_inv s" and C: "named s C (shell_cwd s)" and path: "NUL \<notin> set a" "NUL \<notin> set b" "length b < 256"
    and A: "walk_view (fs_view s) (start_path C a) (components a) = Some A" "(A, File body) \<in> fs_view s"
    and t: "write_target (fs_view s) C b Q old" "Q \<noteq> A"
    and room: "length body \<le> 2 ^ 30" "has_room (2 * length body + 194) (heap s)"
  shows "\<exists>s'. cmd_cp [''cp'', a, b] s = ret (s', 0) \<and> ramfs_inv s' \<and> fs_only s s' \<and>
    fs_view s' = {(R, e) \<in> fs_view s. R \<noteq> Q} \<union> {(Q, File body)}"
proof -
  obtain K where ok: "fs_ok K s" using inv by (auto simp: ramfs_inv_def)
  obtain p where p: "want_file a s = ret (s, p)" "p \<noteq> NULL" "named s A p"
    using want_file_found [OF inv C path(1) A] by metis
  obtain q where q: "ramfs_resolve (shell_cwd s) b s = ret q"
      "case walk_view (fs_view s) (start_path C b) (components b) of None \<Rightarrow> q = NULL | Some Q \<Rightarrow> q \<noteq> NULL \<and> named s Q q"
    using rf.resolve_law [OF inv C path(2)] by blast
  have dst: "str_lcpy RAMFS_PATH_MAX b = b" using path(3) by (simp add: str_lcpy_def RAMFS_PATH_MAX_def)
  show ?thesis
  proof (cases "walk_view (fs_view s) (start_path C b) (components b)")
    case (Some R)
    then have d: "q \<noteq> NULL" "named s Q q" "(Q, File old) \<in> fs_view s" using q(2) t(1) by (auto simp: write_target_def)
    obtain n where n: "nodes s p = Some n" using at_dom(1) [OF ok p(3)] by blast
    obtain m where m: "node_at q s = ret m" "n_type m = RAMFS_FILE" using named_file [OF ok d(2,3)] by blast
    obtain s' where s': "ramfs_write q (At (n_data n)) (n_size n) False s = ret (s', True)" "ramfs_inv s'" "fs_only s s'"
        "fs_view s' = {(R, e) \<in> fs_view s. R \<noteq> Q} \<union> {(Q, File body)}"
      by (rule copy_file [OF ok p(3) A(2) n d(2,3) t(2) room]) simp
    have "cmd_cp [''cp'', a, b] s = ret (s', 0)"
      using p(1,2) q(1) d(1) m n s'(1) dst by (simp add: cmd_cp_def node_at_def [of p] Let_def)
    then show ?thesis using s' by blast
  next
    case None
    then have c: "q = NULL" "create_path (fs_view s) (start_path C b) (components b) = Some Q" "old = []"
      using q(2) t(1) by (auto simp: write_target_def)
    obtain s1 r where r: "ramfs_create (shell_cwd s) b RAMFS_FILE s = ret (s1, r)" "r \<noteq> NULL"
        "has_room (2 * length body + 194 - 87) (heap s1)"
      by (rule create_room [OF ok C path(2) c(2) room(2)]) simp_all
    then have r': "ramfs_inv s1" "fs_only s s1" "named s1 Q r" "named s1 A p"
        "fs_view s1 = insert (Q, File []) (fs_view s)"
      using ramfs_create_view [OF ok C path(2), of RAMFS_FILE] c(2) p(3) by auto
    obtain K1 where ok1: "fs_ok K1 s1" using r'(1) by (auto simp: ramfs_inv_def)
    have here: "(A, File body) \<in> fs_view s1" "(Q, File []) \<in> fs_view s1" using A(2) r'(5) by simp_all
    obtain n where n: "nodes s1 p = Some n" using at_dom(1) [OF ok1 r'(4)] by blast
    obtain m where m: "node_at r s1 = ret m" "n_type m = RAMFS_FILE" using named_file [OF ok1 r'(3) here(2)] by blast
    obtain s' where s': "ramfs_write r (At (n_data n)) (n_size n) False s1 = ret (s', True)" "ramfs_inv s'" "fs_only s1 s'"
        "fs_view s' = {(R, e) \<in> fs_view s1. R \<noteq> Q} \<union> {(Q, File body)}"
      by (rule copy_file [OF ok1 r'(4) here(1) n r'(3) here(2) t(2) room(1) r(3)]) simp
    have "cmd_cp [''cp'', a, b] s = ret (s', 0)"
      using p(1,2) q(1) c(1) r(1,2) m n s'(1) dst by (simp add: cmd_cp_def node_at_def [of p] Let_def)
    moreover have "{(R, e) \<in> fs_view s1. R \<noteq> Q} = {(R, e) \<in> fs_view s. R \<noteq> Q}" using r'(5) by auto
    ultimately show ?thesis using s' fs_only_trans [OF r'(2) s'(3)] by auto
  qed
qed

theorem cp_copies_witness:
  "\<exists>s s' :: kernel. cmd_cp [''cp'', ''/etc/motd'', ''/tmp/motd''] s = ret (s', 0) \<and>
     ([''tmp'', ''motd''], File motd_text) \<in> fs_view s'"
proof -
  obtain s :: kernel where s: "mounted initial_view 4000000 s" "shell_cwd s = root s" by (rule kernel_ready)
  then have i: "ramfs_inv s" "fs_view s = initial_view" "named s [] (shell_cwd s)" by (simp_all add: mounted_def)
  have w: "walk_view (fs_view s) (start_path [] ''/etc/motd'') (components ''/etc/motd'') = Some [''etc'', ''motd'']"
    "([''etc'', ''motd''], File motd_text) \<in> fs_view s" "write_target (fs_view s) [] ''/tmp/motd'' [''tmp'', ''motd''] []"
    unfolding i(2) by (simp_all add: initial_view_def initial_dirs_def view_eval start_path_def write_target_def)
  have "has_room (2 * length motd_text + 194) (heap s)"
    by (rule has_room_mono [of 4000000]) (use s(1) in \<open>simp_all add: mounted_def text_lengths\<close>)
  then show ?thesis
    using cp_copies [OF i(1,3) _ _ _ w] text_lengths(1) by fastforce
qed

end
