(* ===== verification/LineEdit.thy ===== *)
theory LineEdit
  imports CommandProps
begin

text \<open>
  The line editor of the shell (\<^verbatim>\<open>read_line\<close> of shell/shell.c) against a pure editor on the typed line
  and the position in the history.
\<close>

section \<open>The pure editor\<close>

text \<open>One key: \<open>hist\<close> are the lines of the history, \<open>browse\<close> the line shown (its length: none of them).\<close>

definition edit_key :: "nat \<Rightarrow> string list \<Rightarrow> char \<Rightarrow> string \<times> nat \<Rightarrow> string \<times> nat" where
  "edit_key cap hist c = (\<lambda>(buf, browse).
     if c = CHR 0x08 then (butlast buf, browse)
     else if uchar c = KEY_UP
     then if browse > 0 then (str_lcpy cap (hist ! (browse - 1)), browse - 1) else (buf, browse)
     else if uchar c = KEY_DOWN
     then if browse < length hist
          then (str_lcpy cap (if browse + 1 = length hist then [] else hist ! (browse + 1)), browse + 1)
          else (buf, browse)
     else let d = (if c = CHR 0x09 then CHR '' '' else c) in
          (if uchar d < 0x20 \<or> uchar d > 0x7e \<or> length buf + 1 \<ge> cap then buf else buf @ [d], browse))"

lemma str_lcpy_lt: "0 < cap \<Longrightarrow> length (str_lcpy cap x) < cap"
  by (simp add: str_lcpy_def)

lemma edit_key_bounds:
  assumes "0 < cap" "length buf < cap" "browse \<le> length hist"
  shows "length (fst (edit_key cap hist c (buf, browse))) < cap \<and> snd (edit_key cap hist c (buf, browse)) \<le> length hist"
  using assms(2,3) str_lcpy_lt [OF assms(1)]
  by (cases "c = CHR 0x08"; cases "uchar c = KEY_UP"; cases "uchar c = KEY_DOWN")
    (simp_all add: edit_key_def Let_def less_imp_diff_less le_diff_conv)

section \<open>A terminal with keys waiting\<close>

definition typing :: "string list \<Rightarrow> char list \<Rightarrow> 'a kernel_scheme \<Rightarrow> bool" where
  "typing ls keys s \<longleftrightarrow>
     live_console s \<and> capture_buf s = NULL \<and> kbd_inv s \<and> kbd_queue s = keys \<and> history_holds ls s"

lemma typing_frame:
  assumes "typing ls keys s" "vga_frame s s'" "live_console s'"
  shows "typing ls keys s'"
proof -
  note eq = assms(2) [unfolded vga_frame_def]
  have "kbd_head s' = kbd_head s" "kbd_tail s' = kbd_tail s" "kbd_buf s' = kbd_buf s"
    "history_total s' = history_total s" "history_ring s' = history_ring s" "capture_buf s' = capture_buf s"
    by (subst eq, simp)+
  moreover from this have "kbd_len s' = kbd_len s" by (simp add: kbd_len_def)
  ultimately show ?thesis
    using assms(1,3) by (simp add: typing_def kbd_inv_def kbd_queue_def history_holds_def)
qed

lemma typing_write:
  assumes "typing ls keys s"
  obtains s' where "console_write out s = ret s'" "typing ls keys s'"
proof -
  obtain s' where s': "console_write out s = ret s'" "live_console s'" "vga_frame s s'"
    using console_write_live [of s out] assms unfolding typing_def by blast
  then show thesis using that typing_frame [OF assms s'(3,2)] by blast
qed

lemma typing_putc:
  assumes "typing ls keys s"
  obtains s' where "console_putc c s = ret s'" "typing ls keys s'"
proof -
  obtain s' where "console_write [c] s = ret s'" "typing ls keys s'" using typing_write [OF assms] .
  then show thesis using that by (simp add: console_write_Nil run_bind_ret_right)
qed

lemma typing_getchar:
  assumes "typing ls (c # keys) s"
  obtains s' where "console_getchar s = ret (s', uchar c)" "typing ls keys s'"
proof -
  obtain s' where s': "console_getchar s = ret (s', uchar c)" "kbd_inv s'" "kbd_queue s' = keys"
      "s' = s\<lparr>kbd_tail := kbd_tail s'\<rparr>"
    using getchar_key [of s c keys] assms unfolding typing_def by blast
  have "live_console s'" "capture_buf s' = NULL" "history_holds ls s'"
    using assms by (subst s'(4); simp add: typing_def live_console_def vga_inv_def history_holds_def)+
  then show thesis using that s' by (simp add: typing_def)
qed

lemma typing_erase:
  assumes "typing ls keys s"
  obtains s' where "erase n s = ret s'" "typing ls keys s'"
proof -
  have "\<exists>s'. erase n s = ret s' \<and> typing ls keys s'" using assms
  proof (induction n arbitrary: s)
    case (Suc n)
    obtain s1 where "console_write rubout s = ret s1" "typing ls keys s1" using typing_write [OF Suc.prems] .
    then show ?case using Suc.IH [of s1] by simp
  qed simp
  then show thesis using that by blast
qed

lemma typing_replace:
  assumes "typing ls keys s"
  obtains s' where "replace_line cap len (Some str) s = ret (s', str_lcpy cap str)" "typing ls keys s'"
proof -
  obtain s1 where s1: "erase len s = ret s1" "typing ls keys s1" using typing_erase [OF assms] .
  obtain s2 where "console_write (str_lcpy cap str) s1 = ret s2" "typing ls keys s2" using typing_write [OF s1(2)] .
  then show thesis using that s1(1) by (simp add: replace_line_def)
qed

section \<open>One key of the loop\<close>

text \<open>What the loop does with a key: it goes on, from a state with that key consumed, as the editor says.\<close>

definition follows ::
    "nat \<Rightarrow> string list \<Rightarrow> char list \<Rightarrow> string \<times> nat \<Rightarrow> ('a kernel_scheme \<times> string) run \<Rightarrow> bool" where
  "follows cap ls keys st r \<longleftrightarrow> (\<exists>s'. typing ls keys s' \<and> r = read_line_loop cap (fst st) (snd st) s')"

lemma followsI: "typing ls keys s' \<Longrightarrow> r = read_line_loop cap buf browse s' \<Longrightarrow> follows cap ls keys (buf, browse) r"
  by (auto simp: follows_def)

lemma uchar_codes:
  "uchar c = 0x0A \<longleftrightarrow> c = NL" "uchar c = 0x08 \<longleftrightarrow> c = CHR 0x08" "uchar c = 0x09 \<longleftrightarrow> c = CHR 0x09"
  using uchar_inject [of c NL] uchar_inject [of c "CHR 0x08"] uchar_inject [of c "CHR 0x09"] by (simp_all add: uchar_def)

lemma read_delete:
  assumes t: "typing ls keys s1" and g: "console_getchar s = ret (s1, uchar c)" and c: "c = CHR 0x08"
  shows "follows cap ls keys (edit_key cap hist c (buf, browse)) (read_line_loop cap buf browse s)"
proof -
  have edit: "edit_key cap hist c (buf, browse) = (butlast buf, browse)" using c by (simp add: edit_key_def)
  obtain s2 where s2: "console_write rubout s1 = ret s2" "typing ls keys s2" using typing_write [OF t] .
  have "read_line_loop cap buf browse s =
      (if buf \<noteq> [] then read_line_loop cap (butlast buf) browse s2 else read_line_loop cap buf browse s1)"
    unfolding read_line_loop.simps [of cap buf browse s] g run_bind_simps prod.case uchar_codes using c s2(1) by simp
  then show ?thesis unfolding edit using t s2(2) by (cases "buf = []") (auto intro: followsI)
qed

lemma read_up:
  assumes t: "typing ls keys s1" and g: "console_getchar s = ret (s1, uchar c)" and c: "uchar c = KEY_UP"
    and b: "browse \<le> length (last_lines ls)"
  shows "follows cap ls keys (edit_key cap (last_lines ls) c (buf, browse)) (read_line_loop cap buf browse s)"
proof -
  have v: "c \<noteq> CHR 0x08" "c \<noteq> NL" using c by (auto simp: KEY_UP_def uchar_def)
  have h: "history_holds ls s1" using t by (simp add: typing_def)
  have run: "read_line_loop cap buf browse s =
      (if browse > 0
       then run_bind (replace_line cap (length buf) (shell_history (int browse - 1) s1) s1)
              (\<lambda>(s, buf). read_line_loop cap buf (browse - 1) s)
       else read_line_loop cap buf browse s1)"
    unfolding read_line_loop.simps [of cap buf browse s] g run_bind_simps prod.case uchar_codes using c v by simp
  show ?thesis
  proof (cases "browse > 0")
    case True
    define l where "l = last_lines ls ! (browse - 1)"
    have "shell_history (int browse - 1) s1 = Some l"
      using history_lookup(2) [OF h, of "int browse - 1"] True b by (simp add: nat_diff_distrib' l_def)
    moreover obtain s2 where "replace_line cap (length buf) (Some l) s1 = ret (s2, str_lcpy cap l)" "typing ls keys s2"
      using typing_replace [OF t] .
    ultimately show ?thesis using c v True by (auto simp: edit_key_def run l_def intro: followsI)
  next
    case False
    then have "edit_key cap (last_lines ls) c (buf, browse) = (buf, browse)" using c v by (simp add: edit_key_def)
    then show ?thesis using False t unfolding run by (auto intro: followsI)
  qed
qed

lemma read_down:
  assumes t: "typing ls keys s1" and g: "console_getchar s = ret (s1, uchar c)" and c: "uchar c = KEY_DOWN"
  shows "follows cap ls keys (edit_key cap (last_lines ls) c (buf, browse)) (read_line_loop cap buf browse s)"
proof -
  have v: "c \<noteq> CHR 0x08" "c \<noteq> NL" "uchar c \<noteq> KEY_UP" using c by (auto simp: KEY_UP_def KEY_DOWN_def uchar_def)
  have h: "history_holds ls s1" using t by (simp add: typing_def)
  note H = history_lookup [OF h]
  have run: "read_line_loop cap buf browse s =
      (if browse < length (last_lines ls)
       then run_bind (replace_line cap (length buf)
                       (if browse + 1 = length (last_lines ls) then Some [] else shell_history (int browse + 1) s1) s1)
              (\<lambda>(s, buf). read_line_loop cap buf (browse + 1) s)
       else read_line_loop cap buf browse s1)"
    unfolding read_line_loop.simps [of cap buf browse s] g run_bind_simps prod.case uchar_codes using c v H(1) by simp
  show ?thesis
  proof (cases "browse < length (last_lines ls)")
    case True
    define l where "l = (if browse + 1 = length (last_lines ls) then [] else last_lines ls ! (browse + 1))"
    have shown: "(if browse + 1 = length (last_lines ls) then Some [] else shell_history (int browse + 1) s1) = Some l"
      using H(2) [of "int browse + 1"] True by (auto simp: nat_add_distrib l_def)
    have edit: "edit_key cap (last_lines ls) c (buf, browse) = (str_lcpy cap l, browse + 1)"
      using c v True by (simp add: edit_key_def l_def)
    obtain s2 where s2: "replace_line cap (length buf) (Some l) s1 = ret (s2, str_lcpy cap l)" "typing ls keys s2"
      using typing_replace [OF t] .
    show ?thesis
      unfolding edit by (rule followsI [OF s2(2)]) (simp only: run shown s2(1) True if_True run_bind_simps prod.case)
  next
    case False
    then show ?thesis using c v t by (auto simp: edit_key_def run intro: followsI)
  qed
qed

lemma read_char:
  assumes t: "typing ls keys s1" and g: "console_getchar s = ret (s1, uchar c)"
    and c: "c \<noteq> NL" "c \<noteq> CHR 0x08" "uchar c \<noteq> KEY_UP" "uchar c \<noteq> KEY_DOWN"
  shows "follows cap ls keys (edit_key cap hist c (buf, browse)) (read_line_loop cap buf browse s)"
proof -
  define d where "d = (if c = CHR 0x09 then CHR '' '' else c)"
  have d: "(if c = CHR 0x09 then uchar CHR '' '' else uchar c) = uchar d" by (simp add: d_def)
  have cd: "char_of (uchar d) = d" by (simp add: uchar_def)
  let ?bad = "uchar d < 0x20 \<or> uchar d > 0x7e"
  have edit: "edit_key cap hist c (buf, browse) = (if ?bad \<or> length buf + 1 \<ge> cap then buf else buf @ [d], browse)"
    using c by (simp add: edit_key_def d_def Let_def)
  have run: "read_line_loop cap buf browse s =
      (if ?bad then read_line_loop cap buf browse s1
       else if length buf + 1 < cap then run_bind (console_putc d s1) (read_line_loop cap (buf @ [d]) browse)
       else read_line_loop cap buf browse s1)"
    unfolding read_line_loop.simps [of cap buf browse s] g run_bind_simps prod.case uchar_codes Let_def d cd
    using c by simp
  obtain s2 where s2: "console_putc d s1 = ret s2" "typing ls keys s2" using typing_putc [OF t] .
  show ?thesis
  proof (cases "?bad \<or> length buf + 1 \<ge> cap")
    case True
    then show ?thesis unfolding edit run by (auto intro!: followsI [OF t])
  next
    case False
    then show ?thesis unfolding edit run using s2(1) by (auto intro!: followsI [OF s2(2)])
  qed
qed

lemma read_key:
  assumes t: "typing ls (c # keys) s" and c: "c \<noteq> NL" and b: "browse \<le> length (last_lines ls)"
  obtains s' where "typing ls keys s'" "read_line_loop cap buf browse s =
    (case edit_key cap (last_lines ls) c (buf, browse) of (buf', browse') \<Rightarrow> read_line_loop cap buf' browse' s')"
proof -
  obtain s1 where s1: "console_getchar s = ret (s1, uchar c)" "typing ls keys s1" using typing_getchar [OF t] .
  have "follows cap ls keys (edit_key cap (last_lines ls) c (buf, browse)) (read_line_loop cap buf browse s)"
    using read_delete [OF s1(2,1)] read_up [OF s1(2,1) _ b] read_down [OF s1(2,1)] read_char [OF s1(2,1) c] by blast
  then show thesis using that by (auto simp: follows_def split: prod.splits)
qed

lemma read_line_keys:
  assumes "typing ls (keys @ [NL]) s" "NL \<notin> set keys" "browse \<le> length (last_lines ls)" "length buf < cap"
  shows "\<exists>s'. read_line_loop cap buf browse s = ret (s', fst (fold (edit_key cap (last_lines ls)) keys (buf, browse))) \<and>
    typing ls [] s'"
  using assms
proof (induction keys arbitrary: s buf browse)
  case Nil
  obtain s1 where s1: "console_getchar s = ret (s1, uchar NL)" "typing ls [] s1"
    using typing_getchar [of ls NL "[]" s] Nil by auto
  obtain s2 where "console_putc NL s1 = ret s2" "typing ls [] s2" using typing_putc [OF s1(2)] .
  then show ?case using s1(1) by (subst read_line_loop.simps) (simp add: uchar_def)
next
  case (Cons c keys)
  obtain s1 where s1: "typing ls (keys @ [NL]) s1" "read_line_loop cap buf browse s =
      (case edit_key cap (last_lines ls) c (buf, browse) of (buf', browse') \<Rightarrow> read_line_loop cap buf' browse' s1)"
    using read_key [of ls c "keys @ [NL]" s browse cap buf] Cons.prems by auto
  obtain buf' browse' where e: "edit_key cap (last_lines ls) c (buf, browse) = (buf', browse')" by (rule prod.exhaust)
  have "length buf' < cap" "browse' \<le> length (last_lines ls)"
    using edit_key_bounds [of cap buf browse "last_lines ls" c] Cons.prems(3,4) e by auto
  then have "\<exists>s'. read_line_loop cap buf' browse' s1 =
      ret (s', fst (fold (edit_key cap (last_lines ls)) keys (buf', browse'))) \<and> typing ls [] s'"
    by (intro Cons.IH) (use s1(1) Cons.prems in simp_all)
  then show ?case using s1(2) e by simp
qed

section \<open>Properties\<close>

text \<open>
  C13. Reading a line: with keys waiting in the keyboard ring, a working console and \<open>ls\<close> entered before,
  \<^verbatim>\<open>read_line\<close> returns as soon as Enter is reached, with the line the pure editor computes from the keys
  (printable characters, backspace, tab, arrows up and down through the last 16 lines), never longer
  than the buffer, and all keys consumed.
\<close>

theorem read_line_edits:
  assumes "live_console s" "capture_buf s = NULL" "kbd_inv s" "kbd_queue s = keys @ [NL]" "NL \<notin> set keys"
    and "history_holds ls s" "0 < cap"
  shows "\<exists>s' line. read_line cap s = ret (s', line) \<and> kbd_queue s' = [] \<and> length line < cap \<and>
    line = fst (fold (edit_key cap (last_lines ls)) keys ([], length (last_lines ls)))"
proof -
  let ?h = "last_lines ls"
  have t: "typing ls (keys @ [NL]) s" using assms by (simp add: typing_def)
  have "length (fst (fold (edit_key cap ?h) ks st)) < cap \<and> snd (fold (edit_key cap ?h) ks st) \<le> length ?h"
    if "length (fst st) < cap" "snd st \<le> length ?h" for ks st
    using that
  proof (induction ks arbitrary: st)
    case (Cons k ks)
    obtain buf b where st: "st = (buf, b)" by (rule prod.exhaust)
    show ?case using Cons.IH [of "edit_key cap ?h k st"] Cons.prems edit_key_bounds [OF assms(7), of buf b ?h k] st by simp
  qed simp
  then have "length (fst (fold (edit_key cap ?h) keys ([], length ?h))) < cap" using assms(7) by simp
  moreover obtain s' where "read_line_loop cap [] (length ?h) s = ret (s', fst (fold (edit_key cap ?h) keys ([], length ?h)))"
      "typing ls [] s'"
    using read_line_keys [OF t assms(5), of "length ?h" "[]" cap] assms(7) by auto
  ultimately show ?thesis
    using history_lookup(1) [OF assms(6)] by (auto simp: read_line_def typing_def)
qed

lemma kernel_typing:
  obtains s :: kernel where "live_console s" "capture_buf s = NULL" "kbd_inv s" "kbd_queue s = ''lz'' @ [CHR 0x08] @ ''s'' @ [NL]"
    "history_holds [] s"
proof -
  obtain s :: kernel where s: "live_console s" "capture_buf s = NULL" by (rule kernel_console)
  let ?s = "s\<lparr>kbd_buf := \<lambda>i. (''lz'' @ [CHR 0x08] @ ''s'' @ [NL]) ! unat i, kbd_head := 5, kbd_tail := 0, history_total := 0\<rparr>"
  have q: "kbd_queue ?s = ''lz'' @ [CHR 0x08] @ ''s'' @ [NL]"
  proof -
    have "kbd_len ?s = 5" "[0..<5] = [0, 1, 2, 3, 4 :: nat]" by (simp add: kbd_len_def, simp add: upt_rec)
    then show ?thesis by (simp add: kbd_queue_def)
  qed
  show thesis
    by (rule that [of ?s]) (use s q in \<open>simp_all add: live_console_def vga_inv_def kbd_inv_def history_holds_def\<close>)
qed

theorem read_line_edits_witness: "\<exists>s s' :: kernel. read_line SHELL_LINE_MAX s = ret (s', ''ls'')"
proof -
  obtain s :: kernel where s: "live_console s" "capture_buf s = NULL" "kbd_inv s"
      "kbd_queue s = (''lz'' @ [CHR 0x08] @ ''s'') @ [NL]" "history_holds [] s"
    using kernel_typing by auto
  have "fst (fold (edit_key SHELL_LINE_MAX (last_lines [])) (''lz'' @ [CHR 0x08] @ ''s'') ([], length (last_lines []))) = ''ls''"
    by (simp add: edit_key_def SHELL_LINE_MAX_def last_lines_def uchar_def KEY_UP_def KEY_DOWN_def)
  then show ?thesis
    using read_line_edits [OF s(1-4) _ s(5), of SHELL_LINE_MAX] by (auto simp: SHELL_LINE_MAX_def)
qed

end
