(* ===== verification/SafeRun.thy ===== *)
theory SafeRun
  imports LineEdit
begin

text \<open>
  Safety of runs: a run is \<^emph>\<open>safe\<close> when it neither panics nor faults, and what it returns, if it
  returns, satisfies a predicate. The rules follow the structure of the code; the loops, which may
  wait for hardware for ever, are handled by the induction rule of their definition.
\<close>

section \<open>Safe runs\<close>

definition okay :: "('a \<Rightarrow> bool) \<Rightarrow> 'a outcome \<Rightarrow> bool" where
  "okay P y \<longleftrightarrow> (case y of Ok x \<Rightarrow> P x | Panic _ \<Rightarrow> False | Fault \<Rightarrow> False)"

definition safe :: "('a \<Rightarrow> bool) \<Rightarrow> 'a run \<Rightarrow> bool" where
  "safe P r \<longleftrightarrow> (case r of None \<Rightarrow> True | Some y \<Rightarrow> okay P y)"

named_theorems safe_intro \<open>introduction rules for safe runs\<close>

lemma safe_simps [simp]:
  "safe P (ret x) \<longleftrightarrow> P x" "safe P None" "\<not> safe P fault_run" "\<not> safe P (panic_run msg)"
  by (simp_all add: safe_def okay_def ret_def fault_run_def panic_run_def)

lemma safeI: "(\<And>y. r = Some y \<Longrightarrow> okay P y) \<Longrightarrow> safe P r"
  by (cases r) (simp_all add: safe_def)

lemma safeD: "r = Some y \<Longrightarrow> safe P r \<Longrightarrow> okay P y"
  by (simp add: safe_def)

lemma safe_bind:
  assumes "safe Q m" "\<And>x. Q x \<Longrightarrow> safe P (f x)"
  shows "safe P (run_bind m f)"
  using assms by (cases m; cases "the m") (auto simp: safe_def okay_def run_bind_def)

lemma safe_mono: "safe Q r \<Longrightarrow> (\<And>x. Q x \<Longrightarrow> P x) \<Longrightarrow> safe P r"
  by (auto simp: safe_def okay_def split: option.splits outcome.splits)

lemma safe_ret_eq: "r = ret x \<Longrightarrow> P x \<Longrightarrow> safe P r"
  by simp

text \<open>Loops: what one unfolding preserves holds of every run that returns.\<close>

lemma safe_step: "body = Some y \<Longrightarrow> (A \<Longrightarrow> safe P body) \<Longrightarrow> A \<longrightarrow> okay P y"
  using safeD [of body y P] by blast

section \<open>Waiting for hardware\<close>

text \<open>A driver that only reads and writes ports changes nothing but the history.\<close>

definition traced :: "'a io_scheme \<Rightarrow> 'a io_scheme \<Rightarrow> bool" where
  "traced s t \<longleftrightarrow> t = s\<lparr>trace := trace t\<rparr>"

lemma traced_refl [simp]: "traced s s"
  by (simp add: traced_def)

lemma traced_trans: "traced s t \<Longrightarrow> traced t u \<Longrightarrow> traced s u"
  unfolding traced_def by (erule ssubst [of u], erule ssubst [of t]) simp

lemma traced_io [simp]:
  "traced s (outb p v s)" "traced s (fst (inb p s))" "traced s (outw p w s)" "traced s (outl p x s)" "traced s (fst (inl p s))"
  by (simp_all add: traced_def outb_def inb_def outw_def outl_def inl_def)

lemma safe_traced:
  assumes "\<And>y. r = Some y \<Longrightarrow> okay (traced t) y" "traced s t"
  shows "safe (traced s) r"
proof -
  have "safe (traced t) r" using assms(1) by (rule safeI)
  then show ?thesis by (rule safe_mono) (rule traced_trans [OF assms(2)])
qed

lemma serial_wait_safe: "safe (traced s) (serial_wait s)"
proof (rule safeI)
  fix y assume "serial_wait s = Some y"
  then show "okay (traced s) y"
  proof (rule serial_wait.raw_induct [where P = "\<lambda>s y. okay (traced s) y", rotated])
    fix w :: "'a io_scheme \<Rightarrow> 'a io_scheme run" and s y
    assume IH: "\<And>s y. w s = Some y \<Longrightarrow> okay (traced s) y"
      and eq: "(let r = inb REG_LINE_STATUS s in if snd r AND LSR_TX_EMPTY = 0 then w (fst r) else ret (fst r)) = Some y"
    have "safe (traced s) (w (fst (inb REG_LINE_STATUS s)))"
      by (rule safe_traced [OF IH traced_io(2)])
    then show "okay (traced s) y" using safeD [OF eq] by (simp add: Let_def)
  qed
qed

lemma serial_putc_safe: "safe (traced s) (serial_putc c s)"
  unfolding serial_putc_def
  by (rule safe_bind [OF serial_wait_safe]) (simp add: traced_trans [OF _ traced_io(1)])

lemma traced_cmos [simp]: "traced s (fst (cmos_read reg s))"
  by (simp add: cmos_read_def traced_trans [OF traced_io(1) traced_io(2)])

lemma read_raw_wait_safe: "safe (traced s) (read_raw_wait s)"
proof (rule safeI)
  fix y assume "read_raw_wait s = Some y"
  then show "okay (traced s) y"
  proof (rule read_raw_wait.raw_induct [where P = "\<lambda>s y. okay (traced s) y", rotated])
    fix w :: "'a io_scheme \<Rightarrow> 'a io_scheme run" and s y
    assume IH: "\<And>s y. w s = Some y \<Longrightarrow> okay (traced s) y"
      and eq: "(let r = update_in_progress s in if snd r then w (fst r) else ret (fst r)) = Some y"
    have u: "traced s (fst (update_in_progress s))"
      using traced_cmos [of s "0x0A"] by (simp add: update_in_progress_def split_beta)
    have "safe (traced s) (w (fst (update_in_progress s)))"
      by (rule safe_traced [OF IH u])
    then show "okay (traced s) y" using safeD [OF eq] u by (simp add: Let_def)
  qed
qed

lemma read_raw_safe: "safe (\<lambda>r. traced s (fst r)) (read_raw s)"
proof -
  have c: "traced s t \<Longrightarrow> traced s (fst (cmos_read reg t))" for t reg
    using traced_trans traced_cmos by blast
  show ?thesis unfolding read_raw_def
    by (rule safe_bind [OF read_raw_wait_safe]) (auto simp: Let_def split_beta intro!: c)
qed

lemma rtc_settle_safe: "safe (\<lambda>r. traced s (fst r)) (rtc_settle prev s)"
proof (rule safeI)
  fix y assume "rtc_settle prev s = Some y"
  then show "okay (\<lambda>r. traced s (fst r)) y"
  proof (rule rtc_settle.raw_induct [where P = "\<lambda>_ s y. okay (\<lambda>r. traced s (fst r)) y", rotated])
    fix w :: "rtc_time \<Rightarrow> 'a io_scheme \<Rightarrow> ('a io_scheme \<times> rtc_time) run" and prev s y
    assume IH: "\<And>prev s y. w prev s = Some y \<Longrightarrow> okay (\<lambda>r. traced s (fst r)) y"
      and eq: "run_bind (read_raw s) (\<lambda>r. if snd r = prev then ret r else w (snd r) (fst r)) = Some y"
    have "safe (\<lambda>r. traced s (fst r)) (w p t)" if "traced s t" for p t
    proof -
      have "safe (\<lambda>r. traced t (fst r)) (w p t)" using IH by (rule safeI)
      then show ?thesis by (rule safe_mono) (rule traced_trans [OF that])
    qed
    then have "safe (\<lambda>r. traced s (fst r)) (run_bind (read_raw s) (\<lambda>r. if snd r = prev then ret r else w (snd r) (fst r)))"
      by (intro safe_bind [OF read_raw_safe]) simp
    then show "okay (\<lambda>r. traced s (fst r)) y" by (rule safeD [OF eq])
  qed
qed

lemma rtc_read_safe: "safe (\<lambda>r. traced s (fst r)) (rtc_read s)"
proof -
  have "safe (\<lambda>r. traced s (fst r)) (case cmos_read 0x0B t of (u, b) \<Rightarrow> ret (u, rtc_decode b x))" if "traced s t" for t x
    using traced_trans [OF that traced_cmos [of t "0x0B"]] by (simp add: split_beta)
  then have "safe (\<lambda>r. traced s (fst r)) (run_bind (rtc_settle x t) (\<lambda>(t, x). case cmos_read 0x0B t of (u, b) \<Rightarrow> ret (u, rtc_decode b x)))"
    if "traced s t" for t x
    using that by (intro safe_bind [OF rtc_settle_safe]) (simp only: split_beta traced_trans [of s t])
  then show ?thesis unfolding rtc_read_def
    by (intro safe_bind [OF read_raw_safe]) (simp add: split_beta)
qed

lemma kbc_wait_safe: "safe (traced s) (kbc_wait s)"
proof (rule safeI)
  fix y assume "kbc_wait s = Some y"
  then show "okay (traced s) y"
  proof (rule kbc_wait.raw_induct [where P = "\<lambda>s y. okay (traced s) y", rotated])
    fix w :: "'a io_scheme \<Rightarrow> 'a io_scheme run" and s y
    assume IH: "\<And>s y. w s = Some y \<Longrightarrow> okay (traced s) y"
      and eq: "(let r = inb 0x64 s in if snd r AND 0x02 \<noteq> 0 then w (fst r) else ret (fst r)) = Some y"
    have "safe (traced s) (w (fst (inb 0x64 s)))"
      by (rule safe_traced [OF IH traced_io(2)])
    then show "okay (traced s) y" using safeD [OF eq] by (simp add: Let_def)
  qed
qed

section \<open>Interrupts\<close>

text \<open>Whatever vector arrives, the handler returns and keeps what running code relies on.\<close>

lemma irq_handler_any:
  assumes "irq_ok s"
  shows "\<exists>s'. irq_handler v s = ret s' \<and> irq_ok s' \<and> irq_same s s'"
proof (cases "0 \<le> sint v - 32 \<and> sint v - 32 < 16")
  case True
  define n where "n = nat (sint v - 32)"
  have "v = word_of_int (sint v)" by simp
  also have "sint v = 32 + int n" using True by (simp add: n_def)
  finally have "v = 32 + of_nat n" by simp
  moreover have "n < 16" using True by (simp add: n_def nat_less_iff)
  ultimately show ?thesis using irq_handler_spec [OF assms, of n] by blast
next
  case False
  then have "\<exists>tr. irq_handler v s = ret (s\<lparr>trace := tr\<rparr>)"
    by (auto simp: irq_handler_def Let_def outb_def)
  then show ?thesis using assms by (auto simp: irq_ok_def irq_same_def kbd_inv_def)
qed

lemma hlt_safe:
  assumes "irq_ok s"
  shows "safe (\<lambda>s'. irq_ok s' \<and> irq_same s s') (hlt s)"
proof (cases "wake s (trace s)")
  case (Some n)
  let ?s = "s\<lparr>trace := Irq n # trace s\<rparr>"
  have "irq_ok ?s" using assms by (simp add: irq_ok_def kbd_inv_def)
  then obtain s' where "irq_handler (32 + of_nat n) ?s = ret s'" "irq_ok s'" "irq_same ?s s'"
    using irq_handler_any by blast
  then show ?thesis using Some by (simp add: hlt_def irq_same_def)
qed (simp add: hlt_def)

lemma sleep_until_safe:
  assumes "irq_ok s"
  shows "safe (\<lambda>s'. irq_ok s' \<and> irq_same s s') (sleep_until e s)"
proof (rule safeI)
  let ?P = "\<lambda>s y. irq_ok s \<longrightarrow> okay (\<lambda>s'. irq_ok s' \<and> irq_same s s') y"
  fix y assume "sleep_until e s = Some y"
  then have "?P s y"
  proof (rule sleep_until.raw_induct [where P = "\<lambda>_. ?P", rotated])
    fix w :: "u64 \<Rightarrow> 'a interrupts_scheme \<Rightarrow> 'a interrupts_scheme run" and e s y
    assume IH: "\<And>e s y. w e s = Some y \<Longrightarrow> ?P s y"
      and eq: "(if ticks s < e then run_bind (hlt s) (w e) else ret s) = Some y"
    have "safe (\<lambda>s'. irq_ok s' \<and> irq_same s s') (w e t)" if "irq_ok t" "irq_same s t" for t
      by (rule safe_mono [OF safeI, OF IH [THEN mp, OF _ that(1)]]) (auto intro: irq_same_trans [OF that(2)])
    then show "?P s y"
      by (intro safe_step [OF eq]) (auto intro: safe_bind [OF hlt_safe])
  qed
  then show "okay (\<lambda>s'. irq_ok s' \<and> irq_same s s') y" using assms by blast
qed

end
