(* ===== verification/Boot.thy ===== *)
theory Boot
  imports Shell
begin

text \<open>
  The kernel entry point (kernel/main.c). The addresses the linker and the assembly files provide
  (end of the image, tables, entry stubs, page directory) are a parameter.
\<close>

record image =
  im_kernel_end :: addr
  im_gdt :: addr
  im_idt :: addr
  im_isr :: "nat \<Rightarrow> addr"
  im_irq :: "nat \<Rightarrow> addr"
  im_page_directory :: addr

definition MULTIBOOT_BOOTLOADER_MAGIC :: u32 where "MULTIBOOT_BOOTLOADER_MAGIC = 0x2BADB002"

definition step :: "string \<Rightarrow> 'a kernel_scheme \<Rightarrow> 'a kernel_scheme run" where
  "step what s =
     run_bind (console_write ''[ '' (console_set_color VGA_LIGHT_GREY VGA_BLACK s)) (\<lambda>s.
     run_bind (console_write ''OK'' (console_set_color VGA_LIGHT_GREEN VGA_BLACK s)) (\<lambda>s.
     run_bind (console_write '' ] '' (console_set_color VGA_LIGHT_GREY VGA_BLACK s)) (\<lambda>s.
     run_bind (console_write what s) (console_putc NL))))"

text \<open>The same line, with a formatted message in place of the constant.\<close>

definition step_printf :: "string \<Rightarrow> karg list \<Rightarrow> 'a kernel_scheme \<Rightarrow> 'a kernel_scheme run" where
  "step_printf fmt args s =
     run_bind (kprintf ''[ '' [] s) (\<lambda>s.
     run_bind (console_write ''OK'' (console_set_color VGA_LIGHT_GREEN VGA_BLACK s)) (\<lambda>s.
     kprintf fmt args (console_set_color VGA_LIGHT_GREY VGA_BLACK s)))"

definition kmain_boot :: "image \<Rightarrow> u32 \<Rightarrow> multiboot_info \<Rightarrow> 'a kernel_scheme \<Rightarrow> 'a kernel_scheme run" where
  "kmain_boot im magic mbi s =
     run_bind (kprintf ([NL] @ ''%s %s (%s) booting...'' @ [NL, NL])
                [Str (Some RAPTOR_NAME), Str (Some RAPTOR_VERSION), Str (Some RAPTOR_CODENAME)]
                (console_set_color VGA_LIGHT_GREEN VGA_BLACK (console_init s))) (\<lambda>s.
     let s = console_set_color VGA_LIGHT_GREY VGA_BLACK s in
     if magic \<noteq> MULTIBOOT_BOOTLOADER_MAGIC
     then panic ''not loaded by a Multiboot bootloader (magic %08x)'' [Word magic] s
     else
     run_bind (step ''Global descriptor table installed'' (gdt_init (im_gdt im) s)) (\<lambda>s.
     run_bind (step ''Interrupts enabled (IDT + PIC remapped to 32-47)''
                (idt_init (im_idt im) (im_isr im) (im_irq im) s)) (\<lambda>s.
     run_bind (step ''PIT timer ticking at 100 Hz'' (timer_init s)) (\<lambda>s.
     run_bind (step ''PS/2 keyboard ready'' (keyboard_init s)) (\<lambda>s.
     run_bind (step ''Kernel heap initialized (4 MiB)''
                (s\<lparr>heap := kheap_init (im_kernel_end im) (heap s)\<rparr>)) (\<lambda>s.
     run_bind (pmm_init mbi (kheap_end_addr (heap s)) (frames s)) (\<lambda>pm.
     run_bind (step_printf ('' ] Physical memory: %u MiB detected'' @ [NL])
                [Word (pmm_total_kib pm div 1024)] (s\<lparr>frames := pm\<rparr>)) (\<lambda>s.
     run_bind (paging_init (im_page_directory im) (frames s) (pages s)) (\<lambda>pg.
     run_bind (step_printf ('' ] Paging enabled (%u MiB at %08x, NULL page unmapped)'' @ [NL])
                [Word (paging_mapped_mib pg), Word KERNEL_VBASE] (s\<lparr>pages := pg\<rparr>)) (\<lambda>s.
     run_bind (ramfs_init s) (\<lambda>s.
     run_bind (step ''ramfs mounted at /'' s) (\<lambda>s.
     console_putc NL s))))))))))))"

definition kmain :: "image \<Rightarrow> u32 \<Rightarrow> multiboot_info \<Rightarrow> 'a kernel_scheme \<Rightarrow> 'b run" where
  "kmain im magic mbi s = run_bind (kmain_boot im magic mbi s) shell_run"

end
