(* ===== verification/BootProps.thy ===== *)
theory BootProps
  imports Boot LineEdit
begin

text \<open>
  Booting (kernel/main.c): from a cold machine to a mounted filesystem, through every component in
  the order the code initialises them.
\<close>

section \<open>Frames of the initialisation code\<close>

text \<open>What the hardware set-up and printing leave alone.\<close>

definition shell_frame :: "'a kernel_scheme \<Rightarrow> 'a kernel_scheme \<Rightarrow> bool" where
  "shell_frame s t \<longleftrightarrow> kbd_head t = kbd_head s \<and> kbd_tail t = kbd_tail s \<and> capture_buf t = capture_buf s \<and>
     capture_cap t = capture_cap s \<and> capture_len t = capture_len s \<and> history_ring t = history_ring s \<and>
     kbd_buf t = kbd_buf s \<and> history_total t = history_total s \<and> wake t = wake s \<and> port_in t = port_in s"

definition hw_frame :: "'a kernel_scheme \<Rightarrow> 'a kernel_scheme \<Rightarrow> bool" where
  "hw_frame s t \<longleftrightarrow> port_in t = port_in s \<and> shell_frame s t \<and> heap t = heap s \<and> nodes t = nodes s \<and>
     root t = root s \<and> frames t = frames s \<and> pages t = pages s"

lemma shell_frame_trans: "shell_frame s t \<Longrightarrow> shell_frame t u \<Longrightarrow> shell_frame s u"
  by (simp add: shell_frame_def)

lemma hw_frame_trans: "hw_frame s t \<Longrightarrow> hw_frame t u \<Longrightarrow> hw_frame s u"
  by (auto simp: hw_frame_def intro: shell_frame_trans)

lemma shell_frame_buf: "shell_frame s t \<Longrightarrow> capture_buf t = capture_buf s"
  by (simp add: shell_frame_def)

lemma hw_frame_screen:
  assumes "vga_frame s t"
  shows "hw_frame s t"
proof -
  note eq = assms [unfolded vga_frame_def]
  have "frames t = frames s" "pages t = pages s" "kbd_head t = kbd_head s" "kbd_tail t = kbd_tail s"
    "capture_cap t = capture_cap s" "capture_len t = capture_len s" "history_ring t = history_ring s"
    "kbd_buf t = kbd_buf s" "history_total t = history_total s" "wake t = wake s" "port_in t = port_in s"
    by (subst eq, simp)+
  then show ?thesis using vga_frame_kernel [OF assms] vga_frame_more(2) [OF assms] by (simp add: hw_frame_def shell_frame_def)
qed

lemma console_write_single: "console_write [c] = console_putc c"
  by (rule ext) (simp add: console_write_Nil run_bind_ret_right)

text \<open>A console that works, and what may change while booting.\<close>

definition booting :: "'a kernel_scheme \<Rightarrow> 'a kernel_scheme \<Rightarrow> bool" where
  "booting s t \<longleftrightarrow> hw_frame s t \<and> live_console t \<and> capture_buf t = NULL"

lemma up_write:
  assumes "booting s t" "irq_handlers t = H"
  obtains t' where "console_write out t = ret t'" "booting s t'" "irq_handlers t' = H"
proof -
  obtain t' where t': "console_write out t = ret t'" "live_console t'" "vga_frame t t'"
    using console_write_live [of t out] assms unfolding booting_def by blast
  have "hw_frame t t'" by (rule hw_frame_screen [OF t'(3)])
  then have "booting s t'" using assms(1) t'(2) vga_frame_kernel(5) [OF t'(3)] hw_frame_trans unfolding booting_def by metis
  moreover have "irq_handlers t' = H" using vga_frame_more(4) [OF t'(3)] assms(2) by simp
  ultimately show thesis using that t'(1) by blast
qed

lemma up_color: "booting s t \<Longrightarrow> booting s (console_set_color fg bg t)" "irq_handlers (console_set_color fg bg t) = irq_handlers t"
  by (auto simp: booting_def hw_frame_def shell_frame_def console_set_color_def vga_set_color_def live_console_def vga_inv_def)

lemma up_step:
  assumes "booting s t" "irq_handlers t = H"
  obtains t' where "step what t = ret t'" "booting s t'" "irq_handlers t' = H"
proof -
  have c: "irq_handlers (console_set_color fg bg u) = H" if "irq_handlers u = H" for fg bg and u :: "'a kernel_scheme"
    using that up_color(2) by metis
  obtain t1 where t1: "console_write ''[ '' (console_set_color VGA_LIGHT_GREY VGA_BLACK t) = ret t1" "booting s t1"
    "irq_handlers t1 = H" using up_write [OF up_color(1) [OF assms(1)] c [OF assms(2)]] .
  obtain t2 where t2: "console_write ''OK'' (console_set_color VGA_LIGHT_GREEN VGA_BLACK t1) = ret t2" "booting s t2"
    "irq_handlers t2 = H" using up_write [OF up_color(1) [OF t1(2)] c [OF t1(3)]] .
  obtain t3 where t3: "console_write '' ] '' (console_set_color VGA_LIGHT_GREY VGA_BLACK t2) = ret t3" "booting s t3"
    "irq_handlers t3 = H" using up_write [OF up_color(1) [OF t2(2)] c [OF t2(3)]] .
  obtain t4 where t4: "console_write (what @ [NL]) t3 = ret t4" "booting s t4" "irq_handlers t4 = H"
    using up_write [OF t3(2,3)] .
  have "step what t = ret t4"
    unfolding step_def t1(1) run_bind_simps t2(1) t3(1)
    by (rule t4(1) [unfolded console_write_append console_write_single])
  then show thesis using that t4(2,3) by blast
qed

lemma up_printf:
  assumes "booting s t" "irq_handlers t = H" "kformat fmt args = Some out"
  obtains t' where "step_printf fmt args t = ret t'" "booting s t'" "irq_handlers t' = H"
proof -
  have c: "irq_handlers (console_set_color fg bg u) = H" if "irq_handlers u = H" for fg bg and u :: "'a kernel_scheme"
    using that up_color(2) by metis
  have "kformat ''[ '' [] = Some ''[ ''" by simp
  then have eq: "kprintf ''[ '' [] t = console_write ''[ '' t" by (rule kprintf_eq)
  obtain t1 where t1: "console_write ''[ '' t = ret t1" "booting s t1" "irq_handlers t1 = H" using up_write [OF assms(1,2)] .
  obtain t2 where t2: "console_write ''OK'' (console_set_color VGA_LIGHT_GREEN VGA_BLACK t1) = ret t2" "booting s t2"
    "irq_handlers t2 = H" using up_write [OF up_color(1) [OF t1(2)] c [OF t1(3)]] .
  obtain t3 where t3: "console_write out (console_set_color VGA_LIGHT_GREY VGA_BLACK t2) = ret t3" "booting s t3"
    "irq_handlers t3 = H" using up_write [OF up_color(1) [OF t2(2)] c [OF t2(3)]] .
  have "step_printf fmt args t = ret t3"
    unfolding step_printf_def eq t1(1) run_bind_simps t2(1) kprintf_eq [OF assms(3)] by (rule t3(1))
  then show thesis using that t3(2,3) by blast
qed

section \<open>The hardware set-up\<close>

lemma console_init_up:
  assumes "uart_drains (port_in s)" "capture_buf s = NULL"
  shows "booting s (console_init s)" "irq_handlers (console_init s) = irq_handlers s"
  using assms serial_init_line(1) [of s]
  by (simp_all add: console_init_def vga_init_def vga_clear_def move_hw_cursor_def booting_def hw_frame_def shell_frame_def live_console_def
      vga_inv_def serial_init_def outb_def Let_def cursor_pos_def CRTC_INDEX_def CRTC_DATA_def com1_defs)

lemma gdt_init_up: "booting s t \<Longrightarrow> booting s (gdt_init a t)" "irq_handlers (gdt_init a t) = irq_handlers t"
  by (auto simp: gdt_init_def gdt_set_def Let_def booting_def hw_frame_def shell_frame_def live_console_def vga_inv_def)

lemma fold_idt_set: "\<exists>d. fold (\<lambda>n. idt_set (f n) (g n)) ns t = t\<lparr>idt := d\<rparr>"
proof (induction ns arbitrary: t)
  case Nil
  show ?case by (intro exI [of _ "idt t"]) simp
next
  case (Cons n ns)
  obtain d where "fold (\<lambda>n. idt_set (f n) (g n)) ns (idt_set (f n) (g n) t) = (idt_set (f n) (g n) t)\<lparr>idt := d\<rparr>"
    using Cons.IH by blast
  then show ?case by (intro exI [of _ d]) (simp, simp add: idt_set_def)
qed

lemma idt_init_up: "booting s t \<Longrightarrow> booting s (idt_init a i q t)" "irq_handlers (idt_init a i q t) = irq_handlers t"
proof -
  obtain d1 where d1: "fold (\<lambda>n. idt_set n (i n)) [0..<32] (t\<lparr>ip := \<lparr>dlimit = of_nat (IDT_ENTRIES * 8 - 1), dbase = a\<rparr>\<rparr>) =
      t\<lparr>ip := \<lparr>dlimit = of_nat (IDT_ENTRIES * 8 - 1), dbase = a\<rparr>, idt := d1\<rparr>"
    using fold_idt_set [of "\<lambda>n. n" i] by blast
  obtain d where d: "fold (\<lambda>n. idt_set (32 + n) (q n)) [0..<16]
      (t\<lparr>ip := \<lparr>dlimit = of_nat (IDT_ENTRIES * 8 - 1), dbase = a\<rparr>, idt := d1\<rparr>) =
      t\<lparr>ip := \<lparr>dlimit = of_nat (IDT_ENTRIES * 8 - 1), dbase = a\<rparr>, idt := d\<rparr>"
    using fold_idt_set [of "\<lambda>n. 32 + n" q "[0..<16]" "t\<lparr>ip := \<lparr>dlimit = of_nat (IDT_ENTRIES * 8 - 1), dbase = a\<rparr>, idt := d1\<rparr>"] by auto
  have eq: "idt_init a i q t = pic_remap (t\<lparr>ip := \<lparr>dlimit = of_nat (IDT_ENTRIES * 8 - 1), dbase = a\<rparr>, idt := d\<rparr>)"
    unfolding idt_init_def Let_def d1 d ..
  show "booting s t \<Longrightarrow> booting s (idt_init a i q t)" "irq_handlers (idt_init a i q t) = irq_handlers t"
    unfolding eq by (auto simp: pic_remap_def io_wait_def outb_def Let_def booting_def hw_frame_def shell_frame_def live_console_def vga_inv_def
        PIC1_CMD_def PIC1_DATA_def PIC2_CMD_def PIC2_DATA_def com1_defs)
qed

lemma timer_init_up: "booting s t \<Longrightarrow> booting s (timer_init t)" "irq_handlers (timer_init t) = (irq_handlers t)(0 := Some Timer_irq)"
  by (auto simp: timer_init_def irq_install_handler_def outb_def Let_def booting_def hw_frame_def shell_frame_def live_console_def vga_inv_def
      PIT_CMD_def PIT_CH0_def com1_defs)

lemma keyboard_init_up: "booting s t \<Longrightarrow> booting s (keyboard_init t)" "irq_handlers (keyboard_init t) = (irq_handlers t)(1 := Some Keyboard_irq)"
  by (auto simp: keyboard_init_def irq_install_handler_def booting_def hw_frame_def shell_frame_def live_console_def vga_inv_def)

section \<open>Messages\<close>

text \<open>Whether the arguments match the format, without building the text.\<close>

lemma formats:
  "kformat [] ap = None \<longleftrightarrow> False"
  "c \<noteq> CHR ''%'' \<Longrightarrow> kformat (c # cs) ap = None \<longleftrightarrow> kformat cs ap = None"
  "kformat (CHR ''%'' # cs) ap = None \<longleftrightarrow>
     (let f = scan_flags False CHR '' '' cs; w = scan_width 0 (snd (snd f)) in
      case snd w of
        [] \<Rightarrow> False
      | k # rest \<Rightarrow>
         (case conv_text k (fst f) (fst (snd f)) (fst w) ap of None \<Rightarrow> True | Some r \<Rightarrow> kformat rest (snd r) = None))"
  by (simp_all add: Let_def split: list.split option.split)

lemma boot_messages:
  "kformat ([NL] @ ''%s %s (%s) booting...'' @ [NL, NL])
     [Str (Some RAPTOR_NAME), Str (Some RAPTOR_VERSION), Str (Some RAPTOR_CODENAME)] \<noteq> None"
  "kformat ('' ] Physical memory: %u MiB detected'' @ [NL]) [Word v] \<noteq> None"
  "kformat ('' ] Paging enabled (%u MiB at %08x, NULL page unmapped)'' @ [NL]) [Word v, Word w] \<noteq> None"
  "kformat ''not loaded by a Multiboot bootloader (magic %08x)'' [Word w] \<noteq> None"
  by (simp_all add: formats conv_text_def takes_word_def Let_def schar_def uchar_def del: kformat.simps)

section \<open>From power-on to the mounted filesystem\<close>

text \<open>The part of \<^verbatim>\<open>kmain\<close> that sets up memory and the filesystem, after the devices.\<close>

definition boot_memory :: "image \<Rightarrow> multiboot_info \<Rightarrow> 'a kernel_scheme \<Rightarrow> 'a kernel_scheme run" where
  "boot_memory im mbi s =
     run_bind (step ''Kernel heap initialized (4 MiB)''
                (s\<lparr>heap := kheap_init (im_kernel_end im) (heap s)\<rparr>)) (\<lambda>s.
     run_bind (pmm_init mbi (kheap_end_addr (heap s)) (frames s)) (\<lambda>pm.
     run_bind (step_printf ('' ] Physical memory: %u MiB detected'' @ [NL])
                [Word (pmm_total_kib pm div 1024)] (s\<lparr>frames := pm\<rparr>)) (\<lambda>s.
     run_bind (paging_init (im_page_directory im) (frames s) (pages s)) (\<lambda>pg.
     run_bind (step_printf ('' ] Paging enabled (%u MiB at %08x, NULL page unmapped)'' @ [NL])
                [Word (paging_mapped_mib pg), Word KERNEL_VBASE] (s\<lparr>pages := pg\<rparr>)) (\<lambda>s.
     run_bind (ramfs_init s) (\<lambda>s.
     run_bind (step ''ramfs mounted at /'' s) (\<lambda>s.
     console_putc NL s)))))))"

definition boot_handlers :: "(nat \<Rightarrow> irq_fn option) \<Rightarrow> nat \<Rightarrow> irq_fn option" where
  "boot_handlers H = H(0 := Some Timer_irq, 1 := Some Keyboard_irq)"

lemma boot_devices:
  assumes "uart_drains (port_in s)" "capture_buf s = NULL"
  obtains t where "kmain_boot im MULTIBOOT_BOOTLOADER_MAGIC mbi s = boot_memory im mbi t" "booting s t"
    "irq_handlers t = boot_handlers (irq_handlers s)"
proof -
  let ?H = "irq_handlers s"
  obtain out where out: "kformat ([NL] @ ''%s %s (%s) booting...'' @ [NL, NL])
      [Str (Some RAPTOR_NAME), Str (Some RAPTOR_VERSION), Str (Some RAPTOR_CODENAME)] = Some out"
    using boot_messages(1) by blast
  note C = console_init_up [OF assms]
  obtain t0 where t0: "console_write out (console_set_color VGA_LIGHT_GREEN VGA_BLACK (console_init s)) = ret t0"
      "booting s t0" "irq_handlers t0 = ?H"
    using up_write [OF up_color(1) [OF C(1)]] up_color(2) C(2) by metis
  let ?t = "console_set_color VGA_LIGHT_GREY VGA_BLACK t0"
  have t: "booting s ?t" "irq_handlers ?t = ?H" using up_color t0(2,3) by metis+
  obtain t1 where t1: "step ''Global descriptor table installed'' (gdt_init (im_gdt im) ?t) = ret t1" "booting s t1"
      "irq_handlers t1 = ?H"
    using up_step [OF gdt_init_up(1) [OF t(1)]] gdt_init_up(2) t(2) by metis
  obtain t2 where t2: "step ''Interrupts enabled (IDT + PIC remapped to 32-47)''
      (idt_init (im_idt im) (im_isr im) (im_irq im) t1) = ret t2" "booting s t2" "irq_handlers t2 = ?H"
    using up_step [OF idt_init_up(1) [OF t1(2)]] idt_init_up(2) t1(3) by metis
  obtain t3 where t3: "step ''PIT timer ticking at 100 Hz'' (timer_init t2) = ret t3" "booting s t3"
      "irq_handlers t3 = ?H(0 := Some Timer_irq)"
    using up_step [OF timer_init_up(1) [OF t2(2)]] timer_init_up(2) t2(3) by metis
  obtain t4 where t4: "step ''PS/2 keyboard ready'' (keyboard_init t3) = ret t4" "booting s t4"
      "irq_handlers t4 = boot_handlers ?H"
    using up_step [OF keyboard_init_up(1) [OF t3(2)]] keyboard_init_up(2) t3(3) unfolding boot_handlers_def by metis
  have "kmain_boot im MULTIBOOT_BOOTLOADER_MAGIC mbi s = boot_memory im mbi t4"
    unfolding kmain_boot_def kprintf_eq [OF out] t0(1) run_bind_simps Let_def boot_memory_def
    by (simp only: refl not_True_eq_False if_False t1(1) t2(1) t3(1) t4(1) run_bind_simps)
  then show thesis using that t4 by blast
qed

lemma booting_step:
  assumes "live_console t" "capture_buf t = NULL"
  obtains t' where "step what t = ret t'" "booting t t'" "irq_handlers t' = irq_handlers t"
proof -
  have "booting t t" using assms by (simp add: booting_def hw_frame_def shell_frame_def)
  then show thesis using that up_step [of t t] by blast
qed

lemma booting_printf:
  assumes "live_console t" "capture_buf t = NULL" "kformat fmt args \<noteq> None"
  obtains t' where "step_printf fmt args t = ret t'" "booting t t'" "irq_handlers t' = irq_handlers t"
proof -
  have "booting t t" using assms by (simp add: booting_def hw_frame_def shell_frame_def)
  then show thesis using that up_printf [of t t] assms(3) by blast
qed

lemma fs_moved_kernel:
  fixes s s' :: "'a kernel_scheme"
  assumes "fs_moved s s'"
  shows "live_console s' = live_console s" "capture_buf s' = capture_buf s" "frames s' = frames s" "pages s' = pages s"
    "irq_handlers s' = irq_handlers s" "shell_frame s s'"
proof -
  note eq = assms [unfolded fs_moved_def]
  show "live_console s' = live_console s" by (subst eq) (simp add: live_console_def vga_inv_def)
  show "capture_buf s' = capture_buf s" by (subst eq) simp
  show "frames s' = frames s" by (subst eq) simp
  show "pages s' = pages s" by (subst eq) simp
  show "irq_handlers s' = irq_handlers s" by (subst eq) simp
  have "kbd_head s' = kbd_head s" "kbd_tail s' = kbd_tail s" "capture_buf s' = capture_buf s" "capture_cap s' = capture_cap s"
    "capture_len s' = capture_len s" "history_ring s' = history_ring s" "kbd_buf s' = kbd_buf s"
    "history_total s' = history_total s" "wake s' = wake s" "port_in s' = port_in s" by (subst eq, simp)+
  then show "shell_frame s s'" by (simp add: shell_frame_def)
qed

text \<open>What holds of a kernel that has booted, with memory \<open>mbi\<close> and an image \<open>im\<close>.\<close>

definition heap_end :: "image \<Rightarrow> u32" where
  "heap_end im = ALIGN_UP (im_kernel_end im) PAGE_SIZE + HEAP_SIZE"

definition memory_ready :: "image \<Rightarrow> multiboot_info \<Rightarrow> 'a kernel_scheme \<Rightarrow> bool" where
  "memory_ready im mbi s \<longleftrightarrow>
     unat (total_frames (frames s)) = min 262144 ((unat (mem_upper mbi) + 1024) div 4) \<and>
     pmm_inv (frames s) \<and> used_set (frames s) = {f. unat f * 4096 < unat (V2P (heap_end im))} \<and>
     (\<forall>va. translate (page_directory (pages s)) va =
        (if KERNEL_VBASE \<le> va \<and> unat (V2P va) < window_entries (frames s) * 2 ^ 22 then Some (V2P va) else None))"

text \<open>The last part: the filesystem is built on the fresh heap.\<close>

lemma boot_fs_mounts:
  fixes s :: "'a kernel_scheme"
  assumes con: "live_console s" "capture_buf s = NULL" and fs: "nodes s = Map.empty" "heap_inv (heap s)" "has_room 4194284 (heap s)"
  obtains t u v where "ramfs_init s = ret t" "step ''ramfs mounted at /'' t = ret u" "console_putc NL u = ret v"
    "mounted initial_view 4000000 v" "live_console v" "irq_handlers v = irq_handlers s" "shell_frame s v"
    "frames v = frames s" "pages v = pages s"
proof -
  obtain t where t: "ramfs_init s = ret t" "fs_moved s t" "mounted initial_view 4190188 t"
    using ramfs_init_mounts [of s 4194284] fs by auto
  note f = fs_moved_kernel [OF t(2)]
  obtain u where u: "step ''ramfs mounted at /'' t = ret u" "booting t u" "irq_handlers u = irq_handlers t"
    using booting_step [of t] con f by auto
  obtain v where v: "console_putc NL u = ret v" "booting t v" "irq_handlers v = irq_handlers t"
    using up_write [OF u(2,3), of "[NL]"] unfolding console_write_single by blast
  have "mounted initial_view 4000000 v"
    using t(3) v(2) has_room_mono [of 4190188 "heap t" 4000000]
    by (simp add: mounted_def booting_def hw_frame_def ramfs_inv_def fs_ok_def fs_view_def)
  moreover have "shell_frame s v" using v(2) shell_frame_trans [OF f(6)] by (simp add: booting_def hw_frame_def)
  ultimately show thesis using that [OF t(1) u(1) v(1)] v(2,3) f by (simp add: booting_def hw_frame_def)
qed

lemma boot_memory_mounts:
  assumes con: "live_console s" "capture_buf s = NULL" and fs: "nodes s = Map.empty" "frames s = pmm_bss" "pages s = paging_bss"
    and im: "0 < unat (im_kernel_end im)" "unat (im_kernel_end im) + 4095 + 4194304 < 2 ^ 32"
    and mem: "bit (flags mbi) 0" "unat (V2P (heap_end im)) \<le> 2 ^ 30" "unat (mem_upper mbi) + 1024 < 2 ^ 32"
  shows "\<exists>s'. boot_memory im mbi s = ret s' \<and> mounted initial_view 4000000 s' \<and> memory_ready im mbi s' \<and>
    live_console s' \<and> irq_handlers s' = irq_handlers s \<and> shell_frame s s'"
proof -
  let ?h = "kheap_init (im_kernel_end im) (heap s)"
  note rep = kheap_init_rep(1) [OF im, of "heap s"]
  have start: "kheap_end_addr ?h = heap_end im" by (simp add: kheap_end_addr_def kheap_init_def heap_end_def Let_def)
  have room: "has_room 4194284 ?h" "heap_inv ?h" using rep by (force simp: has_room_def heap_inv_def)+
  have c1: "live_console (s\<lparr>heap := ?h\<rparr>)" "capture_buf (s\<lparr>heap := ?h\<rparr>) = NULL"
    using con by (simp_all add: live_console_def vga_inv_def)
  obtain t1 where t1: "step ''Kernel heap initialized (4 MiB)'' (s\<lparr>heap := ?h\<rparr>) = ret t1" "booting (s\<lparr>heap := ?h\<rparr>) t1"
      "irq_handlers t1 = irq_handlers s" using booting_step [OF c1] by auto
  then have f1: "heap t1 = ?h" "nodes t1 = Map.empty" "frames t1 = pmm_bss" "pages t1 = paging_bss"
      "live_console t1" "capture_buf t1 = NULL" "shell_frame s t1"
    using fs con(2) by (simp_all add: booting_def hw_frame_def shell_frame_def)
  obtain pm where pm: "pmm_init mbi (heap_end im) pmm_bss = ret pm" "pmm_inv pm"
      "unat (total_frames pm) = min 262144 ((unat (mem_upper mbi) + 1024) div 4)"
      "used_set pm = {f. unat f * 4096 < unat (V2P (heap_end im))}"
    using pmm_init_spec [OF mem] by blast
  have c2: "live_console (t1\<lparr>frames := pm\<rparr>)" "capture_buf (t1\<lparr>frames := pm\<rparr>) = NULL"
    using f1 by (simp_all add: live_console_def vga_inv_def)
  obtain t2 where t2: "step_printf ('' ] Physical memory: %u MiB detected'' @ [NL])
      [Word (pmm_total_kib pm div 1024)] (t1\<lparr>frames := pm\<rparr>) = ret t2" "booting (t1\<lparr>frames := pm\<rparr>) t2"
      "irq_handlers t2 = irq_handlers s" using booting_printf [OF c2 boot_messages(2)] t1(3) by auto
  then have f2: "heap t2 = ?h" "nodes t2 = Map.empty" "frames t2 = pm" "pages t2 = paging_bss"
      "live_console t2" "capture_buf t2 = NULL" "shell_frame s t2"
    using f1 by (simp_all add: booting_def hw_frame_def shell_frame_def)
  have "total_frames pm \<le> MAX_FRAMES" using pm(3) by (simp add: word_le_nat_alt MAX_FRAMES_def PAGE_SIZE_def)
  then obtain pg where pg: "paging_init (im_page_directory im) pm paging_bss = ret pg"
      "\<forall>va. translate (page_directory pg) va =
         (if KERNEL_VBASE \<le> va \<and> unat (V2P va) < window_entries pm * 2 ^ 22 then Some (V2P va) else None)"
    using paging_init_spec by blast
  have c3: "live_console (t2\<lparr>pages := pg\<rparr>)" "capture_buf (t2\<lparr>pages := pg\<rparr>) = NULL"
    using f2 by (simp_all add: live_console_def vga_inv_def)
  obtain t3 where t3: "step_printf ('' ] Paging enabled (%u MiB at %08x, NULL page unmapped)'' @ [NL])
      [Word (paging_mapped_mib pg), Word KERNEL_VBASE] (t2\<lparr>pages := pg\<rparr>) = ret t3" "booting (t2\<lparr>pages := pg\<rparr>) t3"
      "irq_handlers t3 = irq_handlers s" using booting_printf [OF c3 boot_messages(3)] t2(3) by auto
  then have f3: "heap t3 = ?h" "nodes t3 = Map.empty" "frames t3 = pm" "pages t3 = pg" "live_console t3" "capture_buf t3 = NULL"
      "shell_frame s t3" using f2 by (simp_all add: booting_def hw_frame_def shell_frame_def)
  obtain t4 t5 t6 where t6: "ramfs_init t3 = ret t4" "step ''ramfs mounted at /'' t4 = ret t5" "console_putc NL t5 = ret t6"
      "mounted initial_view 4000000 t6" "live_console t6" "irq_handlers t6 = irq_handlers t3" "shell_frame t3 t6"
      "frames t6 = frames t3" "pages t6 = pages t3"
    by (rule boot_fs_mounts [OF f3(5,6,2)]) (use f3(1) room in simp_all)
  have "memory_ready im mbi t6" using t6(8,9) f3(3,4) pm pg(2) by (simp add: memory_ready_def)
  moreover have "boot_memory im mbi s = ret t6"
    unfolding boot_memory_def
    by (simp only: t1(1) run_bind_simps f1(1,3) start pm(1) t2(1) f2(3,4) pg(1) t3(1) t6(1-3))
  ultimately show ?thesis using t6(4-6) t3(3) shell_frame_trans [OF f3(7) t6(7)] by auto
qed

text \<open>The state \<^verbatim>\<open>kmain\<close> hands to the shell.\<close>

definition cold :: "image \<Rightarrow> multiboot_info \<Rightarrow> 'a kernel_scheme \<Rightarrow> bool" where
  "cold im mbi s \<longleftrightarrow> uart_drains (port_in s) \<and> capture_buf s = NULL \<and> nodes s = Map.empty \<and> frames s = pmm_bss \<and>
     pages s = paging_bss \<and> 0 < unat (im_kernel_end im) \<and> unat (im_kernel_end im) + 4095 + 4194304 < 2 ^ 32 \<and>
     bit (flags mbi) 0 \<and> unat (V2P (heap_end im)) \<le> 2 ^ 30 \<and> unat (mem_upper mbi) + 1024 < 2 ^ 32"

lemma kmain_ready:
  assumes "cold im mbi s"
  obtains s' where "kmain_boot im MULTIBOOT_BOOTLOADER_MAGIC mbi s = ret s'" "mounted initial_view 4000000 s'"
    "memory_ready im mbi s'" "live_console s'" "irq_handlers s' = boot_handlers (irq_handlers s)" "shell_frame s s'"
proof -
  have c: "uart_drains (port_in s)" "capture_buf s = NULL" "nodes s = Map.empty" "frames s = pmm_bss" "pages s = paging_bss"
    "0 < unat (im_kernel_end im)" "unat (im_kernel_end im) + 4095 + 4194304 < 2 ^ 32"
    "bit (flags mbi) 0" "unat (V2P (heap_end im)) \<le> 2 ^ 30" "unat (mem_upper mbi) + 1024 < 2 ^ 32"
    using assms by (simp_all only: cold_def)
  obtain t where t: "kmain_boot im MULTIBOOT_BOOTLOADER_MAGIC mbi s = boot_memory im mbi t" "booting s t"
      "irq_handlers t = boot_handlers (irq_handlers s)"
    using boot_devices [OF c(1,2)] .
  have f: "live_console t" "capture_buf t = NULL" "nodes t = Map.empty" "frames t = pmm_bss" "pages t = paging_bss" "shell_frame s t"
    using c t(2) by (simp_all add: booting_def hw_frame_def)
  obtain s' where s': "boot_memory im mbi t = ret s'" "mounted initial_view 4000000 s'" "memory_ready im mbi s'"
      "live_console s'" "irq_handlers s' = irq_handlers t" "shell_frame t s'"
    using boot_memory_mounts [OF f(1-5) c(6-10)] by blast
  show thesis by (rule that [of s']) (use t(1,3) s'(1-5) shell_frame_trans [OF f(6) s'(6)] in simp_all)
qed

text \<open>
  C1. Booting: on a cold machine with a working UART, a Multiboot memory size and a kernel image that leaves
  the heap inside the first GiB, \<^verbatim>\<open>kmain\<close> gets through every initialisation step in order without a panic,
  a fault or an endless wait, and hands the shell a kernel whose heap and filesystem are sound, with
  exactly the initial tree mounted, the frames below the heap's end reserved, exactly the detected RAM
  mapped at 3 GiB, and the timer and keyboard handlers installed.
\<close>

theorem kmain_boots:
  assumes "uart_drains (port_in s)" "capture_buf s = NULL" "nodes s = Map.empty" "frames s = pmm_bss" "pages s = paging_bss"
    and "0 < unat (im_kernel_end im)" "unat (im_kernel_end im) + 4095 + 4194304 < 2 ^ 32"
    and "bit (flags mbi) 0" "unat (V2P (heap_end im)) \<le> 2 ^ 30" "unat (mem_upper mbi) + 1024 < 2 ^ 32"
  shows "\<exists>s'. kmain_boot im MULTIBOOT_BOOTLOADER_MAGIC mbi s = ret s' \<and>
    heap_inv (heap s') \<and> ramfs_inv s' \<and> fs_view s' = initial_view \<and> memory_ready im mbi s' \<and> live_console s' \<and>
    irq_handlers s' 0 = Some Timer_irq \<and> irq_handlers s' 1 = Some Keyboard_irq"
proof -
  have "cold im mbi s" using assms by (simp add: cold_def)
  then obtain s' where s': "kmain_boot im MULTIBOOT_BOOTLOADER_MAGIC mbi s = ret s'" "mounted initial_view 4000000 s'"
    "memory_ready im mbi s'" "live_console s'" "irq_handlers s' = boot_handlers (irq_handlers s)" by (rule kmain_ready)
  moreover have "heap_inv (heap s')" using s'(2) store_okD(1) by (auto simp: mounted_def ramfs_inv_def fs_ok_def)
  ultimately show ?thesis by (auto simp: mounted_def boot_handlers_def)
qed

definition boot_image :: image where
  "boot_image = \<lparr>im_kernel_end = 0xC0110000, im_gdt = 0xC0106000, im_idt = 0xC0107000, im_isr = (\<lambda>n. 0xC0100000 + of_nat n),
     im_irq = (\<lambda>n. 0xC0100100 + of_nat n), im_page_directory = 0xC0105000\<rparr>"

lemma boot_image_fits:
  "0 < unat (im_kernel_end boot_image)" "unat (im_kernel_end boot_image) + 4095 + 4194304 < 2 ^ 32"
  "unat (V2P (heap_end boot_image)) \<le> 2 ^ 30" "bit (flags boot_mbi) 0" "unat (mem_upper boot_mbi) + 1024 < 2 ^ 32"
  by (simp_all add: boot_image_def heap_end_def ALIGN_UP_def PAGE_SIZE_def HEAP_SIZE_def V2P_def KERNEL_VBASE_def boot_mbi_def)

lemma kernel_bss_cold:
  "port_in kernel_bss = (\<lambda>_. 0x20)" "capture_buf kernel_bss = NULL" "nodes kernel_bss = Map.empty"
  "frames kernel_bss = pmm_bss" "pages kernel_bss = paging_bss"
  by (simp_all add: kernel_bss_def ramfs.defs ramfs_boot_def console.defs console_boot_def interrupts.defs irq_ready_def
      keyboard_init_def timer_init_def irq_install_handler_def irq_boot_def outb_def Let_def)

theorem kmain_boots_witness:
  "\<exists>s. kmain_boot boot_image MULTIBOOT_BOOTLOADER_MAGIC boot_mbi kernel_bss = ret s \<and> ramfs_inv s \<and> fs_view s = initial_view"
proof -
  have "uart_drains (port_in kernel_bss)" using kernel_bss_cold(1) uart_ready_drains by simp
  from kmain_boots [OF this kernel_bss_cold(2-5) boot_image_fits(1,2,4,3,5)] show ?thesis by blast
qed

section \<open>A foreign boot loader\<close>



end
