(* ===== verification/ShellSafe.thy ===== *)
theory ShellSafe
  imports SafeRun BootProps
begin

text \<open>
  The invariant of the running shell, and that everything the kernel does for it without changing
  the filesystem keeps it: printing to the screen or into the capture buffer, waiting, interrupts.
\<close>

section \<open>The invariant\<close>

text \<open>
  \<open>B\<close> is the capture buffer the shell owns, NULL if none: a block outside the filesystem, large
  enough for whatever the console may store there.
\<close>

definition capture_ok :: "addr \<Rightarrow> 'a kernel_scheme \<Rightarrow> bool" where
  "capture_ok B s \<longleftrightarrow>
     (B \<noteq> NULL \<longrightarrow> B \<notin> fs_blocks s \<and> (\<exists>c \<ge> unat CAPTURE_MAX. (B, c) \<in> live (heap s))) \<and>
     capture_buf s \<in> {NULL, B} \<and> capture_len s \<le> capture_cap s \<and> capture_cap s \<le> CAPTURE_MAX"

definition shell_inv :: "addr \<Rightarrow> 'a kernel_scheme \<Rightarrow> bool" where
  "shell_inv B s \<longleftrightarrow> vga_inv s \<and> irq_ok s \<and> ramfs_inv s \<and> shell_cwd s \<in> dom (nodes s) \<and> capture_ok B s \<and>
     (\<forall>i. NUL \<notin> set (history_ring s i))"

text \<open>What printing and waiting may do: the invariant holds, files and directories are the same, and the
  heap changes only in the capture buffer; the devices are parameters.\<close>

definition quiet :: "addr \<Rightarrow> 'a kernel_scheme \<Rightarrow> 'a kernel_scheme \<Rightarrow> bool" where
  "quiet B s t \<longleftrightarrow> shell_inv B t \<and> nodes t = nodes s \<and> root t = root s \<and> shell_cwd t = shell_cwd s \<and>
     history_total t = history_total s \<and> capture_buf t = capture_buf s \<and> (capture_buf s = NULL \<longrightarrow> heap t = heap s) \<and>
     wake t = wake s \<and> port_in t = port_in s"

lemma quiet_refl: "shell_inv B s \<Longrightarrow> quiet B s s"
  by (simp add: quiet_def)

lemma quietD:
  assumes "quiet B s t"
  shows "shell_inv B t" "nodes t = nodes s" "root t = root s" "shell_cwd t = shell_cwd s" "history_total t = history_total s"
    "capture_buf t = capture_buf s" "capture_buf s = NULL \<Longrightarrow> heap t = heap s" "wake t = wake s" "port_in t = port_in s"
  using assms by (simp_all add: quiet_def)

lemma shell_invD:
  assumes "shell_inv B s"
  shows "vga_inv s" "irq_ok s" "ramfs_inv s" "shell_cwd s \<in> dom (nodes s)" "capture_ok B s" "NUL \<notin> set (history_ring s i)"
  using assms unfolding shell_inv_def by blast+

lemma quiet_trans: "quiet B s t \<Longrightarrow> quiet B t u \<Longrightarrow> quiet B s u"
  by (simp add: quiet_def)

lemma kernel_more:
  fixes s t :: "'a kernel_scheme"
  assumes "vga.more t = vga.more s"
  shows "heap t = heap s" "capture_buf t = capture_buf s" "capture_cap t = capture_cap s" "capture_len t = capture_len s"
    "nodes t = nodes s" "root t = root s" "shell_cwd t = shell_cwd s" "history_ring t = history_ring s"
    "history_total t = history_total s"
  using assms by (cases s; cases t; simp)+

lemma quiet_same:
  fixes s t u :: "'a kernel_scheme"
  assumes q: "quiet B s t" and "vga_inv u" "irq_ok u" "vga.more u = vga.more t" and dev: "wake u = wake t" "port_in u = port_in t"
  shows "quiet B s u"
proof -
  note eq = kernel_more [OF assms(4)]
  have "shell_inv B u" using quietD(1) [OF q] assms(2,3) eq
    by (simp add: shell_inv_def ramfs_inv_def fs_ok_def capture_ok_def fs_blocks_def)
  then show ?thesis using q eq dev by (simp add: quiet_def)
qed

lemma quiet_vga:
  fixes s t u :: "'a kernel_scheme"
  assumes q: "quiet B s t" and f: "vga_frame t u" "vga_inv u"
  shows "quiet B s u"
proof -
  note eq = f(1) [unfolded vga_frame_def]
  have k: "kbd_head u = kbd_head t" "kbd_tail u = kbd_tail t" "wake u = wake t" "port_in u = port_in t" by (subst eq, simp)+
  then have "irq_ok u"
    using shell_invD(2) [OF quietD(1) [OF q]] vga_frame_more(4) [OF f(1)] by (simp add: irq_ok_def kbd_inv_def)
  then show ?thesis using quiet_same [OF q f(2)] vga_frame_more(1) [OF f(1)] k(3,4) by blast
qed

lemma quiet_traced:
  fixes s t u :: "'a kernel_scheme"
  assumes q: "quiet B s t" and t: "traced t u"
  shows "quiet B s u"
proof -
  obtain tr where u: "u = t\<lparr>trace := tr\<rparr>" using t by (auto simp: traced_def)
  show ?thesis unfolding u
    by (rule quiet_vga [OF q]) (use shell_invD(1) [OF quietD(1) [OF q]] in \<open>simp_all add: vga_frame_def vga_inv_def\<close>)
qed

lemma quiet_irq:
  fixes s t u :: "'a kernel_scheme"
  assumes q: "quiet B s t" and u: "irq_ok u" "irq_same t u"
  shows "quiet B s u"
proof -
  have m: "interrupts.more u = interrupts.more t" using u(2) by (simp add: irq_same_def)
  have "cur_row u = cur_row t" "cur_col u = cur_col t" "vga.more u = vga.more t" using m by (cases t; cases u; simp)+
  moreover from this have "vga_inv u" using shell_invD(1) [OF quietD(1) [OF q]] by (simp add: vga_inv_def)
  ultimately show ?thesis using quiet_same [OF q _ u(1)] u(2) unfolding irq_same_def by blast
qed

section \<open>Printing\<close>

lemma quiet_captures:
  fixes s t :: "'a kernel_scheme"
  assumes q: "quiet B s t" and c: "capture_buf t \<noteq> NULL" "capture_len t < capture_cap t"
  shows "quiet B s (t\<lparr>heap := (heap t)\<lparr>bytes := (bytes (heap t))(capture_buf t + capture_len t := ch)\<rparr>,
    capture_len := capture_len t + 1\<rparr>)" (is "quiet B s ?u")
proof -
  note i = shell_invD [OF quietD(1) [OF q]]
  note inv = i(3) and cap = i(5)
  obtain b where b: "B = capture_buf t" "B \<notin> fs_blocks t" "unat CAPTURE_MAX \<le> b" "(B, b) \<in> live (heap t)"
    using cap c(1) by (auto simp: capture_ok_def)
  have hinv: "heap_inv (heap t)" using inv store_okD(1) by (auto simp: ramfs_inv_def fs_ok_def)
  have len: "unat (capture_len t) < b"
    using b(3) c(2) cap unfolding capture_ok_def word_le_nat_alt word_less_nat_alt by linarith
  have "a + of_nat i \<noteq> B + capture_len t" if "(a, d) \<in> live (heap t)" "a \<in> fs_blocks t" "i < d" for a d i
    using kh.block_bytes_distinct [OF hinv that(1) b(4), of i "unat (capture_len t)"] that len b(2) by auto
  then have "fs_blocks_kept t ?u" using hinv b(1) by (auto simp: fs_blocks_kept_def)
  note F = fs_frame_inv [OF inv this]
  have "capture_len t + 1 \<le> capture_cap t" using c(2) by (simp add: inc_le)
  then have "capture_ok B ?u" using cap F(4) by (auto simp: capture_ok_def)
  then have "shell_inv B ?u" using i F(1) by (simp add: shell_inv_def vga_inv_def irq_ok_def kbd_inv_def)
  then show ?thesis using q c(1) by (simp add: quiet_def)
qed

lemma console_putc_safe:
  fixes s t :: "'a kernel_scheme"
  assumes q: "quiet B s t"
  shows "safe (quiet B s) (console_putc c t)"
proof (cases "capture_buf t = NULL")
  case False
  then show ?thesis using q quiet_captures [OF q False] by (simp add: console_putc_def)
next
  case True
  note v = shell_invD(1) [OF quietD(1) [OF q]]
  obtain u where u: "vga_putc c t = ret u" "vga_inv u" "vga_frame t u" using vga_putc_spec [OF v] by blast
  have "quiet B s u" by (rule quiet_vga [OF q u(3,2)])
  moreover have "safe (quiet B s) (serial_putc d w)" if "quiet B s w" for d w
    by (rule safe_mono [OF serial_putc_safe]) (rule quiet_traced [OF that])
  ultimately show ?thesis
    using True u(1) by (auto simp: console_putc_def intro: safe_bind)
qed

lemma console_write_safe:
  fixes s t :: "'a kernel_scheme"
  assumes "quiet B s t"
  shows "safe (quiet B s) (console_write cs t)"
  using assms by (induction cs arbitrary: t) (auto intro: safe_bind [OF console_putc_safe])

text \<open>The arguments match the format.\<close>

definition prints :: "string \<Rightarrow> karg list \<Rightarrow> bool" where
  "prints fmt args \<longleftrightarrow> kformat fmt args \<noteq> None"

lemmas prints_eval = prints_def formats conv_text_def takes_word_def Let_def schar_def uchar_def

lemma kprintf_safe:
  fixes s t :: "'a kernel_scheme"
  assumes "quiet B s t" "prints fmt args"
  shows "safe (quiet B s) (kprintf fmt args t)"
proof -
  obtain out where "kformat fmt args = Some out" using assms(2) by (auto simp: prints_def)
  then show ?thesis using console_write_safe [OF assms(1)] kprintf_eq by metis
qed

lemma quiet_color [intro]:
  fixes s t :: "'a kernel_scheme"
  assumes "quiet B s t"
  shows "quiet B s (console_set_color fg bg t)"
proof -
  obtain c where "console_set_color fg bg t = t\<lparr>color := c\<rparr>" by (simp add: console_set_color_def vga_set_color_def)
  then show ?thesis
    using quiet_vga [OF assms, of "t\<lparr>color := c\<rparr>"] shell_invD(1) [OF quietD(1) [OF assms]]
    by (simp add: vga_frame_def vga_inv_def)
qed

lemma quiet_clear:
  fixes s t :: "'a kernel_scheme"
  assumes "quiet B s t"
  shows "quiet B s (console_clear t)"
proof (rule quiet_vga [OF assms])
  show "vga_inv (console_clear t)"
    by (simp add: console_clear_def vga_clear_def move_hw_cursor_def outb_def Let_def vga_inv_def)
  show "vga_frame t (console_clear t)"
    by (simp add: console_clear_def vga_clear_def move_hw_cursor_def outb_def Let_def vga_frame_def)
qed

text \<open>Rules that follow the code, in the form the proofs about commands use.\<close>

lemma safe_if [safe_intro]: "(b \<Longrightarrow> safe P x) \<Longrightarrow> (\<not> b \<Longrightarrow> safe P y) \<Longrightarrow> safe P (if b then x else y)"
  by simp

lemma safe_ret [safe_intro]: "P x \<Longrightarrow> safe P (ret x)"
  by simp

lemma write_bind [safe_intro]:
  fixes s t :: "'a kernel_scheme"
  shows "quiet B s t \<Longrightarrow> (\<And>u. quiet B s u \<Longrightarrow> safe P (f u)) \<Longrightarrow> safe P (run_bind (console_write cs t) f)"
  by (rule safe_bind [OF console_write_safe])

lemma putc_bind [safe_intro]:
  fixes s t :: "'a kernel_scheme"
  shows "quiet B s t \<Longrightarrow> (\<And>u. quiet B s u \<Longrightarrow> safe P (f u)) \<Longrightarrow> safe P (run_bind (console_putc c t) f)"
  by (rule safe_bind [OF console_putc_safe])

lemma printf_bind [safe_intro]:
  fixes s t :: "'a kernel_scheme"
  shows "quiet B s t \<Longrightarrow> prints fmt args \<Longrightarrow> (\<And>u. quiet B s u \<Longrightarrow> safe P (f u)) \<Longrightarrow>
    safe P (run_bind (kprintf fmt args t) f)"
  by (rule safe_bind [OF kprintf_safe])

lemmas safe_last [safe_intro] = console_write_safe console_putc_safe kprintf_safe

section \<open>Reading the filesystem\<close>

lemma quiet_fs:
  assumes "quiet B s t"
  obtains K where "fs_ok K t" "forest (nodes s) {root s} K"
  using shell_invD(3) [OF quietD(1) [OF assms]] quietD(2,3) [OF assms] that by (auto simp: ramfs_inv_def fs_ok_def)

lemma resolve_quiet:
  fixes s t :: "'a kernel_scheme"
  assumes q: "quiet B s t" and path: "NUL \<notin> set path"
  obtains p where "ramfs_resolve (shell_cwd t) path t = ret p" "p = NULL \<or> p \<in> dom (nodes s)"
proof -
  obtain K where K: "fs_ok K t" "forest (nodes s) {root s} K" by (rule quiet_fs [OF q])
  note cwd = shell_invD(4) [OF quietD(1) [OF q]]
  obtain C where C: "named t C (shell_cwd t)" by (rule node_path [OF K(1) cwd])
  obtain p where p: "ramfs_resolve (shell_cwd t) path t = ret p" "p = NULL \<or> (\<exists>Q. named t Q p)"
    using resolve_view [OF K(1) C path] by (auto split: option.splits)
  then have "p = NULL \<or> p \<in> dom (nodes s)" using at_dom(1) [OF K(1)] quietD(2) [OF q] by auto
  then show thesis using that p(1) by blast
qed

lemma path_quiet:
  fixes s t :: "'a kernel_scheme"
  assumes q: "quiet B s t"
  obtains path where "ramfs_path (shell_cwd t) len t = ret path"
proof -
  obtain K where K: "fs_ok K t" "forest (nodes s) {root s} K" by (rule quiet_fs [OF q])
  note cwd = shell_invD(4) [OF quietD(1) [OF q]]
  obtain C where C: "named t C (shell_cwd t)" by (rule node_path [OF K(1) cwd])
  obtain n where n: "nodes t (shell_cwd t) = Some n" using cwd by blast
  have "\<exists>path. ramfs_path (shell_cwd t) len t = ret path"
    using path_chain_at [OF K(1) C, of 0] by (simp add: ramfs_path_def node_at_def n)
  then show thesis using that by blast
qed

lemma node_quiet: "quiet B s t \<Longrightarrow> nodes s p = Some n \<Longrightarrow> node_at p t = ret n"
  by (simp add: quiet_def node_at_def)

lemma node_bind [safe_intro]:
  "quiet B s t \<Longrightarrow> p \<in> dom (nodes s) \<Longrightarrow> (\<And>n. nodes s p = Some n \<Longrightarrow> safe P (f n)) \<Longrightarrow> safe P (run_bind (node_at p t) f)"
  by (auto simp: node_quiet)

lemma resolve_bind [safe_intro]:
  fixes s t :: "'a kernel_scheme"
  assumes "quiet B s t" "NUL \<notin> set path" "\<And>p. p = NULL \<or> p \<in> dom (nodes s) \<Longrightarrow> safe P (f p)"
  shows "safe P (run_bind (ramfs_resolve (shell_cwd t) path t) f)"
  by (rule resolve_quiet [OF assms(1,2)]) (simp add: assms(3))

lemma want_file_typed:
  fixes s t :: "'a kernel_scheme"
  assumes q: "quiet B s t" and path: "NUL \<notin> set path"
    and f: "\<And>u p. quiet B s u \<Longrightarrow> p = NULL \<or> (\<exists>n. nodes s p = Some n \<and> n_type n = RAMFS_FILE) \<Longrightarrow> safe P (f (u, p))"
  shows "safe P (run_bind (want_file path t) f)"
proof -
  have k: "prints (''%s: no such file or directory'' @ [NL]) [Str (Some path)]"
    "prints (''%s: is a directory'' @ [NL]) [Str (Some path)]"
    by (simp_all add: prints_eval del: kformat.simps)
  have "safe (\<lambda>(u, p). quiet B s u \<and> (p = NULL \<or> (\<exists>n. nodes s p = Some n \<and> n_type n = RAMFS_FILE))) (want_file path t)"
    unfolding want_file_def by (intro safe_intro) (use q path k in auto)
  then show ?thesis by (rule safe_bind) (auto intro: f)
qed

lemma want_file_bind [safe_intro]:
  fixes s t :: "'a kernel_scheme"
  assumes "quiet B s t" "NUL \<notin> set path" "\<And>u p. quiet B s u \<Longrightarrow> p = NULL \<or> p \<in> dom (nodes s) \<Longrightarrow> safe P (f (u, p))"
  shows "safe P (run_bind (want_file path t) f)"
  by (rule want_file_typed [OF assms(1,2)]) (use assms(3) in auto)

end
