(* ===== verification/CommandSafe.thy ===== *)
theory CommandSafe
  imports ShellSafe
begin

text \<open>
  The commands that do not change the filesystem (shell/commands.c): none of them panics or
  dereferences a bad pointer, whatever its arguments, the files and the hardware, and all of them
  keep the invariant of the shell.
\<close>

section \<open>Rules for commands\<close>

abbreviation left_quiet :: "addr \<Rightarrow> 'a kernel_scheme \<Rightarrow> 'a kernel_scheme \<times> 'b \<Rightarrow> bool" where
  "left_quiet B s r \<equiv> quiet B s (fst r)"

lemma finish_safe [safe_intro]: "safe (quiet B s) m \<Longrightarrow> safe (left_quiet B s) (finish m)"
  unfolding finish_def by (rule safe_bind) simp_all

lemma fail_safe [safe_intro]: "quiet B s t \<Longrightarrow> prints fmt args \<Longrightarrow> safe (left_quiet B s) (fail_with fmt args t)"
  unfolding fail_with_def by (intro safe_intro) auto

lemma usage_safe [safe_intro]: "quiet B s t \<Longrightarrow> safe (left_quiet B s) (usage msg t)"
  unfolding usage_def by (intro safe_intro) auto

named_theorems command_safe \<open>commands that keep the invariant\<close>

abbreviation words_ok :: "string list \<Rightarrow> bool" where
  "words_ok argv \<equiv> \<forall>w \<in> set argv. NUL \<notin> set w"

section \<open>General commands\<close>

lemma help_loop_safe [safe_intro]: "quiet B s t \<Longrightarrow> safe (quiet B s) (help_loop cs t)"
proof (induction cs arbitrary: t)
  case (Cons c cs)
  have "prints (''  %-10s %s'' @ [NL]) [Str (Some (fst c)), Str (Some (fst (snd c)))]"
    by (simp add: prints_eval del: kformat.simps)
  then show ?case using Cons by (auto intro: printf_bind)
qed simp

lemma cmd_help_safe [command_safe]: "quiet B s t \<Longrightarrow> safe (left_quiet B s) (cmd_help argv t)"
  unfolding cmd_help_def
  by (intro safe_intro) (assumption, rule safe_bind [OF help_loop_safe], assumption, intro safe_intro, assumption)

lemma cmd_clear_safe [command_safe]: "quiet B s t \<Longrightarrow> safe (left_quiet B s) (cmd_clear argv t)"
  unfolding cmd_clear_def by (intro safe_intro) (rule quiet_clear)

lemma echo_loop_safe: "quiet B s t \<Longrightarrow> safe (quiet B s) (echo_loop ws first t)"
proof (induction ws arbitrary: first t)
  case (Cons w ws)
  have "safe (quiet B s) (if \<not> first then console_putc CHR '' '' t else ret t)"
    by (intro safe_intro) (use Cons.prems in auto)
  then show ?case unfolding echo_loop.simps by (rule safe_bind) (rule write_bind, assumption, rule Cons.IH)
qed simp

lemma cmd_echo_safe [command_safe]: "quiet B s t \<Longrightarrow> safe (left_quiet B s) (cmd_echo argv t)"
  unfolding cmd_echo_def by (intro finish_safe safe_bind [OF echo_loop_safe]) (auto intro: safe_intro)

lemma cmd_banner_safe [command_safe]: "quiet B s t \<Longrightarrow> safe (left_quiet B s) (cmd_banner argv t)"
  unfolding cmd_banner_def by (intro safe_intro) (auto simp: prints_eval simp del: kformat.simps)

lemma cmd_uname_safe [command_safe]: "quiet B s t \<Longrightarrow> safe (left_quiet B s) (cmd_uname argv t)"
  unfolding cmd_uname_def by (intro safe_intro) (auto simp: prints_eval simp del: kformat.simps)

lemma cmd_whoami_safe [command_safe]: "quiet B s t \<Longrightarrow> safe (left_quiet B s) (cmd_whoami argv t)"
  unfolding cmd_whoami_def by (intro safe_intro)

lemma cmd_license_safe [command_safe]: "quiet B s t \<Longrightarrow> safe (left_quiet B s) (cmd_license argv t)"
  unfolding cmd_license_def by (intro safe_intro)

lemma history_loop_safe: "quiet B s t \<Longrightarrow> safe (quiet B s) (history_loop is t)"
proof (induction "is" arbitrary: t)
  case (Cons i "is")
  have "prints (''%4d  %s'' @ [NL]) [Word (of_nat (i + 1)), Str (shell_history (int i) t)]"
    by (simp add: prints_eval del: kformat.simps)
  then show ?case using Cons by (auto intro: printf_bind)
qed simp

lemma cmd_history_safe [command_safe]: "quiet B s t \<Longrightarrow> safe (left_quiet B s) (cmd_history argv t)"
  unfolding cmd_history_def by (intro finish_safe history_loop_safe)

section \<open>Commands that read files\<close>

lemma cmd_pwd_safe [command_safe]:
  fixes s t :: "'a kernel_scheme"
  assumes q: "quiet B s t"
  shows "safe (left_quiet B s) (cmd_pwd argv t)"
proof -
  obtain path where path: "ramfs_path (shell_cwd t) RAMFS_PATH_MAX t = ret path" by (rule path_quiet [OF q])
  have "prints (''%s'' @ [NL]) [Str (Some path)]" by (simp add: prints_eval del: kformat.simps)
  then show ?thesis unfolding cmd_pwd_def path run_bind_simps by (intro safe_intro q)
qed

lemma ls_loop_safe:
  assumes "quiet B s t" "sibs (nodes s) c xs"
  shows "safe (quiet B s) (ls_loop c detail t)"
  using assms
proof (induction xs arbitrary: c t)
  case (Cons x xs)
  then obtain n where n: "nodes s c = Some n" "c \<noteq> NULL" "sibs (nodes s) (n_next n) xs" by auto
  let ?slash = "if n_type n = RAMFS_DIR then ''/'' else []"
  let ?item = "if detail
    then kprintf (''%c %8u  %s%s'' @ [NL])
           [Word (if n_type n = RAMFS_DIR then 0x64 else 0x2D), Word (n_size n), Str (Some (n_name n)), Str (Some ?slash)] t
    else let t = (if n_type n = RAMFS_DIR then console_set_color VGA_LIGHT_CYAN VGA_BLACK t else t) in
         run_bind (kprintf ''%s%s  '' [Str (Some (n_name n)), Str (Some ?slash)] t)
           (\<lambda>t. ret (console_set_color VGA_LIGHT_GREY VGA_BLACK t))"
  have p: "prints (''%c %8u  %s%s'' @ [NL]) [Word a, Word b, Str (Some x), Str (Some y)]"
      "prints ''%s%s  '' [Str (Some x), Str (Some y)]" for a b x y
    by (simp_all add: prints_eval del: kformat.simps)
  have item: "safe (quiet B s) ?item"
    unfolding Let_def by (intro safe_intro p) (use Cons.prems(1) in auto)
  have "safe (quiet B s) (run_bind (node_at c u) (\<lambda>n. ls_loop (n_next n) detail u))" if "quiet B s u" for u
    using Cons.IH [OF that n(3)] node_quiet [OF that n(1)] by simp
  then have "safe (quiet B s) (run_bind ?item (\<lambda>u. run_bind (node_at c u) (\<lambda>n. ls_loop (n_next n) detail u)))"
    by (rule safe_bind [OF item])
  then show ?case using n(2) node_quiet [OF Cons.prems(1) n(1)] by (subst ls_loop.simps) simp
qed (simp add: ls_loop.simps)

lemma ls_args_ok:
  assumes "ls_args ws detail path = (d, p)" "words_ok ws" "case path of None \<Rightarrow> True | Some x \<Rightarrow> NUL \<notin> set x"
  shows "case p of None \<Rightarrow> True | Some x \<Rightarrow> NUL \<notin> set x"
  using assms by (induction ws arbitrary: detail path) (auto split: if_splits)

lemma cmd_ls_safe [command_safe]:
  fixes s t :: "'a kernel_scheme"
  assumes q: "quiet B s t" and w: "words_ok argv"
  shows "safe (left_quiet B s) (cmd_ls argv t)"
proof -
  obtain detail path where a: "ls_args (tl argv) False None = (detail, path)" by (rule prod.exhaust)
  have "words_ok (tl argv)" using w by (cases argv) auto
  then have nul: "NUL \<notin> set (case path of Some p \<Rightarrow> p | None \<Rightarrow> ''.'')"
    using ls_args_ok [OF a] by (auto split: option.splits)
  obtain K where f: "forest (nodes s) {root s} K" by (rule quiet_fs [OF q])
  have loop: "safe (quiet B s) (ls_loop (n_children n) detail t)" if "nodes s p = Some n" for p n
    by (rule ls_loop_safe [OF q forestD(1) [OF f that]])
  have p: "prints (''ls: %s: no such file or directory'' @ [NL]) [Str path]" "prints (''%s'' @ [NL]) [Str x]" for x
    by (simp_all add: prints_eval del: kformat.simps)
  show ?thesis unfolding cmd_ls_def a prod.case
    by (intro safe_intro p safe_bind [OF loop]) (use q nul in auto)
qed

lemma put_data_safe:
  fixes s t :: "'a kernel_scheme"
  assumes "quiet B s t" "f \<in> dom (nodes s)"
  shows "safe (quiet B s) (put_data f j t)"
proof (rule safeI)
  let ?P = "\<lambda>f j (t :: 'a kernel_scheme) y. quiet B s t \<and> f \<in> dom (nodes s) \<longrightarrow> okay (quiet B s) y"
  fix y assume "put_data f j t = Some y"
  then have "?P f j t y"
  proof (rule put_data.raw_induct [where P = ?P, rotated])
    fix g and f j :: u32 and t :: "'a kernel_scheme" and y
    assume IH: "\<And>f j t y. g f j t = Some y \<Longrightarrow> ?P f j t y"
      and eq: "run_bind (node_at f t) (\<lambda>n. if j < n_size n
        then run_bind (console_putc (bytes (heap t) (n_data n + j)) t) (\<lambda>t. g f (j + 1) t) else ret t) = Some y"
    have "safe (quiet B s) (g f j t)" if "quiet B s t" "f \<in> dom (nodes s)" for f j t
      by (rule safeI) (use IH that in blast)
    then show "?P f j t y" by (intro safe_step [OF eq] safe_intro) auto
  qed
  then show "okay (quiet B s) y" using assms by blast
qed

lemma cat_loop_safe:
  fixes s t :: "'a kernel_scheme"
  assumes "quiet B s t" "words_ok ws"
  shows "safe (left_quiet B s) (cat_loop ws t)"
  using assms
proof (induction ws arbitrary: t)
  case (Cons w ws)
  have tail: "safe (quiet B s) (if n_size n \<noteq> 0 \<and> bytes (heap u) (n_data n + (n_size n - 1)) \<noteq> NL
      then console_putc NL u else ret u)" if "quiet B s u" for u n
    by (intro safe_intro) (use that in auto)
  have "safe (left_quiet B s) (run_bind (put_data f 0 u) (\<lambda>u. run_bind (node_at f u) (\<lambda>n.
      run_bind (if n_size n \<noteq> 0 \<and> bytes (heap u) (n_data n + (n_size n - 1)) \<noteq> NL then console_putc NL u else ret u)
        (cat_loop ws))))" if "quiet B s u" "f \<in> dom (nodes s)" for u f
    using that Cons.IH Cons.prems(2)
    by (intro safe_bind [OF put_data_safe] node_bind safe_bind [OF tail]) auto
  then show ?case unfolding cat_loop.simps
    by (intro want_file_bind) (use Cons.prems in auto)
qed simp

lemma words_tl: "words_ok argv \<Longrightarrow> words_ok (tl argv)" "words_ok argv \<Longrightarrow> i < length argv \<Longrightarrow> NUL \<notin> set (argv ! i)"
  by (cases argv) auto

lemma cmd_cat_safe [command_safe]:
  fixes s t :: "'a kernel_scheme"
  shows "quiet B s t \<Longrightarrow> words_ok argv \<Longrightarrow> safe (left_quiet B s) (cmd_cat argv t)"
  unfolding cmd_cat_def by (intro safe_intro cat_loop_safe words_tl)

lemma hex_columns_safe:
  fixes s t :: "'a kernel_scheme"
  assumes "quiet B s t" "f \<in> dom (nodes s)"
  shows "safe (quiet B s) (hex_columns is f off t)"
  using assms(1)
proof (induction "is" arbitrary: t)
  case (Cons i "is")
  have p: "prints ''%02x '' [Word w]" for w by (simp add: prints_eval del: kformat.simps)
  have cell: "safe (quiet B s) (if off + i < n_size n
      then kprintf ''%02x '' [Word (word_of_int (uchar (file_byte n (off + i) t)))] t else console_write ''   '' t)" for n
    by (intro safe_intro p) (use Cons.prems in auto)
  have gap: "safe (quiet B s) (if i = 7 then console_putc CHR '' '' u else ret u)" if "quiet B s u" for u
    by (intro safe_intro) (use that in auto)
  show ?case unfolding hex_columns.simps
    by (intro node_bind safe_bind [OF cell] safe_bind [OF gap] Cons.IH) (use Cons.prems assms(2) in auto)
qed simp

lemma ascii_columns_safe:
  fixes s t :: "'a kernel_scheme"
  assumes "quiet B s t" "f \<in> dom (nodes s)"
  shows "safe (quiet B s) (ascii_columns is f off t)"
  using assms(1)
proof (induction "is" arbitrary: t)
  case (Cons i "is")
  show ?case unfolding ascii_columns.simps Let_def
    by (intro safe_intro Cons.IH) (use Cons.prems assms(2) in auto)
qed simp

lemma hexdump_loop_safe:
  fixes s t :: "'a kernel_scheme"
  assumes "quiet B s t" "f \<in> dom (nodes s)"
  shows "safe (quiet B s) (hexdump_loop f off t)"
proof (rule safeI)
  let ?P = "\<lambda>f off (t :: 'a kernel_scheme) y. quiet B s t \<and> f \<in> dom (nodes s) \<longrightarrow> okay (quiet B s) y"
  fix y assume "hexdump_loop f off t = Some y"
  then have "?P f off t y"
  proof (rule hexdump_loop.raw_induct [where P = ?P, rotated])
    fix g and f off :: u32 and t :: "'a kernel_scheme" and y
    assume IH: "\<And>f off t y. g f off t = Some y \<Longrightarrow> ?P f off t y"
      and eq: "run_bind (node_at f t) (\<lambda>n. if off < n_size n
        then run_bind (kprintf ''%08x  '' [Word off] t) (\<lambda>t. run_bind (hex_columns columns f off t) (\<lambda>t.
             run_bind (console_write '' |'' t) (\<lambda>t. run_bind (ascii_columns columns f off t) (\<lambda>t.
             run_bind (console_write (''|'' @ [NL]) t) (\<lambda>t. g f (off + 16) t)))))
        else ret t) = Some y"
    have p: "prints ''%08x  '' [Word w]" for w by (simp add: prints_eval del: kformat.simps)
    have "safe (quiet B s) (g f off t)" if "quiet B s t" "f \<in> dom (nodes s)" for f off t
      by (rule safeI) (use IH that in blast)
    then show "?P f off t y"
      by (intro safe_step [OF eq] safe_intro p safe_bind [OF hex_columns_safe] safe_bind [OF ascii_columns_safe]) auto
  qed
  then show "okay (quiet B s) y" using assms by blast
qed

lemma cmd_hexdump_safe [command_safe]:
  fixes s t :: "'a kernel_scheme"
  shows "quiet B s t \<Longrightarrow> words_ok argv \<Longrightarrow> safe (left_quiet B s) (cmd_hexdump argv t)"
  unfolding cmd_hexdump_def
  by (intro safe_intro) (auto simp: words_tl(2) intro!: finish_safe hexdump_loop_safe)

lemma grep_loop_safe:
  fixes s t :: "'a kernel_scheme"
  assumes "quiet B s t" "f \<in> dom (nodes s)"
  shows "safe (left_quiet B s) (grep_loop pat f i line m t)"
proof (rule safeI)
  let ?P = "\<lambda>(pat :: string) f (i :: u32) (line :: string) (m :: nat) (t :: 'a kernel_scheme) y.
      quiet B s t \<and> f \<in> dom (nodes s) \<longrightarrow> okay (left_quiet B s) y"
  fix y assume "grep_loop pat f i line m t = Some y"
  then have "?P pat f i line m t y"
  proof (rule grep_loop.raw_induct [where P = ?P, rotated])
    fix g and pat :: string and f i :: u32 and line :: string and m :: nat and t :: "'a kernel_scheme" and y
    assume IH: "\<And>pat f i line m t y. g pat f i line m t = Some y \<Longrightarrow> ?P pat f i line m t y"
      and eq: "run_bind (node_at f t) (\<lambda>n. if i \<le> n_size n
        then let c = (if i < n_size n then file_byte n i t else NL) in
          if c = NL then
            if line \<noteq> [] \<and> str_str (cstr line) pat \<noteq> None
            then run_bind (kprintf (''%s'' @ [NL]) [Str (Some (cstr line))] t) (\<lambda>t. g pat f (i + 1) [] (m + 1) t)
            else g pat f (i + 1) [] m t
          else if length line + 1 < SHELL_LINE_MAX then g pat f (i + 1) (line @ [c]) m t
          else g pat f (i + 1) line m t
        else ret (t, m)) = Some y"
    have p: "prints (''%s'' @ [NL]) [Str w]" for w by (simp add: prints_eval del: kformat.simps)
    have g: "safe (left_quiet B s) (g pat f i line m t)" if "quiet B s t" "f \<in> dom (nodes s)" for pat f i line m t
      by (rule safeI) (use IH that in blast)
    show "?P pat f i line m t y"
      by (rule safe_step [OF eq], unfold Let_def) (intro safe_intro p g; auto)
  qed
  then show "okay (left_quiet B s) y" using assms by blast
qed

lemma cmd_grep_safe [command_safe]:
  fixes s t :: "'a kernel_scheme"
  assumes "quiet B s t" "words_ok argv"
  shows "safe (left_quiet B s) (cmd_grep argv t)"
proof -
  have g: "safe (left_quiet B s) (run_bind (grep_loop (argv ! 1) f 0 [] 0 u) (\<lambda>(u, m). ret (u, if m \<noteq> 0 then 0 else 1)))"
    if "quiet B s u" "f \<in> dom (nodes s)" for u f
    by (rule safe_bind [OF grep_loop_safe [OF that]]) auto
  show ?thesis unfolding cmd_grep_def
    by (intro safe_intro) (use assms words_tl(2) g in auto)
qed

text \<open>Counting changes nothing at all.\<close>

lemma wc_loop_safe:
  fixes s t :: "'a kernel_scheme"
  assumes "quiet B s t" "words_ok ws"
  shows "safe (left_quiet B s) (wc_loop ws t)"
  using assms
proof (induction ws arbitrary: t)
  case (Cons w ws)
  have p: "prints (''%6u %6u %6u %s'' @ [NL]) [Word a, Word b, Word c, Str x]" for a b c x
    by (simp add: prints_eval del: kformat.simps)
  have count: "safe (left_quiet B s) (run_bind (wc_count f 0 0 0 False u) (\<lambda>(lines, words). run_bind (node_at f u) (\<lambda>n.
      run_bind (kprintf (''%6u %6u %6u %s'' @ [NL]) [Word lines, Word words, Word (n_size n), Str (Some w)] u) (wc_loop ws))))"
    if u: "quiet B s u" and f: "f \<in> dom (nodes s)" for u f
  proof -
    obtain n where "nodes u f = Some n" using f quietD(2) [OF u] by auto
    from wc_count_spec [OF this, of 0 0 0 False] obtain a b where "wc_count f 0 0 0 False u = ret (a, b)" by auto
    then show ?thesis unfolding \<open>wc_count f 0 0 0 False u = ret (a, b)\<close> run_bind_simps prod.case
      by (intro safe_intro p Cons.IH) (use Cons.prems(2) u f in auto)
  qed
  show ?case unfolding wc_loop.simps by (intro want_file_bind) (use Cons.prems count in auto)
qed simp

lemma cmd_wc_safe [command_safe]:
  fixes s t :: "'a kernel_scheme"
  shows "quiet B s t \<Longrightarrow> words_ok argv \<Longrightarrow> safe (left_quiet B s) (cmd_wc argv t)"
  unfolding cmd_wc_def by (intro safe_intro wc_loop_safe words_tl)

lemma head_loop_safe:
  fixes s t :: "'a kernel_scheme"
  assumes "quiet B s t" "f \<in> dom (nodes s)"
  shows "safe (quiet B s) (head_loop f i k limit t)"
proof (rule safeI)
  let ?P = "\<lambda>f i k limit (t :: 'a kernel_scheme) y. quiet B s t \<and> f \<in> dom (nodes s) \<longrightarrow> okay (quiet B s) y"
  fix y assume "head_loop f i k limit t = Some y"
  then have "?P f i k limit t y"
  proof (rule head_loop.raw_induct [where P = ?P, rotated])
    fix g and f i k limit :: u32 and t :: "'a kernel_scheme" and y
    assume IH: "\<And>f i k limit t y. g f i k limit t = Some y \<Longrightarrow> ?P f i k limit t y"
      and eq: "run_bind (node_at f t) (\<lambda>n. if i < n_size n \<and> k < limit
        then run_bind (console_putc (file_byte n i t) t) (\<lambda>t. run_bind (node_at f t) (\<lambda>n.
             g f (i + 1) (if file_byte n i t = NL then k + 1 else k) limit t))
        else ret t) = Some y"
    have g: "safe (quiet B s) (g f i k limit t)" if "quiet B s t" "f \<in> dom (nodes s)" for f i k limit t
      by (rule safeI) (use IH that in blast)
    show "?P f i k limit t y" by (intro safe_step [OF eq] safe_intro g) auto
  qed
  then show "okay (quiet B s) y" using assms by blast
qed

lemma head_args_ok:
  assumes "head_args ws limit path = (k, p)" "words_ok ws" "case path of None \<Rightarrow> True | Some x \<Rightarrow> NUL \<notin> set x"
  shows "case p of None \<Rightarrow> True | Some x \<Rightarrow> NUL \<notin> set x"
  using assms by (induction ws limit path rule: head_args.induct) (auto split: if_splits)

lemma cmd_head_safe [command_safe]:
  fixes s t :: "'a kernel_scheme"
  assumes q: "quiet B s t" and w: "words_ok argv"
  shows "safe (left_quiet B s) (cmd_head argv t)"
proof -
  obtain limit path where a: "head_args (tl argv) 10 None = (limit, path)" by (rule prod.exhaust)
  have ok: "case path of None \<Rightarrow> True | Some x \<Rightarrow> NUL \<notin> set x"
    using head_args_ok [OF a words_tl(1) [OF w]] by simp
  have "safe (left_quiet B s) (run_bind (want_file p t) (\<lambda>(u, f).
      if f = NULL then ret (u, 1) else finish (head_loop f 0 0 limit u)))" if "NUL \<notin> set p" for p
    by (rule want_file_bind [OF q that]) (auto intro!: finish_safe head_loop_safe)
  then show ?thesis using ok q unfolding cmd_head_def a prod.case by (cases path) (auto intro: safe_intro)
qed

end
