(* ===== verification/SystemSafe.thy ===== *)
theory SystemSafe
  imports CommandSafe
begin

text \<open>
  The commands that look at the hardware, wait, or stop the machine (shell/commands.c), and the
  greeting, the prompt and the line editor of the shell (shell/shell.c): they too keep the invariant.
\<close>

section \<open>Hardware\<close>

lemma flags_loop_safe: "quiet B s t \<Longrightarrow> safe (quiet B s) (flags_loop fs d t)"
proof (induction fs arbitrary: t)
  case (Cons f fs)
  have p: "prints '' %s'' [Str x]" for x by (simp add: prints_eval del: kformat.simps)
  have "safe (quiet B s) (if d AND push_bit (fst f) 1 \<noteq> 0 then kprintf '' %s'' [Str (Some (snd f))] t else ret t)"
    by (intro safe_intro p) (use Cons.prems in auto)
  then show ?case unfolding flags_loop.simps by (rule safe_bind) (rule Cons.IH)
qed simp

lemma cmd_lscpu_safe [command_safe]:
  fixes s t :: "'a kernel_scheme"
  assumes q: "quiet B s t"
  shows "safe (left_quiet B s) (cmd_lscpu argv t)"
proof -
  have p: "prints (''Vendor:      %s'' @ [NL]) [Str x]" "prints (''Model name:  %s'' @ [NL]) [Str x]"
    "prints (''Family:      %u  Model: %u  Stepping: %u'' @ [NL]) [Word a, Word b, Word c]" for x a b c
    by (simp_all add: prints_eval del: kformat.simps)
  have model: "safe (quiet B s) (if b then kprintf (''Model name:  %s'' @ [NL]) [Str x] u else ret u)" if "quiet B s u" for b x u
    by (intro safe_intro p) (use that in auto)
  have sse3: "safe (quiet B s) (if b then console_write out u else ret u)" if "quiet B s u" for b out u
    by (intro safe_intro) (use that in auto)
  show ?thesis unfolding cmd_lscpu_def Let_def split_beta
    by (intro safe_intro p safe_bind [OF model] safe_bind [OF flags_loop_safe] safe_bind [OF sse3]) (use q in auto)
qed

lemma pci_read_quiet:
  fixes s t :: "'a kernel_scheme"
  shows "quiet B s t \<Longrightarrow> quiet B s (fst (pci_read bus dev fn off t))"
  by (erule quiet_traced) (simp add: pci_read_def traced_trans [OF traced_io(4) traced_io(5)])

lemma lspci_functions_safe:
  fixes s t :: "'a kernel_scheme"
  assumes "quiet B s t"
  shows "safe (quiet B s) (lspci_functions fns dev t)"
  using assms
proof (induction fns arbitrary: t)
  case (Cons fn fns)
  have p: "prints (''00:%02x.%u  %04x:%04x  %s'' @ [NL]) [Word a, Word b, Word c, Word d, Str x]" for a b c d x
    by (simp add: prints_eval del: kformat.simps)
  have item: "safe (quiet B s) (if no then ret u
      else kprintf (''00:%02x.%u  %04x:%04x  %s'' @ [NL]) [Word a, Word b, Word c, Word d, Str (Some x)] (fst (pci_read bus dv f off u)))"
    if "quiet B s u" for no u a b c d x bus dv f off
    by (intro safe_intro p) (use that pci_read_quiet in auto)
  show ?case unfolding lspci_functions.simps split_beta
    by (intro safe_bind [OF item] Cons.IH pci_read_quiet) (use Cons.prems in auto)
qed simp

lemma lspci_devices_safe:
  fixes s t :: "'a kernel_scheme"
  assumes "quiet B s t"
  shows "safe (quiet B s) (lspci_devices devs t)"
  using assms
proof (induction devs arbitrary: t)
  case (Cons dev devs)
  have fns: "safe (quiet B s) (if no then ret u else lspci_functions fns dev (fst (pci_read bus dv f off u)))"
    if "quiet B s u" for no u fns bus dv f off
    by (intro safe_intro lspci_functions_safe) (use that pci_read_quiet in auto)
  show ?case unfolding lspci_devices.simps split_beta
    by (intro safe_bind [OF fns] Cons.IH pci_read_quiet) (use Cons.prems in auto)
qed simp

lemma cmd_lspci_safe [command_safe]:
  fixes s t :: "'a kernel_scheme"
  shows "quiet B s t \<Longrightarrow> safe (left_quiet B s) (cmd_lspci argv t)"
  unfolding cmd_lspci_def by (intro finish_safe lspci_devices_safe)

section \<open>System\<close>

lemma cmd_free_safe [command_safe]:
  fixes s t :: "'a kernel_scheme"
  assumes q: "quiet B s t"
  shows "safe (left_quiet B s) (cmd_free argv t)"
proof -
  have p: "prints (''Mem:    %8u KiB %8u KiB %8u KiB'' @ [NL]) [Word a, Word b, Word c]"
    "prints (''Heap:   %8u KiB %8u KiB %8u KiB  (largest free block %u KiB)'' @ [NL]) [Word a, Word b, Word c, Word d]" for a b c d
    by (simp_all add: prints_eval del: kformat.simps)
  show ?thesis
  proof (cases "kheap_stats (heap t)")
    case (Some r)
    then show ?thesis unfolding cmd_free_def Some option.case split_beta
      by (intro safe_intro p) (use q in auto)
  qed (simp add: cmd_free_def)
qed

lemma cmd_uptime_safe [command_safe]:
  fixes s t :: "'a kernel_scheme"
  shows "quiet B s t \<Longrightarrow> safe (left_quiet B s) (cmd_uptime argv t)"
  unfolding cmd_uptime_def Let_def by (intro safe_intro) (auto simp: prints_eval simp del: kformat.simps)

lemma cmd_date_safe [command_safe]:
  fixes s t :: "'a kernel_scheme"
  assumes q: "quiet B s t"
  shows "safe (left_quiet B s) (cmd_date argv t)"
proof -
  have p: "prints (''%u-%02u-%02u %02u:%02u:%02u UTC'' @ [NL]) [Word a, Word b, Word c, Word d, Word e, Word f]" for a b c d e f
    by (simp add: prints_eval del: kformat.simps)
  show ?thesis unfolding cmd_date_def split_beta
    by (rule safe_bind [OF rtc_read_safe]) (intro safe_intro p quiet_traced [OF q])
qed

lemma cmd_sleep_safe [command_safe]:
  fixes s t :: "'a kernel_scheme"
  assumes q: "quiet B s t"
  shows "safe (left_quiet B s) (cmd_sleep argv t)"
proof -
  have "safe (quiet B s) (timer_sleep_ms ms t)" for ms
    unfolding timer_sleep_ms_def
    by (rule safe_mono [OF sleep_until_safe [OF shell_invD(2) [OF quietD(1) [OF q]]]]) (auto intro: quiet_irq [OF q])
  then show ?thesis unfolding cmd_sleep_def by (intro safe_intro) (auto intro: q)
qed

lemma safe_stop: "safe Q m \<Longrightarrow> safe P (run_bind m (\<lambda>_. None))"
  by (rule safe_bind) simp_all

lemma cmd_reboot_safe [command_safe]:
  fixes s t :: "'a kernel_scheme"
  assumes q: "quiet B s t"
  shows "safe (left_quiet B s) (cmd_reboot argv t)"
proof -
  have "safe (\<lambda>_. True) (reboot_ports t)" unfolding reboot_ports_def
    by (intro write_bind [OF q] safe_bind [OF kbc_wait_safe]) simp
  then show ?thesis unfolding cmd_reboot_def by (rule safe_stop)
qed

lemma cmd_poweroff_safe [command_safe]:
  fixes s t :: "'a kernel_scheme"
  assumes q: "quiet B s t"
  shows "safe (left_quiet B s) (cmd_poweroff argv t)"
proof -
  have o: "quiet B s u \<Longrightarrow> quiet B s (outw p w u)" "quiet B s u \<Longrightarrow> quiet B s (outb p v u)" for u :: "'a kernel_scheme" and p w v
    by (rule quiet_traced, assumption, simp)+
  have "safe (quiet B s) (poweroff_ports t)" unfolding poweroff_ports_def Let_def
    by (intro write_bind [OF q] console_write_safe o)
  then show ?thesis unfolding cmd_poweroff_def by (rule safe_stop)
qed

lemma cmd_halt_safe [command_safe]:
  fixes s t :: "'a kernel_scheme"
  shows "quiet B s t \<Longrightarrow> safe (left_quiet B s) (cmd_halt argv t)"
  unfolding cmd_halt_def by (rule safe_stop [OF console_write_safe])

section \<open>Greeting and prompt\<close>

lemma print_prompt_safe:
  fixes s t :: "'a kernel_scheme"
  assumes q: "quiet B s t"
  shows "safe (quiet B s) (print_prompt t)"
proof -
  obtain path where path: "ramfs_path (shell_cwd t) RAMFS_PATH_MAX t = ret path" by (rule path_quiet [OF q])
  show ?thesis unfolding print_prompt_def path run_bind_simps
    by (intro safe_intro quiet_color) (use q in auto)
qed

section \<open>Reading a line\<close>

lemma quiet_kbd:
  fixes s t u :: "'a kernel_scheme"
  assumes q: "quiet B s t" and u: "kbd_inv u" "u = t\<lparr>kbd_tail := kbd_tail u\<rparr>"
  shows "quiet B s u"
proof (rule quiet_same [OF q])
  note i = shell_invD [OF quietD(1) [OF q]]
  show "vga.more u = vga.more t" "wake u = wake t" "port_in u = port_in t" by (subst u(2), simp)+
  have "cur_row u = cur_row t" "cur_col u = cur_col t" "irq_handlers u = irq_handlers t" by (subst u(2), simp)+
  then show "vga_inv u" "irq_ok u" using i(1,2) u(1) by (simp_all add: vga_inv_def irq_ok_def)
qed

lemma keyboard_read_safe:
  fixes s t :: "'a kernel_scheme"
  assumes q: "quiet B s t"
  shows "safe (left_quiet B s) (keyboard_read t)"
proof -
  have k: "kbd_inv t" using shell_invD(2) [OF quietD(1) [OF q]] by (simp add: irq_ok_def)
  show ?thesis
  proof (cases "kbd_queue t")
    case Nil
    then show ?thesis using keyboard_read_empty [OF k] q by simp
  next
    case (Cons c cs)
    obtain u where "keyboard_read t = ret (u, uchar c)" "kbd_inv u" "u = t\<lparr>kbd_tail := kbd_tail u\<rparr>"
      using keyboard_read_cons [OF k Cons] by blast
    then show ?thesis using quiet_kbd [OF q] by simp
  qed
qed

lemma traced_serial: "traced s (fst (serial_read s))" "traced s (fst (serial_spin n s))"
proof -
  have r: "traced s (fst (serial_read s))" for s :: "'a io_scheme"
    using traced_io(2) [of s REG_LINE_STATUS] traced_trans [OF traced_io(2) [of s] traced_io(2)]
    by (simp add: serial_read_def split_beta)
  then show "traced s (fst (serial_read s))" .
  show "traced s (fst (serial_spin n s))"
  proof (induction n arbitrary: s)
    case (Suc n)
    show ?case using r [of s] traced_trans [OF r Suc.IH] by (simp add: split_beta)
  qed simp
qed

lemma traced_serial_key: "traced s (fst (serial_key s))"
proof -
  have soon: "traced s t \<Longrightarrow> traced s (fst (serial_read_soon t))" for t
    unfolding serial_read_soon_def using traced_trans traced_serial(2) by blast
  show ?thesis
    unfolding serial_key_def split_beta by (simp add: traced_serial soon)
qed

lemma console_getchar_safe:
  fixes s t :: "'a kernel_scheme"
  assumes "quiet B s t"
  shows "safe (left_quiet B s) (console_getchar t)"
proof (rule safeI)
  let ?P = "\<lambda>(t :: 'a kernel_scheme) y. quiet B s t \<longrightarrow> okay (left_quiet B s) y"
  fix y assume "console_getchar t = Some y"
  then have "?P t y"
  proof (rule console_getchar.raw_induct [where P = ?P, rotated])
    fix g and t :: "'a kernel_scheme" and y
    assume IH: "\<And>t y. g t = Some y \<Longrightarrow> ?P t y"
      and eq: "run_bind (keyboard_read t) (\<lambda>r. let q = (if snd r < 0 then serial_key (fst r) else r) in
          if snd q \<ge> 0 then ret q else run_bind (hlt (fst q)) g) = Some y"
    have g: "safe (left_quiet B s) (g t)" if "quiet B s t" for t by (rule safeI) (use IH that in blast)
    have hlt: "safe (left_quiet B s) (run_bind (hlt u) g)" if "quiet B s u" for u
      by (rule safe_bind [OF hlt_safe [OF shell_invD(2) [OF quietD(1) [OF that]]]]) (auto intro!: g quiet_irq [OF that])
    have key: "quiet B s u \<Longrightarrow> quiet B s (fst (serial_key u))" for u :: "'a kernel_scheme"
      by (rule quiet_traced [OF _ traced_serial_key])
    show "?P t y" unfolding Let_def
      by (rule safe_step [OF eq [unfolded Let_def]], rule safe_bind [OF keyboard_read_safe]) (auto intro: hlt key)
  qed
  then show "okay (left_quiet B s) y" using assms by blast
qed

lemma erase_safe:
  fixes s t :: "'a kernel_scheme"
  shows "quiet B s t \<Longrightarrow> safe (quiet B s) (erase n t)"
  by (induction n arbitrary: t) (auto intro: write_bind)

lemma lcpy_NUL: "NUL \<notin> set x \<Longrightarrow> NUL \<notin> set (str_lcpy n x)"
  using set_take_subset [of _ x] by (auto simp: str_lcpy_def)

lemma replace_line_safe:
  fixes s t :: "'a kernel_scheme"
  assumes "quiet B s t" "l = Some x" "NUL \<notin> set x" "0 < cap"
  shows "safe (\<lambda>r. quiet B s (fst r) \<and> NUL \<notin> set (snd r) \<and> length (snd r) < cap) (replace_line cap n l t)"
  unfolding replace_line_def assms(2) option.case
  by (intro safe_bind [OF erase_safe] safe_intro)
    (use assms lcpy_NUL str_lcpy_lt in auto)

lemma history_some:
  assumes "quiet B s t" "0 \<le> i" "i < int (shell_history_count s)"
  obtains x where "shell_history i t = Some x" "NUL \<notin> set x"
proof -
  have "shell_history_count t = shell_history_count s" using quietD(5) [OF assms(1)] by (simp add: shell_history_count_def)
  then show thesis using that assms(2,3) shell_invD(6) [OF quietD(1) [OF assms(1)]]
    by (auto simp: shell_history_def Let_def)
qed

text \<open>What the editor does with one key; \<open>g\<close> is the rest of the loop.\<close>

definition line_key ::
    "(nat \<Rightarrow> string \<Rightarrow> nat \<Rightarrow> 'a kernel_scheme \<Rightarrow> ('a kernel_scheme \<times> string) run) \<Rightarrow>
     nat \<Rightarrow> string \<Rightarrow> nat \<Rightarrow> 'a kernel_scheme \<times> int \<Rightarrow> ('a kernel_scheme \<times> string) run" where
  "line_key g cap buf browse = (\<lambda>(s, c).
     if c = 0x0A then run_bind (console_putc NL s) (\<lambda>s. ret (s, buf))
     else if c = 0x08 then
       if buf \<noteq> [] then run_bind (console_write rubout s) (g cap (butlast buf) browse)
       else g cap buf browse s
     else if c = KEY_UP then
       if browse > 0
       then run_bind (replace_line cap (length buf) (shell_history (int browse - 1) s) s)
              (\<lambda>(s, buf). g cap buf (browse - 1) s)
       else g cap buf browse s
     else if c = KEY_DOWN then
       if browse < shell_history_count s
       then run_bind (replace_line cap (length buf)
                       (if browse + 1 = shell_history_count s then Some [] else shell_history (int browse + 1) s) s)
              (\<lambda>(s, buf). g cap buf (browse + 1) s)
       else g cap buf browse s
     else
       let c = (if c = 0x09 then uchar CHR '' '' else c) in
       if c < 0x20 \<or> c > 0x7e then g cap buf browse s
       else if length buf + 1 < cap
       then run_bind (console_putc (char_of c) s) (g cap (buf @ [char_of c]) browse)
       else g cap buf browse s)"

text \<open>What the editor relies on between two keys.\<close>

definition editing :: "addr \<Rightarrow> 'a kernel_scheme \<Rightarrow> nat \<Rightarrow> string \<Rightarrow> nat \<Rightarrow> 'a kernel_scheme \<Rightarrow> bool" where
  "editing B s cap buf browse t \<longleftrightarrow> quiet B s t \<and> NUL \<notin> set buf \<and> length buf < cap \<and> browse \<le> shell_history_count s"

abbreviation edited :: "addr \<Rightarrow> 'a kernel_scheme \<Rightarrow> nat \<Rightarrow> 'a kernel_scheme \<times> string \<Rightarrow> bool" where
  "edited B s cap r \<equiv> quiet B s (fst r) \<and> NUL \<notin> set (snd r) \<and> length (snd r) < cap"

lemma printable_NUL: "\<not> (k < 0x20 \<or> k > 0x7e) \<Longrightarrow> char_of k \<noteq> NUL" for k :: int
proof -
  assume "\<not> (k < 0x20 \<or> k > 0x7e)"
  then have "uchar (char_of k) \<noteq> uchar NUL" by (simp add: uchar_def)
  then show ?thesis by (simp only: uchar_inject not_False_eq_True)
qed

lemma recall_safe:
  fixes s u :: "'a kernel_scheme"
  assumes "quiet B s u" "line = Some x" "NUL \<notin> set x" "0 < cap" "browse \<le> shell_history_count s"
    and g: "\<And>buf browse t. editing B s cap buf browse t \<Longrightarrow> safe (edited B s cap) (g cap buf browse t)"
  shows "safe (edited B s cap) (run_bind (replace_line cap n line u) (\<lambda>(s, buf). g cap buf browse s))"
  by (rule safe_bind [OF replace_line_safe [OF assms(1-3)]]) (use assms(4,5) g in \<open>auto simp: editing_def\<close>)

lemma line_key_safe:
  fixes s :: "'a kernel_scheme"
  assumes g: "\<And>buf browse t. editing B s cap buf browse t \<Longrightarrow> safe (edited B s cap) (g cap buf browse t)"
    and q: "left_quiet B s r" and b: "NUL \<notin> set buf" "length buf < cap" "browse \<le> shell_history_count s"
  shows "safe (edited B s cap) (line_key g cap buf browse r)"
proof -
  obtain u c where r: "r = (u, c)" by (rule prod.exhaust)
  have u: "quiet B s u" "shell_history_count u = shell_history_count s"
    using q quietD(5) by (auto simp: r shell_history_count_def)
  have cap: "0 < cap" using b(2) by simp
  have up: "safe (edited B s cap) (run_bind (replace_line cap n (shell_history (int browse - 1) u) u) (\<lambda>(s, buf). g cap buf (browse - 1) s))"
    if pos: "0 < browse" for n
  proof -
    obtain x where x: "shell_history (int browse - 1) u = Some x" "NUL \<notin> set x"
      by (rule history_some [OF u(1), of "int browse - 1"]) (use pos b(3) in auto)
    show ?thesis by (rule recall_safe [where g = g, OF u(1) x cap _ g]) (use b(3) in auto)
  qed
  have down: "safe (edited B s cap) (run_bind (replace_line cap n
      (if browse + 1 = shell_history_count s then Some [] else shell_history (int browse + 1) u) u)
      (\<lambda>(s, buf). g cap buf (browse + 1) s))" if lt: "browse < shell_history_count s" for n
  proof -
    obtain x where x: "(if browse + 1 = shell_history_count s then Some [] else shell_history (int browse + 1) u) = Some x"
        "NUL \<notin> set x"
    proof (cases "browse + 1 = shell_history_count s")
      case False
      then have "int browse + 1 < int (shell_history_count s)" using lt by simp
      then show thesis using history_some [OF u(1), of "int browse + 1"] False that by auto
    qed (use that in auto)
    show ?thesis by (rule recall_safe [where g = g, OF u(1) x cap _ g]) (use lt in auto)
  qed
  have ch: "NUL \<notin> set (buf @ [char_of k])" if "\<not> (k < 0x20 \<or> k > 0x7e)" for k :: int
    using printable_NUL [OF that] b(1) by simp
  have rest: "safe (edited B s cap) (g cap buf browse t)"
    if "quiet B s t" "NUL \<notin> set buf" "length buf < cap" "browse \<le> shell_history_count s" for buf browse t
    by (rule g) (use that in \<open>simp add: editing_def\<close>)
  show ?thesis unfolding r line_key_def prod.case Let_def u(2)
    by (intro safe_intro rest up down ch) (use u b in \<open>auto dest: in_set_butlastD\<close>)
qed

lemma read_line_loop_safe:
  fixes s t :: "'a kernel_scheme"
  assumes "quiet B s t" "NUL \<notin> set buf" "length buf < cap" "browse \<le> shell_history_count s"
  shows "safe (edited B s cap) (read_line_loop cap buf browse t)"
proof (rule safeI)
  let ?P = "\<lambda>c buf browse (t :: 'a kernel_scheme) y. c = cap \<and> editing B s cap buf browse t \<longrightarrow> okay (edited B s cap) y"
  fix y assume "read_line_loop cap buf browse t = Some y"
  then have "?P cap buf browse t y"
  proof (rule read_line_loop.raw_induct [where P = ?P, rotated, folded line_key_def])
    fix g :: "nat \<Rightarrow> string \<Rightarrow> nat \<Rightarrow> 'a kernel_scheme \<Rightarrow> ('a kernel_scheme \<times> string) run"
      and c0 :: nat and buf browse and t :: "'a kernel_scheme" and y
    assume IH: "\<And>c buf browse t y. g c buf browse t = Some y \<Longrightarrow> ?P c buf browse t y"
      and eq: "run_bind (console_getchar t) (line_key g c0 buf browse) = Some y"
    have g: "safe (edited B s cap) (g cap buf browse t)" if "editing B s cap buf browse t" for buf browse t
      by (rule safeI) (use IH that in blast)
    show "?P c0 buf browse t y"
      by (rule safe_step [OF eq]) (auto simp: editing_def intro!: safe_bind [OF console_getchar_safe line_key_safe [where g = g, OF g]])
  qed
  then show "okay (edited B s cap) y" using assms by (simp add: editing_def)
qed

lemma read_line_safe:
  fixes s t :: "'a kernel_scheme"
  assumes "quiet B s t" "0 < cap"
  shows "safe (\<lambda>r. quiet B s (fst r) \<and> NUL \<notin> set (snd r) \<and> length (snd r) < cap) (read_line cap t)"
  unfolding read_line_def
  by (rule read_line_loop_safe) (use assms quietD(5) [OF assms(1)] in \<open>simp_all add: shell_history_count_def\<close>)

end
