(* ===== verification/FileSafe.thy ===== *)
theory FileSafe
  imports SystemSafe
begin

text \<open>
  The commands that change the filesystem (shell/commands.c): creating, removing, copying and moving
  keep the invariant of the shell, with two provisos the code does not check: \<^verbatim>\<open>rm -r\<close> must not
  remove a directory above the working directory, and the new name for \<^verbatim>\<open>mv\<close> must fit a node.
\<close>

section \<open>Filesystem operations and the invariant\<close>

abbreviation left_sound :: "addr \<Rightarrow> 'a kernel_scheme \<times> 'b \<Rightarrow> bool" where
  "left_sound B r \<equiv> shell_inv B (fst r)"

lemma quiet_sound: "safe (left_quiet B s) r \<Longrightarrow> safe (left_sound B) r"
  by (erule safe_mono) (rule quietD(1))

lemma left_fail: "shell_inv B s \<Longrightarrow> prints fmt args \<Longrightarrow> safe (left_sound B) (fail_with fmt args s)"
  by (rule quiet_sound [OF fail_safe [OF quiet_refl]])

lemma left_usage: "shell_inv B s \<Longrightarrow> safe (left_sound B) (usage msg s)"
  by (rule quiet_sound [OF usage_safe [OF quiet_refl]])

lemma fs_change:
  fixes s t :: "'a kernel_scheme"
  assumes i: "shell_inv B s" and t: "ramfs_inv t" "fs_only s t" "foreign_kept s t" "shell_cwd s \<in> dom (nodes t)"
  shows "shell_inv B t" "shell_cwd t = shell_cwd s" "root t = root s" "capture_buf t = capture_buf s"
proof -
  note I = shell_invD [OF i]
  obtain h N where e: "t = s\<lparr>heap := h, nodes := N\<rparr>" using t(2) by (auto simp: fs_only_def)
  have "B \<notin> fs_blocks t \<and> (\<exists>c \<ge> unat CAPTURE_MAX. (B, c) \<in> live (heap t))" if "B \<noteq> NULL"
    using that I(5) t(3) unfolding capture_ok_def foreign_kept_def by blast
  then have "capture_ok B t" using I(5) by (auto simp: capture_ok_def e)
  then show "shell_inv B t"
    using I t(1,4) by (simp add: shell_inv_def e vga_inv_def irq_ok_def kbd_inv_def)
  show "shell_cwd t = shell_cwd s" "root t = root s" "capture_buf t = capture_buf s" by (simp_all add: e)
qed

lemma cwd_named:
  assumes "shell_inv B s"
  obtains K C where "fs_ok K s" "named s C (shell_cwd s)"
proof -
  obtain K where K: "fs_ok K s" using shell_invD(3) [OF assms] by (auto simp: ramfs_inv_def)
  show thesis using that [OF K] node_path [OF K shell_invD(4) [OF assms]] by blast
qed

lemma create_sound:
  fixes s :: "'a kernel_scheme"
  assumes i: "shell_inv B s" and path: "NUL \<notin> set path"
  obtains t n where "ramfs_create (shell_cwd s) path ty s = ret (t, n)" "shell_inv B t" "shell_cwd t = shell_cwd s"
    "n = NULL \<or> n \<in> dom (nodes t)" "dom (nodes s) \<subseteq> dom (nodes t)" "capture_buf t = capture_buf s"
proof -
  obtain K C where K: "fs_ok K s" and C: "named s C (shell_cwd s)" by (rule cwd_named [OF i])
  note V = ramfs_create_view [OF K C path, of ty]
  show thesis
  proof (cases "ramfs_create (shell_cwd s) path ty s = ret (s, NULL)")
    case True
    then show ?thesis by (rule that [OF _ i]) simp_all
  next
    case False
    then obtain Q t n where t: "ramfs_create (shell_cwd s) path ty s = ret (t, n)" "ramfs_inv t" "fs_only s t"
        "foreign_kept s t" "named t Q n" "\<forall>R p. named s R p \<longrightarrow> named t R p"
      using V by (cases "create_path (fs_view s) (start_path C path) (components path)") auto
    obtain K' where K': "fs_ok K' t" using t(2) by (auto simp: ramfs_inv_def)
    have sub: "dom (nodes s) \<subseteq> dom (nodes t)"
    proof
      fix p assume "p \<in> dom (nodes s)"
      then obtain R where "named s R p" by (rule node_path [OF K])
      then have "named t R p" using t(6) by blast
      then show "p \<in> dom (nodes t)" by (rule at_dom(1) [OF K'])
    qed
    have "n \<in> dom (nodes t)" using at_dom(1) [OF K' t(5)] .
    have cwd: "shell_cwd s \<in> dom (nodes t)" using sub shell_invD(4) [OF i] by blast
    note c = fs_change [OF i t(2-4) cwd]
    show ?thesis using that [OF t(1) c(1,2) _ sub c(4)] \<open>n \<in> dom (nodes t)\<close> by simp
  qed
qed

lemma write_sound:
  fixes s :: "'a kernel_scheme"
  assumes i: "shell_inv B s" and f: "nodes s p = Some n" "n_type n = RAMFS_FILE"
    and b: "buffer_ok data len (n_data n) (heap s)" "unat len \<le> 4194304"
  obtains t ok where "ramfs_write p data len app s = ret (t, ok)" "shell_inv B t" "capture_buf t = capture_buf s"
proof -
  obtain K where K: "fs_ok K s" using shell_invD(3) [OF i] by (auto simp: ramfs_inv_def)
  then have st: "store_ok (nodes s) (heap s)" by (simp add: fs_ok_def)
  obtain P where P: "named s P p" using node_path [OF K, of p] f(1) by blast
  let ?old = "contents (heap s) n"
  have here: "(P, File ?old) \<in> fs_view s" unfolding fs_view_iff using P f by (auto simp: entry_of_def)
  have need: "length (if app then ?old else []) + unat len \<le> 2 ^ 30"
    using file_small [OF st f(1)] b(2) by (simp add: contents_def)
  have b': "buffer_ok data len (n_data (the (nodes s p))) (heap s)" using b(1) f(1) by simp
  from ramfs_write_view [OF K P here b' need] show thesis
  proof
    assume "ramfs_write p data len app s = ret (s, False)"
    then show thesis by (rule that [OF _ i refl])
  next
    assume "\<exists>t. ramfs_write p data len app s = ret (t, True) \<and> ramfs_inv t \<and> fs_only s t \<and> foreign_kept s t \<and>
       (\<forall>R q. named t R q \<longleftrightarrow> named s R q) \<and>
       fs_view t = {(Q, e) \<in> fs_view s. Q \<noteq> P} \<union>
         {(P, File ((if app then ?old else []) @ buffer_text data len (bytes (heap s))))}"
    then obtain t where t: "ramfs_write p data len app s = ret (t, True)" "ramfs_inv t" "fs_only s t" "foreign_kept s t"
        "\<forall>R q. named t R q \<longleftrightarrow> named s R q" by blast
    obtain K' where K': "fs_ok K' t" using t(2) by (auto simp: ramfs_inv_def)
    obtain C where C: "named s C (shell_cwd s)" by (rule node_path [OF K shell_invD(4) [OF i]])
    have "shell_cwd s \<in> dom (nodes t)" by (rule at_dom(1) [OF K']) (use C t(5) in simp)
    note c = fs_change [OF i t(2-4) this]
    show thesis by (rule that [OF t(1) c(1,4)])
  qed
qed

text \<open>Copying a file onto itself copies every byte to its own place.\<close>

lemma copy_up_self: "copy_up m a a n = m"
  by (induction n arbitrary: a) simp_all

lemma write_self:
  fixes s :: "'a kernel_scheme"
  assumes st: "store_ok (nodes s) (heap s)" and f: "nodes s p = Some n" "n_type n = RAMFS_FILE" "p \<noteq> NULL"
  shows "ramfs_write p (At (n_data n)) (n_size n) False s = ret (s, True)"
proof -
  have "\<not> n_size n > n_capacity n" using store_okD(3) [OF st f(1)] by simp
  then show ?thesis
    using f by (simp add: ramfs_write_def write_reserve_def node_at_def upd_node_def memcpy_def copy_up_self fun_upd_idem)
qed

section \<open>Commands\<close>

lemma cmd_cd_safe:
  fixes s :: "'a kernel_scheme"
  assumes i: "shell_inv B s" and w: "words_ok argv"
  shows "safe (left_sound B) (cmd_cd argv s)"
proof -
  let ?target = "if length argv > 1 then argv ! 1 else ''/''"
  have nul: "NUL \<notin> set ?target" using w words_tl(2) by auto
  have p: "prints (''cd: %s: no such directory'' @ [NL]) [Str x]" "prints (''cd: %s: not a directory'' @ [NL]) [Str x]" for x
    by (simp_all add: prints_eval del: kformat.simps)
  have moved: "shell_inv B (s\<lparr>shell_cwd := n\<rparr>)" if "n \<in> dom (nodes s)" for n
    using that shell_invD [OF i]
    by (simp add: shell_inv_def vga_inv_def irq_ok_def kbd_inv_def ramfs_inv_def fs_ok_def capture_ok_def fs_blocks_def)
  show ?thesis unfolding cmd_cd_def Let_def
    by (intro resolve_bind [OF quiet_refl [OF i] nul] safe_if left_fail [OF i] p node_bind [OF quiet_refl [OF i]] safe_ret)
      (use moved in auto)
qed

lemma mkdir_loop_safe:
  fixes s :: "'a kernel_scheme"
  assumes "shell_inv B s" "words_ok ws"
  shows "safe (left_sound B) (mkdir_loop ws s)"
  using assms
proof (induction ws arbitrary: s)
  case (Cons w ws)
  have p: "prints (''mkdir: cannot create %s'' @ [NL]) [Str x]" for x by (simp add: prints_eval del: kformat.simps)
  obtain t n where "ramfs_create (shell_cwd s) w RAMFS_DIR s = ret (t, n)" "shell_inv B t"
    by (rule create_sound [OF Cons.prems(1), of w RAMFS_DIR]) (use Cons.prems(2) in auto)
  then show ?case using Cons.IH Cons.prems(2) left_fail [OF _ p] by auto
qed simp

lemma touch_loop_safe:
  fixes s :: "'a kernel_scheme"
  assumes "shell_inv B s" "words_ok ws"
  shows "safe (left_sound B) (touch_loop ws s)"
  using assms
proof (induction ws arbitrary: s)
  case (Cons w ws)
  have p: "prints (''touch: cannot create %s'' @ [NL]) [Str x]" for x by (simp add: prints_eval del: kformat.simps)
  have w: "NUL \<notin> set w" using Cons.prems(2) by simp
  obtain q where q: "ramfs_resolve (shell_cwd s) w s = ret q" by (rule resolve_quiet [OF quiet_refl [OF Cons.prems(1)] w])
  obtain t n where "ramfs_create (shell_cwd s) w RAMFS_FILE s = ret (t, n)" "shell_inv B t"
    by (rule create_sound [OF Cons.prems(1) w, of RAMFS_FILE]) blast
  then show ?case using q Cons.IH Cons.prems left_fail [OF _ p] by auto
qed simp

lemma cmd_create_safe:
  fixes s :: "'a kernel_scheme"
  assumes "shell_inv B s" "words_ok argv"
  shows "safe (left_sound B) (cmd_mkdir argv s)" "safe (left_sound B) (cmd_touch argv s)"
  unfolding cmd_mkdir_def cmd_touch_def
  by (intro safe_if left_usage mkdir_loop_safe touch_loop_safe words_tl(1) assms)+

section \<open>Removing\<close>

text \<open>
  A recursive removal may not take the working directory with it: what \<^verbatim>\<open>rm -r\<close> is asked to remove is not
  a directory above it. (The root is, but the filesystem refuses to remove it.)
\<close>

definition spares :: "string \<Rightarrow> string list \<Rightarrow> (string list \<times> entry) set \<Rightarrow> bool" where
  "spares w C V \<longleftrightarrow> (\<forall>A. walk_view V (start_path C w) (components w) = Some A \<longrightarrow> A \<noteq> [] \<longrightarrow> \<not> strict_prefix A C)"

lemma walk_view_mono: "walk_view V P xs = Some A \<Longrightarrow> fst ` V \<subseteq> fst ` W \<Longrightarrow> walk_view W P xs = Some A"
  by (induction V P xs rule: walk_view.induct) (auto split: if_splits)

lemma spares_mono: "spares w C V \<Longrightarrow> V' \<subseteq> V \<Longrightarrow> spares w C V'"
  unfolding spares_def using walk_view_mono [of V' _ _ _ V] image_mono [of V' V fst] by blast

lemma below_prefix:
  assumes f: "forest N R K" and P: "at N r P p" and Q: "at N r Q q"
  shows "q \<in> below N p \<longleftrightarrow> prefix P Q"
proof
  assume "q \<in> below N p"
  then obtain S where "at N p S q" unfolding below_at by blast
  then have "at N r (P @ S) q" using P at_append by blast
  then show "prefix P Q" using at_injective [OF f Q] by (simp add: prefix_def)
next
  assume "prefix P Q"
  then obtain S where "Q = P @ S" by (auto simp: prefix_def)
  then obtain d where d: "at N r P d" "at N d S q" using Q at_append by blast
  have "d = p" by (rule at_functional [OF f d(1) P])
  then show "q \<in> below N p" using d(2) below_at by blast
qed

lemma delete_sound:
  fixes s :: "'a kernel_scheme"
  assumes i: "shell_inv B s" and p: "named s P p" "p \<noteq> shell_cwd s" and C: "named s C (shell_cwd s)"
    and r: "recursive \<Longrightarrow> P \<noteq> [] \<Longrightarrow> \<not> strict_prefix P C"
  obtains t ok where "ramfs_delete p recursive s = ret (t, ok)" "shell_inv B t" "named t C (shell_cwd t)" "fs_view t \<subseteq> fs_view s"
proof -
  obtain K where K: "fs_ok K s" using shell_invD(3) [OF i] by (auto simp: ramfs_inv_def)
  then have f: "forest (nodes s) {root s} K" by (simp add: fs_ok_def)
  obtain m where m: "nodes s p = Some m" using at_dom(1) [OF K p(1)] by blast
  show thesis
  proof (cases "p = root s \<or> (n_type m = RAMFS_DIR \<and> K p \<noteq> [] \<and> \<not> recursive)")
    case True
    then have "ramfs_delete p recursive s = ret (s, False)" using ramfs_delete_refused [OF K, of p recursive] m by auto
    then show ?thesis by (rule that [OF _ i C]) simp
  next
    case False
    then have gone: "recursive \<or> n_type m = RAMFS_FILE \<or> K p = []" "p \<noteq> root s" by (cases "n_type m"; auto)+
    obtain t where t: "ramfs_delete p recursive s = ret (t, True)" "ramfs_inv t" "fs_only s t" "foreign_kept s t"
        "dom (nodes t) = dom (nodes s) - below (nodes s) p" "\<forall>P. named s P p \<longrightarrow> fs_view t = {(Q, e) \<in> fs_view s. \<not> prefix P Q}"
        "\<forall>P Q q. named s P p \<longrightarrow> named t Q q \<longleftrightarrow> named s Q q \<and> \<not> prefix P Q"
      by (rule ramfs_delete_gone [OF K m gone(2,1)])
    have above: "shell_cwd s \<in> below (nodes s) p \<longleftrightarrow> prefix P C" by (rule below_prefix [OF f p(1) C])
    have out: "\<not> prefix P C"
    proof (cases recursive)
      case True
      have "P \<noteq> []" using p(1) gone(2) by auto
      then have "\<not> strict_prefix P C" using r True by blast
      moreover have "P \<noteq> C" using at_functional [OF f p(1)] C p(2) by blast
      ultimately show ?thesis by (auto simp: strict_prefix_def)
    next
      case False
      then have "K p = []" using gone(1) forestD(3) [OF f m] by blast
      then show ?thesis using below_unfold(1) [OF f m] p(2) above by simp
    qed
    then have "shell_cwd s \<in> dom (nodes t)" using t(5) shell_invD(4) [OF i] above by blast
    note c = fs_change [OF i t(2-4) this]
    have "named t C (shell_cwd t)" using out t(7) p(1) C c(2) by auto
    moreover have "fs_view t \<subseteq> fs_view s" using t(6) p(1) by auto
    ultimately show ?thesis by (rule that [OF t(1) c(1)])
  qed
qed

lemma rm_loop_safe:
  fixes s :: "'a kernel_scheme"
  assumes "shell_inv B s" "words_ok ws" "named s C (shell_cwd s)"
    and "recursive \<or> ''-r'' \<in> set ws \<Longrightarrow> \<forall>w \<in> set ws. spares w C (fs_view s)"
  shows "safe (left_sound B) (rm_loop ws recursive k s)"
  using assms
proof (induction ws arbitrary: recursive k s)
  case Nil
  then show ?case by (simp add: left_usage)
next
  case (Cons w ws)
  have p: "prints (''rm: %s: no such file or directory'' @ [NL]) [Str x]"
    "prints (''rm: %s: directory not empty (use -r)'' @ [NL]) [Str x]" for x
    by (simp_all add: prints_eval del: kformat.simps)
  have w: "NUL \<notin> set w" "words_ok ws" using Cons.prems(2) by auto
  note i = Cons.prems(1) and C = Cons.prems(3)
  show ?case
  proof (cases "str_cmp w ''-r'' = 0")
    case True
    then have "w = ''-r''" using str_cmp_eq_0 [of w "''-r''"] w(1) by simp
    then show ?thesis using Cons.IH [OF i w(2) C, of True k] Cons.prems(4) by simp
  next
    case False
    obtain K where K: "fs_ok K s" using shell_invD(3) [OF i] by (auto simp: ramfs_inv_def)
    obtain n where n: "ramfs_resolve (shell_cwd s) w s = ret n"
        "case walk_view (fs_view s) (start_path C w) (components w) of None \<Rightarrow> n = NULL | Some Q \<Rightarrow> n \<noteq> NULL \<and> named s Q n"
      using resolve_view [OF K C w(1)] by blast
    have del: "safe (left_sound B) (run_bind (ramfs_delete n recursive s) (\<lambda>(s, ok).
        if \<not> ok then fail_with (''rm: %s: directory not empty (use -r)'' @ [NL]) [Str (Some w)] s
        else rm_loop ws recursive (k + 1) s))" if ne: "n \<noteq> NULL" "n \<noteq> shell_cwd s"
    proof -
      obtain P where P: "walk_view (fs_view s) (start_path C w) (components w) = Some P" "named s P n"
        using n(2) ne(1) by (auto split: option.splits)
      have r: "\<not> strict_prefix P C" if "recursive" "P \<noteq> []" using Cons.prems(4) that P(1) by (auto simp: spares_def)
      obtain t ok where t: "ramfs_delete n recursive s = ret (t, ok)" "shell_inv B t" "named t C (shell_cwd t)"
          "fs_view t \<subseteq> fs_view s"
        by (rule delete_sound [OF i P(2) ne(2) C r]) blast+
      have "\<forall>w \<in> set ws. spares w C (fs_view t)" if "recursive \<or> ''-r'' \<in> set ws"
        using Cons.prems(4) that spares_mono [OF _ t(4)] by auto
      from Cons.IH [OF t(2) w(2) t(3) this] show ?thesis using t(1) left_fail [OF t(2) p(2)] by auto
    qed
    show ?thesis unfolding rm_loop.simps if_not_P [OF False] n(1) run_bind_simps
      using del left_fail [OF i p(1)] left_usage [OF i] by auto
  qed
qed

lemma cmd_rm_safe:
  fixes s :: "'a kernel_scheme"
  assumes "shell_inv B s" "words_ok argv"
    and "\<And>C. named s C (shell_cwd s) \<Longrightarrow> ''-r'' \<in> set (tl argv) \<Longrightarrow> \<forall>w \<in> set (tl argv). spares w C (fs_view s)"
  shows "safe (left_sound B) (cmd_rm argv s)"
proof -
  obtain C where C: "named s C (shell_cwd s)" by (rule cwd_named [OF assms(1)])
  show ?thesis unfolding cmd_rm_def by (rule rm_loop_safe [OF assms(1) _ C]) (use assms(2,3) C words_tl(1) in auto)
qed

section \<open>Copying\<close>

lemma copy_sound:
  fixes s :: "'a kernel_scheme"
  assumes i: "shell_inv B s" and d: "nodes s d = Some m" "n_type m = RAMFS_FILE" and x: "nodes s src = Some x"
  obtains t ok where "ramfs_write d (At (n_data x)) (n_size x) False s = ret (t, ok)" "shell_inv B t"
proof -
  obtain K where K: "fs_ok K s" using shell_invD(3) [OF i] by (auto simp: ramfs_inv_def)
  then have st: "store_ok (nodes s) (heap s)" and f: "forest (nodes s) {root s} K" by (simp_all add: fs_ok_def)
  show thesis
  proof (cases "d = src")
    case True
    then show ?thesis using write_self [OF st d forestD(10) [OF f d(1)]] that i d(1) x by auto
  next
    case False
    have "buffer_ok (At (n_data x)) (n_size x) (n_data m) (heap s)"
    proof (cases "n_size x = 0")
      case nz: False
      have le: "n_size x \<le> n_capacity x" by (rule store_okD(3) [OF st x])
      then have nn: "n_data x \<noteq> NULL" using nz store_okD(4) [OF st x] by auto
      obtain c where c: "unat (n_capacity x) \<le> c" "(n_data x, c) \<in> live (heap s)" using store_okD(6) [OF st x nn] by blast
      have "unat (n_size x) \<le> c" using c(1) le by (simp add: word_le_nat_alt)
      then show ?thesis using c(2) store_okD(7) [OF st x d(1) _ nn] False by auto
    qed simp
    then show ?thesis by (rule write_sound [OF i d _ file_small [OF st x]]) (rule that)
  qed
qed

definition cp_store :: "addr \<Rightarrow> addr \<Rightarrow> string \<Rightarrow> 'a kernel_scheme \<Rightarrow> ('a kernel_scheme \<times> int) run" where
  "cp_store src dst dstpath s =
     run_bind (if dst = NULL then ramfs_create (shell_cwd s) dstpath RAMFS_FILE s else ret (s, dst)) (\<lambda>(s, dst).
     run_bind (if dst = NULL then ret False
               else run_bind (node_at dst s) (\<lambda>d. ret (n_type d = RAMFS_FILE))) (\<lambda>is_file.
     if \<not> is_file then fail_with (''cp: cannot create %s'' @ [NL]) [Str (Some dstpath)] s
     else run_bind (node_at src s) (\<lambda>x.
       run_bind (ramfs_write dst (At (n_data x)) (n_size x) False s) (\<lambda>(s, ok).
       if \<not> ok then usage (''cp: out of memory'' @ [NL]) s
       else ret (s, 0)))))"

lemma cp_store_safe:
  fixes s :: "'a kernel_scheme"
  assumes i: "shell_inv B s" and src: "src \<in> dom (nodes s)" and dst: "dst = NULL \<or> dst \<in> dom (nodes s)" and path: "NUL \<notin> set path"
  shows "safe (left_sound B) (cp_store src dst path s)"
proof -
  obtain t d where t: "(if dst = NULL then ramfs_create (shell_cwd s) path RAMFS_FILE s else ret (s, dst)) = ret (t, d)"
      "shell_inv B t" "d = NULL \<or> d \<in> dom (nodes t)" "src \<in> dom (nodes t)"
  proof (cases "dst = NULL")
    case True
    obtain u n where "ramfs_create (shell_cwd s) path RAMFS_FILE s = ret (u, n)" "shell_inv B u"
        "n = NULL \<or> n \<in> dom (nodes u)" "dom (nodes s) \<subseteq> dom (nodes u)"
      by (rule create_sound [OF i path])
    then show thesis using that [of u n] True src by auto
  next
    case False
    then show thesis using that [of s dst] i src dst by simp
  qed
  obtain x where x: "nodes t src = Some x" using t(4) by blast
  have p: "prints (''cp: cannot create %s'' @ [NL]) [Str y]" for y by (simp add: prints_eval del: kformat.simps)
  show ?thesis
  proof (cases "\<exists>m. nodes t d = Some m \<and> n_type m = RAMFS_FILE \<and> d \<noteq> NULL")
    case True
    then obtain m where m: "nodes t d = Some m" "n_type m = RAMFS_FILE" "d \<noteq> NULL" by blast
    have at: "node_at d t = ret m" "node_at src t = ret x" using m(1) x by (simp_all add: node_at_def)
    obtain u ok where "ramfs_write d (At (n_data x)) (n_size x) False t = ret (u, ok)" "shell_inv B u"
      by (rule copy_sound [OF t(2) m(1,2) x])
    then show ?thesis unfolding cp_store_def t(1) run_bind_simps prod.case
      using m at by (simp add: left_usage)
  next
    case False
    then have "(if d = NULL then ret False else run_bind (node_at d t) (\<lambda>m. ret (n_type m = RAMFS_FILE))) = ret False"
      using t(3) by (auto simp: node_at_def)
    then show ?thesis unfolding cp_store_def t(1) run_bind_simps prod.case using left_fail [OF t(2) p] by simp
  qed
qed

lemma file_name_NUL:
  assumes "shell_inv B s" "nodes s p = Some n" "n_type n = RAMFS_FILE"
  shows "NUL \<notin> set (n_name n)"
proof -
  obtain K where K: "fs_ok K s" using shell_invD(3) [OF assms(1)] by (auto simp: ramfs_inv_def)
  then have f: "forest (nodes s) {root s} K" and d: "dir_at (nodes s) (root s)" by (simp_all add: fs_ok_def)
  have "p \<noteq> root s" using d assms(2,3) by (auto simp: dir_at_def)
  then have "valid_name (n_name n)" using forestD(9) [OF f assms(2)] by simp
  then show ?thesis by (simp add: valid_name_def)
qed

lemma append_NUL: "NUL \<notin> set a \<Longrightarrow> NUL \<notin> set b \<Longrightarrow> NUL \<notin> set (append_bounded n a b)"
  using lcpy_NUL [of b] by (simp add: append_bounded_def)

lemma cmd_cp_safe:
  fixes s :: "'a kernel_scheme"
  assumes i: "shell_inv B s" and w: "words_ok argv"
  shows "safe (left_sound B) (cmd_cp argv s)"
proof -
  let ?dst = "\<lambda>u src. let dstpath = str_lcpy RAMFS_PATH_MAX (argv ! 2) in
      run_bind (ramfs_resolve (shell_cwd u) dstpath u) (\<lambda>dst.
      run_bind
        (if dst = NULL then ret (dst, dstpath)
         else run_bind (node_at dst u) (\<lambda>d.
           if n_type d = RAMFS_DIR
           then run_bind (node_at src u) (\<lambda>x.
                let dstpath = append_bounded RAMFS_PATH_MAX (append_bounded RAMFS_PATH_MAX dstpath ''/'') (n_name x) in
                run_bind (ramfs_resolve (shell_cwd u) dstpath u) (\<lambda>dst. ret (dst, dstpath)))
           else ret (dst, dstpath)))
        (\<lambda>(dst, dstpath). cp_store src dst dstpath u))"
  have dst: "safe (left_sound B) (?dst u src)"
    if u: "quiet B s u" and n: "nodes s src = Some n" "n_type n = RAMFS_FILE" and len: "length argv = 3" for u src n
  proof -
    have a: "NUL \<notin> set (str_lcpy RAMFS_PATH_MAX (argv ! 2))" by (rule lcpy_NUL) (use w words_tl(2) len in auto)
    have nm: "NUL \<notin> set (n_name n)" by (rule file_name_NUL [OF i n])
    have un: "nodes u = nodes s" by (rule quietD(2) [OF u])
    let ?Q = "\<lambda>r. (fst r = NULL \<or> fst r \<in> dom (nodes s)) \<and> NUL \<notin> set (snd r)"
    have pick: "safe ?Q (if dst = NULL then ret (dst, p)
         else run_bind (node_at dst u) (\<lambda>d.
           if n_type d = RAMFS_DIR
           then run_bind (node_at src u) (\<lambda>x.
                run_bind (ramfs_resolve (shell_cwd u) (append_bounded RAMFS_PATH_MAX (append_bounded RAMFS_PATH_MAX p ''/'') (n_name x)) u)
                  (\<lambda>dst. ret (dst, append_bounded RAMFS_PATH_MAX (append_bounded RAMFS_PATH_MAX p ''/'') (n_name x))))
           else ret (dst, p)))" if "dst = NULL \<or> dst \<in> dom (nodes s)" "NUL \<notin> set p" for dst p
      by (intro safe_intro) (use that u n nm in \<open>auto simp: append_NUL\<close>)
    have "safe (left_sound B) (case r of (dst, dstpath) \<Rightarrow> cp_store src dst dstpath u)" if "?Q r" for r
      using cp_store_safe [OF quietD(1) [OF u], of src "fst r" "snd r"] that n(1) un by (auto simp: split_beta)
    then show ?thesis unfolding Let_def
      by (intro resolve_bind [OF u a] safe_bind [OF pick [OF _ a]])
  qed
  show ?thesis unfolding cmd_cp_def cp_store_def [symmetric]
    by (intro safe_if left_usage i want_file_typed [OF quiet_refl [OF i]])
      (use dst w words_tl(2) quietD(1) in auto)
qed

end
