(* ===== verification/MoveSafe.thy ===== *)
theory MoveSafe
  imports FileSafe
begin

text \<open>
  Moving (\<^verbatim>\<open>cmd_mv\<close> of shell/commands.c): the name the command computes for the target is a legal
  one whenever the components of the target path fit a node, so the move keeps the invariant.
\<close>

section \<open>The last component of a path\<close>

lemma components_join:
  assumes "CHR ''/'' \<notin> set name"
  shows "components (dir @ CHR ''/'' # name) = components dir @ (if name = [] then [] else [name])"
    "components name = (if name = [] then [] else [name])"
proof -
  have one: "split_slash name = [name]" using split_slash_word(2) [OF assms] .
  then show "components name = (if name = [] then [] else [name])" by (simp add: components_def)
  have "split_slash (dir @ CHR ''/'' # name) = split_slash dir @ [name]"
  proof (induction dir)
    case Nil
    then show ?case using one by simp
  next
    case (Cons c cs)
    obtain v vs where "split_slash cs = v # vs" using split_slash_unfold [of cs] by blast
    then show ?case using Cons by simp
  qed
  then show "components (dir @ CHR ''/'' # name) = components dir @ (if name = [] then [] else [name])"
    by (simp add: components_def)
qed

lemma last_slash_split:
  assumes "last_slash path = Some (dir, name)"
  shows "path = dir @ CHR ''/'' # name" "CHR ''/'' \<notin> set name"
proof -
  have ex: "\<exists>c \<in> set path. slash c" using assms by (auto simp: last_slash_def split: if_splits)
  let ?t = "takeWhile (\<lambda>c. \<not> slash c) (rev path)" and ?d = "dropWhile (\<lambda>c. \<not> slash c) (rev path)"
  have nm: "name = rev ?t" "dir = take (length path - length name - 1) path"
    using assms ex by (auto simp: last_slash_def Let_def)
  have ne: "?d \<noteq> []" using ex by (auto simp: dropWhile_eq_Nil_conv)
  then have hd: "hd ?d = CHR ''/''" using hd_dropWhile [OF ne] by simp
  have "rev path = ?t @ CHR ''/'' # tl ?d" using ne hd by (metis list.collapse takeWhile_dropWhile_id)
  then have path: "path = rev (tl ?d) @ CHR ''/'' # name" unfolding nm(1)
    by (metis append.assoc append_Cons append_Nil rev.simps(2) rev_append rev_rev_ident)
  have "length path - length name - 1 = length (rev (tl ?d))" by (subst path) simp
  then have "dir = rev (tl ?d)" unfolding nm(2) by (subst path) simp
  then show "path = dir @ CHR ''/'' # name" using path by simp
  show "CHR ''/'' \<notin> set name" using nm(1) set_takeWhileD by fastforce
qed

lemma no_last_slash: "last_slash path = None \<Longrightarrow> CHR ''/'' \<notin> set path"
  by (auto simp: last_slash_def Let_def split: if_splits)

text \<open>Every directory has an entry for \<^verbatim>\<open>.\<close> and \<^verbatim>\<open>..\<close>, so a name that is missing there is neither.\<close>

lemma missing_name:
  assumes "lookup N K p (if name = [] then [] else [name]) = None"
    and "length name < RAMFS_NAME_MAX" "NUL \<notin> set name" "CHR ''/'' \<notin> set name"
  shows "valid_name name"
  using assms by (auto simp: valid_name_def RAMFS_NAME_MAX_def split: if_splits)

text \<open>A path that names nothing, seen from the working directory: the lookups its parts stand for.\<close>

lemma missing_path:
  fixes s :: "'a kernel_scheme"
  assumes i: "shell_inv B s" and path: "NUL \<notin> set path" "\<forall>c \<in> set (components path). length c < RAMFS_NAME_MAX"
    and none: "ramfs_resolve (shell_cwd s) path s = ret NULL"
  obtains K where "fs_ok K s" "lookup (nodes s) K (start (shell_cwd s) path s) (components path) = None"
    "\<And>q. NUL \<notin> set q \<Longrightarrow> ramfs_resolve (shell_cwd s) q s = ret (ptr (lookup (nodes s) K (start (shell_cwd s) q s) (components q)))"
    "\<And>q cs p. lookup (nodes s) K (start (shell_cwd s) q s) cs = Some p \<Longrightarrow> p \<in> dom (nodes s) \<and> p \<noteq> NULL"
    "\<And>cs name. components path = cs @ (if name = [] then [] else [name]) \<Longrightarrow> length name < RAMFS_NAME_MAX"
proof -
  obtain K where K: "fs_ok K s" using shell_invD(3) [OF i] by (auto simp: ramfs_inv_def)
  then have f: "forest (nodes s) {root s} K" by (simp add: fs_ok_def)
  note cwd = shell_invD(4) [OF i]
  have r: "ramfs_resolve (shell_cwd s) q s = ret (ptr (lookup (nodes s) K (start (shell_cwd s) q s) (components q)))"
    if "NUL \<notin> set q" for q
    by (rule ramfs_resolve_spec [OF K disjI2 [OF cwd] that])
  have st: "start (shell_cwd s) q s \<in> dom (nodes s)" for q by (rule start_dom [OF K disjI2 [OF cwd]])
  have dom: "p \<in> dom (nodes s) \<and> p \<noteq> NULL" if "lookup (nodes s) K (start (shell_cwd s) q s) cs = Some p" for p q cs
    using lookup_dom [OF f st that] forestD(10) [OF f] by blast
  have miss: "lookup (nodes s) K (start (shell_cwd s) path s) (components path) = None"
    using none r [OF path(1)] dom by (auto split: option.splits)
  have fits: "length name < RAMFS_NAME_MAX" if "components path = cs @ (if name = [] then [] else [name])" for cs name
    using path(2) that by (cases "name = []") (simp_all add: RAMFS_NAME_MAX_def)
  show thesis by (rule that [OF K miss r dom fits])
qed

lemma split_parent_name:
  fixes s :: "'a kernel_scheme"
  assumes i: "shell_inv B s" and path: "NUL \<notin> set path" "\<forall>c \<in> set (components path). length c < RAMFS_NAME_MAX"
    and none: "ramfs_resolve (shell_cwd s) path s = ret NULL"
  obtains p name where "split_parent path s = ret (p, name)" "p = NULL \<or> (p \<in> dom (nodes s) \<and> valid_name name)"
proof -
  obtain K where K: "fs_ok K s" and miss: "lookup (nodes s) K (start (shell_cwd s) path s) (components path) = None"
    and r: "\<And>q. NUL \<notin> set q \<Longrightarrow> ramfs_resolve (shell_cwd s) q s = ret (ptr (lookup (nodes s) K (start (shell_cwd s) q s) (components q)))"
    and dom: "\<And>q cs p. lookup (nodes s) K (start (shell_cwd s) q s) cs = Some p \<Longrightarrow> p \<in> dom (nodes s) \<and> p \<noteq> NULL"
    and fits: "\<And>cs name. components path = cs @ (if name = [] then [] else [name]) \<Longrightarrow> length name < RAMFS_NAME_MAX"
    by (rule missing_path [OF assms]) blast
  show thesis
  proof (cases "last_slash path")
    case None
    note c = components_join(2) [OF no_last_slash [OF None]]
    have "valid_name path"
      by (rule missing_name [of "nodes s" K "start (shell_cwd s) path s"])
        (use miss c fits [of "[]" path] path(1) no_last_slash [OF None] in simp_all)
    then show ?thesis using that [of "shell_cwd s" path] None shell_invD(4) [OF i] by (simp add: split_parent_def)
  next
    case (Some r0)
    obtain dir name where dn: "last_slash path = Some (dir, name)" using Some by (cases r0) simp
    note S = last_slash_split [OF dn] and c = components_join(1) [OF last_slash_split(2) [OF dn], of dir]
    have len: "length name < RAMFS_NAME_MAX" by (rule fits [of "components dir"]) (use S(1) c in simp)
    have nul: "NUL \<notin> set name" "NUL \<notin> set dir" using path(1) S(1) by auto
    let ?p = "lookup (nodes s) K (start (shell_cwd s) path s) (components dir)"
    have valid: "valid_name name" if "?p = Some p" for p
      by (rule missing_name [OF _ len nul(1) S(2), of "nodes s" K p]) (use miss that c S(1) lookup_append in simp)
    consider (root) "dir = []" | (long) "dir \<noteq> []" "length dir \<ge> RAMFS_PATH_MAX" | (dir) "dir \<noteq> []" "length dir < RAMFS_PATH_MAX"
      by linarith
    then show ?thesis
    proof cases
      case root
      then have "valid_name name" by (intro valid) simp
      then show ?thesis using that [of "root s" name] dn root fs_ok_root [OF K] by (simp add: split_parent_def ramfs_root_def)
    next
      case long
      then show ?thesis using that [of NULL name] dn by (simp add: split_parent_def)
    next
      case dir
      have same: "start (shell_cwd s) dir s = start (shell_cwd s) path s" using dir(1) S(1) by (simp add: start_def)
      have run: "split_parent path s = ret (ptr ?p, name)"
        using dn dir r [OF nul(2)] same by (simp add: split_parent_def)
      show ?thesis
        by (rule that [OF run]) (use valid dom in \<open>auto split: option.splits\<close>)
    qed
  qed
qed

section \<open>The command\<close>

lemma move_sound:
  fixes s :: "'a kernel_scheme"
  assumes i: "shell_inv B s" and p: "p \<in> dom (nodes s)" and d: "d \<in> dom (nodes s)" and x: "p = root s \<or> valid_name x"
  obtains t ok where "ramfs_move p d x s = ret (t, ok)" "shell_inv B t"
proof -
  obtain K where K: "fs_ok K s" using shell_invD(3) [OF i] by (auto simp: ramfs_inv_def)
  show thesis
  proof (cases "p = root s")
    case True
    then have "ramfs_move p d x s = ret (s, False)" by (simp add: ramfs_move_def)
    then show ?thesis by (rule that [OF _ i])
  next
    case False
    obtain P where P: "named s P p" by (rule node_path [OF K p])
    obtain D where D: "named s D d" by (rule node_path [OF K d])
    have ne: "P \<noteq> []" using P False by auto
    have v: "valid_name x" using x False by blast
    note V = ramfs_move_view [OF K P ne D v]
    show ?thesis
    proof (cases "(D, Dir) \<notin> fs_view s \<or> D @ [x] \<in> fst ` fs_view s \<or> prefix P D")
      case True
      then have "ramfs_move p d x s = ret (s, False)" using V by simp
      then show ?thesis by (rule that [OF _ i])
    next
      case False
      then obtain N where N: "ramfs_move p d x s = ret (s\<lparr>nodes := N\<rparr>, True)" "ramfs_inv (s\<lparr>nodes := N\<rparr>)"
          "same_data (nodes s) N" using V by auto
      let ?t = "s\<lparr>nodes := N\<rparr>"
      have same: "(\<exists>n. N q = Some n \<and> n_data n = a) \<longleftrightarrow> (\<exists>n. nodes s q = Some n \<and> n_data n = a)" for q a
        using same_dataD [OF N(3), of q] same_dataD [OF same_data_sym [OF N(3)], of q] by metis
      then have dom: "dom N = dom (nodes s)" by blast
      then have "fs_blocks ?t = fs_blocks s" using same by (auto simp: fs_blocks_iff) metis+
      then have "foreign_kept s ?t" by (simp add: foreign_kept_def)
      moreover have "fs_only s ?t" by (simp add: fs_only_def)
      ultimately have "shell_inv B ?t" using fs_change(1) [OF i N(2)] dom shell_invD(4) [OF i] by simp
      then show ?thesis by (rule that [OF N(1)])
    qed
  qed
qed

text \<open>
  The target \<^verbatim>\<open>mv\<close> picks, as the command computes it: a message with the path it is about, or a directory and a
  name under which the source may stand.
\<close>

definition mv_target :: "string \<Rightarrow> addr \<Rightarrow> addr \<Rightarrow> 'a kernel_scheme \<Rightarrow> (string + addr \<times> string) run" where
  "mv_target path src dst s =
     (if dst \<noteq> NULL
      then run_bind (node_at dst s) (\<lambda>d. if n_type d = RAMFS_DIR
           then run_bind (node_at src s) (\<lambda>x. ret (Inr (dst, n_name x))) else ret (Inl ''mv: %s: destination exists''))
      else run_bind (split_parent path s) (\<lambda>(parent, name).
           if parent = NULL then ret (Inl ''mv: %s: no such directory'')
           else run_bind (node_at parent s) (\<lambda>p.
                if n_type p \<noteq> RAMFS_DIR then ret (Inl ''mv: %s: no such directory'') else ret (Inr (parent, name)))))"

definition target_ok :: "string \<Rightarrow> addr \<Rightarrow> 'a kernel_scheme \<Rightarrow> string + addr \<times> string \<Rightarrow> bool" where
  "target_ok path src s r \<longleftrightarrow> (case r of Inl msg \<Rightarrow> prints (msg @ [NL]) [Str (Some path)]
     | Inr (parent, name) \<Rightarrow> parent \<in> dom (nodes s) \<and> (src = root s \<or> valid_name name))"

lemma mv_prints:
  "prints (''mv: %s: no such file or directory'' @ [NL]) [Str x]"
  "prints (''mv: %s: destination exists'' @ [NL]) [Str x]" "prints (''mv: %s: no such directory'' @ [NL]) [Str x]"
  by (simp_all add: prints_eval del: kformat.simps)

lemma mv_target_safe:
  fixes s :: "'a kernel_scheme"
  assumes i: "shell_inv B s" and path: "NUL \<notin> set path" "\<forall>c \<in> set (components path). length c < RAMFS_NAME_MAX"
    and src: "nodes s src = Some x" and dst: "ramfs_resolve (shell_cwd s) path s = ret dst" "dst = NULL \<or> dst \<in> dom (nodes s)"
  shows "safe (target_ok path src s) (mv_target path src dst s)"
proof (cases "dst = NULL")
  case True
  obtain par name where sp: "split_parent path s = ret (par, name)" "par = NULL \<or> (par \<in> dom (nodes s) \<and> valid_name name)"
    by (rule split_parent_name [OF i path]) (use dst(1) True in auto)
  show ?thesis unfolding mv_target_def sp(1) run_bind_simps prod.case
    using True sp(2) mv_prints by (auto simp: node_at_def target_ok_def)
next
  case False
  obtain K where f: "forest (nodes s) {root s} K" by (rule quiet_fs [OF quiet_refl [OF i]])
  have nm: "src = root s \<or> valid_name (n_name x)" using forestD(9) [OF f src] by blast
  obtain d where "nodes s dst = Some d" using False dst(2) by blast
  then show ?thesis using False src nm mv_prints by (auto simp: mv_target_def node_at_def target_ok_def)
qed

lemma mv_move_safe:
  fixes s :: "'a kernel_scheme"
  assumes i: "shell_inv B s" and src: "src \<in> dom (nodes s)" and r: "target_ok path src s r"
  shows "safe (left_sound B) (case r of
      Inl msg \<Rightarrow> fail_with (msg @ [NL]) [Str (Some path)] s
    | Inr (parent, name) \<Rightarrow> run_bind (ramfs_move src parent name s) (\<lambda>(s, ok).
        if \<not> ok then usage (''mv: move failed'' @ [NL]) s else ret (s, 0)))"
proof (cases r)
  case (Inl msg)
  then show ?thesis using r left_fail [OF i] by (simp add: target_ok_def)
next
  case (Inr y)
  obtain parent name where y: "y = (parent, name)" by (rule prod.exhaust)
  obtain t ok where "ramfs_move src parent name s = ret (t, ok)" "shell_inv B t"
    by (rule move_sound [OF i, of src parent name]) (use r Inr y src in \<open>auto simp: target_ok_def\<close>)
  then show ?thesis unfolding Inr y sum.case prod.case by (simp add: left_usage)
qed

lemma cmd_mv_safe:
  fixes s :: "'a kernel_scheme"
  assumes i: "shell_inv B s" and w: "words_ok argv"
    and fit: "length argv = 3 \<Longrightarrow> \<forall>c \<in> set (components (argv ! 2)). length c < RAMFS_NAME_MAX"
  shows "safe (left_sound B) (cmd_mv argv s)"
proof (cases "length argv = 3")
  case False
  then show ?thesis using left_usage [OF i] by (simp add: cmd_mv_def)
next
  case len: True
  have nul: "NUL \<notin> set (argv ! 1)" "NUL \<notin> set (argv ! 2)" using w words_tl(2) len by auto
  note q = quiet_refl [OF i]
  obtain src where src: "ramfs_resolve (shell_cwd s) (argv ! 1) s = ret src" "src = NULL \<or> src \<in> dom (nodes s)"
    by (rule resolve_quiet [OF q nul(1)])
  obtain dst where dst: "ramfs_resolve (shell_cwd s) (argv ! 2) s = ret dst" "dst = NULL \<or> dst \<in> dom (nodes s)"
    by (rule resolve_quiet [OF q nul(2)])
  show ?thesis
  proof (cases "src = NULL")
    case True
    then show ?thesis using left_fail [OF i mv_prints(1)] len src(1) by (simp add: cmd_mv_def)
  next
    case False
    then obtain x where x: "nodes s src = Some x" using src(2) by blast
    then have d: "src \<in> dom (nodes s)" by blast
    show ?thesis
      using safe_bind [OF mv_target_safe [OF i nul(2) fit [OF len] x dst] mv_move_safe [OF i d]] len False src(1) dst(1)
      unfolding mv_target_def by (simp add: cmd_mv_def)
  qed
qed

end
