(* ===== verification/Session.thy ===== *)
theory Session
  imports MoveSafe
begin

text \<open>
  Whole sessions of the shell (shell/shell.c): executing a line, with or without redirection, keeps
  the invariant, so every state a session passes through satisfies it.
\<close>

section \<open>Running a command\<close>

text \<open>
  What the user must not ask for, because the code does not guard against it: removing recursively a
  directory above the working directory, and moving to a name that does not fit a node.
\<close>

definition tame_command :: "command \<Rightarrow> string list \<Rightarrow> 'a kernel_scheme \<Rightarrow> bool" where
  "tame_command cmd argv s \<longleftrightarrow>
     (cmd = Rm \<longrightarrow> ''-r'' \<in> set (tl argv) \<longrightarrow>
        (\<forall>C. named s C (shell_cwd s) \<longrightarrow> (\<forall>w \<in> set (tl argv). spares w C (fs_view s)))) \<and>
     (cmd = Mv \<longrightarrow> length argv = 3 \<longrightarrow> (\<forall>c \<in> set (components (argv ! 2)). length c < RAMFS_NAME_MAX))"

lemma run_command_safe:
  fixes s :: "'a kernel_scheme"
  assumes i: "shell_inv B s" and w: "words_ok argv" and t: "tame_command cmd argv s"
  shows "safe (left_sound B) (run_command cmd argv s)"
proof -
  note reads = command_safe [OF quiet_refl [OF i], THEN quiet_sound]
  show ?thesis
  proof (cases cmd)
    case Cd
    then show ?thesis using cmd_cd_safe [OF i w] by simp
  next
    case Mkdir
    then show ?thesis using cmd_create_safe(1) [OF i w] by simp
  next
    case Touch
    then show ?thesis using cmd_create_safe(2) [OF i w] by simp
  next
    case Rm
    then show ?thesis using cmd_rm_safe [OF i w] t by (auto simp: tame_command_def)
  next
    case Cp
    then show ?thesis using cmd_cp_safe [OF i w] by simp
  next
    case Mv
    then show ?thesis using cmd_mv_safe [OF i w] t by (simp add: tame_command_def)
  qed (simp_all add: reads w)
qed

section \<open>Executing a line\<close>

lemma tokenize_chars: "w \<in> set (tokenize_loop k m line) \<Longrightarrow> set w \<subseteq> set line"
proof (induction "m - k" arbitrary: k line)
  case 0
  then show ?case by (subst (asm) tokenize_loop.simps) (simp add: Let_def)
next
  case (Suc n)
  let ?p = "dropWhile blank line"
  have sub: "set ?p \<subseteq> set line" "set (tl ?p) \<subseteq> set line"
    using set_dropWhileD [of _ blank line] set_drop_subset [of 1 ?p] by (auto simp: drop_Suc)
  note prem = Suc.prems [unfolded tokenize_loop.simps [of k m line] Let_def]
  have piece: "set w \<subseteq> set line"
    if "set q \<subseteq> set line" "w = takeWhile P q \<or> w \<in> set (tokenize_loop (k + 1) m (drop d q))" for P q d
    using that(2)
  proof
    assume "w = takeWhile P q"
    then show ?thesis using that(1) set_takeWhileD [of _ P q] by blast
  next
    assume "w \<in> set (tokenize_loop (k + 1) m (drop d q))"
    then have "set w \<subseteq> set (drop d q)" by (intro Suc.hyps(1)) (use Suc.hyps(2) in simp_all)
    then show ?thesis using that(1) set_drop_subset [of d q] by blast
  qed
  show ?case
  proof (cases "?p \<noteq> [] \<and> hd ?p = DQ")
    case True
    show ?thesis by (rule piece [OF sub(2), of "\<lambda>c. c \<noteq> DQ" "length (takeWhile (\<lambda>c. c \<noteq> DQ) (tl ?p)) + 1"])
      (use prem True in \<open>simp split: if_splits\<close>)
  next
    case False
    show ?thesis by (rule piece [OF sub(1), of "\<lambda>c. \<not> blank c" "length (takeWhile (\<lambda>c. \<not> blank c) ?p) + 1"])
      (use prem False in \<open>simp split: if_splits\<close>)
  qed
qed

lemma split_redirect_words:
  "split_redirect ws = (argv, r) \<Longrightarrow> set argv \<subseteq> set ws \<and> (\<forall>app ts. r = Some (app, ts) \<longrightarrow> set ts \<subseteq> set ws)"
  by (induction ws arbitrary: argv r) (auto split: if_splits prod.splits)

lemma heap_same_fs:
  fixes s :: "'a kernel_scheme"
  assumes i: "shell_inv A s" and h: "heap_inv h" "bytes h = bytes (heap s)"
    and l: "\<And>a c. (a, c) \<in> live (heap s) \<Longrightarrow> a \<in> fs_blocks s \<Longrightarrow> (a, c) \<in> live h"
  shows "ramfs_inv (s\<lparr>heap := h\<rparr>)" "fs_blocks (s\<lparr>heap := h\<rparr>) = fs_blocks s"
proof -
  have "fs_blocks_kept s (s\<lparr>heap := h\<rparr>)" using h l by (auto simp: fs_blocks_kept_def)
  note F = fs_frame_inv [OF shell_invD(3) [OF i] this]
  show "ramfs_inv (s\<lparr>heap := h\<rparr>)" "fs_blocks (s\<lparr>heap := h\<rparr>) = fs_blocks s" by (rule F(1), rule F(4))
qed

lemma capture_begins:
  fixes s :: "'a kernel_scheme"
  assumes i: "shell_inv NULL s" and k: "kmalloc (heap s) CAPTURE_MAX = ret (h, buf)" "buf \<noteq> NULL"
  shows "shell_inv buf (console_capture_begin buf CAPTURE_MAX (s\<lparr>heap := h\<rparr>))"
proof -
  have hinv: "heap_inv (heap s)" using shell_invD(3) [OF i] store_okD(1) by (auto simp: ramfs_inv_def fs_ok_def)
  obtain c where h: "heap_inv h" "bytes h = bytes (heap s)" "unat CAPTURE_MAX \<le> c" "live h = insert (buf, c) (live (heap s))"
      "buf \<notin> fst ` live (heap s)"
    using kmalloc_live [OF hinv, of CAPTURE_MAX] k by (auto simp: CAPTURE_MAX_def)
  note F = heap_same_fs [OF i h(1,2)]
  have "ramfs_inv (s\<lparr>heap := h\<rparr>)" "fs_blocks (s\<lparr>heap := h\<rparr>) = fs_blocks s" using F h(4) by blast+
  moreover have "buf \<notin> fs_blocks s" using fs_blocks_live [OF shell_invD(3) [OF i], of buf] h(5) by force
  ultimately show ?thesis using shell_invD [OF i] h(3,4)
    by (auto simp: shell_inv_def console_capture_begin_def capture_ok_def vga_inv_def irq_ok_def kbd_inv_def
        ramfs_inv_def fs_ok_def fs_blocks_def)
qed

lemma capture_ends:
  fixes s :: "'a kernel_scheme"
  assumes "shell_inv B s"
  shows "shell_inv B (fst (console_capture_end s))" "snd (console_capture_end s) \<le> CAPTURE_MAX"
    "capture_buf (fst (console_capture_end s)) = NULL"
proof -
  note I = shell_invD [OF assms]
  show "shell_inv B (fst (console_capture_end s))" using I
    by (auto simp: shell_inv_def console_capture_end_def capture_ok_def vga_inv_def irq_ok_def kbd_inv_def
        ramfs_inv_def fs_ok_def fs_blocks_def)
  show "snd (console_capture_end s) \<le> CAPTURE_MAX" using I(5) by (auto simp: console_capture_end_def capture_ok_def)
  show "capture_buf (fst (console_capture_end s)) = NULL" by (simp add: console_capture_end_def)
qed

lemma capture_freed:
  fixes s :: "'a kernel_scheme"
  assumes i: "shell_inv B s" and b: "B \<noteq> NULL" "capture_buf s = NULL"
  obtains h where "kfree (heap s) B = ret h" "shell_inv NULL (s\<lparr>heap := h\<rparr>)"
proof -
  note I = shell_invD [OF i]
  have hinv: "heap_inv (heap s)" using I(3) store_okD(1) by (auto simp: ramfs_inv_def fs_ok_def)
  obtain c where c: "(B, c) \<in> live (heap s)" "B \<notin> fs_blocks s" using I(5) b(1) by (auto simp: capture_ok_def)
  obtain h where h: "kfree (heap s) B = ret h" "heap_inv h" "live h = live (heap s) - {(B, c)}" "bytes h = bytes (heap s)"
    using kfree_live [OF hinv c(1)] by blast
  have "ramfs_inv (s\<lparr>heap := h\<rparr>)" by (rule heap_same_fs(1) [OF i h(2,4)]) (use h(3) c(2) in auto)
  then have "shell_inv NULL (s\<lparr>heap := h\<rparr>)" using I b(2)
    by (simp add: shell_inv_def capture_ok_def vga_inv_def irq_ok_def kbd_inv_def)
  then show thesis by (rule that [OF h(1)])
qed

lemma redirect_safe:
  fixes s :: "'a kernel_scheme"
  assumes i: "shell_inv B s" and b: "B \<noteq> NULL" "capture_buf s = NULL" and len: "len \<le> CAPTURE_MAX" and path: "NUL \<notin> set path"
  shows "safe (\<lambda>t. shell_inv B t \<and> capture_buf t = NULL) (redirect_to_file path B len app s)" (is "safe ?Q _")
proof -
  have p: "prints (''rsh: cannot write to %s'' @ [NL]) [Str x]" "prints (''rsh: write to %s failed'' @ [NL]) [Str x]" for x
    by (simp_all add: prints_eval del: kformat.simps)
  have pr: "safe ?Q (kprintf fmt args t)" if "prints fmt args" "shell_inv B t" "capture_buf t = NULL" for fmt args and t :: "'a kernel_scheme"
    by (rule safe_mono [OF kprintf_safe [OF quiet_refl [OF that(2)] that(1)]]) (use that(3) in \<open>simp add: quiet_def\<close>)
  obtain f where f: "ramfs_resolve (shell_cwd s) path s = ret f" "f = NULL \<or> f \<in> dom (nodes s)"
    by (rule resolve_quiet [OF quiet_refl [OF i] path])
  obtain t g where t: "(if f = NULL then ramfs_create (shell_cwd s) path RAMFS_FILE s else ret (s, f)) = ret (t, g)"
      "shell_inv B t" "g = NULL \<or> g \<in> dom (nodes t)" "capture_buf t = NULL"
  proof (cases "f = NULL")
    case True
    obtain u n where "ramfs_create (shell_cwd s) path RAMFS_FILE s = ret (u, n)" "shell_inv B u"
        "n = NULL \<or> n \<in> dom (nodes u)" "capture_buf u = capture_buf s"
      by (rule create_sound [OF i path])
    then show thesis using that [of u n] True b(2) by auto
  next
    case False
    then show thesis using that [of s f] i f(2) b(2) by simp
  qed
  show ?thesis
  proof (cases "\<exists>m. nodes t g = Some m \<and> n_type m = RAMFS_FILE \<and> g \<noteq> NULL")
    case True
    then obtain m where m: "nodes t g = Some m" "n_type m = RAMFS_FILE" "g \<noteq> NULL" by blast
    obtain c where c: "unat CAPTURE_MAX \<le> c" "(B, c) \<in> live (heap t)" "B \<notin> fs_blocks t"
      using shell_invD(5) [OF t(2)] b(1) by (auto simp: capture_ok_def)
    have "B \<noteq> n_data m" using c(3) m(1) b(1) by (auto simp: fs_blocks_iff)
    moreover have "unat len \<le> unat CAPTURE_MAX" using len by (simp add: word_le_nat_alt)
    ultimately have buf: "buffer_ok (At B) len (n_data m) (heap t)" "unat len \<le> 4194304"
      using c(1,2) by (auto simp: CAPTURE_MAX_def)
    obtain u ok where "ramfs_write g (At B) len app t = ret (u, ok)" "shell_inv B u" "capture_buf u = capture_buf t"
      by (rule write_sound [OF t(2) m(1,2) buf])
    then show ?thesis
      unfolding redirect_to_file_def f(1) run_bind_simps t(1) prod.case using m t(4) pr [OF p(2)] by (simp add: node_at_def)
  next
    case False
    then have "(if g = NULL then ret False else run_bind (node_at g t) (\<lambda>m. ret (n_type m = RAMFS_FILE))) = ret False"
      using t(3) by (auto simp: node_at_def)
    then show ?thesis
      unfolding redirect_to_file_def f(1) run_bind_simps t(1) prod.case using pr [OF p(1) t(2,4)] by simp
  qed
qed

text \<open>A line is tame when the command it runs is.\<close>

definition tame_line :: "string \<Rightarrow> 'a kernel_scheme \<Rightarrow> bool" where
  "tame_line line s \<longleftrightarrow> (let argv = fst (split_redirect (tokenize line SHELL_ARGV_MAX)) in
     argv \<noteq> [] \<longrightarrow> (case find_command (hd argv) of None \<Rightarrow> True | Some cmd \<Rightarrow> tame_command cmd argv s))"

lemma sound_bind: "safe (left_sound B) r \<Longrightarrow> (\<And>t k. shell_inv B t \<Longrightarrow> safe P (f (t, k))) \<Longrightarrow> safe P (run_bind r f)"
  by (erule safe_bind) auto

lemma print_sound: "shell_inv B s \<Longrightarrow> safe (shell_inv B) (console_write cs s)"
  by (rule safe_mono [OF console_write_safe [OF quiet_refl]]) (auto dest: quietD(1))

lemma redirected_safe:
  fixes s :: "'a kernel_scheme"
  assumes i: "shell_inv NULL s" and w: "words_ok argv" and t: "tame_command cmd argv s" and path: "NUL \<notin> set path"
  shows "safe (shell_inv NULL) (redirect_run cmd argv app path s)"
proof -
  have hinv: "heap_inv (heap s)" using shell_invD(3) [OF i] store_okD(1) by (auto simp: ramfs_inv_def fs_ok_def)
  obtain h buf where k: "kmalloc (heap s) CAPTURE_MAX = ret (h, buf)" "buf = NULL \<longrightarrow> h = heap s" "bytes h = bytes (heap s)"
    using kmalloc_live [OF hinv, of CAPTURE_MAX] by (auto simp: CAPTURE_MAX_def)
  show ?thesis
  proof (cases "buf = NULL")
    case True
    then have eq: "s\<lparr>heap := h\<rparr> = s" using k(2) by simp
    show ?thesis unfolding redirect_run_def k(1) run_bind_simps prod.case Let_def if_P [OF True] eq by (rule print_sound [OF i])
  next
    case False
    let ?s = "console_capture_begin buf CAPTURE_MAX (s\<lparr>heap := h\<rparr>)"
    have i1: "shell_inv buf ?s" by (rule capture_begins [OF i k(1) False])
    have "fs_view ?s = fs_view s" using k(3) by (simp add: fs_view_def entry_of_def contents_def console_capture_begin_def)
    then have t1: "tame_command cmd argv ?s" using t by (simp add: tame_command_def) (simp add: console_capture_begin_def)
    have rest: "safe (shell_inv NULL) (case console_capture_end u of (u, len) \<Rightarrow>
        run_bind (redirect_to_file path buf len app u) (\<lambda>u.
        run_bind (kfree (heap u) buf) (\<lambda>h. ret (u\<lparr>heap := h\<rparr>))))" if u: "shell_inv buf u" for u :: "'a kernel_scheme"
    proof -
      have "safe (shell_inv NULL) (run_bind (kfree (heap v) buf) (\<lambda>h. ret (v\<lparr>heap := h\<rparr>)))"
        if v: "shell_inv buf v \<and> capture_buf v = NULL" for v :: "'a kernel_scheme"
      proof -
        obtain h where "kfree (heap v) buf = ret h" "shell_inv NULL (v\<lparr>heap := h\<rparr>)"
          using v False by (auto intro: capture_freed)
        then show ?thesis by simp
      qed
      then show ?thesis unfolding split_beta
        by (rule safe_bind [OF redirect_safe [OF capture_ends(1) [OF u] False capture_ends(3) [OF u] capture_ends(2) [OF u] path]])
    qed
    show ?thesis unfolding redirect_run_def k(1) run_bind_simps prod.case Let_def if_not_P [OF False]
      by (rule sound_bind [OF run_command_safe [OF i1 w t1]]) (simp only: prod.case rest)
  qed
qed

text \<open>A command that was found, with or without a redirection that has a target.\<close>

lemma found_safe:
  fixes s :: "'a kernel_scheme"
  assumes i: "shell_inv NULL s" and w: "words_ok argv" and tc: "tame_command cmd argv s"
    and tg: "\<And>app ts. r = Some (app, ts) \<Longrightarrow> ts \<noteq> [] \<and> words_ok ts"
  shows "safe (shell_inv NULL) (case r of
      None \<Rightarrow> run_bind (run_command cmd argv s) (\<lambda>(s, _). ret s)
    | Some (app, targets) \<Rightarrow> redirect_run cmd argv app (hd targets) s)"
proof (cases r)
  case None
  then show ?thesis using sound_bind [OF run_command_safe [OF i w tc], of "shell_inv NULL" "\<lambda>(s, _). ret s"] by simp
next
  case (Some a)
  obtain app ts where a: "a = (app, ts)" by (rule prod.exhaust)
  then have "NUL \<notin> set (hd ts)" using tg [of app ts] Some hd_in_set by blast
  then show ?thesis using redirected_safe [OF i w tc] Some a by simp
qed

lemma unknown_safe:
  fixes s :: "'a kernel_scheme"
  assumes "shell_inv NULL s"
  shows "safe (shell_inv NULL) (kprintf (''rsh: %s: command not found (try 'help')'' @ [NL]) [Str x] s)"
proof -
  have p: "prints (''rsh: %s: command not found (try 'help')'' @ [NL]) [Str x]"
    by (simp add: prints_eval del: kformat.simps)
  show ?thesis by (rule safe_mono [OF kprintf_safe [OF quiet_refl [OF assms] p]]) (simp add: quiet_def)
qed

lemma execute_safe:
  fixes s :: "'a kernel_scheme"
  assumes i: "shell_inv NULL s" and line: "NUL \<notin> set line" and t: "tame_line line s"
  shows "safe (shell_inv NULL) (execute line s)"
proof -
  let ?ws = "tokenize line SHELL_ARGV_MAX"
  have w: "words_ok ?ws" using tokenize_chars [of _ 0 SHELL_ARGV_MAX line] line by (auto simp: tokenize_def)
  obtain argv r where sp: "split_redirect ?ws = (argv, r)" by (rule prod.exhaust)
  note words = split_redirect_words [OF sp]
  have wa: "words_ok argv" using words w by blast
  have "execute line s = (if ?ws = [] then ret s
      else if (case r of Some (_, []) \<Rightarrow> True | _ \<Rightarrow> False) then console_write (''rsh: missing redirection target'' @ [NL]) s
      else if argv = [] then ret s
      else case find_command (hd argv) of
          None \<Rightarrow> kprintf (''rsh: %s: command not found (try 'help')'' @ [NL]) [Str (Some (hd argv))] s
        | Some cmd \<Rightarrow> (case r of
            None \<Rightarrow> run_bind (run_command cmd argv s) (\<lambda>(s, _). ret s)
          | Some (app, targets) \<Rightarrow> redirect_run cmd argv app (hd targets) s))"
    unfolding execute_def Let_def sp prod.case redirect_run_def ..
  also have "safe (shell_inv NULL) \<dots>"
  proof (intro safe_if safe_ret print_sound i)
    assume r: "\<not> (case r of Some (_, []) \<Rightarrow> True | _ \<Rightarrow> False)" and ne: "argv \<noteq> []"
    have tg: "ts \<noteq> [] \<and> words_ok ts" if "r = Some (app, ts)" for app ts
      using that r words w by auto
    show "safe (shell_inv NULL) (case find_command (hd argv) of
          None \<Rightarrow> kprintf (''rsh: %s: command not found (try 'help')'' @ [NL]) [Str (Some (hd argv))] s
        | Some cmd \<Rightarrow> (case r of
            None \<Rightarrow> run_bind (run_command cmd argv s) (\<lambda>(s, _). ret s)
          | Some (app, targets) \<Rightarrow> redirect_run cmd argv app (hd targets) s))"
    proof (cases "find_command (hd argv)")
      case None
      then show ?thesis using unknown_safe [OF i] by (simp only: option.case)
    next
      case (Some cmd)
      have "tame_command cmd argv s" using t Some ne sp by (simp add: tame_line_def)
      then show ?thesis unfolding Some option.case(2) by (rule found_safe [OF i wa _ tg])
    qed
  qed
  finally show ?thesis .
qed

section \<open>Sessions\<close>

text \<open>The line the next step reads, if it gets that far, is tame.\<close>

definition tame_step :: "'a kernel_scheme \<Rightarrow> bool" where
  "tame_step s \<longleftrightarrow> (\<forall>t u line. print_prompt s = ret t \<longrightarrow> read_line SHELL_LINE_MAX t = ret (u, line) \<longrightarrow> tame_line line u)"

lemma safe_cases:
  assumes "safe P r"
  obtains "r = None" | x where "r = ret x" "P x"
  using assms by (auto simp: safe_def okay_def ret_def split: option.splits outcome.splits)

lemma history_sound:
  assumes "shell_inv B s" "NUL \<notin> set line"
  shows "shell_inv B (history_add line s)"
  using shell_invD [OF assms(1)] lcpy_NUL [OF assms(2)]
  by (simp add: history_add_def shell_inv_def vga_inv_def irq_ok_def kbd_inv_def ramfs_inv_def fs_ok_def capture_ok_def fs_blocks_def)

lemma tame_history: "tame_line line (history_add l s) = tame_line line s"
  by (simp add: tame_line_def tame_command_def history_add_def fs_view_def Let_def split: option.split)

lemma shell_step_safe:
  fixes s :: "'a kernel_scheme"
  assumes i: "shell_inv NULL s" and t: "tame_step s"
  shows "safe (shell_inv NULL) (shell_step s)"
  using print_prompt_safe [OF quiet_refl [OF i]]
proof (cases rule: safe_cases)
  case (2 p)
  have "0 < SHELL_LINE_MAX" by (simp add: SHELL_LINE_MAX_def)
  from read_line_safe [OF 2(2) this] show ?thesis
  proof (rule safe_cases)
    assume "read_line SHELL_LINE_MAX p = None"
    then show ?thesis by (simp add: shell_step_def 2(1))
  next
    fix r assume r: "read_line SHELL_LINE_MAX p = ret r"
      "quiet NULL s (fst r) \<and> NUL \<notin> set (snd r) \<and> length (snd r) < SHELL_LINE_MAX"
    obtain u line where ul: "r = (u, line)" by (rule prod.exhaust)
    let ?u = "if line \<noteq> [] then history_add line u else u"
    have q: "quiet NULL s u" "NUL \<notin> set line" using r(2) ul by simp_all
    have iu: "shell_inv NULL ?u" using quietD(1) [OF q(1)] history_sound [OF quietD(1) [OF q(1)] q(2)] by simp
    have "tame_line line u" using t r(1) ul 2(1) by (simp add: tame_step_def)
    then have tl: "tame_line line ?u" by (cases "line = []") (simp_all add: tame_history)
    show ?thesis unfolding shell_step_def 2(1) run_bind_simps r(1) ul prod.case by (rule execute_safe [OF iu q(2) tl])
  qed
qed (simp add: shell_step_def)


text \<open>
  What \<^verbatim>\<open>kmain\<close> relies on besides a cold machine: the zeroed keyboard ring, capture buffer and history,
  and no stray timer handler.
\<close>

definition shell_fresh :: "'a kernel_scheme \<Rightarrow> bool" where
  "shell_fresh s \<longleftrightarrow> kbd_inv s \<and> (\<forall>n. irq_handlers s n = Some Timer_irq \<longrightarrow> n = 0) \<and> capture_len s \<le> capture_cap s \<and>
     capture_cap s \<le> CAPTURE_MAX \<and> (\<forall>i. NUL \<notin> set (history_ring s i))"

lemma boot_sound:
  assumes "cold im mbi s" "shell_fresh s" "kmain_boot im MULTIBOOT_BOOTLOADER_MAGIC mbi s = ret t"
  shows "shell_inv NULL (t\<lparr>shell_cwd := ramfs_root t\<rparr>)" "live_console t" "capture_buf t = NULL" "mounted initial_view 4000000 t"
proof -
  obtain s' where "kmain_boot im MULTIBOOT_BOOTLOADER_MAGIC mbi s = ret s'" "mounted initial_view 4000000 s'"
    "live_console s'" "irq_handlers s' = boot_handlers (irq_handlers s)" "shell_frame s s'"
    by (rule kmain_ready [OF assms(1)])
  then have t: "mounted initial_view 4000000 t" "live_console t" "irq_handlers t = boot_handlers (irq_handlers s)" "shell_frame s t"
    using assms(3) by simp_all
  show "live_console t" "mounted initial_view 4000000 t" by (rule t(2), rule t(1))
  show buf: "capture_buf t = NULL" using t(4) assms(1) by (simp add: shell_frame_def cold_def)
  obtain K where K: "fs_ok K t" using t(1) by (auto simp: mounted_def ramfs_inv_def)
  have root: "root t \<in> dom (nodes t)" using fs_ok_root [OF K] by simp
  show "shell_inv NULL (t\<lparr>shell_cwd := ramfs_root t\<rparr>)"
    using assms(2) t root buf
    by (auto simp: shell_inv_def shell_fresh_def shell_frame_def mounted_def live_console_def vga_inv_def irq_ok_def kbd_inv_def
        boot_handlers_def capture_ok_def ramfs_root_def ramfs_inv_def fs_ok_def fs_blocks_def)
qed

lemma greet_safe:
  fixes s :: "'a kernel_scheme"
  assumes i: "shell_inv NULL (s\<lparr>shell_cwd := ramfs_root s\<rparr>)" (is "shell_inv NULL ?s")
  shows "safe (shell_inv NULL) (shell_greet s)"
proof -
  note q = quiet_refl [OF i]
  have path: "NUL \<notin> set ''/etc/motd''" by simp
  obtain p where p: "ramfs_resolve (shell_cwd ?s) ''/etc/motd'' ?s = ret p" "p = NULL \<or> p \<in> dom (nodes ?s)"
    by (rule resolve_quiet [OF q path])
  have motd: "safe (quiet NULL ?s) (run_bind (put_data p 0 ?s) (console_putc NL))" if "p \<in> dom (nodes ?s)"
    by (rule safe_bind [OF put_data_safe [OF q that] console_putc_safe])
  have "safe (quiet NULL ?s) (shell_greet s)"
    unfolding shell_greet_def Let_def p(1) run_bind_simps
  proof (cases "p = NULL")
    case True
    then show "safe (quiet NULL ?s) (run_bind (if p = NULL then ret False else run_bind (node_at p ?s) (\<lambda>n. ret (n_type n = RAMFS_FILE)))
        (\<lambda>is_file. if is_file then run_bind (put_data p 0 ?s) (console_putc NL) else ret ?s))" using q by simp
  next
    case False
    then have d: "p \<in> dom (nodes ?s)" using p(2) by blast
    then obtain n where "node_at p ?s = ret n" using node_quiet [OF q] by blast
    then show "safe (quiet NULL ?s) (run_bind (if p = NULL then ret False else run_bind (node_at p ?s) (\<lambda>n. ret (n_type n = RAMFS_FILE)))
        (\<lambda>is_file. if is_file then run_bind (put_data p 0 ?s) (console_putc NL) else ret ?s))" using False q motd [OF d] by simp
  qed
  then show ?thesis by (rule safe_mono) (rule quietD(1))
qed

text \<open>A session: the greeting, then one line after another, each of them tame.\<close>

inductive session :: "'a kernel_scheme \<Rightarrow> 'a kernel_scheme \<Rightarrow> bool" where
  greeted: "shell_greet s = ret t \<Longrightarrow> session s t"
| stepped: "session s t \<Longrightarrow> tame_step t \<Longrightarrow> shell_step t = ret u \<Longrightarrow> session s u"

lemma session_steps: "session s t \<Longrightarrow> shell_steps s t"
  by (induction rule: session.induct) (auto intro: shell_steps.intros)

lemma session_sound:
  assumes "session s t" "shell_inv NULL (s\<lparr>shell_cwd := ramfs_root s\<rparr>)"
  shows "shell_inv NULL t"
  using assms
proof (induction rule: session.induct)
  case (greeted s t)
  then show ?case using greet_safe [OF greeted(2)] by simp
next
  case (stepped s t u)
  then show ?case using shell_step_safe [OF stepped.IH stepped.hyps(2)] by simp
qed

lemma never_ends:
  assumes i: "shell_inv NULL (s\<lparr>shell_cwd := ramfs_root s\<rparr>)" and t: "\<And>t. session s t \<Longrightarrow> tame_step t"
  shows "session s u \<Longrightarrow> shell_loop u = (None :: 'b run)"
proof -
  have "\<not> session s u" if "shell_loop u = Some y" for u and y :: "'b outcome"
    using that
  proof (rule shell_loop.raw_induct [where P = "\<lambda>u y. \<not> session s u", rotated])
    fix loop u and y :: "'b outcome"
    assume IH: "\<And>u y. loop u = Some y \<Longrightarrow> \<not> session s u" and eq: "run_bind (shell_step u) loop = Some y"
    show "\<not> session s u"
    proof
      assume u: "session s u"
      show False using shell_step_safe [OF session_sound [OF u i] t [OF u]]
      proof (cases rule: safe_cases)
        case (2 v)
        then show ?thesis using eq IH [of v y] session.stepped [OF u t [OF u]] by simp
      qed (use eq in simp)
    qed
  qed
  then show "session s u \<Longrightarrow> shell_loop u = (None :: 'b run)" by (cases "shell_loop u :: 'b run") auto
qed

text \<open>The greeting of a freshly booted kernel returns.\<close>

lemma greet_returns:
  fixes s :: "'a kernel_scheme"
  assumes i: "shell_inv NULL (s\<lparr>shell_cwd := ramfs_root s\<rparr>)" (is "shell_inv NULL ?s") and con: "live_console s" "capture_buf s = NULL"
  obtains t where "shell_greet s = ret t" "live_console t" "vga_frame (s\<lparr>shell_cwd := ramfs_root s\<rparr>) t"
proof -
  have c: "live_console ?s" "capture_buf ?s = NULL" using con by (simp_all add: live_console_def vga_inv_def)
  have path: "NUL \<notin> set ''/etc/motd''" by simp
  obtain p where p: "ramfs_resolve (shell_cwd ?s) ''/etc/motd'' ?s = ret p" "p = NULL \<or> p \<in> dom (nodes ?s)"
    by (rule resolve_quiet [OF quiet_refl [OF i] path])
  show thesis
  proof (cases "\<exists>n. nodes ?s p = Some n \<and> n_type n = RAMFS_FILE \<and> p \<noteq> NULL")
    case True
    then obtain n where n: "nodes ?s p = Some n" "n_type n = RAMFS_FILE" "p \<noteq> NULL" by blast
    have put: "put_data p 0 ?s = console_write (contents (heap ?s) n) ?s"
      using put_data_live [OF c n(1), of 0] by simp
    obtain t where t: "console_write (contents (heap ?s) n @ [NL]) ?s = ret t" "live_console t" "vga_frame ?s t"
      using console_write_live [OF c] by blast
    then have "run_bind (put_data p 0 ?s) (console_putc NL) = ret t"
      unfolding put by (simp only: console_write_append console_write_single)
    then have "shell_greet s = ret t"
      unfolding shell_greet_def Let_def p(1) run_bind_simps using n by (simp add: node_at_def)
    then show thesis by (rule that [OF _ t(2,3)])
  next
    case False
    then have "(if p = NULL then ret False else run_bind (node_at p ?s) (\<lambda>m. ret (n_type m = RAMFS_FILE))) = ret False"
      using p(2) by (auto simp: node_at_def)
    then have "shell_greet s = ret ?s" unfolding shell_greet_def Let_def p(1) run_bind_simps by simp
    then show thesis by (rule that [OF _ c(1)]) (simp add: vga_frame_def)
  qed
qed

text \<open>The loop itself: it neither returns nor panics nor faults as long as the lines are tame.\<close>

lemma shell_run_lives:
  assumes "cold im mbi s" "shell_fresh s" "kmain_boot im MULTIBOOT_BOOTLOADER_MAGIC mbi s = ret s0"
  shows "(shell_run s0 :: 'b run) = None \<or> (\<exists>t. session s0 t \<and> \<not> tame_step t)"
proof (rule disjCI)
  assume "\<not> (\<exists>t. session s0 t \<and> \<not> tame_step t)"
  then have tame: "\<And>t. session s0 t \<Longrightarrow> tame_step t" by blast
  note i = boot_sound(1) [OF assms]
  from greet_safe [OF i] show "(shell_run s0 :: 'b run) = None"
  proof (cases rule: safe_cases)
    case (2 t)
    then show ?thesis using never_ends [OF i tame session.greeted [OF 2(1)]] by (simp add: shell_run_def)
  qed (simp add: shell_run_def)
qed

end
