(* ===== verification/TypedLine.thy ===== *)
theory TypedLine
  imports Session
begin

text \<open>
  From the keys to the files: a line typed at the prompt is edited, entered into the history and
  executed on the filesystem the prompt found.
\<close>

section \<open>Typing a line\<close>

text \<open>Keys that the editor takes as they are.\<close>

definition printable :: "char \<Rightarrow> bool" where
  "printable c \<longleftrightarrow> 0x20 \<le> uchar c \<and> uchar c \<le> 0x7e"

lemma printable_key:
  assumes "printable c" "length buf + 1 < cap"
  shows "edit_key cap hist c (buf, browse) = (buf @ [c], browse)"
proof -
  have "c \<noteq> CHR 0x08" "c \<noteq> CHR 0x09" "uchar c \<noteq> KEY_UP" "uchar c \<noteq> KEY_DOWN"
    using assms(1) by (auto simp: printable_def uchar_def KEY_UP_def KEY_DOWN_def)
  then show ?thesis using assms by (simp add: edit_key_def printable_def)
qed

lemma printable_line:
  assumes "\<forall>c \<in> set keys. printable c" "length buf + length keys < cap"
  shows "fold (edit_key cap hist) keys (buf, browse) = (buf @ keys, browse)"
  using assms by (induction keys arbitrary: buf) (simp_all add: printable_key)

lemma typing_color: "typing ls keys s \<Longrightarrow> typing ls keys (console_set_color fg bg s)"
  by (rule typing_frame [of ls keys s])
    (simp_all add: typing_def console_set_color_def vga_set_color_def vga_frame_def live_console_def vga_inv_def)

lemma typing_prompt:
  fixes s :: "'a kernel_scheme"
  assumes t: "typing ls keys s" and i: "shell_inv NULL s"
  obtains u where "print_prompt s = ret u" "typing ls keys u" "quiet NULL s u"
proof -
  obtain path where path: "ramfs_path (shell_cwd s) RAMFS_PATH_MAX s = ret path" by (rule path_quiet [OF quiet_refl [OF i]])
  obtain s1 where s1: "console_write ''root@raptor'' (console_set_color VGA_LIGHT_GREEN VGA_BLACK s) = ret s1" "typing ls keys s1"
    by (rule typing_write [OF typing_color [OF t]])
  obtain s2 where s2: "console_putc CHR '':'' (console_set_color VGA_LIGHT_GREY VGA_BLACK s1) = ret s2" "typing ls keys s2"
    by (rule typing_putc [OF typing_color [OF s1(2)]])
  obtain s3 where s3: "console_write path (console_set_color VGA_LIGHT_CYAN VGA_BLACK s2) = ret s3" "typing ls keys s3"
    by (rule typing_write [OF typing_color [OF s2(2)]])
  obtain u where u: "console_write ''# '' (console_set_color VGA_LIGHT_GREY VGA_BLACK s3) = ret u" "typing ls keys u"
    by (rule typing_write [OF typing_color [OF s3(2)]])
  have p: "print_prompt s = ret u"
    unfolding print_prompt_def path run_bind_simps s1(1) s2(1) s3(1) by (rule u(1))
  have "quiet NULL s u" using print_prompt_safe [OF quiet_refl [OF i]] p by simp
  then show thesis by (rule that [OF p u(2)])
qed

text \<open>One turn of the loop: prompt, line, history, execution.\<close>

lemma typed_step:
  fixes s :: "'a kernel_scheme"
  assumes t: "typing ls (line @ [NL]) s" and i: "shell_inv NULL s"
    and line: "\<forall>c \<in> set line. printable c" "length line < SHELL_LINE_MAX"
  obtains p u where "print_prompt s = ret p" "read_line SHELL_LINE_MAX p = ret (u, line)"
    "shell_step s = execute line (if line \<noteq> [] then history_add line u else u)" "typing ls [] u" "quiet NULL s u"
proof -
  obtain p where p: "print_prompt s = ret p" "typing ls (line @ [NL]) p" "quiet NULL s p" by (rule typing_prompt [OF t i])
  have nl: "NL \<notin> set line" using line(1) by (auto simp: printable_def uchar_def)
  have cap: "0 < SHELL_LINE_MAX" by (simp add: SHELL_LINE_MAX_def)
  have h: "shell_history_count p = length (last_lines ls)"
    by (rule history_lookup(1)) (use p(2) in \<open>simp add: typing_def\<close>)
  obtain u where u: "read_line SHELL_LINE_MAX p = ret (u, line)" "typing ls [] u"
    using read_line_keys [OF p(2) nl order_refl, of "[]" SHELL_LINE_MAX] cap line
    by (auto simp: read_line_def h printable_line)
  have "quiet NULL s u" using read_line_safe [OF p(3) cap] u(1) by simp
  moreover have "shell_step s = execute line (if line \<noteq> [] then history_add line u else u)"
    unfolding shell_step_def p(1) run_bind_simps u(1) prod.case ..
  ultimately show thesis using that p(1) u by blast
qed

lemma quiet_view:
  fixes s u :: "'a kernel_scheme"
  assumes "quiet NULL s u" "capture_buf s = NULL"
  shows "ramfs_inv (history_add line u)" "fs_view (history_add line u) = fs_view s" "heap (history_add line u) = heap s"
    "shell_cwd (history_add line u) = shell_cwd s" "nodes (history_add line u) = nodes s" "root (history_add line u) = root s"
proof -
  have h: "heap u = heap s" by (rule quietD(7) [OF assms])
  show "ramfs_inv (history_add line u)" using shell_invD(3) [OF quietD(1) [OF assms(1)]]
    by (simp add: history_add_def ramfs_inv_def fs_ok_def)
  show "fs_view (history_add line u) = fs_view s" "heap (history_add line u) = heap s"
    "shell_cwd (history_add line u) = shell_cwd s" "nodes (history_add line u) = nodes s" "root (history_add line u) = root s"
    using quietD [OF assms(1)] h by (simp_all add: history_add_def fs_view_def)
qed

section \<open>Properties\<close>

text \<open>
  C12. From the keyboard to the file: when the shell is at its prompt with \<^verbatim>\<open>echo words > file\<close> (or \<^verbatim>\<open>>>\<close>) and
  Enter waiting in the keyboard ring, one turn of its loop returns; the file the path names (or that it
  creates) then holds exactly the words with single blanks between them and a newline, after the old
  contents for \<^verbatim>\<open>>>\<close>; every other entry is as before, the working directory is the same and the kernel is
  sound and ready for the next prompt.
\<close>

theorem typed_echo_stores:
  fixes s :: "'a kernel_scheme"
  assumes i: "shell_inv NULL s" and con: "live_console s" "capture_buf s = NULL"
    and keys: "kbd_queue s = line @ [NL]" "\<forall>c \<in> set line. printable c" "length line < SHELL_LINE_MAX" "history_holds ls s"
    and line: "line = join_words (''echo'' # ws @ [if app then ''>>'' else ''>'', path])"
    and words: "\<forall>w \<in> set ws. DQ \<notin> set w \<and> NUL \<notin> set w \<and> w \<notin> {''>'', ''>>''}" "length ws \<le> 13"
    and path: "DQ \<notin> set path" "NUL \<notin> set path"
    and C: "named s C (shell_cwd s)" and t: "write_target (fs_view s) C path Q old"
    and len: "length (echo_line ws) \<le> 16384" "n = length (if app then old else []) + length (echo_line ws)" "n \<le> 2 ^ 30"
    and room: "has_room (2 * n + 17000) (heap s)"
  shows "\<exists>s'. shell_step s = ret s' \<and> shell_inv NULL s' \<and> shell_cwd s' = shell_cwd s \<and>
    fs_view s' = {(R, e) \<in> fs_view s. R \<noteq> Q} \<union> {(Q, File ((if app then old else []) @ echo_line ws))}"
proof -
  have ty: "typing ls (line @ [NL]) s"
    using con keys(1,4) shell_invD(2) [OF i] by (simp add: typing_def irq_ok_def)
  have "line \<noteq> []" unfolding line by (cases "ws @ [if app then ''>>'' else ''>'', path]") (simp_all add: quote_def)
  then obtain u where u: "shell_step s = execute line (history_add line u)" "typing ls [] u" "quiet NULL s u"
    using typed_step [OF ty i keys(2,3)] by auto
  let ?u = "history_add line u"
  note V = quiet_view [OF u(3) con(2), of line]
  have C': "named ?u C (shell_cwd ?u)" using C V by simp
  have room': "has_room (2 * n + 17000) (heap ?u)" and t': "write_target (fs_view ?u) C path Q old" using room t V by simp_all
  obtain s' where s': "execute line ?u = ret s'" "shell_cwd s' = shell_cwd ?u"
      "fs_view s' = {(R, e) \<in> fs_view ?u. R \<noteq> Q} \<union> {(Q, File ((if app then old else []) @ echo_line ws))}"
    using echo_redirect_stores [OF V(1) C' words path t' len room'] unfolding line by blast
  have nul: "NUL \<notin> set line" using keys(2) by (auto simp: printable_def uchar_def)
  have tame: "tame_line line ?u"
  proof -
    have "fst (split_redirect (tokenize line SHELL_ARGV_MAX)) = ''echo'' # ws"
      unfolding line by (subst redirect_words [where app = app]) (use words path in \<open>auto simp: DQ_def SHELL_ARGV_MAX_def\<close>)
    then show ?thesis by (simp add: tame_line_def tame_command_def find_echo)
  qed
  have "shell_inv NULL s'"
    using execute_safe [OF history_sound [OF quietD(1) [OF u(3)] nul] nul tame] s'(1) by simp
  then show ?thesis using u(1) s' V by auto
qed

text \<open>A machine switched on with keys already typed; what its shell finds at the first prompt.\<close>

definition keys_at_boot :: "char list \<Rightarrow> kernel" where
  "keys_at_boot keys = kernel_bss\<lparr>kbd_buf := \<lambda>i. keys ! unat i, kbd_head := of_nat (length keys), kbd_tail := 0\<rparr>"

lemma keys_at_boot_cold:
  assumes "length keys < 256"
  shows "cold boot_image boot_mbi (keys_at_boot keys)" "shell_fresh (keys_at_boot keys)" "kbd_queue (keys_at_boot keys) = keys"
    "history_total (keys_at_boot keys) = 0"
proof -
  let ?s = "keys_at_boot keys"
  have head: "unat (of_nat (length keys) :: u32) = length keys" using assms by (simp add: unat_of_nat take_bit_nat_eq_self)
  then have "kbd_len ?s = length keys" by (simp add: kbd_len_def keys_at_boot_def)
  then show "kbd_queue ?s = keys" using assms
    by (auto simp: kbd_queue_def keys_at_boot_def unat_of_nat take_bit_nat_eq_self intro!: nth_equalityI)
  have "uart_drains (port_in kernel_bss)" using kernel_bss_cold(1) uart_ready_drains by simp
  then show "cold boot_image boot_mbi ?s" unfolding cold_def keys_at_boot_def using kernel_bss_cold boot_image_fits by simp
  show "shell_fresh ?s" "history_total ?s = 0" using head assms
    by (simp_all add: keys_at_boot_def shell_fresh_def kernel_bss_def ramfs.defs ramfs_boot_def console.defs console_boot_def
        interrupts.defs irq_ready_def keyboard_init_def timer_init_def irq_install_handler_def irq_boot_def outb_def Let_def kbd_inv_def)
qed

lemma first_prompt:
  fixes s :: "'a kernel_scheme"
  assumes "cold im mbi s" "shell_fresh s" "kbd_queue s = keys" "history_total s = 0"
  obtains s0 t where "kmain_boot im MULTIBOOT_BOOTLOADER_MAGIC mbi s = ret s0" "shell_greet s0 = ret t" "typing [] keys t"
    "shell_inv NULL t" "mounted initial_view 4000000 t" "shell_cwd t = root t" "wake t = wake s" "port_in t = port_in s"
proof -
  obtain s0 where s0: "kmain_boot im MULTIBOOT_BOOTLOADER_MAGIC mbi s = ret s0" "shell_frame s s0"
    by (rule kmain_ready [OF assms(1)])
  note B = boot_sound [OF assms(1,2) s0(1)]
  let ?s = "s0\<lparr>shell_cwd := ramfs_root s0\<rparr>"
  obtain t where t: "shell_greet s0 = ret t" "live_console t" "vga_frame ?s t" by (rule greet_returns [OF B(1-3)])
  have "kbd_inv ?s" using shell_invD(2) [OF B(1)] by (simp add: irq_ok_def)
  moreover have "kbd_len ?s = kbd_len s" using s0(2) by (simp add: shell_frame_def kbd_len_def)
  then have "kbd_queue ?s = keys" using s0(2) assms(3) by (simp add: shell_frame_def kbd_queue_def)
  ultimately have "typing [] keys ?s" using B(2,3) s0(2) assms(4)
    by (simp add: typing_def live_console_def vga_inv_def shell_frame_def history_holds_def)
  then have ty: "typing [] keys t" by (rule typing_frame [OF _ t(3,2)])
  have i: "shell_inv NULL t" by (rule session_sound [OF session.greeted [OF t(1)] B(1)])
  note K = vga_frame_kernel [OF t(3)]
  have m: "mounted initial_view 4000000 t" "shell_cwd t = root t"
    using B(4) K by (simp_all add: mounted_def ramfs_inv_def fs_ok_def fs_view_def ramfs_root_def)
  have "wake t = wake ?s" "port_in t = port_in ?s" by (subst t(3) [unfolded vga_frame_def], simp)+
  then have "wake t = wake s" "port_in t = port_in s" using s0(2) by (simp_all add: shell_frame_def)
  then show thesis by (rule that [OF s0(1) t(1) ty i m])
qed

theorem typed_echo_stores_witness:
  "\<exists>s t u. kmain_boot boot_image MULTIBOOT_BOOTLOADER_MAGIC boot_mbi
       (keys_at_boot (''echo hello world > /tmp/note'' @ [NL])) = ret s \<and>
     shell_greet s = ret t \<and> shell_step t = ret u \<and> ([''tmp'', ''note''], File (''hello world'' @ [NL])) \<in> fs_view u"
proof -
  let ?line = "''echo hello world > /tmp/note''"
  have "length (?line @ [NL]) < 256" by simp
  note start = keys_at_boot_cold [OF this]
  obtain s t where s: "kmain_boot boot_image MULTIBOOT_BOOTLOADER_MAGIC boot_mbi (keys_at_boot (?line @ [NL])) = ret s"
      "shell_greet s = ret t" "typing [] (?line @ [NL]) t" "shell_inv NULL t" "mounted initial_view 4000000 t" "shell_cwd t = root t"
    by (rule first_prompt [OF start])
  have ty: "live_console t" "capture_buf t = NULL" "kbd_queue t = ?line @ [NL]" "history_holds [] t"
    using s(3) by (simp_all only: typing_def)
  have line: "?line = join_words (''echo'' # [''hello'', ''world''] @ [if False then ''>>'' else ''>'', ''/tmp/note''])"
    by (simp add: quote_def plain_word_def DQ_def)
  have out: "echo_line [''hello'', ''world''] = ''hello world'' @ [NL]" by (simp add: echo_line_def)
  have target: "write_target (fs_view t) [] ''/tmp/note'' [''tmp'', ''note''] []"
    using s(5) by (simp add: mounted_def write_target_def initial_view_def initial_dirs_def view_eval start_path_def)
  have room: "has_room (2 * 12 + 17000) (heap t)" by (rule has_room_mono [of 4000000]) (use s(5) in \<open>simp_all add: mounted_def\<close>)
  have pr: "\<forall>c \<in> set ?line. printable c" "length ?line < SHELL_LINE_MAX"
    by (simp_all add: printable_def uchar_def SHELL_LINE_MAX_def)
  have "\<exists>u. shell_step t = ret u \<and> shell_inv NULL u \<and> shell_cwd u = shell_cwd t \<and>
    fs_view u = {(R, e) \<in> fs_view t. R \<noteq> [''tmp'', ''note'']} \<union> {([''tmp'', ''note''], File ((if False then [] else []) @ echo_line [''hello'', ''world'']))}"
    by (rule typed_echo_stores [OF s(4) ty(1-3) pr ty(4) line _ _ _ _ _ target _ _ _ room])
      (use s(6) in \<open>simp_all add: DQ_def out\<close>)
  then show ?thesis using s(1,2) unfolding out by auto
qed

text \<open>A machine where nobody types: the shell waits at its first prompt for ever.\<close>

lemma idle_getchar:
  assumes "kbd_inv s" "kbd_queue s = []" "\<And>tr. wake s tr = None" "\<And>tr. port_in s tr = 0x20"
  shows "console_getchar s = None"
proof -
  have "(ucast (port_in s (In8 REG_LINE_STATUS # trace s)) :: u8) AND LSR_DATA_READY = 0"
    using assms(4) by (simp add: LSR_DATA_READY_def)
  then have idle: "serial_key s = (s\<lparr>trace := In8 REG_LINE_STATUS # trace s\<rparr>, - 1)" by (rule serial_key_idle)
  have "hlt (s\<lparr>trace := In8 REG_LINE_STATUS # trace s\<rparr>) = None" using assms(3) by (simp add: hlt_def)
  then show ?thesis
    by (subst console_getchar.simps) (simp add: keyboard_read_empty [OF assms(1,2)] idle)
qed

lemma idle_tame:
  fixes t :: "'a kernel_scheme"
  assumes ty: "typing ls [] t" and i: "shell_inv NULL t" and dev: "\<And>tr. wake t tr = None" "\<And>tr. port_in t tr = 0x20"
  shows "tame_step t" "shell_step t = None"
proof -
  obtain p where p: "print_prompt t = ret p" "typing ls [] p" "quiet NULL t p" by (rule typing_prompt [OF ty i])
  have "console_getchar p = None"
    by (rule idle_getchar) (use p(2) dev quietD(8,9) [OF p(3)] in \<open>simp_all add: typing_def\<close>)
  then have "read_line SHELL_LINE_MAX p = None" by (simp add: read_line_def read_line_loop.simps)
  then show "tame_step t" "shell_step t = None" using p(1) by (simp_all add: tame_step_def shell_step_def)
qed

lemma idle_session:
  obtains s where "kmain_boot boot_image MULTIBOOT_BOOTLOADER_MAGIC boot_mbi (keys_at_boot []) = ret s"
    "\<And>t. session s t \<Longrightarrow> tame_step t"
proof -
  have "length ([] :: char list) < 256" by simp
  note start = keys_at_boot_cold [OF this]
  obtain s t where s: "kmain_boot boot_image MULTIBOOT_BOOTLOADER_MAGIC boot_mbi (keys_at_boot []) = ret s" "shell_greet s = ret t"
      "typing [] [] t" "shell_inv NULL t" "wake t = wake (keys_at_boot [])" "port_in t = port_in (keys_at_boot [])"
    by (rule first_prompt [OF start])
  have dev: "wake t tr = None" "port_in t tr = 0x20" for tr
    unfolding s(5,6) by (simp_all add: keys_at_boot_def kernel_bss_def ramfs.defs ramfs_boot_def console.defs console_boot_def
        interrupts.defs irq_ready_def keyboard_init_def timer_init_def irq_install_handler_def irq_boot_def outb_def Let_def)
  note I = idle_tame [OF s(3,4) dev]
  have "u = t" if "session s u" for u
    using that s(2) I(2) by (induction rule: session.induct) auto
  then have "tame_step u" if "session s u" for u using I(1) that by blast
  then show thesis by (rule that [OF s(1)])
qed

text \<open>A session of one line: Enter at the first prompt.\<close>

lemma first_session:
  obtains s t u where "kmain_boot boot_image MULTIBOOT_BOOTLOADER_MAGIC boot_mbi (keys_at_boot [NL]) = ret s" "session s t"
    "shell_step t = ret u" "session s u"
proof -
  have "length [NL] < 256" by simp
  note start = keys_at_boot_cold [OF this]
  obtain s t where s: "kmain_boot boot_image MULTIBOOT_BOOTLOADER_MAGIC boot_mbi (keys_at_boot [NL]) = ret s"
      "shell_greet s = ret t" "typing [] ([] @ [NL]) t" "shell_inv NULL t"
    using first_prompt [OF start] by (metis append_Nil)
  have none: "tokenize [] SHELL_ARGV_MAX = []" by (simp add: tokenize_def tokenize_loop.simps)
  obtain p u where p: "print_prompt t = ret p" "read_line SHELL_LINE_MAX p = ret (u, [])" "shell_step t = execute [] u"
    by (rule typed_step [OF s(3,4)]) (auto simp: SHELL_LINE_MAX_def)
  have step: "shell_step t = ret u" using p(3) by (simp add: execute_def none)
  have "tame_step t" using p(1,2) by (simp add: tame_step_def tame_line_def none)
  then have "session s u" by (rule session.stepped [OF session.greeted [OF s(2)] _ step])
  then show thesis by (rule that [OF s(1) session.greeted [OF s(2)] step])
qed



end
