(* ===== verification/RamfsProps.thy ===== *)
theory RamfsProps
  imports RamfsBoot
begin

text \<open>
  The properties of fs/ramfs.c. Each operation is described by its effect on \<open>fs_view\<close>, the set of
  absolute paths with their entries; the witnesses run the operations on the tree that
  \<^verbatim>\<open>ramfs_init\<close> mounts.
\<close>

lemma booted_fs:
  obtains s K where "ramfs_init ramfs_boot = ret s" "fs_ok K s" "fs_view s = initial_view" "has_room 4000000 (heap s)"
proof -
  obtain s where s: "ramfs_init ramfs_boot = ret s" "mounted initial_view 4000000 s" by (rule booted)
  then show thesis using that by (auto simp: mounted_def ramfs_inv_def)
qed

lemmas initial_eval = initial_view_def initial_dirs_def view_eval start_path_def

section \<open>Well-formedness\<close>



section \<open>Resolving and printing paths\<close>

text \<open>
  C15. \<^verbatim>\<open>ramfs_resolve\<close> returns, without a fault, and finds what the abstract walk along the
  components of the path finds: NULL if a component is too long or names nothing, otherwise the node
  at the path reached, starting at the root for an absolute path and at the working directory
  otherwise, with \<^verbatim>\<open>.\<close> and \<^verbatim>\<open>..\<close> understood and repeated slashes ignored.
\<close>

theorem ramfs_resolve_refines:
  assumes "ramfs_inv s" "named s P cwd" "NUL \<notin> set path"
  shows "\<exists>p. ramfs_resolve cwd path s = ret p \<and>
    (case walk_view (fs_view s) (start_path P path) (components path) of
       None \<Rightarrow> p = NULL | Some Q \<Rightarrow> p \<noteq> NULL \<and> named s Q p)"
  using assms(1) resolve_view [OF _ assms(2,3)] by (auto simp: ramfs_inv_def)

theorem ramfs_resolve_refines_witness:
  "\<exists>s p. ramfs_init ramfs_boot = ret s \<and> ramfs_resolve (root s) ''home//user/../../etc/./motd'' s = ret p \<and>
     named s [''etc'', ''motd''] p \<and> ramfs_resolve (root s) ''/etc/passwd'' s = ret NULL"
proof -
  obtain s where s: "ramfs_init ramfs_boot = ret s" "mounted initial_view 4000000 s" by (rule booted)
  have i: "ramfs_inv s" "fs_view s = initial_view" "named s [] (root s)" using s(2) by (simp_all add: mounted_def)
  have w: "walk_view initial_view (start_path [] ''home//user/../../etc/./motd'')
      (components ''home//user/../../etc/./motd'') = Some [''etc'', ''motd'']"
    "walk_view initial_view (start_path [] ''/etc/passwd'') (components ''/etc/passwd'') = None"
    by (simp_all add: initial_eval)
  have "\<exists>p. ramfs_resolve (root s) ''home//user/../../etc/./motd'' s = ret p \<and> named s [''etc'', ''motd''] p"
    using ramfs_resolve_refines [OF i(1,3), of "''home//user/../../etc/./motd''"] i(2) w(1) by auto
  moreover have "ramfs_resolve (root s) ''/etc/passwd'' s = ret NULL"
    using ramfs_resolve_refines [OF i(1,3), of "''/etc/passwd''"] i(2) w(2) by auto
  ultimately show ?thesis using s(1) by blast
qed



section \<open>Creating, writing, removing, moving\<close>

text \<open>
  C4. \<^verbatim>\<open>ramfs_create\<close> on a sound filesystem: a request whose parent is no directory, whose last
  component is no legal name or names something that exists is refused with nothing changed; a legal
  request fails only when the heap is full, with nothing changed, or adds exactly one entry, an empty
  file or directory. The invariant is kept and no block of another component is touched.
\<close>

theorem ramfs_create_refines:
  assumes "ramfs_inv s" "named s P cwd" "NUL \<notin> set path"
  shows "case create_path (fs_view s) (start_path P path) (components path) of
      None \<Rightarrow> ramfs_create cwd path ty s = ret (s, NULL)
    | Some Q \<Rightarrow> \<exists>s' n. ramfs_create cwd path ty s = ret (s', n) \<and> ramfs_inv s' \<and> fs_kept s s' \<and>
        (has_room 103 (heap s) \<longrightarrow> n \<noteq> NULL) \<and>
        (if n = NULL then s' = s
         else named s' Q n \<and> fs_view s' = insert (Q, if ty = RAMFS_FILE then File [] else Dir) (fs_view s))"
proof -
  obtain K where ok: "fs_ok K s" using assms(1) by (auto simp: ramfs_inv_def)
  note V = ramfs_create_view [OF ok assms(2,3), of ty]
  show ?thesis
  proof (cases "create_path (fs_view s) (start_path P path) (components path)")
    case None
    then show ?thesis using V by simp
  next
    case (Some Q)
    have room: "ramfs_create cwd path ty s \<noteq> ret (s, NULL)" if h: "has_room 103 (heap s)"
    proof -
      obtain s' n where "ramfs_create cwd path ty s = ret (s', n)" "n \<noteq> NULL"
        by (rule create_room [OF ok assms(2,3) Some h order_refl])
      then show ?thesis by simp
    qed
    show ?thesis
    proof (cases "ramfs_create cwd path ty s = ret (s, NULL)")
      case True
      then show ?thesis using Some assms(1) room by (auto simp: fs_kept_def)
    next
      case False
      then obtain s' n where "ramfs_create cwd path ty s = ret (s', n)" "n \<noteq> NULL" "ramfs_inv s'" "fs_only s s'"
        "foreign_kept s s'" "named s' Q n"
        "fs_view s' = insert (Q, if ty = RAMFS_FILE then File [] else Dir) (fs_view s)"
        using Some V by auto
      then show ?thesis unfolding Some by (simp add: fs_kept_def)
    qed
  qed
qed

theorem ramfs_create_refines_witness:
  "\<exists>s s' n. ramfs_init ramfs_boot = ret s \<and> ramfs_create (root s) ''tmp/note'' RAMFS_FILE s = ret (s', n) \<and>
     n \<noteq> NULL \<and> fs_view s' = insert ([''tmp'', ''note''], File []) initial_view \<and>
     ramfs_create (root s) ''/etc'' RAMFS_DIR s = ret (s, NULL)"
proof -
  obtain s where s: "ramfs_init ramfs_boot = ret s" "mounted initial_view 4000000 s" by (rule booted)
  have i: "ramfs_inv s" "fs_view s = initial_view" "named s [] (root s)" "has_room 103 (heap s)"
    using s(2) has_room_mono by (auto simp: mounted_def)
  have c: "create_path initial_view (start_path [] ''tmp/note'') (components ''tmp/note'') = Some [''tmp'', ''note'']"
    "create_path initial_view (start_path [] ''/etc'') (components ''/etc'') = None"
    by (simp_all add: initial_eval)
  have "\<exists>s' n. ramfs_create (root s) ''tmp/note'' RAMFS_FILE s = ret (s', n) \<and>
     n \<noteq> NULL \<and> fs_view s' = insert ([''tmp'', ''note''], File []) initial_view"
    using ramfs_create_refines [OF i(1,3), of "''tmp/note''" RAMFS_FILE] i(2,4) c(1) by auto
  moreover have "ramfs_create (root s) ''/etc'' RAMFS_DIR s = ret (s, NULL)"
    using ramfs_create_refines [OF i(1,3), of "''/etc''" RAMFS_DIR] i(2) c(2) by simp
  ultimately show ?thesis using s(1) by blast
qed

text \<open>
  C5. \<^verbatim>\<open>ramfs_write\<close> to a file, from a buffer outside the filesystem or a constant, up to 1 GiB:
  it fails only when the heap is full, leaving the old contents, or the file then holds
  exactly the bytes of the buffer (after the old contents when appending) and no other entry
  changes. A free block of \<open>2 n + 107\<close> bytes is always enough.
\<close>

theorem ramfs_write_refines:
  assumes inv: "ramfs_inv s" and P: "named s P p" "(P, File old) \<in> fs_view s"
    and src: "fs_source s b len body" and n: "n = length (if app then old else []) + length body" "n \<le> 2 ^ 30"
  shows "\<exists>s' ok. ramfs_write p b len app s = ret (s', ok) \<and> ramfs_inv s' \<and> fs_kept s s' \<and>
    (has_room (2 * n + 107) (heap s) \<longrightarrow> ok) \<and>
    (if ok then fs_view s' = {(Q, e) \<in> fs_view s. Q \<noteq> P} \<union> {(P, File ((if app then old else []) @ body))}
     else s' = s)"
proof -
  obtain K where ok: "fs_ok K s" using inv by (auto simp: ramfs_inv_def)
  obtain f where f: "nodes s p = Some f" using at_dom(1) [OF ok P(1)] by blast
  have buf: "buffer_ok b len (n_data (the (nodes s p))) (heap s)" using fs_source_ok [OF ok f src] f by simp
  have n': "n = length (if app then old else []) + unat len" using n(1) src by (simp add: fs_source_def)
  have room: "ramfs_write p b len app s \<noteq> ret (s, False)" if h: "has_room (2 * n + 107) (heap s)"
  proof -
    obtain s' where "ramfs_write p b len app s = ret (s', True)"
      by (rule write_room [OF ok P buf n' n(2) h order_refl])
    then show ?thesis by simp
  qed
  have small: "length (if app then old else []) + length body \<le> 2 ^ 30" using n by simp
  from rf.store_law [OF inv P src small] show ?thesis
  proof
    assume "ramfs_write p b len app s = ret (s, False)"
    then show ?thesis using room inv rf.kept_refl by (intro exI [of _ s] exI [of _ False]) auto
  next
    assume "\<exists>s'. ramfs_write p b len app s = ret (s', True) \<and> ramfs_inv s' \<and> fs_kept s s' \<and>
         fs_view s' = {(Q, e) \<in> fs_view s. Q \<noteq> P} \<union> {(P, File ((if app then old else []) @ body))}"
    then obtain s' where "ramfs_write p b len app s = ret (s', True)" "ramfs_inv s'" "fs_kept s s'"
      "fs_view s' = {(Q, e) \<in> fs_view s. Q \<noteq> P} \<union> {(P, File ((if app then old else []) @ body))}" by blast
    then show ?thesis by (intro exI [of _ s'] exI [of _ True]) simp
  qed
qed

lemma const_source: "length body < 2 ^ 32 \<Longrightarrow> fs_source s (Const body) (of_nat (length body)) body"
  by (simp add: fs_source_def unat_of_nat_u32)

theorem ramfs_write_refines_witness:
  "\<exists>s p s'. ramfs_init ramfs_boot = ret s \<and> named s [''etc'', ''motd''] p \<and>
     ramfs_write p (Const ''bye'') 3 True s = ret (s', True) \<and>
     ([''etc'', ''motd''], File (motd_text @ ''bye'')) \<in> fs_view s'"
proof -
  obtain s K where s: "ramfs_init ramfs_boot = ret s" "fs_ok K s" "fs_view s = initial_view" "has_room 4000000 (heap s)"
    by (rule booted_fs)
  have here: "([''etc'', ''motd''], File motd_text) \<in> fs_view s" by (simp add: s(3) initial_eval)
  then obtain p where p: "named s [''etc'', ''motd''] p" unfolding fs_view_iff by blast
  have i: "ramfs_inv s" using s(2) by (auto simp: ramfs_inv_def)
  have src: "fs_source s (Const ''bye'') 3 ''bye''" using const_source [of "''bye''" s] by simp
  have "has_room (2 * 86 + 107) (heap s)" by (rule has_room_mono [OF s(4)]) simp
  then show ?thesis
    using ramfs_write_refines [OF i p here src, of 86 True] s(1) p text_lengths(1) by fastforce
qed

text \<open>
  C6. \<^verbatim>\<open>ramfs_delete\<close> of a node other than the root: a directory with entries is refused, with
  nothing changed, unless the deletion is recursive; otherwise the call succeeds, exactly the entries
  at and below the node's path disappear, every heap block of those nodes and of their data is freed,
  and no other block. No double free and no use after free occurs: the run neither panics nor faults.
\<close>

theorem ramfs_delete_refines:
  assumes "ramfs_inv s" "named s P p" "P \<noteq> []"
  shows "if (P, Dir) \<in> fs_view s \<and> (\<exists>x. P @ [x] \<in> fst ` fs_view s) \<and> \<not> recursive
    then ramfs_delete p recursive s = ret (s, False)
    else \<exists>s'. ramfs_delete p recursive s = ret (s', True) \<and> ramfs_inv s' \<and> fs_kept s s' \<and>
      fs_view s' = {(Q, e) \<in> fs_view s. \<not> prefix P Q} \<and>
      live (heap s') = {(a, d) \<in> live (heap s). a \<notin> owned (nodes s) (below (nodes s) p)}"
  using assms(1) ramfs_delete_view [OF _ assms(2,3), of _ recursive] unfolding ramfs_inv_def fs_kept_def by meson

theorem ramfs_delete_refines_witness:
  "\<exists>s p s'. ramfs_init ramfs_boot = ret s \<and> named s [''etc''] p \<and>
     ramfs_delete p False s = ret (s, False) \<and> ramfs_delete p True s = ret (s', True) \<and>
     [''etc'', ''motd''] \<notin> fst ` fs_view s'"
proof -
  obtain s K where s: "ramfs_init ramfs_boot = ret s" "fs_ok K s" "fs_view s = initial_view" by (rule booted_fs)
  have dir: "([''etc''], Dir) \<in> fs_view s" "[''etc''] @ [''motd''] \<in> fst ` fs_view s"
    by (simp_all add: s(3) initial_eval)
  then obtain p where p: "named s [''etc''] p" unfolding fs_view_iff by blast
  have i: "ramfs_inv s" using s(2) by (auto simp: ramfs_inv_def)
  have no: "ramfs_delete p False s = ret (s, False)"
  proof -
    have "([''etc''], Dir) \<in> fs_view s \<and> (\<exists>x. [''etc''] @ [x] \<in> fst ` fs_view s) \<and> \<not> False" using dir by blast
    from ramfs_delete_refines [OF i p, of False, unfolded if_P [OF this]] show ?thesis by simp
  qed
  obtain s' where "ramfs_delete p True s = ret (s', True)"
    "fs_view s' = {(Q, e) \<in> fs_view s. \<not> prefix [''etc''] Q}"
    using ramfs_delete_refines [OF i p, of True] by auto
  then show ?thesis using s(1) p no by (intro exI [of _ s] exI [of _ p] exI [of _ s']) auto
qed

text \<open>
  C7. \<^verbatim>\<open>ramfs_move\<close> of a node to a legal name in a directory: it is refused, with nothing changed,
  when the target is no directory, the name is taken there, or the target lies at or below the moved
  node (which would make a cycle); otherwise it succeeds, and the whole subtree appears under the new
  path with its contents, and nowhere else.
\<close>

theorem ramfs_move_refines:
  assumes "ramfs_inv s" "named s P p" "P \<noteq> []" "named s D np" "valid_name x"
  shows "if (D, Dir) \<notin> fs_view s \<or> D @ [x] \<in> fst ` fs_view s \<or> prefix P D
    then ramfs_move p np x s = ret (s, False)
    else \<exists>s'. ramfs_move p np x s = ret (s', True) \<and> ramfs_inv s' \<and> heap s' = heap s \<and> fs_only s s' \<and>
      fs_view s' = {(Q, e) \<in> fs_view s. \<not> prefix P Q} \<union> {(D @ x # S, e) | S e. (P @ S, e) \<in> fs_view s}"
proof -
  obtain K where ok: "fs_ok K s" using assms(1) by (auto simp: ramfs_inv_def)
  show ?thesis
  proof (cases "(D, Dir) \<notin> fs_view s \<or> D @ [x] \<in> fst ` fs_view s \<or> prefix P D")
    case True
    then show ?thesis using ramfs_move_view [OF ok assms(2-5)] by auto
  next
    case False
    then obtain N' where "ramfs_move p np x s = ret (s\<lparr>nodes := N'\<rparr>, True)" "ramfs_inv (s\<lparr>nodes := N'\<rparr>)"
      "fs_view (s\<lparr>nodes := N'\<rparr>) =
        {(Q, e) \<in> fs_view s. \<not> prefix P Q} \<union> {(D @ x # S, e) | S e. (P @ S, e) \<in> fs_view s}"
      using ramfs_move_view [OF ok assms(2-5)] by auto
    then show ?thesis
      unfolding if_not_P [OF False] by (intro exI [of _ "s\<lparr>nodes := N'\<rparr>"]) (simp add: fs_only_def)
  qed
qed

theorem ramfs_move_refines_witness:
  "\<exists>s p np s'. ramfs_init ramfs_boot = ret s \<and> named s [''etc''] p \<and> named s [''tmp''] np \<and>
     ramfs_move p np ''old'' s = ret (s', True) \<and> ([''tmp'', ''old'', ''motd''], File motd_text) \<in> fs_view s' \<and>
     ramfs_move p p ''self'' s = ret (s, False)"
proof -
  obtain s K where s: "ramfs_init ramfs_boot = ret s" "fs_ok K s" "fs_view s = initial_view" by (rule booted_fs)
  have "([''etc''], Dir) \<in> fs_view s" "([''tmp''], Dir) \<in> fs_view s" by (simp_all add: s(3) initial_eval)
  then obtain p np where p: "named s [''etc''] p" and np: "named s [''tmp''] np" unfolding fs_view_iff by blast
  have i: "ramfs_inv s" using s(2) by (auto simp: ramfs_inv_def)
  have x: "valid_name ''old''" "valid_name ''self''" by (simp_all add: valid_name_def RAMFS_NAME_MAX_def)
  have "\<not> (([''tmp''], Dir) \<notin> fs_view s \<or> [''tmp''] @ [''old''] \<in> fst ` fs_view s \<or> prefix [''etc''] [''tmp''])"
    by (simp add: s(3) initial_eval)
  note M = ramfs_move_refines [OF i p _ np x(1), unfolded if_not_P [OF this]]
  obtain s' where s': "ramfs_move p np ''old'' s = ret (s', True)"
    "fs_view s' = {(Q, e) \<in> fs_view s. \<not> prefix [''etc''] Q} \<union>
       {([''tmp''] @ ''old'' # S, e) | S e. ([''etc''] @ S, e) \<in> fs_view s}"
    using M by auto
  have "([''etc''] @ [''motd''], File motd_text) \<in> fs_view s" by (simp add: s(3) initial_eval)
  then have "([''tmp'', ''old'', ''motd''], File motd_text) \<in> fs_view s'" unfolding s'(2) by auto
  moreover have "ramfs_move p p ''self'' s = ret (s, False)"
    using ramfs_move_refines [OF i p _ p x(2)] by simp
  ultimately show ?thesis using s(1) p np s'(1) by blast
qed

section \<open>Mounting, and the limits of writing\<close>

text \<open>
  \<^verbatim>\<open>ramfs_init\<close>, on a heap with 4 KiB of room, mounts a sound filesystem that holds exactly the
  root, its seven directories and the three preloaded files with their texts.
\<close>

theorem ramfs_init_establishes:
  assumes "nodes s = Map.empty" "has_room 4096 (heap s)"
  shows "\<exists>s'. ramfs_init s = ret s' \<and> ramfs_inv s' \<and>
    fs_view s' = {([], Dir), ([''bin''], Dir), ([''etc''], Dir), ([''home''], Dir), ([''home'', ''user''], Dir),
      ([''tmp''], Dir), ([''usr''], Dir), ([''var''], Dir), ([''etc'', ''motd''], File motd_text),
      ([''etc'', ''os-release''], File os_release_text), ([''README.txt''], File readme_text)}"
proof -
  have "heap_inv (heap s)" using assms(2) by (auto simp: has_room_def heap_inv_def)
  then obtain s' where "ramfs_init s = ret s'" "mounted initial_view 0 s'"
    using ramfs_init_mounts [OF assms(1) _ assms(2)] by auto
  moreover have "initial_view = {([], Dir), ([''bin''], Dir), ([''etc''], Dir), ([''home''], Dir), ([''home'', ''user''], Dir),
      ([''tmp''], Dir), ([''usr''], Dir), ([''var''], Dir), ([''etc'', ''motd''], File motd_text),
      ([''etc'', ''os-release''], File os_release_text), ([''README.txt''], File readme_text)}"
    by (auto simp: initial_view_def initial_dirs_def)
  ultimately show ?thesis by (simp add: mounted_def)
qed

theorem ramfs_init_establishes_witness:
  "\<exists>s. ramfs_init ramfs_boot = ret s \<and> ramfs_inv s \<and> ([''etc'', ''motd''], File motd_text) \<in> fs_view s"
proof -
  have "has_room 4096 (heap ramfs_boot)" by (rule has_room_mono [OF ramfs_boot_ready(3)]) simp
  from ramfs_init_establishes [OF ramfs_boot_ready(1) this] show ?thesis
    by (elim exE conjE, intro exI conjI) (assumption, assumption, simp only: insert_iff simp_thms)
qed

text \<open>
  C40. The loop of \<^verbatim>\<open>ramfs_write\<close> that doubles the capacity of a new file ends exactly when at most
  2 GiB are needed, with a capacity that is enough and less than twice what is needed (or the initial
  64); beyond that the doubled capacity wraps to 0 and the loop runs forever.
\<close>

theorem grow_capacity_terminates:
  "(if unat needed \<le> 2 ^ 31
    then \<exists>c. grow_capacity 64 needed = ret c \<and> needed \<le> c \<and> (unat c < 2 * unat needed \<or> c = 64)
    else grow_capacity 64 needed = None)"
proof (cases "unat needed \<le> 2 ^ 31")
  case True
  have "0 < unat (64 :: u32)" by simp
  then have "\<exists>c. grow_capacity 64 needed = ret c \<and> needed \<le> c \<and> (unat c < 2 * unat needed \<or> c = 64)"
    using grow_capacity_returns [OF _ True, of 64] unfolding word_le_nat_alt by blast
  then show ?thesis using True by (simp only: if_True)
next
  case False
  then have "grow_capacity 64 needed = None" by (intro grow_capacity_diverges) (simp only: not_le)
  then show ?thesis using False by (simp only: if_False)
qed

section \<open>Long names\<close>

lemma long_name_missing:
  assumes ok: "fs_ok K s" and "np \<in> dom (nodes s)" "RAMFS_NAME_MAX \<le> length x"
  shows "kid (nodes s) K np x = None"
proof (rule ccontr)
  have f: "forest (nodes s) {root s} K" using ok by (simp add: fs_ok_def)
  assume "kid (nodes s) K np x \<noteq> None"
  then obtain c where "(np, c) \<in> edges (nodes s)" "name_of (nodes s) c = x"
    using kid_Some [OF f assms(2), of x] by auto
  moreover obtain P where "named s P np" using node_path [OF ok assms(2)] .
  ultimately have "named s (P @ [x]) c" using at_snoc by blast
  then have "valid_name x" using valid_at [OF f] by simp
  then show False using assms(3) by (simp add: valid_name_def)
qed

text \<open>
  \<^verbatim>\<open>ramfs_move\<close> compares the whole new name with the names in the directory but stores only its
  first 31 characters: moving a node to a longer name beside an entry that already has the shortened
  name succeeds and leaves two different nodes at one path, so the filesystem is no longer sound.
\<close>

theorem ramfs_move_long_name_clashes:
  assumes inv: "ramfs_inv s" and P: "named s P p" "P \<noteq> []" and D: "named s D np" "(D, Dir) \<in> fs_view s" "\<not> prefix P D"
    and x: "NUL \<notin> set x" "32 \<le> length x" and q: "named s (D @ [take 31 x]) q" "\<not> prefix P (D @ [take 31 x])"
  shows "\<exists>s'. ramfs_move p np x s = ret (s', True) \<and> named s' (D @ [take 31 x]) p \<and> named s' (D @ [take 31 x]) q \<and>
    p \<noteq> q \<and> \<not> ramfs_inv s'"
proof -
  obtain K where ok: "fs_ok K s" using inv by (auto simp: ramfs_inv_def)
  have f: "forest (nodes s) {root s} K" using ok by (simp add: fs_ok_def)
  obtain m where m: "nodes s p = Some m" using at_dom(1) [OF ok P(1)] by blast
  have pr: "p \<noteq> root s" using at_cycle [OF f] P by blast
  have dir: "dir_at (nodes s) np" using dir_view [OF ok D(1)] D(2) by simp
  have out: "np \<notin> below (nodes s) p"
  proof
    assume "np \<in> below (nodes s) p"
    then obtain S where "named s (P @ S) np" using P(1) below_at at_append by blast
    then have "D = P @ S" by (rule at_injective [OF f D(1)])
    then show False using D(3) by simp
  qed
  obtain xs ys where C: "is_cut (nodes s) (root s) K p m xs ys" using cut_exists [OF f m pr] .
  have none: "kid (nodes s) K np x = None"
    by (rule long_name_missing [OF ok at_dom(1) [OF ok D(1)]]) (use x(2) in \<open>simp add: RAMFS_NAME_MAX_def\<close>)
  have short: "str_lcpy RAMFS_NAME_MAX x = take 31 x" by (simp add: str_lcpy_def RAMFS_NAME_MAX_def)
  let ?s = "s\<lparr>nodes := move_store xs p np (take 31 x) (nodes s)\<rparr>"
  have run: "ramfs_move p np x s = ret (?s, True)"
    using ramfs_move_run [OF ok C dir out x(1) none] short by simp
  obtain n where n: "nodes s np = Some n" using at_dom(1) [OF ok D(1)] by blast
  note A = move_store_at [OF C n out P(1) D(1), of "take 31 x"]
  have at_p: "named ?s (D @ [take 31 x]) p" using A P(1) by auto
  have at_q: "named ?s (D @ [take 31 x]) q" using A q by auto
  have ne: "p \<noteq> q" using at_injective [OF f P(1)] q by auto
  moreover have "\<not> ramfs_inv ?s"
  proof
    assume "ramfs_inv ?s"
    then obtain K' where "forest (nodes ?s) {root ?s} K'" by (auto simp: ramfs_inv_def fs_ok_def)
    then show False using at_functional [OF _ at_p at_q] ne by blast
  qed
  ultimately show ?thesis using run at_p at_q by blast
qed

theorem ramfs_move_long_name_clashes_witness:
  "\<exists>(s :: ramfs) p np s'. named s [''etc''] p \<and> named s [''tmp''] np \<and>
     ramfs_move p np (replicate 40 CHR ''a'') s = ret (s', True) \<and> \<not> ramfs_inv s'"
proof -
  obtain s0 where s0: "ramfs_init ramfs_boot = ret s0" "mounted initial_view 4000000 s0" by (rule booted)
  let ?a = "replicate 31 CHR ''a''"
  have comps: "components (''/tmp/'' @ ?a) = [''tmp'', ?a]" by (simp add: components_def numeral_eq_Suc)
  have va: "valid_name ?a" by (simp add: valid_name_def RAMFS_NAME_MAX_def numeral_eq_Suc)
  have cp: "create_path initial_view [] (components (''/tmp/'' @ ?a)) = Some [''tmp'', ?a]"
    using va unfolding comps by (simp add: create_path_def initial_view_def initial_dirs_def RAMFS_NAME_MAX_def numeral_eq_Suc)
  have nul: "NUL \<notin> set (''/tmp/'' @ ?a)" by simp
  obtain s :: ramfs and q where s: "named s [''tmp'', ?a] q" "mounted (insert ([''tmp'', ?a], File []) initial_view) 3999913 s"
    by (rule mounted_create [OF s0(2) nul cp, of RAMFS_FILE]) simp_all
  have dirs: "([''etc''], Dir) \<in> fs_view s" "([''tmp''], Dir) \<in> fs_view s" and inv: "ramfs_inv s"
    using s(2) by (simp_all add: mounted_def initial_view_def initial_dirs_def)
  then obtain p np where p: "named s [''etc''] p" and np: "named s [''tmp''] np" unfolding fs_view_iff by blast
  have "named s ([''tmp''] @ [take 31 (replicate 40 CHR ''a'')]) q" using s(1) by simp
  then show ?thesis
    using ramfs_move_long_name_clashes [OF inv p _ np dirs(2), of "replicate 40 CHR ''a''" q] p np by auto
qed

end
