(* ===== verification/Stubs.thy ===== *)
theory Stubs
  imports Panic
begin

text \<open>
  The interrupt entry stubs (kernel/isr.S) as straight-line programs of a small i386: general and
  segment registers, flags, and memory as 32-bit cells (the kernel stack is 16-byte aligned and every
  push is 32 bits wide, so cells never overlap). The processor's part of an interrupt, and what the C
  calling convention promises of the handler, are stated beside them.
\<close>

section \<open>The machine\<close>

record cpu =
  x_eax :: u32
  x_ecx :: u32
  x_edx :: u32
  x_ebx :: u32
  x_esp :: u32
  x_ebp :: u32
  x_esi :: u32
  x_edi :: u32
  x_eip :: u32
  x_eflags :: u32
  x_cs :: u16
  x_ds :: u16
  x_es :: u16
  x_fs :: u16
  x_gs :: u16
  x_mem :: "addr \<Rightarrow> u32"

definition push32 :: "u32 \<Rightarrow> 'a cpu_scheme \<Rightarrow> 'a cpu_scheme" where
  "push32 v c = c\<lparr>x_esp := x_esp c - 4, x_mem := (x_mem c)(x_esp c - 4 := v)\<rparr>"

text \<open>The carry, parity, adjust, zero, sign and overflow flags; an instruction leaves the others alone.\<close>

definition ARITH_FLAGS :: u32 where "ARITH_FLAGS = 0x8D5"

definition set_arith :: "u32 \<Rightarrow> cpu \<Rightarrow> cpu" where
  "set_arith f c = c\<lparr>x_eflags := (x_eflags c AND NOT ARITH_FLAGS) OR (f AND ARITH_FLAGS)\<rparr>"

definition set_ax :: "u16 \<Rightarrow> cpu \<Rightarrow> cpu" where
  "set_ax w c = c\<lparr>x_eax := (x_eax c AND 0xffff0000) OR ucast w\<rparr>"

datatype seg = DS | ES | FS | GS

fun set_seg :: "seg \<Rightarrow> u16 \<Rightarrow> cpu \<Rightarrow> cpu" where
  "set_seg DS w c = c\<lparr>x_ds := w\<rparr>"
| "set_seg ES w c = c\<lparr>x_es := w\<rparr>"
| "set_seg FS w c = c\<lparr>x_fs := w\<rparr>"
| "set_seg GS w c = c\<lparr>x_gs := w\<rparr>"

text \<open>The instructions isr.S uses. \<open>Call\<close> calls the C handler, a parameter of the machine.\<close>

datatype instr =
    Pushl u32 | Pusha | Xorl_eax_eax | Movw_ds_ax | Pushl_eax | Movw_ax u16 | Movw_ax_to seg
  | Pushl_esp | Call | Addl_esp u32 | Popl_eax | Popa | Iret

text \<open>
  \<open>h\<close> is the handler, from its entry to its \<^verbatim>\<open>ret\<close>; \<open>ra\<close> the return address of the call; \<open>alu\<close> the
  arithmetic flags the processor computes.
\<close>

fun exec1 :: "(cpu \<Rightarrow> cpu) \<Rightarrow> u32 \<Rightarrow> (cpu \<Rightarrow> u32) \<Rightarrow> instr \<Rightarrow> cpu \<Rightarrow> cpu" where
  "exec1 h ra alu (Pushl v) c = push32 v c"
| "exec1 h ra alu Pusha c =
     push32 (x_edi c) (push32 (x_esi c) (push32 (x_ebp c) (push32 (x_esp c)
       (push32 (x_ebx c) (push32 (x_edx c) (push32 (x_ecx c) (push32 (x_eax c) c)))))))"
| "exec1 h ra alu Xorl_eax_eax c = set_arith (alu c) (c\<lparr>x_eax := 0\<rparr>)"
| "exec1 h ra alu Movw_ds_ax c = set_ax (x_ds c) c"
| "exec1 h ra alu Pushl_eax c = push32 (x_eax c) c"
| "exec1 h ra alu (Movw_ax w) c = set_ax w c"
| "exec1 h ra alu (Movw_ax_to r) c = set_seg r (ucast (x_eax c)) c"
| "exec1 h ra alu Pushl_esp c = push32 (x_esp c) c"
| "exec1 h ra alu Call c =
     (let d = h (push32 ra c) in d\<lparr>x_eip := x_mem d (x_esp d), x_esp := x_esp d + 4\<rparr>)"
| "exec1 h ra alu (Addl_esp k) c = set_arith (alu c) (c\<lparr>x_esp := x_esp c + k\<rparr>)"
| "exec1 h ra alu Popl_eax c = c\<lparr>x_eax := x_mem c (x_esp c), x_esp := x_esp c + 4\<rparr>"
| "exec1 h ra alu Popa c =
     c\<lparr>x_edi := x_mem c (x_esp c), x_esi := x_mem c (x_esp c + 4), x_ebp := x_mem c (x_esp c + 8),
       x_ebx := x_mem c (x_esp c + 16), x_edx := x_mem c (x_esp c + 20), x_ecx := x_mem c (x_esp c + 24),
       x_eax := x_mem c (x_esp c + 28), x_esp := x_esp c + 32\<rparr>"
| "exec1 h ra alu Iret c =
     c\<lparr>x_eip := x_mem c (x_esp c), x_cs := ucast (x_mem c (x_esp c + 4)), x_eflags := x_mem c (x_esp c + 8),
       x_esp := x_esp c + 12\<rparr>"

primrec exec :: "(cpu \<Rightarrow> cpu) \<Rightarrow> u32 \<Rightarrow> (cpu \<Rightarrow> u32) \<Rightarrow> instr list \<Rightarrow> cpu \<Rightarrow> cpu" where
  "exec h ra alu [] c = c"
| "exec h ra alu (i # is) c = exec h ra alu is (exec1 h ra alu i c)"

lemma exec_append: "exec h ra alu (xs @ ys) c = exec h ra alu ys (exec h ra alu xs c)"
  by (induction xs arbitrary: c) simp_all

section \<open>The stubs\<close>

definition save_context :: "instr list" where
  "save_context = [Pusha, Xorl_eax_eax, Movw_ds_ax, Pushl_eax, Movw_ax 0x10,
     Movw_ax_to DS, Movw_ax_to ES, Movw_ax_to FS, Movw_ax_to GS, Pushl_esp]"

definition restore_context :: "instr list" where
  "restore_context = [Addl_esp 4, Popl_eax,
     Movw_ax_to DS, Movw_ax_to ES, Movw_ax_to FS, Movw_ax_to GS, Popa, Addl_esp 8, Iret]"

definition SAVE_AND_CALL :: "instr list" where
  "SAVE_AND_CALL = save_context @ [Call] @ restore_context"

definition ISR_NOERR :: "nat \<Rightarrow> instr list" where "ISR_NOERR n = [Pushl 0, Pushl (of_nat n)]"
definition ISR_ERR :: "nat \<Rightarrow> instr list" where "ISR_ERR n = [Pushl (of_nat n)]"
definition IRQ :: "nat \<Rightarrow> nat \<Rightarrow> instr list" where "IRQ num vector = [Pushl 0, Pushl (of_nat vector)]"

text \<open>What the stubs \<^verbatim>\<open>isr0\<close> to \<^verbatim>\<open>isr31\<close> and \<^verbatim>\<open>irq0\<close> to \<^verbatim>\<open>irq15\<close> push before they jump to the common part.\<close>

definition isr_stub :: "nat \<Rightarrow> instr list" where
  "isr_stub n = (if n \<in> {8, 10, 11, 12, 13, 14, 17, 21, 30} then ISR_ERR n else ISR_NOERR n)"

definition irq_stub :: "nat \<Rightarrow> instr list" where
  "irq_stub n = IRQ n (32 + n)"

section \<open>The processor and the C compiler\<close>

text \<open>
  Taking an interrupt in the kernel (no change of privilege, so no change of stack): flags, code
  segment and instruction pointer are pushed, then the error code of the vectors that have one, and
  control passes to the target of the gate. An interrupt gate clears the interrupt flag (bit 9), every
  gate the trap, resume and nested-task flags.
\<close>

definition deliver :: "idt_entry \<Rightarrow> u32 option \<Rightarrow> cpu \<Rightarrow> cpu" where
  "deliver g err c =
     (let c1 = push32 (x_eip c) (push32 (ucast (x_cs c)) (push32 (x_eflags c) c));
          c2 = (case err of None \<Rightarrow> c1 | Some e \<Rightarrow> push32 e c1)
      in c2\<lparr>x_eip := idt_target g, x_cs := selector g,
            x_eflags := x_eflags c AND NOT (if iflags g AND 0x0f = 0x0e then 0x14300 else 0x14100)\<rparr>)"

text \<open>The exceptions for which the processor pushes an error code.\<close>

definition pushes_error :: "nat \<Rightarrow> bool" where
  "pushes_error n \<longleftrightarrow> n \<in> {8, 10, 11, 12, 13, 14, 17, 21, 29, 30}"

text \<open>
  The calling convention for a function of one pointer argument that does not write through it: it
  keeps the callee-saved and segment registers and the stack pointer, and of the caller's frame it may
  use only the cell of its argument.
\<close>

definition cdecl :: "(cpu \<Rightarrow> cpu) \<Rightarrow> bool" where
  "cdecl h \<longleftrightarrow> (\<forall>c. x_esp (h c) = x_esp c \<and> x_ebp (h c) = x_ebp c \<and> x_ebx (h c) = x_ebx c \<and> x_esi (h c) = x_esi c \<and>
     x_edi (h c) = x_edi c \<and> x_ds (h c) = x_ds c \<and> x_es (h c) = x_es c \<and> x_fs (h c) = x_fs c \<and> x_gs (h c) = x_gs c \<and>
     (\<forall>k < 16. k \<noteq> 1 \<longrightarrow> x_mem (h c) (x_esp c + of_nat (4 * k)) = x_mem c (x_esp c + of_nat (4 * k))))"

text \<open>The structure of include/raptor/interrupts.h at address \<open>p\<close>.\<close>

definition registers_at :: "(addr \<Rightarrow> u32) \<Rightarrow> addr \<Rightarrow> registers" where
  "registers_at m p =
     \<lparr>r_ds = m p, r_edi = m (p + 4), r_esi = m (p + 8), r_ebp = m (p + 12), r_esp = m (p + 16),
      r_ebx = m (p + 20), r_edx = m (p + 24), r_ecx = m (p + 28), r_eax = m (p + 32),
      r_int_no = m (p + 36), r_err_code = m (p + 40), r_eip = m (p + 44), r_cs = m (p + 48),
      r_eflags = m (p + 52), r_useresp = m (p + 56), r_ss = m (p + 60)\<rparr>"

text \<open>The state in which a stub enters the handler, and the argument it passes.\<close>

definition handler_entry :: "u32 \<Rightarrow> (cpu \<Rightarrow> u32) \<Rightarrow> instr list \<Rightarrow> cpu \<Rightarrow> cpu" where
  "handler_entry ra alu stub c = push32 ra (exec id ra alu (stub @ save_context) c)"

definition handler_arg :: "cpu \<Rightarrow> registers" where
  "handler_arg e = registers_at (x_mem e) (x_mem e (x_esp e + 4))"

section \<open>The common part\<close>

lemma low_half: "(ucast ((v AND 0xffff0000) OR ucast w :: u32) :: u16) = w"
proof (rule bit_eqI)
  fix n assume "possible_bit TYPE(u16) n"
  then have n: "n < 16" by simp
  have "(0xffff0000 :: u32) = push_bit 16 (mask 16)" by (simp add: mask_numeral)
  then have "\<not> bit (0xffff0000 :: u32) n" using n by (simp only: bit_push_bit_iff) simp
  then show "bit (ucast ((v AND 0xffff0000) OR ucast w :: u32) :: u16) n = bit w n" using n by (simp add: bit_simps)
qed

lemma system_flags: "((a AND NOT F) OR (b AND F)) AND NOT F = a AND NOT F" for a b F :: u32
  by (rule bit_eqI) (auto simp: bit_simps)

lemmas exec_simps = push32_def set_arith_def set_ax_def low_half low_half [of _ 16, simplified] low_half [of 0, simplified] system_flags

text \<open>What the handler is given: the registers of the interrupted code and what the stub pushed.\<close>

lemma common_saves:
  assumes e_def: "e = push32 ra (exec id ra alu save_context c)"
  shows "handler_arg e =
     \<lparr>r_ds = ucast (x_ds c), r_edi = x_edi c, r_esi = x_esi c, r_ebp = x_ebp c, r_esp = x_esp c,
      r_ebx = x_ebx c, r_edx = x_edx c, r_ecx = x_ecx c, r_eax = x_eax c,
      r_int_no = x_mem c (x_esp c), r_err_code = x_mem c (x_esp c + 4), r_eip = x_mem c (x_esp c + 8),
      r_cs = x_mem c (x_esp c + 12), r_eflags = x_mem c (x_esp c + 16), r_useresp = x_mem c (x_esp c + 20),
      r_ss = x_mem c (x_esp c + 24)\<rparr>"
    and "x_ds e = 0x10" "x_es e = 0x10" "x_fs e = 0x10" "x_gs e = 0x10"
    and "x_eflags e AND NOT ARITH_FLAGS = x_eflags c AND NOT ARITH_FLAGS"
  unfolding e_def
  by (simp_all add: save_context_def handler_arg_def registers_at_def exec_simps) (simp add: add.commute)

text \<open>The stack cells the handler must leave alone.\<close>

lemma cdeclD:
  assumes "cdecl h"
  shows "x_esp (h e) = x_esp e" "k < 16 \<Longrightarrow> k \<noteq> 1 \<Longrightarrow> x_mem (h e) (x_esp e + of_nat (4 * k)) = x_mem e (x_esp e + of_nat (4 * k))"
  using assms unfolding cdecl_def by blast+

lemma frame_kept:
  assumes "cdecl h"
  shows "x_mem (h e) (x_esp e + 8) = x_mem e (x_esp e + 8)" "x_mem (h e) (x_esp e + 12) = x_mem e (x_esp e + 12)"
    "x_mem (h e) (x_esp e + 16) = x_mem e (x_esp e + 16)" "x_mem (h e) (x_esp e + 20) = x_mem e (x_esp e + 20)"
    "x_mem (h e) (x_esp e + 24) = x_mem e (x_esp e + 24)" "x_mem (h e) (x_esp e + 28) = x_mem e (x_esp e + 28)"
    "x_mem (h e) (x_esp e + 32) = x_mem e (x_esp e + 32)" "x_mem (h e) (x_esp e + 36) = x_mem e (x_esp e + 36)"
    "x_mem (h e) (x_esp e + 40) = x_mem e (x_esp e + 40)" "x_mem (h e) (x_esp e + 52) = x_mem e (x_esp e + 52)"
    "x_mem (h e) (x_esp e + 56) = x_mem e (x_esp e + 56)" "x_mem (h e) (x_esp e + 60) = x_mem e (x_esp e + 60)"
  using cdeclD(2) [OF assms, of 2] cdeclD(2) [OF assms, of 3] cdeclD(2) [OF assms, of 4] cdeclD(2) [OF assms, of 5]
    cdeclD(2) [OF assms, of 6] cdeclD(2) [OF assms, of 7] cdeclD(2) [OF assms, of 8] cdeclD(2) [OF assms, of 9]
    cdeclD(2) [OF assms, of 10] cdeclD(2) [OF assms, of 13] cdeclD(2) [OF assms, of 14] cdeclD(2) [OF assms, of 15]
  by simp_all

text \<open>What the code after the call makes of the cells it finds.\<close>

lemma restore_reads:
  assumes r_def: "r = exec h ra alu restore_context d"
  shows "x_edi r = x_mem d (x_esp d + 8)" "x_esi r = x_mem d (x_esp d + 12)" "x_ebp r = x_mem d (x_esp d + 16)"
    "x_ebx r = x_mem d (x_esp d + 24)" "x_edx r = x_mem d (x_esp d + 28)" "x_ecx r = x_mem d (x_esp d + 32)"
    "x_eax r = x_mem d (x_esp d + 36)" "x_eip r = x_mem d (x_esp d + 48)" "x_cs r = ucast (x_mem d (x_esp d + 52))"
    "x_eflags r = x_mem d (x_esp d + 56)" "x_esp r = x_esp d + 60"
    "x_ds r = ucast (x_mem d (x_esp d + 4))" "x_es r = x_ds r" "x_fs r = x_ds r" "x_gs r = x_ds r"
  unfolding r_def by (simp_all add: restore_context_def exec_simps) (simp_all add: add.commute)

lemma save_calls_nothing: "exec h ra alu save_context c = exec id ra alu save_context c"
  by (simp add: save_context_def)

text \<open>Returning: everything is as it was, except that all data segments get the interrupted \<^verbatim>\<open>ds\<close>.\<close>

definition same_context :: "cpu \<Rightarrow> cpu \<Rightarrow> bool" where
  "same_context c d \<longleftrightarrow> x_eax d = x_eax c \<and> x_ecx d = x_ecx c \<and> x_edx d = x_edx c \<and> x_ebx d = x_ebx c \<and> x_ebp d = x_ebp c \<and>
     x_esi d = x_esi c \<and> x_edi d = x_edi c \<and> x_ds d = x_ds c \<and> x_es d = x_ds c \<and> x_fs d = x_ds c \<and> x_gs d = x_ds c"

lemma common_restores:
  assumes h: "cdecl h" and r_def: "r = exec h ra alu SAVE_AND_CALL c"
  shows "same_context c r" "x_esp r = x_esp c + 20" "x_eip r = x_mem c (x_esp c + 8)"
    "x_cs r = ucast (x_mem c (x_esp c + 12))" "x_eflags r = x_mem c (x_esp c + 16)"
proof -
  define e where "e = push32 ra (exec id ra alu save_context c)"
  define d where "d = (h e)\<lparr>x_eip := x_mem (h e) (x_esp (h e)), x_esp := x_esp (h e) + 4\<rparr>"
  have r: "r = exec h ra alu restore_context d"
    by (simp add: r_def SAVE_AND_CALL_def exec_append save_calls_nothing [of h] Let_def d_def e_def)
  have d: "x_mem d = x_mem (h e)" "x_esp d = x_esp e + 4" using cdeclD(1) [OF h] by (simp_all add: d_def)
  note R = restore_reads [OF r, unfolded d, simplified add.assoc, simplified] and F = frame_kept [OF h, of e]
  show "same_context c r" "x_esp r = x_esp c + 20" "x_eip r = x_mem c (x_esp c + 8)"
    "x_cs r = ucast (x_mem c (x_esp c + 12))" "x_eflags r = x_mem c (x_esp c + 16)"
    unfolding same_context_def R F
    by (simp_all add: e_def save_context_def exec_simps) (simp_all add: add.commute)
qed

section \<open>From the gate to the handler and back\<close>

text \<open>What the frame must tell the handler about the interrupted code \<open>c\<close>.\<close>

definition saw :: "cpu \<Rightarrow> nat \<Rightarrow> u32 \<Rightarrow> registers \<Rightarrow> bool" where
  "saw c n err f \<longleftrightarrow> r_int_no f = of_nat n \<and> r_err_code f = err \<and> r_eip f = x_eip c \<and> r_cs f = ucast (x_cs c) \<and>
     r_eflags f = x_eflags c \<and> r_ds f = ucast (x_ds c) \<and> r_eax f = x_eax c \<and> r_ebx f = x_ebx c \<and> r_ecx f = x_ecx c \<and>
     r_edx f = x_edx c \<and> r_esi f = x_esi c \<and> r_edi f = x_edi c \<and> r_ebp f = x_ebp c"

text \<open>The state at the common part: an error code and a vector on top of what the processor pushed.\<close>

definition stacked :: "idt_entry \<Rightarrow> nat \<Rightarrow> u32 \<Rightarrow> cpu \<Rightarrow> cpu" where
  "stacked g n err c = push32 (of_nat n) (push32 err (deliver g None c))"

lemma stubs_stack:
  "exec h ra alu (irq_stub n) (deliver g None c) = stacked g (32 + n) 0 c"
  "\<not> pushes_error n \<Longrightarrow> exec h ra alu (isr_stub n) (deliver g None c) = stacked g n 0 c"
  "pushes_error n \<Longrightarrow> n \<noteq> 29 \<Longrightarrow> exec h ra alu (isr_stub n) (deliver g (Some err) c) = stacked g n err c"
proof -
  show "exec h ra alu (irq_stub n) (deliver g None c) = stacked g (32 + n) 0 c"
    by (simp add: irq_stub_def IRQ_def stacked_def)
  show "exec h ra alu (isr_stub n) (deliver g None c) = stacked g n 0 c" if "\<not> pushes_error n"
    using that by (auto simp: isr_stub_def ISR_NOERR_def stacked_def pushes_error_def)
  have swap: "deliver g (Some err) c = push32 err (deliver g None c)" by (simp add: deliver_def push32_def Let_def)
  show "exec h ra alu (isr_stub n) (deliver g (Some err) c) = stacked g n err c" if "pushes_error n" "n \<noteq> 29"
    using that unfolding swap by (auto simp: isr_stub_def ISR_ERR_def stacked_def pushes_error_def)
qed

lemma stacked_cells:
  assumes "gate_ok g target" and p_def: "p = stacked g n err c"
  shows "x_mem p (x_esp p) = of_nat n" "x_mem p (x_esp p + 4) = err" "x_mem p (x_esp p + 8) = x_eip c"
    "x_mem p (x_esp p + 12) = ucast (x_cs c)" "x_mem p (x_esp p + 16) = x_eflags c" "x_esp p + 20 = x_esp c"
    "\<not> bit (x_eflags p) 9" "x_eax p = x_eax c" "x_ebx p = x_ebx c" "x_ecx p = x_ecx c" "x_edx p = x_edx c"
    "x_esi p = x_esi c" "x_edi p = x_edi c" "x_ebp p = x_ebp c" "x_ds p = x_ds c"
  using assms(1) unfolding p_def
  by (simp_all add: stacked_def deliver_def push32_def gate_ok_def Let_def bit_simps)

text \<open>
  What holds of every interrupt whose stub stacks its vector and error code: the handler sees the
  interrupted code, runs with interrupts off and the kernel's data segments, and its return resumes
  that code.
\<close>

definition transparent :: "(cpu \<Rightarrow> cpu) \<Rightarrow> u32 \<Rightarrow> (cpu \<Rightarrow> u32) \<Rightarrow> instr list \<Rightarrow> nat \<Rightarrow> u32 \<Rightarrow> cpu \<Rightarrow> cpu \<Rightarrow> bool" where
  "transparent h ra alu stub n err c c1 \<longleftrightarrow>
     (let e = handler_entry ra alu stub c1; r = exec h ra alu (stub @ SAVE_AND_CALL) c1 in
      saw c n err (handler_arg e) \<and> \<not> bit (x_eflags e) 9 \<and>
      x_ds e = 0x10 \<and> x_es e = 0x10 \<and> x_fs e = 0x10 \<and> x_gs e = 0x10 \<and>
      same_context c r \<and> x_esp r = x_esp c \<and> x_eip r = x_eip c \<and> x_cs r = x_cs c \<and> x_eflags r = x_eflags c)"

lemma stacked_transparent:
  assumes g: "gate_ok g target" and h: "cdecl h"
    and p: "exec id ra alu stub c1 = stacked g n err c" "exec h ra alu stub c1 = stacked g n err c"
  shows "transparent h ra alu stub n err c c1"
proof -
  let ?p = "stacked g n err c"
  let ?e = "push32 ra (exec id ra alu save_context ?p)"
  note C = stacked_cells [where n = n and err = err and c = c, OF g refl] and S = common_saves [where ra = ra and alu = alu and c = ?p, OF refl]
    and R = common_restores [where ra = ra and alu = alu and c = ?p, OF h refl]
  have e: "handler_entry ra alu stub c1 = ?e" by (simp add: handler_entry_def exec_append p(1))
  have r: "exec h ra alu (stub @ SAVE_AND_CALL) c1 = exec h ra alu SAVE_AND_CALL ?p" by (simp add: exec_append p(2))
  have "saw c n err (handler_arg ?e)" unfolding saw_def S(1) by (simp add: C)
  moreover have "\<not> bit (x_eflags ?e) 9"
  proof -
    have "bit (x_eflags ?e AND NOT ARITH_FLAGS) 9 = bit (x_eflags ?p AND NOT ARITH_FLAGS) 9" unfolding S(6) ..
    then show ?thesis using C(7) by (simp add: bit_simps ARITH_FLAGS_def)
  qed
  moreover have "same_context c (exec h ra alu SAVE_AND_CALL ?p)" using R(1) unfolding same_context_def C by blast
  ultimately show ?thesis
    unfolding transparent_def Let_def e r using S(2-5) R(2-5) C(3-6) by (simp add: low_half [of 0, simplified])
qed

section \<open>Properties\<close>


text \<open>A handler that does nothing obeys the calling convention.\<close>

lemma cdecl_id: "cdecl id"
  by (simp add: cdecl_def)


text \<open>
  C21. Exceptions reach \<^verbatim>\<open>isr_handler\<close> with the right frame: for every vector below 32 except 29, whether the
  processor pushes an error code or not, the structure the handler gets names the vector, the processor's
  error code (0 if it has none) and the faulting code's registers and instruction pointer.
\<close>

theorem isr_stub_frame:
  assumes "n < 32" "n \<noteq> 29" "cdecl h"
  shows "let c1 = deliver (idt (idt_init a isr irq s) n) (if pushes_error n then Some err else None) c in
    x_eip c1 = isr n \<and> transparent h ra alu (isr_stub n) n (if pushes_error n then err else 0) c c1"
proof -
  let ?g = "idt (idt_init a isr irq s) n"
  have g: "gate_ok ?g (isr n)" by (rule idt_init_gate(1) [OF assms(1)])
  have eip: "x_eip (deliver ?g er c) = isr n" for er using g by (simp add: deliver_def gate_ok_def Let_def)
  show ?thesis
  proof (cases "pushes_error n")
    case True
    note st = stubs_stack(3) [OF True assms(2)]
    show ?thesis using stacked_transparent [OF g assms(3) st st] eip True by (simp only: Let_def if_True simp_thms)
  next
    case False
    note st = stubs_stack(2) [OF False]
    show ?thesis using stacked_transparent [OF g assms(3) st st] eip False by (simp only: Let_def if_False simp_thms)
  qed
qed

theorem isr_stub_frame_witness:
  "\<forall>c ra alu. let c1 = deliver (idt (idt_init 0xC0107000 (\<lambda>n. 0xC0100000 + of_nat n) (\<lambda>_. 0) (irq_boot (\<lambda>_. 0) (\<lambda>_. None))) 14) (Some 2) c in
    x_eip c1 = 0xC010000E \<and> transparent id ra alu (isr_stub 14) 14 2 c c1"
  using isr_stub_frame [of 14 id "0xC0107000" "\<lambda>n. 0xC0100000 + of_nat n" "\<lambda>_. 0" "irq_boot (\<lambda>_. 0) (\<lambda>_. None)" 2] cdecl_id
  by (simp add: pushes_error_def)

text \<open>
  Vector 29 (VMM communication) has an error code too, but its stub pushes another one: the handler takes
  the processor's error code for the faulting instruction pointer.
\<close>

theorem isr29_frame_shifted:
  "let f = handler_arg (handler_entry ra alu (isr_stub 29) (deliver (idt (idt_init a isr irq s) 29) (Some err) c)) in
    r_int_no f = 29 \<and> r_err_code f = 0 \<and> r_eip f = err \<and> r_cs f = x_eip c"
proof -
  let ?g = "idt (idt_init a isr irq s) 29"
  have "exec id ra alu (isr_stub 29) (deliver ?g (Some err) c) = push32 29 (push32 0 (deliver ?g (Some err) c))"
    by (simp add: isr_stub_def ISR_NOERR_def)
  then show ?thesis
    unfolding Let_def handler_entry_def exec_append by (simp add: common_saves(1) [OF refl]) (simp add: push32_def deliver_def Let_def)
qed

end
