(* ===== verification/Entry.thy ===== *)
theory Entry
  imports Stubs Boot
begin

text \<open>
  The entry code of boot/boot.S: the Multiboot header, the page directory built with paging off, the
  jump to the higher half, and the call of \<^verbatim>\<open>kmain\<close>. Memory is physical; once paging is on, a push
  goes through the directory that CR3 points to, and faults when the stack is not mapped. The
  addresses of labels are parameters, as the linker fixes them.
\<close>

section \<open>The Multiboot header\<close>

definition MB_ALIGN :: u32 where "MB_ALIGN = push_bit 0 1"
definition MB_MEMINFO :: u32 where "MB_MEMINFO = push_bit 1 1"
definition MB_FLAGS :: u32 where "MB_FLAGS = MB_ALIGN OR MB_MEMINFO"
definition MB_MAGIC :: u32 where "MB_MAGIC = 0x1BADB002"
definition MB_CHECKSUM :: u32 where "MB_CHECKSUM = - (MB_MAGIC + MB_FLAGS)"

text \<open>The loader accepts a header whose three words have the magic first and sum to zero.\<close>

lemma multiboot_header_valid: "MB_MAGIC = 0x1BADB002" "MB_MAGIC + MB_FLAGS + MB_CHECKSUM = 0" "bit MB_FLAGS 1"
  by (simp_all add: MB_MAGIC_def MB_CHECKSUM_def MB_FLAGS_def MB_ALIGN_def MB_MEMINFO_def)

section \<open>Before paging\<close>

record boot_cpu = cpu +
  x_cr0 :: u32
  x_cr3 :: u32
  x_cr4 :: u32

record labels =
  l_boot_page_directory :: addr
  l_higher_half :: addr
  l_stack_top :: addr
  l_kmain :: addr
  l_park :: addr

text \<open>The loop at label 1, which runs at least once.\<close>

function boot_pde_loop :: "u32 \<Rightarrow> addr \<Rightarrow> (addr \<Rightarrow> u32) \<Rightarrow> addr \<Rightarrow> u32" where
  "boot_pde_loop ecx edi m =
     (let eax = push_bit 22 ecx OR 0x83;
          m = m(edi + 3072 + 4 * ecx := eax);
          ecx = ecx + 1
      in if ecx < 256 then boot_pde_loop ecx edi m else m)"
  by pat_completeness auto
termination
proof (relation "measure (\<lambda>(ecx, _, _). if ecx = - 1 then 257 else 256 - unat ecx)")
  fix ecx edi :: u32 and m m' :: "addr \<Rightarrow> u32" and x xa xb
  assume "xb = ecx + 1" "xb < (256 :: u32)"
  then have lt: "ecx + 1 < 256" by simp
  show "((xb, edi, xa), ecx, edi, m) \<in> measure (\<lambda>(ecx, _, _). if ecx = - 1 then 257 else 256 - unat ecx)"
  proof (cases "ecx = - 1")
    case True
    then show ?thesis using \<open>xb = ecx + 1\<close> by simp
  next
    case False
    then have "unat (ecx + 1) = unat ecx + 1" using unat_add_offset [of ecx 1] unat_u32_lt [of ecx]
      by (metis Suc_eq_plus1 add.commute add.right_neutral unatSuc add_eq_0_iff)
    moreover have "ecx + 1 \<noteq> - 1"
    proof
      assume eq: "ecx + 1 = - 1"
      show False using lt unfolding eq by simp
    qed
    ultimately show ?thesis using lt False \<open>xb = ecx + 1\<close> by (simp add: word_less_nat_alt)
  qed
qed simp

declare boot_pde_loop.simps [simp del]

definition boot_start :: "labels \<Rightarrow> boot_cpu \<Rightarrow> boot_cpu" where
  "boot_start l c =
     (let c = c\<lparr>x_esi := x_eax c\<rparr>;
          c = c\<lparr>x_edi := l_boot_page_directory l\<rparr>;
          c = c\<lparr>x_mem := (x_mem c)(x_edi c := 0x83)\<rparr>;
          c = c\<lparr>x_mem := boot_pde_loop 0 (x_edi c) (x_mem c), x_ecx := 256\<rparr>;
          c = c\<lparr>x_cr3 := x_edi c\<rparr>;
          c = c\<lparr>x_cr4 := x_cr4 c OR 0x10\<rparr>;
          c = c\<lparr>x_cr0 := x_cr0 c OR 0x80000000\<rparr>;
          c = c\<lparr>x_eax := l_higher_half l\<rparr>
      in c\<lparr>x_eip := x_eax c\<rparr>)"

section \<open>With paging on\<close>

text \<open>The directory CR3 points to, and what an address means to the processor.\<close>

definition directory :: "boot_cpu \<Rightarrow> u32 \<Rightarrow> u32" where
  "directory c i = x_mem c (x_cr3 c + 4 * i)"

definition physical :: "boot_cpu \<Rightarrow> addr \<Rightarrow> addr option" where
  "physical c va = (if bit (x_cr0 c) 31 then translate (directory c) va else Some va)"

definition pushl :: "u32 \<Rightarrow> boot_cpu \<Rightarrow> boot_cpu run" where
  "pushl v c = (case physical c (x_esp c - 4) of
      None \<Rightarrow> fault_run
    | Some pa \<Rightarrow> ret (c\<lparr>x_esp := x_esp c - 4, x_mem := (x_mem c)(pa := v)\<rparr>))"

definition higher_half :: "labels \<Rightarrow> boot_cpu \<Rightarrow> boot_cpu run" where
  "higher_half l c =
     (let c = c\<lparr>x_esp := l_stack_top l\<rparr>;
          c = c\<lparr>x_ebp := 0\<rparr>;
          c = c\<lparr>x_ebx := x_ebx c + KERNEL_VBASE\<rparr>
      in run_bind (pushl (x_ebx c) c) (\<lambda>c.
         run_bind (pushl (x_esi c) c) (\<lambda>c.
         run_bind (pushl (l_park l) c) (\<lambda>c. ret (c\<lparr>x_eip := l_kmain l\<rparr>)))))"

definition boot_entry :: "labels \<Rightarrow> boot_cpu \<Rightarrow> boot_cpu run" where
  "boot_entry l c = higher_half l (boot_start l c)"

section \<open>The boot directory\<close>

lemma entry_value: "push_bit 22 i OR 0x83 = pde i"
  by (simp add: pde_def PDE_PRESENT_def PDE_WRITE_def PDE_LARGE_def or.assoc)

lemma unat_times4: "unat j < 1024 \<Longrightarrow> unat (4 * j) = 4 * unat j" for j :: u32
  by (subst unat_mult_lem [THEN iffD1]) simp_all

lemma entry_cell:
  fixes i j :: u32
  assumes "unat j < 1024" "unat i < 256"
  shows "edi + 4 * j = edi + 3072 + 4 * i \<longleftrightarrow> unat j = 768 + unat i"
proof -
  have "unat (3072 + 4 * i) = 3072 + 4 * unat i"
    using unat_add_offset [of "4 * i" 3072] unat_times4 [of i] assms(2) by (simp add: add.commute)
  then have "4 * j = 3072 + 4 * i \<longleftrightarrow> unat j = 768 + unat i"
    unfolding u32_eq_iff using unat_times4 [OF assms(1)] by arith
  then show ?thesis by (simp add: add.assoc)
qed

text \<open>What the loop leaves in the directory, and that it writes nowhere else.\<close>

lemma boot_pde_loop_spec:
  assumes "unat ecx < 256"
  shows "(unat j < 1024 \<longrightarrow> boot_pde_loop ecx edi m (edi + 4 * j) =
      (if 768 + unat ecx \<le> unat j then pde (j - 768) else m (edi + 4 * j))) \<and>
    (4096 \<le> unat (a - edi) \<longrightarrow> boot_pde_loop ecx edi m a = m a)"
  using assms
proof (induction ecx edi m rule: boot_pde_loop.induct)
  case (1 ecx edi m)
  let ?m = "m(edi + 3072 + 4 * ecx := pde ecx)"
  have un: "unat (ecx + 1) = unat ecx + 1" using 1(2) unat_add_offset [of ecx 1] by simp
  have unf: "boot_pde_loop ecx edi m = (if ecx + 1 < 256 then boot_pde_loop (ecx + 1) edi ?m else ?m)"
    by (subst boot_pde_loop.simps) (simp only: Let_def entry_value)
  have IH: "(unat j < 1024 \<longrightarrow> boot_pde_loop (ecx + 1) edi ?m (edi + 4 * j) =
        (if 768 + unat (ecx + 1) \<le> unat j then pde (j - 768) else ?m (edi + 4 * j))) \<and>
      (4096 \<le> unat (a - edi) \<longrightarrow> boot_pde_loop (ecx + 1) edi ?m a = ?m a)" if lt: "ecx + 1 < 256"
  proof -
    have "unat (ecx + 1) < 256" using lt by (simp add: word_less_nat_alt)
    then show ?thesis by (rule 1(1) [OF refl refl refl lt, unfolded entry_value])
  qed
  have here: "?m (edi + 4 * j) = (if unat j = 768 + unat ecx then pde (j - 768) else m (edi + 4 * j))" if j: "unat j < 1024"
  proof -
    have "j - 768 = ecx" if "unat j = 768 + unat ecx"
      using that j by (simp add: u32_eq_iff unat_sub word_le_nat_alt)
    then show ?thesis using entry_cell [OF j 1(2), of edi] by simp
  qed
  have "unat (3072 + 4 * ecx) < 4096"
    using unat_add_offset [of "4 * ecx" 3072] unat_times4 [of ecx] 1(2) by (simp add: add.commute)
  then have out: "?m a = m a" if "4096 \<le> unat (a - edi)" using that by (auto simp: add.assoc)
  have last: "unat ecx = 255" if "\<not> ecx + 1 < 256" using that un 1(2) by (simp add: word_less_nat_alt)
  show ?case unfolding unf
  proof (intro conjI impI)
    assume j: "unat j < 1024"
    show "(if ecx + 1 < 256 then boot_pde_loop (ecx + 1) edi ?m else ?m) (edi + 4 * j) =
        (if 768 + unat ecx \<le> unat j then pde (j - 768) else m (edi + 4 * j))"
    proof (cases "ecx + 1 < 256")
      case True
      then show ?thesis
        unfolding if_P [OF True] IH [OF True, THEN conjunct1, THEN mp, OF j] here [OF j] un by auto
    next
      case False
      show ?thesis unfolding if_not_P [OF False] here [OF j] last [OF False] using j by auto
    qed
  next
    assume a: "4096 \<le> unat (a - edi)"
    then show "(if ecx + 1 < 256 then boot_pde_loop (ecx + 1) edi ?m else ?m) a = m a" using IH out by auto
  qed
qed

definition boot_entry_at :: "u32 \<Rightarrow> u32" where
  "boot_entry_at j = (if j = 0 then 0x83 else if 768 \<le> unat j then pde (j - 768) else 0)"

text \<open>The two views the directory gives: the first 4 MiB in place, and physical memory at 3 GiB.\<close>

definition boot_view :: "addr \<Rightarrow> addr option" where
  "boot_view va = (if unat va < 2 ^ 22 then Some va else if KERNEL_VBASE \<le> va then Some (V2P va) else None)"

lemma boot_translates:
  assumes d: "\<And>j. unat j < 1024 \<Longrightarrow> d j = boot_entry_at j"
  shows "translate d va = boot_view va"
proof -
  let ?i = "drop_bit 22 va"
  have i: "unat ?i < 1024" using unat_u32_lt [of va] by (simp add: unat_drop22 div_less_iff_less_mult)
  show ?thesis
  proof (cases "unat va < 2 ^ 22")
    case True
    then have "?i = 0" by (simp add: u32_eq_iff unat_drop22)
    then have "d ?i = pde 0" using d [OF i] entry_value [of 0] by (simp add: boot_entry_at_def)
    moreover have "pde 0 AND NOT (mask 22) = 0"
      by (rule bit_eqI) (auto simp: bit_and_iff bit_not_iff pde_bits bit_mask_iff)
    moreover have "va AND mask 22 = va" using True by (simp add: take_bit_eq_mask [symmetric] word_unat_eq_iff unsigned_take_bit_eq take_bit_nat_eq_self)
    ultimately show ?thesis using True by (simp add: translate_def pde_bits boot_view_def)
  next
    case False
    then have nz: "?i \<noteq> 0" by (simp add: u32_eq_iff unat_drop22 div_eq_0_iff)
    show ?thesis
    proof (cases "KERNEL_VBASE \<le> va")
      case True
      then have ge: "768 \<le> unat ?i" using below_window [of va] by (simp add: not_less [symmetric])
      then have "translate d va = Some (V2P va)" using d [OF i] nz by (intro translate_pde) (simp_all add: KERNEL_PDE_val boot_entry_at_def)
      then show ?thesis using True False by (simp add: boot_view_def)
    next
      case no: False
      then have "\<not> 768 \<le> unat ?i" using below_window [of va] by (simp only: not_le)
      then have "d ?i = 0" using d [OF i] nz by (simp add: boot_entry_at_def)
      then show ?thesis using False no by (simp add: translate_def boot_view_def)
    qed
  qed
qed

text \<open>
  What the linker promises: the directory starts zeroed, the stack lies in the higher half with room
  for the three words, and those words are not part of the directory.
\<close>

definition layout_ok :: "labels \<Rightarrow> boot_cpu \<Rightarrow> bool" where
  "layout_ok l c \<longleftrightarrow>
     (\<forall>j. unat j < 1024 \<longrightarrow> x_mem c (l_boot_page_directory l + 4 * j) = 0) \<and>
     unat KERNEL_VBASE + 12 \<le> unat (l_stack_top l) \<and>
     (\<forall>k \<in> {4, 8, 12}. 4096 \<le> unat (V2P (l_stack_top l - k) - l_boot_page_directory l))"

lemma start_directory:
  assumes "layout_ok l c" "unat j < 1024"
  shows "directory (boot_start l c) j = boot_entry_at j"
proof -
  let ?pd = "l_boot_page_directory l"
  have "4 * j = 0 \<longleftrightarrow> j = 0" using unat_times4 [OF assms(2)] by (simp add: u32_eq_iff)
  then have "?pd + 4 * j = ?pd \<longleftrightarrow> j = 0" by simp
  then have "((x_mem c)(?pd := 0x83)) (?pd + 4 * j) = (if j = 0 then 0x83 else 0)"
    using assms by (simp add: layout_ok_def)
  moreover have "boot_pde_loop 0 ?pd ((x_mem c)(?pd := 0x83)) (?pd + 4 * j) =
      (if 768 \<le> unat j then pde (j - 768) else ((x_mem c)(?pd := 0x83)) (?pd + 4 * j))"
    using boot_pde_loop_spec [of 0 j ?pd "(x_mem c)(?pd := 0x83)"] assms(2) by simp
  ultimately show ?thesis by (auto simp: directory_def boot_start_def Let_def boot_entry_at_def)
qed

section \<open>Pushing in the higher half\<close>

text \<open>The state of a processor that runs in the higher half on the boot directory.\<close>

definition windowed :: "labels \<Rightarrow> boot_cpu \<Rightarrow> bool" where
  "windowed l c \<longleftrightarrow> bit (x_cr0 c) 31 \<and> x_cr3 c = l_boot_page_directory l \<and>
     (\<forall>j. unat j < 1024 \<longrightarrow> directory c j = boot_entry_at j)"

lemma windowed_view: "windowed l c \<Longrightarrow> physical c va = boot_view va"
  by (simp add: windowed_def physical_def boot_translates)

lemma windowed_same:
  "windowed l c \<Longrightarrow> x_cr0 d = x_cr0 c \<Longrightarrow> x_cr3 d = x_cr3 c \<Longrightarrow> x_mem d = x_mem c \<Longrightarrow> windowed l d"
  unfolding windowed_def directory_def by metis

lemma windowed_store:
  assumes "windowed l c" "4096 \<le> unat (pa - l_boot_page_directory l)"
  shows "windowed l (c\<lparr>x_mem := (x_mem c)(pa := v)\<rparr>)"
proof -
  have "l_boot_page_directory l + 4 * j \<noteq> pa" if "unat j < 1024" for j
    using assms(2) unat_times4 [OF that] that by auto
  then show ?thesis using assms(1) unfolding windowed_def directory_def by (elim conjE) simp
qed

lemma windowed_push:
  assumes w: "windowed l c" and e: "KERNEL_VBASE \<le> x_esp c - 4" "4096 \<le> unat (V2P (x_esp c - 4) - l_boot_page_directory l)"
  obtains c' where "pushl v c = ret c'" "windowed l c'" "c' = c\<lparr>x_esp := x_esp c - 4, x_mem := (x_mem c)(V2P (x_esp c - 4) := v)\<rparr>"
proof -
  have "\<not> unat (x_esp c - 4) < 2 ^ 22" using e(1) by (simp add: word_le_nat_alt KERNEL_VBASE_def)
  then have p: "physical c (x_esp c - 4) = Some (V2P (x_esp c - 4))" using e(1) by (simp add: windowed_view [OF w] boot_view_def)
  let ?c = "c\<lparr>x_esp := x_esp c - 4, x_mem := (x_mem c)(V2P (x_esp c - 4) := v)\<rparr>"
  have "windowed l ?c" by (rule windowed_same [OF windowed_store [OF w e(2), of v]]) simp_all
  then show thesis using that [of ?c] p by (simp add: pushl_def)
qed

lemma start_windowed:
  assumes "layout_ok l c"
  shows "windowed l (boot_start l c)"
proof -
  have "bit (x_cr0 (boot_start l c)) 31" "x_cr3 (boot_start l c) = l_boot_page_directory l"
    by (simp_all add: boot_start_def Let_def bit_or_iff) 
  then show ?thesis using start_directory [OF assms] by (simp add: windowed_def)
qed

lemma boot_entry_runs:
  assumes l: "layout_ok l c"
  obtains r where "boot_entry l c = ret r" "windowed l r" "x_eip r = l_kmain l" "x_ebp r = 0" "bit (x_cr4 r) 4"
    "x_esp r = l_stack_top l - 12" "x_mem r (V2P (x_esp r + 4)) = x_eax c" "x_mem r (V2P (x_esp r + 8)) = x_ebx c + KERNEL_VBASE"
proof -
  let ?s = "boot_start l c" and ?t = "l_stack_top l"
  let ?c = "?s\<lparr>x_esp := ?t, x_ebp := 0, x_ebx := x_ebx ?s + KERNEL_VBASE\<rparr>"
  have top: "unat KERNEL_VBASE + 12 \<le> unat ?t" using l by (simp add: layout_ok_def)
  have up: "KERNEL_VBASE \<le> ?t - 4" "KERNEL_VBASE \<le> ?t - 8" "KERNEL_VBASE \<le> ?t - 12"
    using top by (simp_all add: word_le_nat_alt unat_sub)
  have out: "4096 \<le> unat (V2P (?t - 4) - l_boot_page_directory l)" "4096 \<le> unat (V2P (?t - 8) - l_boot_page_directory l)"
    "4096 \<le> unat (V2P (?t - 12) - l_boot_page_directory l)"
    using l by (simp_all add: layout_ok_def)
  have w: "windowed l ?s" by (rule start_windowed [OF l])
  then have w0: "windowed l ?c" by (rule windowed_same) simp_all
  obtain c1 where c1: "pushl (x_ebx ?c) ?c = ret c1" "windowed l c1"
      "c1 = ?c\<lparr>x_esp := ?t - 4, x_mem := (x_mem ?c)(V2P (?t - 4) := x_ebx ?c)\<rparr>"
    by (rule windowed_push [OF w0, of "x_ebx ?c"]) (use up out in simp_all)
  obtain c2 where c2: "pushl (x_esi c1) c1 = ret c2" "windowed l c2"
      "c2 = c1\<lparr>x_esp := ?t - 8, x_mem := (x_mem c1)(V2P (?t - 8) := x_esi c1)\<rparr>"
    by (rule windowed_push [OF c1(2), of "x_esi c1"]) (use up out c1(3) in simp_all)
  obtain c3 where c3: "pushl (l_park l) c2 = ret c3" "windowed l c3"
      "c3 = c2\<lparr>x_esp := ?t - 12, x_mem := (x_mem c2)(V2P (?t - 12) := l_park l)\<rparr>"
    by (rule windowed_push [OF c2(2), of "l_park l"]) (use up out c2(3) c1(3) in simp_all)
  let ?r = "c3\<lparr>x_eip := l_kmain l\<rparr>"
  have run: "boot_entry l c = ret ?r"
    unfolding boot_entry_def higher_half_def Let_def using c1(1) c2(1) c3(1) by simp
  have wr: "windowed l ?r" by (rule windowed_same [OF c3(2)]) simp_all
  have "x_eip ?r = l_kmain l" "x_ebp ?r = 0" "bit (x_cr4 ?r) 4" "x_esp ?r = ?t - 12"
    "x_mem ?r (V2P (x_esp ?r + 4)) = x_eax c" "x_mem ?r (V2P (x_esp ?r + 8)) = x_ebx c + KERNEL_VBASE"
    unfolding c3(3) c2(3) c1(3) by (simp_all add: boot_start_def Let_def V2P_def bit_or_iff)
  then show thesis by (rule that [OF run wr])
qed

section \<open>Properties\<close>

text \<open>
  C26. The entry code reaches \<^verbatim>\<open>kmain\<close>: from a Multiboot loader with paging off, \<^verbatim>\<open>_start\<close> builds a directory under
  which the first 4 MiB stay where they are (so the instruction after the one that turns paging on is
  found), every address from 3 GiB up means physical memory, and nothing else is mapped; the jump goes to
  the higher half, the stack is reachable, and \<^verbatim>\<open>kmain\<close> is entered with the loader's magic number and the virtual
  address of the Multiboot information as its arguments.
\<close>

theorem boot_reaches_kmain:
  assumes l: "layout_ok l c"
  shows "\<exists>r. boot_entry l c = ret r \<and> x_eip r = l_kmain l \<and> x_ebp r = 0 \<and> bit (x_cr4 r) 4 \<and>
    (\<forall>va. physical (boot_start l c) va = boot_view va \<and> physical r va = boot_view va) \<and>
    x_eip (boot_start l c) = l_higher_half l \<and> x_esp r = l_stack_top l - 12 \<and>
    x_mem r (V2P (x_esp r + 4)) = x_eax c \<and> x_mem r (V2P (x_esp r + 8)) = x_ebx c + KERNEL_VBASE"
proof -
  have "x_eip (boot_start l c) = l_higher_half l" by (simp add: boot_start_def Let_def)
  then show ?thesis
    using boot_entry_runs [OF l] windowed_view windowed_view [OF start_windowed [OF l]] by metis
qed

text \<open>A kernel image of about a megabyte, and a processor as a loader leaves it.\<close>

definition image_labels :: labels where
  "image_labels = \<lparr>l_boot_page_directory = 0x101000, l_higher_half = 0xC0103000, l_stack_top = 0xC0120000,
     l_kmain = 0xC0104000, l_park = 0xC0103020\<rparr>"

definition loaded_cpu :: boot_cpu where
  "loaded_cpu = \<lparr>x_eax = MULTIBOOT_BOOTLOADER_MAGIC, x_ecx = 0, x_edx = 0, x_ebx = 0x9500, x_esp = 0, x_ebp = 0, x_esi = 0,
     x_edi = 0, x_eip = 0x102000, x_eflags = 2, x_cs = 8, x_ds = 16, x_es = 16, x_fs = 16, x_gs = 16, x_mem = (\<lambda>_. 0),
     x_cr0 = 0x11, x_cr3 = 0, x_cr4 = 0\<rparr>"

lemma loaded_layout: "layout_ok image_labels loaded_cpu"
  by (simp add: layout_ok_def image_labels_def loaded_cpu_def KERNEL_VBASE_def V2P_def)

theorem boot_reaches_kmain_witness:
  "\<exists>r. boot_entry image_labels loaded_cpu = ret r \<and> x_eip r = 0xC0104000 \<and> physical r 0xC00B8000 = Some 0xB8000 \<and>
     physical r 0x80000000 = None"
  using boot_reaches_kmain [OF loaded_layout]
  by (auto simp: image_labels_def boot_view_def KERNEL_VBASE_def V2P_def)



end
