(* ===== verification/Preemption.thy ===== *)
theory Preemption
  imports Console
begin

text \<open>
  Interrupts between instructions. The interrupt handlers run with interrupts off, so a handler is one
  step; the code they interrupt is not. \<^verbatim>\<open>keyboard_read\<close> shares the ring with the keyboard handler without a
  lock: here it is cut into its accesses to shared variables, interrupts come between any two of them,
  and the result is compared with the atomic \<^verbatim>\<open>keyboard_read\<close> that the rest of the development uses.
  The tick counter, which is wider than a machine word, is treated at the end.
\<close>

section \<open>The reader, one access at a time\<close>

text \<open>
  The points between the accesses: before the first one; with \<^verbatim>\<open>head\<close> loaded; found not empty; with the
  character loaded; returning a value.
\<close>

datatype reader = Start | Loaded_head u32 | Nonempty | Loaded_char char | Done int

fun keyboard_read_step :: "reader \<Rightarrow> 'a keyboard_scheme \<Rightarrow> (reader \<times> 'a keyboard_scheme) run" where
  "keyboard_read_step Start s = ret (Loaded_head (kbd_head s), s)"
| "keyboard_read_step (Loaded_head h) s = ret (if h = kbd_tail s then Done (- 1) else Nonempty, s)"
| "keyboard_read_step Nonempty s =
     (if kbd_tail s < BUF_SIZE then ret (Loaded_char (kbd_buf s (kbd_tail s)), s) else fault_run)"
| "keyboard_read_step (Loaded_char c) s =
     ret (Done (uchar c), s\<lparr>kbd_tail := (kbd_tail s + 1) AND (BUF_SIZE - 1)\<rparr>)"
| "keyboard_read_step (Done v) s = ret (Done v, s)"

text \<open>Left alone, the steps are \<^verbatim>\<open>keyboard_read\<close>.\<close>

primrec run_steps :: "nat \<Rightarrow> reader \<times> 'a keyboard_scheme \<Rightarrow> (reader \<times> 'a keyboard_scheme) run" where
  "run_steps 0 r = ret r"
| "run_steps (Suc n) r = run_bind (keyboard_read_step (fst r) (snd r)) (run_steps n)"

lemma keyboard_read_steps:
  "run_steps 4 (Start, s) = run_bind (keyboard_read s) (\<lambda>r. ret (Done (snd r), fst r))"
  by (simp add: eval_nat_numeral keyboard_read_def)

section \<open>Interrupts in between\<close>

text \<open>An interrupt on line \<open>n\<close>, at an arbitrary moment, and the characters the ring accepts from it.\<close>

definition interrupt :: "nat \<Rightarrow> 'a interrupts_scheme \<Rightarrow> 'a interrupts_scheme run" where
  "interrupt n s = irq_handler (32 + of_nat n) (s\<lparr>trace := Irq n # trace s\<rparr>)"

definition accepted :: "nat \<Rightarrow> 'a interrupts_scheme \<Rightarrow> char list" where
  "accepted n s =
     (if irq_handlers s n = Some Keyboard_irq
      then take (255 - kbd_len s)
             (snd (decode_key (kbd_mods s) (ucast (port_in s (In8 KBD_DATA_PORT # Irq n # trace s)))))
      else [])"

text \<open>
  Repeated reads, interrupted anywhere: the reader's position, the state, the characters accepted and the
  values returned so far.
\<close>

inductive interleaved :: "'a interrupts_scheme \<Rightarrow> reader \<Rightarrow> 'a interrupts_scheme \<Rightarrow> char list \<Rightarrow> int list \<Rightarrow> bool"
  for s0 where
  start: "interleaved s0 Start s0 [] []"
| irq: "interleaved s0 pc s acc got \<Longrightarrow> n < 16 \<Longrightarrow> interrupt n s = ret s' \<Longrightarrow>
    interleaved s0 pc s' (acc @ accepted n s) got"
| step: "interleaved s0 pc s acc got \<Longrightarrow> keyboard_read_step pc s = ret (pc', s') \<Longrightarrow>
    interleaved s0 pc' s' acc got"
| again: "interleaved s0 (Done v) s acc got \<Longrightarrow> interleaved s0 Start s acc (got @ [v])"

text \<open>The same with \<^verbatim>\<open>keyboard_read\<close> as a single step.\<close>

inductive atomic :: "'a interrupts_scheme \<Rightarrow> 'a interrupts_scheme \<Rightarrow> char list \<Rightarrow> int list \<Rightarrow> bool"
  for s0 where
  start: "atomic s0 s0 [] []"
| irq: "atomic s0 s acc got \<Longrightarrow> n < 16 \<Longrightarrow> interrupt n s = ret s' \<Longrightarrow> atomic s0 s' (acc @ accepted n s) got"
| read: "atomic s0 s acc got \<Longrightarrow> keyboard_read s = ret (s', v) \<Longrightarrow> atomic s0 s' acc (got @ [v])"

lemma interrupt_spec:
  assumes "irq_ok s" "n < 16"
  obtains s' where "interrupt n s = ret s'" "irq_ok s'" "kbd_tail s' = kbd_tail s" "kbd_queue s' = kbd_queue s @ accepted n s"
proof -
  let ?s = "s\<lparr>trace := Irq n # trace s\<rparr>"
  have ok: "irq_ok ?s" using assms(1) by (simp add: irq_ok_def kbd_inv_def)
  have q: "kbd_queue ?s = kbd_queue s" "kbd_mods ?s = kbd_mods s" by (simp_all add: kbd_mods_def)
  obtain s' where s': "interrupt n s = ret s'" "irq_ok s'" "irq_same ?s s'"
      "kbd_queue s' = (if irq_handlers s n = Some Keyboard_irq
        then take 255 (kbd_queue s @ snd (decode_key (kbd_mods s) (ucast (port_in s (In8 KBD_DATA_PORT # Irq n # trace s)))))
        else kbd_queue s)"
    using irq_handler_spec [OF ok assms(2)] unfolding interrupt_def q by auto
  moreover have "kbd_len s \<le> 255" using assms(1) by (simp add: irq_ok_def kbd_len_bound)
  ultimately show thesis using that by (simp add: accepted_def irq_same_def)
qed

lemma interruptD:
  assumes "interrupt n s = ret s'" "irq_ok s" "n < 16"
  shows "irq_ok s'" "kbd_tail s' = kbd_tail s" "kbd_queue s' = kbd_queue s @ accepted n s"
  using interrupt_spec [OF assms(2,3)] assms(1) by (metis ret_inject)+

section \<open>Atomic runs\<close>

text \<open>What can be said of one atomic read.\<close>

lemma keyboard_readD:
  assumes "keyboard_read s = ret (s', v)" "irq_ok s"
  shows "irq_ok s' \<and> (kbd_queue s = [] \<and> v = - 1 \<and> s' = s \<or> (\<exists>c cs. kbd_queue s = c # cs \<and> v = uchar c \<and> kbd_queue s' = cs))"
proof (cases "kbd_queue s")
  case Nil
  then show ?thesis using assms keyboard_read_empty [of s] by (simp add: irq_ok_def)
next
  case (Cons c cs)
  obtain t where t: "keyboard_read s = ret (t, uchar c)" "kbd_inv t" "kbd_queue t = cs" "t = s\<lparr>kbd_tail := kbd_tail t\<rparr>"
    using keyboard_read_cons [OF _ Cons] assms(2) by (auto simp: irq_ok_def)
  have "irq_handlers t = irq_handlers s" by (subst t(4)) simp
  then show ?thesis using assms t(1-3) Cons by (simp add: irq_ok_def)
qed

text \<open>Nothing is lost, duplicated or reordered.\<close>

lemma atomic_conserves:
  assumes "atomic s0 s acc got" "irq_ok s0"
  shows "irq_ok s \<and> map uchar (kbd_queue s0 @ acc) = filter (\<lambda>v. v \<noteq> - 1) got @ map uchar (kbd_queue s)"
  using assms
proof (induction rule: atomic.induct)
  case start
  then show ?case by simp
next
  case (irq s acc got n s')
  then show ?case using interruptD [of n s s'] by simp
next
  case (read s acc got s' v)
  have "uchar c \<noteq> - 1" for c using uchar_bounds(1) [of c] by simp
  then show ?case using read keyboard_readD [of s s' v] by auto
qed

section \<open>Interleaved runs are atomic ones\<close>

text \<open>
  What the reader knows, which no interrupt can change: that the ring was empty when it loaded \<^verbatim>\<open>head\<close> (then
  its \<open>-1\<close> is already due), that the ring is not empty, or which character is the oldest.
\<close>

definition due :: "reader \<Rightarrow> 'a keyboard_scheme \<Rightarrow> int list" where
  "due pc s = (case pc of Done v \<Rightarrow> [v] | Loaded_head h \<Rightarrow> if h = kbd_tail s then [- 1] else [] | _ \<Rightarrow> [])"

definition knows :: "reader \<Rightarrow> 'a keyboard_scheme \<Rightarrow> bool" where
  "knows pc s \<longleftrightarrow> (case pc of
      Loaded_head h \<Rightarrow> h \<noteq> kbd_tail s \<longrightarrow> kbd_queue s \<noteq> []
    | Nonempty \<Rightarrow> kbd_queue s \<noteq> []
    | Loaded_char c \<Rightarrow> (\<exists>cs. kbd_queue s = c # cs)
    | _ \<Rightarrow> True)"

lemma knows_irq:
  assumes "irq_ok s" "n < 16" "interrupt n s = ret s'" "knows pc s"
  shows "knows pc s'" "due pc s' = due pc s"
  using interruptD [OF assms(3,1,2)] assms(4) by (auto simp: knows_def due_def split: reader.splits)

lemma empty_iff: "kbd_inv s \<Longrightarrow> kbd_queue s = [] \<longleftrightarrow> kbd_head s = kbd_tail s"
  using kbd_len_0 [of s] by (simp flip: length_0_conv)

lemma oldest:
  assumes "kbd_inv s" "kbd_queue s \<noteq> []"
  obtains cs where "kbd_queue s = kbd_buf s (kbd_tail s) # cs" "kbd_tail s < BUF_SIZE"
proof -
  obtain c cs where q: "kbd_queue s = c # cs" using assms(2) by (cases "kbd_queue s") auto
  obtain t where "keyboard_read s = ret (t, uchar c)" using keyboard_read_cons [OF assms(1) q] by blast
  moreover have "kbd_head s \<noteq> kbd_tail s" using assms empty_iff by blast
  ultimately have "kbd_buf s (kbd_tail s) = c" "kbd_tail s < BUF_SIZE"
    by (auto simp: keyboard_read_def uchar_inject split: if_splits)
  then show thesis using that q by blast
qed

text \<open>A step of the reader is nothing, or the atomic read.\<close>

lemma step_simulates:
  assumes "irq_ok s" "knows pc s" "keyboard_read_step pc s = ret (pc', s')"
  shows "knows pc' s' \<and> (s' = s \<and> due pc' s' = due pc s \<or>
    due pc s = [] \<and> (\<exists>v. keyboard_read s = ret (s', v) \<and> due pc' s' = [v]))"
proof -
  have inv: "kbd_inv s" using assms(1) by (simp add: irq_ok_def)
  show ?thesis
  proof (cases pc)
    case Start
    then have p: "pc' = Loaded_head (kbd_head s)" "s' = s" using assms(3) by auto
    have "keyboard_read s = ret (s, - 1)" if "kbd_head s = kbd_tail s" using that by (simp add: keyboard_read_def)
    then show ?thesis using p Start empty_iff [OF inv] by (simp add: knows_def due_def)
  next
    case (Loaded_head h)
    then show ?thesis using assms(2,3) by (auto simp: knows_def due_def)
  next
    case Nonempty
    then have "kbd_queue s \<noteq> []" using assms(2) by (simp add: knows_def)
    then obtain cs where "kbd_queue s = kbd_buf s (kbd_tail s) # cs" "kbd_tail s < BUF_SIZE" by (rule oldest [OF inv])
    then show ?thesis using assms(3) Nonempty by (auto simp: knows_def due_def)
  next
    case (Loaded_char c)
    then obtain cs where q: "kbd_queue s = c # cs" using assms(2) by (auto simp: knows_def)
    then have "kbd_queue s \<noteq> []" by simp
    then obtain ds where d: "kbd_queue s = kbd_buf s (kbd_tail s) # ds" "kbd_tail s < BUF_SIZE" by (rule oldest [OF inv])
    have "kbd_head s \<noteq> kbd_tail s" using q empty_iff [OF inv] by simp
    then show ?thesis using assms(3) Loaded_char d q by (auto simp: knows_def due_def keyboard_read_def)
  next
    case (Done v)
    then show ?thesis using assms(3) by (auto simp: knows_def due_def)
  qed
qed

lemma interleaved_atomic:
  assumes "interleaved s0 pc s acc got" "irq_ok s0"
  shows "knows pc s \<and> atomic s0 s acc (got @ due pc s)"
  using assms
proof (induction rule: interleaved.induct)
  case start
  show ?case by (simp add: knows_def due_def atomic.start)
next
  case (irq pc s acc got n s')
  then have "irq_ok s" using atomic_conserves by blast
  then show ?case using irq knows_irq [of s n s' pc] atomic.irq by auto
next
  case (step pc s acc got pc' s')
  then have "irq_ok s" using atomic_conserves by blast
  then show ?case using step step_simulates [of s pc pc' s'] atomic.read by fastforce
next
  case (again v s acc got)
  then show ?case by (simp add: knows_def due_def)
qed

lemma interleaved_proceeds:
  assumes "irq_ok s" "knows pc s"
  shows "\<exists>r. keyboard_read_step pc s = ret r"
proof (cases pc)
  case Nonempty
  then have "kbd_queue s \<noteq> []" using assms(2) by (simp add: knows_def)
  then show ?thesis using oldest [of s] assms(1) Nonempty by (auto simp: irq_ok_def)
qed auto

text \<open>
  A key that arrives after \<^verbatim>\<open>console_getchar\<close> has polled the ring and before it halts is not lost: it is returned
  after the next interrupt, whichever that is.
\<close>

lemma late_key_returned:
  assumes "irq_ok s" "kbd_queue s = c # cs" "wake s (trace s) = Some n" "n < 16"
  shows "\<exists>s'. run_bind (hlt s) console_getchar = ret (s', uchar c)"
proof -
  have "hlt s = interrupt n s" using assms(3) by (simp add: hlt_def interrupt_def)
  moreover obtain t where "interrupt n s = ret t" "irq_ok t" "kbd_queue t = c # (cs @ accepted n s)"
    using interrupt_spec [OF assms(1,4)] assms(2) by (metis append_Cons)
  ultimately show ?thesis using getchar_key [of t c] by (auto simp: irq_ok_def)
qed

section \<open>The tick counter\<close>

text \<open>
  \<^verbatim>\<open>ticks\<close> is 64 bits wide and the kernel is compiled for 32-bit registers without SSE, so reading it takes two
  loads, in an order the compiler chooses. \<open>before\<close> and \<open>after\<close> are the counter at the first and at the second
  load.
\<close>

definition timer_ticks_loads :: "bool \<Rightarrow> u64 \<Rightarrow> u64 \<Rightarrow> u64" where
  "timer_ticks_loads low_first before after =
     (let low = (if low_first then before else after); high = (if low_first then after else before)
      in push_bit 32 (drop_bit 32 high) OR take_bit 32 low)"

lemma halves: "push_bit 32 (drop_bit 32 w) OR take_bit 32 w = w" for w :: u64
  by (rule bit_eqI) (auto simp: bit_simps)

lemma timer_ticks_loads_exact:
  assumes "drop_bit 32 before = drop_bit 32 after"
  shows "timer_ticks_loads low_first before after = (if low_first then before else after)"
  using assms halves [of before] halves [of after] by (simp add: timer_ticks_loads_def)

text \<open>When the lower half wraps between the two loads, the value read is off by \<^verbatim>\<open>2^32\<close> ticks.\<close>

lemma timer_ticks_loads_torn:
  "timer_ticks_loads False 0xffffffff 0x100000000 = 0"
  "timer_ticks_loads True 0xffffffff 0x100000000 = 0x1ffffffff"
  by (simp_all add: timer_ticks_loads_def take_bit_eq_mask mask_numeral)

section \<open>Properties\<close>

text \<open>
  C22. The keyboard ring needs no lock: let interrupts on any lines come between any two accesses of \<^verbatim>\<open>keyboard_read\<close>
  to the shared variables, in any number. At every moment the state and the values returned are those of a
  run in which every \<^verbatim>\<open>keyboard_read\<close> is one step; the characters the ring accepted are returned once each and in
  order; and neither the reader nor a handler can leave the buffer.
\<close>

theorem keyboard_read_linearizable:
  assumes "interleaved s0 pc s acc got" "irq_ok s0"
  shows "atomic s0 s acc (got @ due pc s) \<and>
    map uchar (kbd_queue s0 @ acc) = filter (\<lambda>v. v \<noteq> - 1) (got @ due pc s) @ map uchar (kbd_queue s) \<and>
    (\<exists>r. keyboard_read_step pc s = ret r) \<and> (\<forall>n < 16. \<exists>s'. interrupt n s = ret s')"
proof -
  have a: "atomic s0 s acc (got @ due pc s)" and k: "knows pc s" using interleaved_atomic [OF assms] by auto
  note c = atomic_conserves [OF a assms(2)]
  moreover have "\<exists>s'. interrupt n s = ret s'" if "n < 16" for n using interrupt_spec [OF _ that] c by blast
  ultimately show ?thesis using a interleaved_proceeds [OF _ k] by blast
qed

text \<open>The letter a arrives just after the reader has seen an empty ring: this read misses it, the ring keeps it.\<close>

definition a_key_dev :: "pevent list \<Rightarrow> u32" where
  "a_key_dev tr = 0x1E"

lemma a_key_accepted: "accepted 1 (irq_ready a_key_dev (\<lambda>_. None)) = ''a''"
  by (simp add: accepted_def irq_ready_def irq_boot_def a_key_dev_def keyboard_init_def timer_init_def irq_install_handler_def
      outb_def Let_def kbd_len_def decode_key_def kbd_mods_def key_char_def map_lower_def is_letter_def)

theorem keyboard_read_linearizable_witness:
  "\<exists>s. interleaved (irq_ready a_key_dev (\<lambda>_. None)) (Done (- 1)) s ''a'' [] \<and>
     atomic (irq_ready a_key_dev (\<lambda>_. None)) s ''a'' [- 1] \<and> kbd_queue s = ''a''"
proof -
  let ?s = "irq_ready a_key_dev (\<lambda>_. None)"
  have ok: "irq_ok ?s" by (rule irq_ready_ok)
  have q: "kbd_queue ?s = []" "kbd_head ?s = kbd_tail ?s"
    by (simp_all add: irq_ready_def irq_boot_def keyboard_init_def timer_init_def irq_install_handler_def outb_def Let_def kbd_queue_def kbd_len_def)
  obtain t where t: "interrupt 1 ?s = ret t" "kbd_tail t = kbd_tail ?s" "kbd_queue t = ''a''"
    using interrupt_spec [OF ok, of 1] q(1) a_key_accepted by auto
  have l: "interleaved ?s (Loaded_head (kbd_head ?s)) ?s [] []" by (rule interleaved.step [OF interleaved.start]) simp
  have "interleaved ?s (Loaded_head (kbd_head ?s)) t ([] @ accepted 1 ?s) []" by (rule interleaved.irq [OF l _ t(1)]) simp
  then have "interleaved ?s (Loaded_head (kbd_head ?s)) t ''a'' []" unfolding a_key_accepted by simp
  then have i: "interleaved ?s (Done (- 1)) t ''a'' []" by (rule interleaved.step) (simp add: q(2) t(2))
  then show ?thesis using keyboard_read_linearizable [OF i ok] t(3) by (auto simp: due_def)
qed

end
