(* ===== verification/TextTools.thy ===== *)
theory TextTools
  imports CommandProps
begin

text \<open>
  The text tools \<^verbatim>\<open>head\<close>, \<^verbatim>\<open>grep\<close>, \<^verbatim>\<open>wc\<close> and \<^verbatim>\<open>hexdump\<close> (shell/commands.c): each prints a text that is a pure function of the
  bytes of the file and of the arguments.
\<close>

section \<open>Lines\<close>

text \<open>The lines of a text, each with its newline; the last one may lack it.\<close>

fun line_list :: "string \<Rightarrow> string list" where
  "line_list [] = []"
| "line_list (c # cs) =
     (if c = NL then [NL] # line_list cs
      else case line_list cs of [] \<Rightarrow> [[c]] | l # ls \<Rightarrow> (c # l) # ls)"

lemma concat_line_list [simp]: "concat (line_list cs) = cs"
  by (induction cs) (auto split: list.splits)

lemma line_list_append_NL: "NL \<notin> set l \<Longrightarrow> line_list (l @ NL # cs) = (l @ [NL]) # line_list cs"
  by (induction l) auto

lemma line_list_single: "NL \<notin> set l \<Longrightarrow> line_list l = (if l = [] then [] else [l])"
  by (induction l) auto

text \<open>The same without the newlines.\<close>

definition file_lines :: "string \<Rightarrow> string list" where
  "file_lines body = map (takeWhile (\<lambda>c. c \<noteq> NL)) (line_list body)"

lemma takeWhile_line:
  assumes "NL \<notin> set l"
  shows "takeWhile (\<lambda>c. c \<noteq> NL) (l @ [NL]) = l" "takeWhile (\<lambda>c. c \<noteq> NL) l = l"
  using assms by (induction l) auto

lemma file_lines_append_NL: "NL \<notin> set l \<Longrightarrow> file_lines (l @ NL # cs) = l # file_lines cs"
  by (simp add: file_lines_def line_list_append_NL takeWhile_line)

lemma file_lines_single: "NL \<notin> set l \<Longrightarrow> file_lines l = (if l = [] then [] else [l])"
  by (simp add: file_lines_def line_list_single takeWhile_line)

section \<open>Printing while reading\<close>

text \<open>A console that works and a file with given contents: printing keeps both.\<close>

definition reading :: "'a kernel_scheme \<Rightarrow> addr \<Rightarrow> ramfs_node \<Rightarrow> string \<Rightarrow> bool" where
  "reading s f n body \<longleftrightarrow> live_console s \<and> capture_buf s = NULL \<and> nodes s f = Some n \<and> contents (heap s) n = body"

lemma reading_write:
  assumes "reading s f n body"
  obtains s' where "console_write cs s = ret s'" "reading s' f n body"
proof -
  obtain s' where s': "console_write cs s = ret s'" "live_console s'" "vga_frame s s'"
    using console_write_live [of s cs] assms by (auto simp: reading_def)
  then have "reading s' f n body" using assms vga_frame_kernel [OF s'(3)] by (simp add: reading_def)
  then show thesis using that s'(1) by blast
qed

lemma reading_seq:
  assumes "reading s f n body" "m = console_write a s" "\<And>s'. reading s' f n body \<Longrightarrow> g s' = console_write b s'"
  shows "run_bind m g = console_write (a @ b) s"
proof -
  obtain s' where "console_write a s = ret s'" "reading s' f n body" by (rule reading_write [OF assms(1)])
  then show ?thesis using assms(2,3) by (simp add: console_write_append)
qed

lemmas reading_bind = reading_seq [OF _ refl]

text \<open>As above, for a loop that also computes a value.\<close>

lemma reading_bind_value:
  assumes "reading s f n body" "\<And>s'. reading s' f n body \<Longrightarrow> g s' = run_bind (console_write b s') (\<lambda>s. ret (s, v))"
  shows "run_bind (console_write a s) g = run_bind (console_write (a @ b) s) (\<lambda>s. ret (s, v))"
proof -
  obtain s' where "console_write a s = ret s'" "reading s' f n body" by (rule reading_write [OF assms(1)])
  then show ?thesis using assms(2) by (simp add: console_write_append)
qed

lemma putc_write: "console_putc c s = console_write [c] s"
  by (simp add: run_bind_ret_right console_write_Nil)

lemma readingD:
  assumes "reading s f n body"
  shows "node_at f s = ret n" "length body = unat (n_size n)" "unat i < length body \<Longrightarrow> file_byte n i s = body ! unat i"
    "i < n_size n \<longleftrightarrow> unat i < length body" "i \<le> n_size n \<longleftrightarrow> unat i \<le> length body"
  using assms contents_nth [of i n "heap s"]
  by (auto simp: reading_def node_at_def contents_def file_byte_def word_less_nat_alt word_le_nat_alt)

section \<open>head\<close>

text \<open>What \<^verbatim>\<open>head\<close> prints of a text: its first \<open>k\<close> lines.\<close>

lemma take_lines_Cons:
  "concat (take k (line_list (c # cs))) =
     (if k = 0 then [] else c # concat (take (if c = NL then k - 1 else k) (line_list cs)))"
  by (cases k; cases "line_list cs") auto

lemma head_loop_reading:
  fixes s :: "'a kernel_scheme"
  assumes "reading s f n body" "unat i \<le> length body" "unat ls \<le> unat limit"
  shows "head_loop f i ls limit s = console_write (concat (take (unat limit - unat ls) (line_list (drop (unat i) body)))) s"
  using assms
proof (induction "length body - unat i" arbitrary: i ls s)
  case 0
  note R = readingD [OF 0(2)]
  have "drop (unat i) body = []" "\<not> i < n_size n" using 0 R(2) by (simp_all add: word_less_nat_alt)
  then show ?case using R(1) by (subst head_loop.simps) simp
next
  case (Suc m)
  note R = readingD [OF Suc.prems(1)]
  have lt: "unat i < length body" using Suc.hyps(2) by simp
  then have nx: "unat (i + 1) = unat i + 1" using next_index [of i "n_size n"] R(2) by simp
  have D: "drop (unat i) body = body ! unat i # drop (unat i + 1) body" using lt by (simp add: Cons_nth_drop_Suc)
  let ?c = "body ! unat i"
  show ?case
  proof (cases "ls < limit")
    case False
    then have "unat limit - unat ls = 0" by (simp add: word_less_nat_alt)
    then show ?thesis using R(1) False by (subst head_loop.simps) simp
  next
    case True
    let ?ls = "if ?c = NL then ls + 1 else ls"
    have u: "unat ?ls = (if ?c = NL then unat ls + 1 else unat ls)" "unat ?ls \<le> unat limit"
      using True next_index [of ls limit] by (auto simp: word_less_nat_alt)
    have rest: "run_bind (node_at f s') (\<lambda>n. head_loop f (i + 1) (if file_byte n i s' = NL then ls + 1 else ls) limit s') =
        console_write (concat (take (unat limit - unat ?ls) (line_list (drop (unat i + 1) body)))) s'"
      if r: "reading s' f n body" for s' :: "'a kernel_scheme"
    proof -
      have m: "m = length body - unat (i + 1)" "unat (i + 1) \<le> length body" using Suc.hyps(2) lt nx by simp_all
      have "head_loop f (i + 1) ?ls limit s' = console_write (concat (take (unat limit - unat ?ls) (line_list (drop (unat i + 1) body)))) s'"
        using Suc.hyps(1) [OF m(1) r m(2) u(2)] unfolding nx .
      then show ?thesis using readingD(1,3) [OF r] lt by simp
    qed
    have "head_loop f i ls limit s = run_bind (console_write [?c] s)
        (\<lambda>s. run_bind (node_at f s) (\<lambda>n. head_loop f (i + 1) (if file_byte n i s = NL then ls + 1 else ls) limit s))"
      using R lt True by (subst head_loop.simps) (simp add: putc_write del: console_write.simps)
    also have "\<dots> = console_write ([?c] @ concat (take (unat limit - unat ?ls) (line_list (drop (unat i + 1) body)))) s"
      by (rule reading_bind [OF Suc.prems(1) rest])
    finally show ?thesis
      unfolding D take_lines_Cons u(1) using True by (simp add: word_less_nat_alt)
  qed
qed

section \<open>grep\<close>

text \<open>What the 256-byte buffer keeps of a line, as a string function sees it.\<close>

definition kept :: "string \<Rightarrow> string" where
  "kept l = cstr (take 255 l)"

definition grep_lines :: "string \<Rightarrow> string list \<Rightarrow> string list" where
  "grep_lines pat ls = filter (sublist pat) (map kept (filter (\<lambda>l. l \<noteq> []) ls))"

definition grep_text :: "string list \<Rightarrow> string" where
  "grep_text ls = concat (map (\<lambda>l. l @ [NL]) ls)"

lemma kept_string: "kformat (''%s'' @ [NL]) [Str (Some l)] = Some (l @ [NL])"
  by (simp add: conv_text_def takes_word_def padded_def Let_def schar_def uchar_def)

lemma grep_lines_Cons:
  "grep_lines pat (l # ls) = (if l \<noteq> [] \<and> str_str (kept l) pat \<noteq> None then kept l # grep_lines pat ls else grep_lines pat ls)"
  by (simp add: grep_lines_def str_str_None)

text \<open>The end of the file ends the last line.\<close>

lemma grep_loop_end:
  fixes s :: "'a kernel_scheme"
  assumes r: "reading s f n body" and i: "unat i = length body" and small: "length body < 2 ^ 32 - 1" and pre: "NL \<notin> set pre"
  shows "grep_loop pat f i (take 255 pre) m s =
    (let ls = grep_lines pat (file_lines pre) in run_bind (console_write (grep_text ls) s) (\<lambda>s. ret (s, m + length ls)))"
proof -
  note R = readingD [OF r]
  have here: "\<not> i < n_size n" "i \<le> n_size n" using i R(4,5) by simp_all
  have "unat (i + 1) = unat i + 1" using unat_add_offset [of i 1] i small by simp
  then have "\<not> i + 1 \<le> n_size n" using i R(2) by (simp add: word_le_nat_alt)
  then have stop: "grep_loop pat f (i + 1) [] k s' = ret (s', k)" if "reading s' f n body" for k and s' :: "'a kernel_scheme"
    using readingD(1) [OF that] by (subst grep_loop.simps) simp
  obtain s' where s': "console_write (kept pre @ [NL]) s = ret s'" "reading s' f n body" by (rule reading_write [OF r])
  have "grep_lines pat (file_lines pre) = (if pre \<noteq> [] \<and> str_str (kept pre) pat \<noteq> None then [kept pre] else [])"
    by (simp add: file_lines_single [OF pre] grep_lines_Cons) (simp add: grep_lines_def)
  then show ?thesis
    using R(1) here stop [OF s'(2)] stop [OF r] s'(1) kprintf_eq [OF kept_string, of "kept pre" s]
    by (subst grep_loop.simps) (auto simp: kept_def grep_text_def Let_def console_write_Nil)
qed

text \<open>One byte of the file: a newline ends the line, any other is kept as far as the buffer goes.\<close>

lemma grep_loop_step:
  fixes s :: "'a kernel_scheme"
  assumes r: "reading s f n body" and i: "unat i < length body"
  shows "body ! unat i \<noteq> NL \<Longrightarrow>
      grep_loop pat f i (take 255 pre) m s = grep_loop pat f (i + 1) (take 255 (pre @ [body ! unat i])) m s"
    "body ! unat i = NL \<Longrightarrow> grep_loop pat f i (take 255 pre) m s =
      (if pre \<noteq> [] \<and> str_str (kept pre) pat \<noteq> None
       then run_bind (console_write (kept pre @ [NL]) s) (\<lambda>s. grep_loop pat f (i + 1) [] (m + 1) s)
       else grep_loop pat f (i + 1) [] m s)"
proof -
  note R = readingD [OF r]
  have here: "i \<le> n_size n" "i < n_size n" "file_byte n i s = body ! unat i" using R(3-5) i by simp_all
  have "take 255 (pre @ [c]) = (if length (take 255 pre) + 1 < SHELL_LINE_MAX then take 255 pre @ [c] else take 255 pre)" for c
    by (auto simp: SHELL_LINE_MAX_def min_def)
  then show "body ! unat i \<noteq> NL \<Longrightarrow>
      grep_loop pat f i (take 255 pre) m s = grep_loop pat f (i + 1) (take 255 (pre @ [body ! unat i])) m s"
    using R(1) here by (subst grep_loop.simps) simp
  show "body ! unat i = NL \<Longrightarrow> grep_loop pat f i (take 255 pre) m s =
      (if pre \<noteq> [] \<and> str_str (kept pre) pat \<noteq> None
       then run_bind (console_write (kept pre @ [NL]) s) (\<lambda>s. grep_loop pat f (i + 1) [] (m + 1) s)
       else grep_loop pat f (i + 1) [] m s)"
    using R(1) here kprintf_eq [OF kept_string, of "kept pre" s] by (subst grep_loop.simps) (simp add: kept_def Let_def)
qed

text \<open>The loop, with the line read so far: \<open>pre\<close> is all of it, the buffer holds what fits.\<close>

lemma grep_loop_reading:
  fixes s :: "'a kernel_scheme"
  assumes "reading s f n body" "unat i \<le> length body" "length body < 2 ^ 32 - 1" "NL \<notin> set pre"
  shows "grep_loop pat f i (take 255 pre) m s =
    (let ls = grep_lines pat (file_lines (pre @ drop (unat i) body))
     in run_bind (console_write (grep_text ls) s) (\<lambda>s. ret (s, m + length ls)))"
  using assms
proof (induction "length body - unat i" arbitrary: i pre m s)
  case 0
  then show ?case using grep_loop_end [OF 0(2) _ 0(4,5)] by simp
next
  case (Suc k)
  have lt: "unat i < length body" using Suc.hyps(2) by simp
  then have nx: "unat (i + 1) = unat i + 1" using next_index [of i "n_size n"] readingD(2) [OF Suc.prems(1)] by simp
  let ?c = "body ! unat i" and ?rest = "drop (unat i + 1) body"
  have D: "drop (unat i) body = ?c # ?rest" using lt by (simp add: Cons_nth_drop_Suc)
  have m: "k = length body - unat (i + 1)" "unat (i + 1) \<le> length body" using Suc.hyps(2) lt nx by simp_all
  note IH = Suc.hyps(1) [OF m(1) _ m(2) Suc.prems(3), unfolded nx Let_def] and step = grep_loop_step [OF Suc.prems(1) lt]
  show ?case
  proof (cases "?c = NL")
    case False
    have "NL \<notin> set (pre @ [?c])" using Suc.prems(4) False by simp
    then show ?thesis using IH [OF Suc.prems(1), of "pre @ [?c]" m] step(1) [OF False] unfolding D by (simp add: Let_def)
  next
    case True
    let ?ls = "grep_lines pat (file_lines ?rest)"
    have fl: "file_lines (pre @ drop (unat i) body) = pre # file_lines ?rest"
      unfolding D True by (rule file_lines_append_NL [OF Suc.prems(4)])
    have next_line: "grep_loop pat f (i + 1) [] j s' = run_bind (console_write (grep_text ?ls) s') (\<lambda>s. ret (s, j + length ?ls))"
      if "reading s' f n body" for j and s' :: "'a kernel_scheme"
      using IH [OF that, of "[]" j] by simp
    note hit = reading_bind_value [OF Suc.prems(1) next_line [where j = "m + 1"], of "kept pre @ [NL]"]
    show ?thesis unfolding step(2) [OF True] fl grep_lines_Cons
      using hit next_line [OF Suc.prems(1), of m] by (auto simp: Let_def grep_text_def)
  qed
qed

section \<open>hexdump\<close>

text \<open>A number in hexadecimal with leading zeros, and the parts of a row for the bytes \<open>bs\<close> at offset \<open>off\<close>.\<close>

definition hex_field :: "int \<Rightarrow> nat \<Rightarrow> string" where
  "hex_field width k = padded (num_text False 16 k) width False CHR ''0''"

definition hex_column :: "string \<Rightarrow> nat \<Rightarrow> string" where
  "hex_column bs i = (if i < length bs then hex_field 2 (of_char (bs ! i)) @ '' '' else ''   '') @ (if i = 7 then '' '' else [])"

definition shown :: "char \<Rightarrow> char" where
  "shown c = (if 0x20 \<le> schar c \<and> schar c < 0x7f then c else CHR ''.'')"

definition hex_row :: "nat \<Rightarrow> string \<Rightarrow> string" where
  "hex_row off bs = hex_field 8 off @ ''  '' @ concat (map (hex_column bs) [0..<16]) @ '' |'' @ map shown bs @ ''|'' @ [NL]"

function hex_rows :: "nat \<Rightarrow> string \<Rightarrow> string list" where
  "hex_rows off body = (if body = [] then [] else hex_row off (take 16 body) # hex_rows (off + 16) (drop 16 body))"
  by pat_completeness auto
termination
  by (relation "measure (\<lambda>(_, body). length body)") auto

declare hex_rows.simps [simp del]

lemma hex_formats:
  "kformat ''%08x  '' [Word w] = Some (hex_field 8 (unat w) @ ''  '')"
  "kformat ''%02x '' [Word w] = Some (hex_field 2 (unat w) @ '' '')"
  by (simp_all add: conv_text_def takes_word_def word_text_def hex_field_def Let_def schar_def uchar_def)

lemma unat_byte: "unat (word_of_int (uchar c) :: u32) = of_char c"
proof -
  have "(word_of_int (uchar c) :: u32) = of_nat (of_char c)" by (simp add: uchar_nat)
  moreover have "of_char c < (2 ^ 32 :: nat)" by (rule order_less_trans [OF nat_of_char_less_256]) simp
  ultimately show ?thesis by (simp add: unat_of_nat_u32)
qed

text \<open>The columns of one row; the index does not wrap because files are small.\<close>

lemma column_index:
  assumes "off < 2 ^ 31" "i < 16"
  shows "unat (of_nat off + of_nat i :: u32) = off + i"
  using assms unat_of_nat_u32 [of "off + i"] by simp

lemma hex_columns_reading:
  fixes s :: "'a kernel_scheme"
  assumes "reading s f n body" "off < 2 ^ 31" "\<forall>i \<in> set is. i < 16"
  shows "hex_columns (map of_nat is) f (of_nat off) s = console_write (concat (map (hex_column (take 16 (drop off body))) is)) s"
  using assms(1,3)
proof (induction "is" arbitrary: s)
  case Nil
  then show ?case by simp
next
  case (Cons i "is")
  note R = readingD [OF Cons(2)]
  have i: "i < 16" using Cons(3) by simp
  note u = column_index [OF assms(2) i]
  let ?bs = "take 16 (drop off body)"
  have seven: "(of_nat i = (7 :: u32)) = (i = 7)" using i unat_of_nat_u32 [of i] by (auto simp: u32_eq_iff)
  have len: "off + i < length body \<longleftrightarrow> i < length ?bs" using i by auto
  have nth: "body ! (off + i) = ?bs ! i" if "i < length ?bs"
  proof -
    have "off \<le> length body" using that by auto
    then show ?thesis using that by simp
  qed
  have rest: "hex_columns (map of_nat is) f (of_nat off) s' = console_write (concat (map (hex_column ?bs) is)) s'"
    if "reading s' f n body" for s' :: "'a kernel_scheme"
    by (rule Cons(1) [OF that]) (use Cons(3) in simp)
  have col: "(if of_nat off + of_nat i < n_size n
       then kprintf ''%02x '' [Word (word_of_int (uchar (file_byte n (of_nat off + of_nat i) s)))] s
       else console_write ''   '' s) =
      console_write (if i < length ?bs then hex_field 2 (of_char (?bs ! i)) @ '' '' else ''   '') s"
    using R(3,4) [of "of_nat off + of_nat i"] len nth unfolding u by (simp add: kprintf_eq [OF hex_formats(2)] unat_byte del: console_write.simps nth_take length_take)
  have gap: "(if i = 7 then console_putc CHR '' '' s else ret s) = console_write (if i = 7 then '' '' else []) s" for s :: "'a kernel_scheme"
    by (simp only: putc_write) (simp add: console_write_Nil)
  have step: "hex_columns (map of_nat (i # is)) f (of_nat off) s =
      run_bind (console_write (if i < length ?bs then hex_field 2 (of_char (?bs ! i)) @ '' '' else ''   '') s)
        (\<lambda>s. run_bind (console_write (if i = 7 then '' '' else []) s) (hex_columns (map of_nat is) f (of_nat off)))"
    by (simp only: list.map hex_columns.simps R(1) run_bind_simps col gap seven)
  show ?case
    unfolding step list.map(2) [where f = "hex_column ?bs"] concat.simps hex_column_def [of ?bs i] append_assoc
    by (rule reading_bind [OF Cons(2)]) (rule reading_bind [OF _ rest])
qed

lemma ascii_columns_reading:
  fixes s :: "'a kernel_scheme"
  assumes "reading s f n body" "off < 2 ^ 31" "k \<le> 16"
  shows "ascii_columns (map of_nat [k..<16]) f (of_nat off) s = console_write (map shown (take (16 - k) (drop (off + k) body))) s"
  using assms(1,3)
proof (induction "16 - k" arbitrary: k s)
  case 0
  then show ?case by simp
next
  case (Suc m)
  note R = readingD [OF Suc(3)]
  have k: "k < 16" using Suc(2) by simp
  note u = column_index [OF assms(2) k]
  have ks: "[k..<16] = k # [Suc k..<16]" using k by (rule upt_conv_Cons)
  show ?case
  proof (cases "off + k < length body")
    case False
    then show ?thesis using R(1,4) u by (simp add: ks console_write_Nil)
  next
    case True
    let ?rest = "map shown (take (16 - Suc k) (drop (off + Suc k) body))"
    have D: "take (16 - k) (drop (off + k) body) = body ! (off + k) # take (16 - Suc k) (drop (off + Suc k) body)"
      using True k by (simp add: Cons_nth_drop_Suc [symmetric] take_Cons' Suc_diff_Suc)
    have rest: "ascii_columns (map of_nat [Suc k..<16]) f (of_nat off) s' = console_write ?rest s'" if "reading s' f n body" for s' :: "'a kernel_scheme"
      by (rule Suc(1)) (use Suc(2) that k in simp_all)
    have "ascii_columns (map of_nat [k..<16]) f (of_nat off) s =
        run_bind (console_write [shown (body ! (off + k))] s) (ascii_columns (map of_nat [Suc k..<16]) f (of_nat off))"
      using R(1) R(3,4) [of "of_nat off + of_nat k"] True unfolding u
      by (simp add: ks putc_write shown_def Let_def del: console_write.simps)
    also have "\<dots> = console_write ([shown (body ! (off + k))] @ ?rest) s" by (rule reading_bind [OF Suc(3) rest])
    finally show ?thesis unfolding D by simp
  qed
qed

lemma hexdump_loop_reading:
  fixes s :: "'a kernel_scheme"
  assumes "reading s f n body" "off < 2 ^ 31" "length body < 2 ^ 30"
  shows "hexdump_loop f (of_nat off) s = console_write (concat (hex_rows off (drop off body))) s"
  using assms(1,2)
proof (induction "length body - off" arbitrary: off s rule: less_induct)
  case less
  note R = readingD [OF less(2)] and u = column_index [OF less(3), of 0]
  show ?case
  proof (cases "off < length body")
    case False
    then show ?thesis using R(1,4) u by (subst hexdump_loop.simps, subst hex_rows.simps) (simp add: console_write_Nil)
  next
    case True
    let ?bs = "take 16 (drop off body)" and ?rest = "concat (hex_rows (off + 16) (drop (off + 16) body))"
    have ne: "drop off body \<noteq> []" using True by simp
    have rows: "concat (hex_rows off (drop off body)) =
        (hex_field 8 off @ ''  '') @ concat (map (hex_column ?bs) [0..<16]) @ '' |'' @ map shown ?bs @ (''|'' @ [NL]) @ ?rest"
      using ne by (subst hex_rows.simps) (simp add: hex_row_def add.commute del: upt.simps upt_rec_numeral)
    have next_row: "hexdump_loop f (of_nat off + 16) s' = console_write ?rest s'" if "reading s' f n body" for s' :: "'a kernel_scheme"
      using less(1) [OF _ that, of "off + 16"] True assms(3) by simp
    have cols: "columns = map of_nat [0..<16]" by (rule columns_def)
    have offset: "kprintf ''%08x  '' [Word (of_nat off)] s = console_write (hex_field 8 off @ ''  '') s"
      using kprintf_eq [OF hex_formats(1), of "of_nat off" s] u by simp
    have step: "hexdump_loop f (of_nat off) s = run_bind (console_write (hex_field 8 off @ ''  '') s) (\<lambda>s.
        run_bind (hex_columns (map of_nat [0..<16]) f (of_nat off) s) (\<lambda>s.
        run_bind (console_write '' |'' s) (\<lambda>s.
        run_bind (ascii_columns (map of_nat [0..<16]) f (of_nat off) s) (\<lambda>s.
        run_bind (console_write (''|'' @ [NL]) s) (hexdump_loop f (of_nat off + 16))))))"
    proof -
      have "of_nat off < n_size n" using R(4) [of "of_nat off"] u True by simp
      then show ?thesis using R(1) unfolding cols [symmetric] by (subst hexdump_loop.simps) (simp only: offset [symmetric] run_bind_simps if_True)
    qed
    have hc: "hex_columns (map of_nat [0..<16]) f (of_nat off) s' = console_write (concat (map (hex_column ?bs) [0..<16])) s'"
      "ascii_columns (map of_nat [0..<16]) f (of_nat off) s' = console_write (map shown ?bs) s'"
      if "reading s' f n body" for s' :: "'a kernel_scheme"
      using hex_columns_reading [OF that less(3), of "[0..<16]"] ascii_columns_reading [OF that less(3), of 0] by (simp_all del: upt_rec_numeral)
    show ?thesis unfolding step rows
      by (intro reading_seq [OF less(2) refl] reading_seq [where f = f and n = n and body = body] hc next_row refl) assumption+
  qed
qed

text \<open>Reading a dump back: two digits at each of the sixteen places of a row, blanks where the file has ended.\<close>

definition place :: "nat \<Rightarrow> nat" where
  "place i = 10 + 3 * i + (if 7 < i then 1 else 0)"

definition row_byte :: "string \<Rightarrow> nat \<Rightarrow> string" where
  "row_byte l i = (let t = take 2 (drop (place i) l) in if t = ''  '' then [] else [char_of (num_value False 16 t)])"

definition undump :: "string \<Rightarrow> string" where
  "undump t = concat (map (\<lambda>l. concat (map (row_byte l) [0..<16])) (line_list t))"

lemma hex_field_length:
  assumes "k < 16 ^ Suc m"
  shows "length (hex_field (int (Suc m)) k) = Suc m"
  using lsd_length [OF _ assms] by (simp add: hex_field_def padded_def num_text_def)

lemma hex_field_chars: "set (hex_field w k) \<subseteq> set (hex_digits False)"
proof -
  have "hex_digits False ! d \<in> set (hex_digits False)" if "d \<in> set (lsd 16 k)" for d
    using lsd_digits [OF _ that] by (intro nth_mem) (simp add: hex_digits_def)
  then show ?thesis by (auto simp: hex_field_def padded_def num_text_def) (auto simp: hex_digits_def)
qed

lemma hex_field_value: "num_value False 16 (hex_field w k) = k"
proof -
  have z: "digit_value False CHR ''0'' = 0" by (simp add: digit_value_def hex_digits_def)
  have "foldl (\<lambda>a c. a * 16 + digit_value False c) 0 (replicate g CHR ''0'' @ t) = foldl (\<lambda>a c. a * 16 + digit_value False c) 0 t" for g t
    by (induction g) (simp_all add: z)
  then show ?thesis using num_value_text [of 16 False k] by (simp add: hex_field_def padded_def num_value_def)
qed

lemma hex_column_length: "length (hex_column bs i) = 3 + (if i = 7 then 1 else 0)"
proof -
  have "of_char c < (16 ^ Suc 1 :: nat)" for c by (rule order_less_le_trans [OF nat_of_char_less_256]) simp
  from hex_field_length [OF this] show ?thesis by (simp add: hex_column_def)
qed

lemma columns_length: "length (concat (map (hex_column bs) [0..<i])) = 3 * i + (if 7 < i then 1 else 0)"
  by (induction i) (simp_all add: hex_column_length)

lemma row_column:
  assumes "i < 16" "off < 2 ^ 32"
  obtains rest where "drop (place i) (hex_row off bs) = hex_column bs i @ rest"
proof -
  let ?c = "hex_column bs"
  have "[0..<16] = [0..<i] @ [i..<16]" using upt_add_eq_append [of 0 i "16 - i"] assms(1) by simp
  also have "[i..<16] = i # [Suc i..<16]" using assms(1) by (rule upt_conv_Cons)
  finally have cols: "concat (map ?c [0..<16]) = concat (map ?c [0..<i]) @ ?c i @ concat (map ?c [Suc i..<16])" by simp
  have "length (hex_field 8 off) = 8" using hex_field_length [of off 7] assms(2) by simp
  then have "length (hex_field 8 off @ ''  '' @ concat (map ?c [0..<i])) = place i"
    by (simp add: columns_length place_def)
  then show thesis using that unfolding hex_row_def cols by (metis append_assoc append_eq_conv_conj)
qed

lemma row_bytes:
  assumes "i < 16" "off < 2 ^ 32"
  shows "row_byte (hex_row off bs) i = (if i < length bs then [bs ! i] else [])"
proof -
  obtain rest where r: "drop (place i) (hex_row off bs) = hex_column bs i @ rest" by (rule row_column [OF assms])
  show ?thesis
  proof (cases "i < length bs")
    case False
    then show ?thesis by (simp add: row_byte_def r hex_column_def)
  next
    case True
    let ?h = "hex_field 2 (of_char (bs ! i))"
    have "of_char (bs ! i) < (16 ^ Suc 1 :: nat)" by (rule order_less_le_trans [OF nat_of_char_less_256]) simp
    then have len: "length ?h = 2" using hex_field_length by fastforce
    then have "take 2 (drop (place i) (hex_row off bs)) = ?h" by (simp add: r hex_column_def True)
    moreover have "CHR '' '' \<notin> set ?h" using hex_field_chars [of 2] by (auto simp: hex_digits_def)
    then have "?h \<noteq> ''  ''" by auto
    ultimately show ?thesis using True by (simp add: row_byte_def hex_field_value)
  qed
qed

lemma row_back:
  assumes "off < 2 ^ 32" "length bs \<le> 16"
  shows "concat (map (row_byte (hex_row off bs)) [0..<16]) = bs"
proof -
  have "concat (map (\<lambda>i. if i < length bs then [bs ! i] else []) [0..<k]) = take k bs" for k
    by (induction k) (auto simp: take_Suc_conv_app_nth)
  moreover have rows: "map (row_byte (hex_row off bs)) [0..<16] = map (\<lambda>i. if i < length bs then [bs ! i] else []) [0..<16]"
    by (rule map_cong [OF refl]) (simp add: row_bytes [OF _ assms(1)])
  ultimately show ?thesis using assms(2) unfolding rows by (metis take_all)
qed

lemma row_is_line: "\<exists>l. hex_row off bs = l @ [NL] \<and> NL \<notin> set l"
proof -
  have f: "NL \<notin> set (hex_field w k)" for w k using hex_field_chars [of w k] by (auto simp: hex_digits_def)
  then have "NL \<notin> set (hex_column bs i)" for i by (simp add: hex_column_def)
  moreover have "NL \<noteq> shown c" for c by (auto simp: shown_def schar_def uchar_def)
  ultimately show ?thesis using f unfolding hex_row_def
    by (intro exI [of _ "hex_field 8 off @ ''  '' @ concat (map (hex_column bs) [0..<16]) @ '' |'' @ map shown bs @ ''|''"])
      (auto simp del: upt_rec_numeral)
qed

lemma undump_rows: "off + length body < 2 ^ 32 \<Longrightarrow> undump (concat (hex_rows off body)) = body"
proof (induction off body rule: hex_rows.induct)
  case (1 off body)
  show ?case
  proof (cases "body = []")
    case True
    then show ?thesis by (simp add: hex_rows.simps undump_def)
  next
    case False
    obtain l where l: "hex_row off (take 16 body) = l @ [NL]" "NL \<notin> set l" using row_is_line by blast
    have "undump (concat (hex_rows (off + 16) (drop 16 body))) = drop 16 body"
    proof (cases "length body \<le> 16")
      case True
      then show ?thesis by (simp add: hex_rows.simps undump_def)
    next
      case no: False
      then show ?thesis using 1 False by simp
    qed
    moreover have "line_list (concat (hex_rows off body)) =
        hex_row off (take 16 body) # line_list (concat (hex_rows (off + 16) (drop 16 body)))"
      using False line_list_append_NL [OF l(2)] by (subst hex_rows.simps) (simp add: l(1))
    ultimately show ?thesis using row_back [of off "take 16 body"] 1(2) by (simp add: undump_def del: upt_rec_numeral)
  qed
qed

section \<open>wc\<close>

text \<open>The line \<^verbatim>\<open>wc\<close> prints for a file: three right-aligned numbers and the name as given.\<close>

definition count_field :: "nat \<Rightarrow> string" where
  "count_field k = padded (num_text False 10 k) 6 False CHR '' ''"

definition wc_text :: "string \<Rightarrow> string \<Rightarrow> string" where
  "wc_text name body = count_field (count_list body NL) @ '' '' @ count_field (length (text_words body)) @ '' '' @
     count_field (length body) @ '' '' @ name @ [NL]"

lemma kformat_count:
  "kformat (CHR ''%'' # CHR ''6'' # CHR ''u'' # rest) (Word a # ap) = map_option ((@) (count_field (unat a))) (kformat rest ap)"
  by (subst kformat.simps) (simp add: conv_text_def takes_word_def word_text_def count_field_def Let_def schar_def uchar_def del: kformat.simps)

lemma kformat_plain: "c \<noteq> CHR ''%'' \<Longrightarrow> kformat (c # cs) ap = map_option ((#) c) (kformat cs ap)"
  by simp

lemma wc_format:
  "kformat (''%6u %6u %6u %s'' @ [NL]) [Word a, Word b, Word c, Str (Some name)] =
    Some (count_field (unat a) @ '' '' @ count_field (unat b) @ '' '' @ count_field (unat c) @ '' '' @ name @ [NL])"
proof -
  have "kformat (''%6u %6u %6u '' @ ''%s'' @ [NL]) [Word a, Word b, Word c, Str (Some name)] =
      map_option (\<lambda>r. count_field (unat a) @ '' '' @ count_field (unat b) @ '' '' @ count_field (unat c) @ '' '' @ r)
        (kformat (''%s'' @ [NL]) [Str (Some name)])"
    by (simp add: kformat_count kformat_plain option.map_comp comp_def del: kformat.simps)
  then show ?thesis unfolding kept_string by (simp only: append.simps option.map)
qed

lemma text_words_length: "length (text_words cs) \<le> length cs"
proof (induction cs)
  case (Cons c cs)
  have "length (text_words (c # cs)) \<le> Suc (length (text_words cs))"
    by (simp add: text_words.simps(2) [of c cs] split: list.split del: text_words.simps)
  then show ?case using Cons by (simp del: text_words.simps)
qed simp

section \<open>Commands on one file\<close>

text \<open>
  What a command that prints a text does to the machine: the text reaches the serial line and the screen,
  and nothing else changes.
\<close>

definition outputs :: "'a kernel_scheme \<Rightarrow> string \<Rightarrow> int \<Rightarrow> ('a kernel_scheme \<times> int) run \<Rightarrow> bool" where
  "outputs s text v r \<longleftrightarrow> (\<exists>s'. r = ret (s', v) \<and> live_console s' \<and> vga_frame s s' \<and>
     uart_sent (trace s') = uart_sent (trace s) @ map of_char (crlf text) \<and> vga_view s' = vga_view (fold vga_out text s))"

text \<open>
  The commands share their frame: find the file, and print something that depends on its bytes only. The
  interface is the body of such a command, with the text and the status it promises.
\<close>

locale file_tool =
  fixes tool :: "addr \<Rightarrow> 'a kernel_scheme \<Rightarrow> ('a kernel_scheme \<times> int) run"
    and report :: "string \<Rightarrow> string" and status :: "string \<Rightarrow> int"
  assumes prints_text: "reading s f n body \<Longrightarrow> length body < 2 ^ 30 \<Longrightarrow>
    tool f s = run_bind (console_write (report body) s) (\<lambda>s. ret (s, status body))"
begin

lemma on_file:
  assumes inv: "ramfs_inv s" and C: "named s C (shell_cwd s)" and path: "NUL \<notin> set path"
    and A: "walk_view (fs_view s) (start_path C path) (components path) = Some A" "(A, File body) \<in> fs_view s"
    and con: "live_console s" "capture_buf s = NULL"
  shows "outputs s (report body) (status body)
    (run_bind (want_file path s) (\<lambda>(s, f). if f = NULL then ret (s, 1) else tool f s))"
proof -
  obtain p n where p: "want_file path s = ret (s, p)" "p \<noteq> NULL" "nodes s p = Some n" "contents (heap s) n = body"
    using want_file_found [OF inv C path A] by metis
  have "unat (n_size n) \<le> 4194304" using inv file_small p(3) by (auto simp: ramfs_inv_def fs_ok_def)
  moreover have "length body = unat (n_size n)" using p(4) by (auto simp: contents_def)
  ultimately have "tool p s = run_bind (console_write (report body) s) (\<lambda>s. ret (s, status body))"
    using con p(3,4) by (intro prints_text) (simp_all add: reading_def)
  moreover obtain s' where "console_write (report body) s = ret s'" "live_console s'" "vga_frame s s'"
      "uart_sent (trace s') = uart_sent (trace s) @ map of_char (crlf (report body))" "vga_view s' = vga_view (fold vga_out (report body) s)"
    using console_write_live [OF con, of "report body"] by blast
  ultimately show ?thesis using p(1,2) by (simp add: outputs_def)
qed

end

lemma finish_write: "finish (console_write t s) = run_bind (console_write t s) (\<lambda>s. ret (s, 0))"
  by (simp add: finish_def)

interpretation head_tool: file_tool "\<lambda>f s. finish (head_loop f 0 0 limit s)" "\<lambda>body. concat (take (unat limit) (line_list body))" "\<lambda>_. 0"
  for limit :: u32
proof
  show "finish (head_loop f 0 0 limit s) = run_bind (console_write (concat (take (unat limit) (line_list body))) s) (\<lambda>s. ret (s, 0))"
    if "reading s f n body" for s :: "'a kernel_scheme" and f n body
    using head_loop_reading [OF that, of 0 0 limit] by (simp add: finish_write)
qed

interpretation grep_tool: file_tool
    "\<lambda>f s. run_bind (grep_loop pat f 0 [] 0 s) (\<lambda>(s, matches). ret (s, if matches \<noteq> 0 then 0 else 1))"
    "\<lambda>body. grep_text (grep_lines pat (file_lines body))" "\<lambda>body. if grep_lines pat (file_lines body) \<noteq> [] then 0 else 1"
  for pat :: string
proof
  fix s :: "'a kernel_scheme" and f n body
  assume "reading s f n body" "length body < 2 ^ 30"
  then show "run_bind (grep_loop pat f 0 [] 0 s) (\<lambda>(s, matches). ret (s, if matches \<noteq> 0 then 0 else 1)) =
      run_bind (console_write (grep_text (grep_lines pat (file_lines body))) s)
        (\<lambda>s. ret (s, if grep_lines pat (file_lines body) \<noteq> [] then 0 else 1))"
    using grep_loop_reading [of s f n body 0 "[]" pat 0] by (simp add: Let_def run_bind_assoc)
qed

interpretation hexdump_tool: file_tool "\<lambda>f s. finish (hexdump_loop f 0 s)" "\<lambda>body. concat (hex_rows 0 body)" "\<lambda>_. 0"
proof
  fix s :: "'a kernel_scheme" and f n body
  assume "reading s f n body" "length body < 2 ^ 30"
  then show "finish (hexdump_loop f 0 s) = run_bind (console_write (concat (hex_rows 0 body)) s) (\<lambda>s. ret (s, 0))"
    using hexdump_loop_reading [of s f n body 0] by (simp add: finish_write)
qed

interpretation wc_tool: file_tool
    "\<lambda>f s. run_bind (wc_count f 0 0 0 False s) (\<lambda>(lines, words). run_bind (node_at f s) (\<lambda>n.
       run_bind (kprintf (''%6u %6u %6u %s'' @ [NL]) [Word lines, Word words, Word (n_size n), Str (Some name)] s) (wc_loop [])))"
    "wc_text name" "\<lambda>_. 0"
  for name :: string
proof
  fix s :: "'a kernel_scheme" and f n body
  assume r: "reading s f n body" and small: "length body < 2 ^ 30"
  note R = readingD [OF r]
  have b: "contents (heap s) n = body" "nodes s f = Some n" using r by (simp_all add: reading_def)
  have "count_list body NL \<le> length body" by (rule count_le_length)
  then have u: "unat (of_nat (count_list body NL) :: u32) = count_list body NL"
      "unat (of_nat (length (text_words body)) :: u32) = length (text_words body)"
    using small text_words_length [of body] by (auto intro!: unat_of_nat_u32)
  have wl: "wc_loop [] = (\<lambda>s :: 'a kernel_scheme. ret (s, 0))" by (rule ext) simp
  show "run_bind (wc_count f 0 0 0 False s) (\<lambda>(lines, words). run_bind (node_at f s) (\<lambda>n.
       run_bind (kprintf (''%6u %6u %6u %s'' @ [NL]) [Word lines, Word words, Word (n_size n), Str (Some name)] s) (wc_loop []))) =
     run_bind (console_write (wc_text name body) s) (\<lambda>s. ret (s, 0))"
    unfolding wc_counts [OF b(2)] b(1) run_bind_simps prod.case R(1) kprintf_eq [OF wc_format] u R(2) [symmetric] wl wc_text_def ..
qed

section \<open>Properties\<close>

text \<open>A booted machine at its first prompt, and the file the witnesses read.\<close>

lemma motd_here:
  assumes "mounted initial_view 4000000 s" "shell_cwd s = root s"
  shows "ramfs_inv s" "named s [] (shell_cwd s)"
    "walk_view (fs_view s) (start_path [] ''/etc/motd'') (components ''/etc/motd'') = Some [''etc'', ''motd'']"
    "([''etc'', ''motd''], File motd_text) \<in> fs_view s"
proof -
  show i: "ramfs_inv s" "named s [] (shell_cwd s)" using assms by (simp_all add: mounted_def)
  have "fs_view s = initial_view" using assms by (simp add: mounted_def)
  then show "walk_view (fs_view s) (start_path [] ''/etc/motd'') (components ''/etc/motd'') = Some [''etc'', ''motd'']"
    "([''etc'', ''motd''], File motd_text) \<in> fs_view s"
    by (simp_all add: initial_view_def initial_dirs_def view_eval start_path_def)
qed

text \<open>
  C32. \<^verbatim>\<open>grep\<close> finds the matching lines: it prints, in order, each non-empty line of the file in which the pattern
  occurs, as far as the line buffer keeps it (255 characters, up to a NUL byte), and returns 0 exactly if
  there was one.
\<close>

theorem grep_prints_matches:
  fixes s :: "'a kernel_scheme"
  assumes "ramfs_inv s" "named s C (shell_cwd s)" "NUL \<notin> set path"
    "walk_view (fs_view s) (start_path C path) (components path) = Some A" "(A, File body) \<in> fs_view s"
    "live_console s" "capture_buf s = NULL"
  shows "let ls = grep_lines pat (file_lines body)
    in outputs s (grep_text ls) (if ls \<noteq> [] then 0 else 1) (cmd_grep [''grep'', pat, path] s)"
  using grep_tool.on_file [OF assms, of pat] by (simp add: cmd_grep_def Let_def cong: if_cong)

theorem grep_prints_matches_witness:
  "\<exists>s :: kernel. outputs s (grep_text (grep_lines ''Raptor'' (file_lines motd_text))) 0
     (cmd_grep [''grep'', ''Raptor'', ''/etc/motd''] s)"
proof -
  obtain s :: kernel where s: "mounted initial_view 4000000 s" "shell_cwd s = root s" "live_console s" "capture_buf s = NULL"
    by (rule kernel_console)
  have "grep_lines ''Raptor'' (file_lines motd_text) \<noteq> []" by code_simp
  then show ?thesis using grep_prints_matches [OF motd_here(1,2) _ motd_here(3,4) s(3,4), of "''Raptor''"] s(1,2)
    by (auto simp: Let_def)
qed

text \<open>
  \<^verbatim>\<open>head\<close> prints the first lines: with the limit its options give (10 by default), it prints exactly that many
  lines of the named file, or all of it if there are fewer.
\<close>

theorem head_prints_lines:
  fixes s :: "'a kernel_scheme"
  assumes "head_args args 10 None = (limit, Some path)" "ramfs_inv s" "named s C (shell_cwd s)" "NUL \<notin> set path"
    "walk_view (fs_view s) (start_path C path) (components path) = Some A" "(A, File body) \<in> fs_view s"
    "live_console s" "capture_buf s = NULL"
  shows "outputs s (concat (take (unat limit) (line_list body))) 0 (cmd_head (''head'' # args) s)"
  using head_tool.on_file [OF assms(2-8), of limit] assms(1) by (simp add: cmd_head_def)

theorem head_prints_lines_witness:
  "\<exists>s :: kernel. outputs s (concat (take 1 (line_list motd_text))) 0 (cmd_head [''head'', ''-n'', ''1'', ''/etc/motd''] s)"
proof -
  obtain s :: kernel where s: "mounted initial_view 4000000 s" "shell_cwd s = root s" "live_console s" "capture_buf s = NULL"
    by (rule kernel_console)
  have "head_args [''-n'', ''1'', ''/etc/motd''] 10 None = (1, Some ''/etc/motd'')" by code_simp
  from head_prints_lines [OF this motd_here(1,2) _ motd_here(3,4) s(3,4)] s(1,2) show ?thesis by auto
qed

text \<open>
  C33. \<^verbatim>\<open>hexdump\<close> loses nothing: it prints rows of offset, hexadecimal columns and characters for sixteen bytes each,
  and reading the columns back gives the bytes of the file.
\<close>

theorem hexdump_roundtrip:
  fixes s :: "'a kernel_scheme"
  assumes "ramfs_inv s" "named s C (shell_cwd s)" "NUL \<notin> set path"
    "walk_view (fs_view s) (start_path C path) (components path) = Some A" "(A, File body) \<in> fs_view s"
    "live_console s" "capture_buf s = NULL"
  shows "outputs s (concat (hex_rows 0 body)) 0 (cmd_hexdump [''hexdump'', path] s) \<and> undump (concat (hex_rows 0 body)) = body"
proof -
  have "length body < 2 ^ 32"
  proof -
    obtain p n where "contents (heap s) n = body" using want_file_found [OF assms(1-5)] by metis
    then show ?thesis using unat_u32_lt [of "n_size n"] by (auto simp: contents_def)
  qed
  then show ?thesis using hexdump_tool.on_file [OF assms] undump_rows [of 0 body] by (simp add: cmd_hexdump_def)
qed

theorem hexdump_roundtrip_witness:
  "\<exists>s :: kernel. outputs s (concat (hex_rows 0 motd_text)) 0 (cmd_hexdump [''hexdump'', ''/etc/motd''] s) \<and>
     undump (concat (hex_rows 0 motd_text)) = motd_text"
proof -
  obtain s :: kernel where s: "mounted initial_view 4000000 s" "shell_cwd s = root s" "live_console s" "capture_buf s = NULL"
    by (rule kernel_console)
  from hexdump_roundtrip [OF motd_here(1,2) _ motd_here(3,4) s(3,4)] s(1,2) show ?thesis by auto
qed

text \<open>
  C34. \<^verbatim>\<open>wc\<close> counts: for each file it prints the number of newlines, the number of words (maximal runs of characters
  other than blank, tab and newline) and the number of bytes, right-aligned, and the name it was given.
\<close>

theorem wc_prints_counts:
  fixes s :: "'a kernel_scheme"
  assumes "ramfs_inv s" "named s C (shell_cwd s)" "NUL \<notin> set path"
    "walk_view (fs_view s) (start_path C path) (components path) = Some A" "(A, File body) \<in> fs_view s"
    "live_console s" "capture_buf s = NULL"
  shows "outputs s (wc_text path body) 0 (cmd_wc [''wc'', path] s)"
  using wc_tool.on_file [OF assms, of path] by (simp add: cmd_wc_def)

theorem wc_prints_counts_witness:
  "\<exists>s :: kernel. outputs s (wc_text ''/etc/motd'' motd_text) 0 (cmd_wc [''wc'', ''/etc/motd''] s)"
proof -
  obtain s :: kernel where s: "mounted initial_view 4000000 s" "shell_cwd s = root s" "live_console s" "capture_buf s = NULL"
    by (rule kernel_console)
  from wc_prints_counts [OF motd_here(1,2) _ motd_here(3,4) s(3,4)] s(1,2) show ?thesis by auto
qed

end
