(* ===== verification/Spec2Isabelle.thy ===== *)
theory Spec2Isabelle
  imports TypedLine RamfsProps Entry Preemption TextTools
begin

text \<open>
  A verification of the Raptor kernel, a monolithic i386 kernel in C: memory management, device drivers,
  an in-memory filesystem and an interactive shell, all in one address space.

  \<^bold>\<open>The program.\<close> \<^verbatim>\<open>kmain\<close> (kernel/main.c) sets up the console, the descriptor tables, the timer, the keyboard,
  the kernel heap, the frame allocator, paging and the filesystem, in this order, and enters the shell,
  which never returns. All dynamic memory comes from the kernel heap (mm/kheap.c): filesystem nodes, file
  contents and the buffer that captures a command's output. All output goes through the console
  (lib/console.c) to the screen and the serial line, or into the capture buffer. Input comes from the keyboard
  ring, which the interrupt handler fills, and from the serial line. The shell (shell/shell.c) reads a line,
  splits it, and runs a command (shell/commands.c) on the filesystem (fs/ramfs.c).

  \<^bold>\<open>How code is modelled.\<close> A C function is a function of the same name. Integers are words of their
  width, addresses 32-bit words. Fallible code is a \<open>run\<close> (Prelude): \<open>ret v\<close>, a panic with its message, a fault
  (a dereferenced pointer to no live object, an index outside its array), or \<open>None\<close>, a run that never ends.
  Loops over data are structural or have a termination proof; loops that wait for hardware or follow
  pointers are partial functions into \<open>run\<close>, so that termination is a theorem and never an assumption. No
  definition has fuel. The state is a chain of records, each component adding the variables of its file:
  \<open>io\<close>, \<open>timer\<close>, \<open>keyboard\<close>, \<open>interrupts\<close>, \<open>vga\<close>, \<open>console\<close> (with the \<open>kheap\<close>), \<open>ramfs\<close>, \<open>kernel\<close> (with the \<open>pmm\<close> and \<open>paging\<close>
  records). A C function that only touches the variables of one file is a function on that record and
  applies to every extension.

  \<^bold>\<open>Theories and sources.\<close>
  \<^item> Prelude: machine integers, outcomes, shared lemmas on words and lists.
  \<^item> CString (lib/string.c): the memory and string routines on a byte memory, and their counterparts on
    strings, proved equal, which the other components call.
  \<^item> Kheap, KheapSafety (mm/kheap.c): the first-fit heap as linked headers; the invariant \<open>heap_inv\<close>, the set
    \<open>live\<close> of allocated blocks, and what clients rely on.
  \<^item> Pmm (mm/pmm.c) and Paging (mm/paging.c): the frame bitmap against the set of used frames; the page
    directory against the processor's rule of translation.
  \<^item> Io (include/raptor/io.h, drivers/serial.c, drivers/rtc.c): a device is a function from the whole history
    of port events to the value read, so properties quantify over all deterministic devices.
  \<^item> Keyboard (drivers/keyboard.c) and Interrupts (kernel/gdt.c, kernel/idt.c, drivers/timer.c): decoding, the
    ring, the tables, dispatch, sleeping.
  \<^item> Vga (drivers/vga.c), Console (lib/console.c), Kprintf (lib/kprintf.c), Panic (kernel/panic.c): output, input
    and death.
  \<^item> Ramfs (fs/ramfs.c): nodes in an address-indexed store, each of them a block of the heap. RamfsTree,
    RamfsLookup, RamfsOps, RamfsWrite, RamfsRemove, RamfsSpec, RamfsRoom, RamfsBoot and RamfsProps prove it.
  \<^item> Commands (shell/commands.c) and Shell (shell/shell.c); ShellText, ShellFiles, ShellProps, CommandProps,
    TextTools and LineEdit prove their functional behaviour.
  \<^item> Boot and BootProps (kernel/main.c).
  \<^item> Stubs (kernel/isr.S) and Entry (boot/boot.S): the assembly code, run on a small i386.
  \<^item> Preemption (drivers/keyboard.c, drivers/timer.c): the code that shares variables with interrupt handlers,
    one access at a time.
  \<^item> SafeRun, ShellSafe, CommandSafe, SystemSafe, FileSafe, MoveSafe, Session, TypedLine: the whole kernel at
    work.

  \<^bold>\<open>Interfaces.\<close> Each is a locale, interpreted on the model of the code: \<open>block_allocator\<close> (what a client may assume
  of \<^verbatim>\<open>kmalloc\<close> and \<^verbatim>\<open>kfree\<close>), \<open>bounded_queue\<close> (the keyboard ring), \<open>frame_pool\<close> (the frame allocator), \<open>file_store\<close> (the
  operations of the filesystem on its abstract view) and its extension \<open>sized_store\<close> (when they cannot
  fail), \<open>file_tool\<close> (a command that prints a function of the bytes of one file, interpreted on \<^verbatim>\<open>head\<close>, \<^verbatim>\<open>grep\<close>, \<^verbatim>\<open>hexdump\<close>
  and \<^verbatim>\<open>wc\<close>).

  \<^bold>\<open>What is shown.\<close>
  \<^item> Heap: the invariant (headers tile the heap, links agree, no two free neighbours) holds initially and
    is kept; allocations are aligned, in bounds and disjoint; a free restores the structure; a second free
    panics; the statistics are exact.
  \<^item> Filesystem: the abstract view is a set of absolute paths with their contents. Under \<open>ramfs_inv\<close> every
    operation returns, keeps the invariant, and changes the view as specified, on success and on refusal;
    no operation leaks or touches freed memory. Printing a path and resolving it are inverse.
  \<^item> Drivers and console: the ring is a FIFO queue, interrupts decode keys, sleeping takes exactly its ticks,
    the clock is read consistently, output reaches screen and serial line unchanged, formatting agrees with
    a pure formatter, no write leaves the screen.
  \<^item> Interrupt entry: the gates of \<^verbatim>\<open>idt_init\<close> lead to the stubs, which give the handler the registers of the
    interrupted code and resume it unchanged, whatever a handler does that keeps the C calling convention
    (\<open>cdecl\<close>); vector 29 is the exception (\<open>isr29_frame_shifted\<close>).
  \<^item> Preemption: however interrupts fall between the accesses of \<^verbatim>\<open>keyboard_read\<close> to the ring, the results are
    those of the atomic \<^verbatim>\<open>keyboard_read\<close> of the rest of the development; a read of the 64-bit tick counter is
    exact unless its lower half wraps in the middle (\<open>timer_ticks_loads_torn\<close>).
  \<^item> Boot: the entry code brings the processor into the higher half and calls \<^verbatim>\<open>kmain\<close> with its arguments; a
    cold machine reaches the shell with exactly the initial tree mounted, or panics on a foreign
    boot loader.
  \<^item> Shell: line editing, history, word splitting, redirection, copying and the text tools do what a pure
    description says; \<open>typed_echo_stores\<close> follows a line from the keys to the stored bytes.
  \<^item> Safety of sessions: \<open>safe P r\<close> says that a run neither panics nor faults and that its result, if it returns,
    satisfies \<open>P\<close>. \<open>shell_inv\<close> is the invariant of the running kernel; every command, with or without
    redirection, the prompt and the line editor keep it for all arguments, files and devices. Two kinds of
    line are excluded (\<open>tame_line\<close>), because the code does not guard against them: \<^verbatim>\<open>rm -r\<close> of a directory above
    the working directory, which frees the node the shell stands in (\<open>rm_above_cwd_dangles\<close>), and \<^verbatim>\<open>mv\<close> to a
    path with a component of 32 characters or more, which can duplicate a name
    (\<open>ramfs_move_long_name_clashes\<close>).

  \<^bold>\<open>Bounds.\<close> A creation succeeds when some free block has 103 bytes, a write of \<open>n\<close> bytes when one has \<open>2 n + 107\<close>
  (both from the sizes in the code); writes are described up to 1 GiB, far beyond the 4 MiB heap, because
  the doubling loop of \<^verbatim>\<open>ramfs_write\<close> does not end above 2 GiB. A captured output is at most 16384 bytes. Paths
  are printed in full down to 32 levels, as in the code.

  \<^bold>\<open>Not modelled.\<close> The linker script: the addresses it provides are the parameters \<open>image\<close> and \<open>labels\<close>, and what the
  entry code needs of them is \<open>layout_ok\<close>. In the C functions interrupts come where the kernel waits for one
  (\<^verbatim>\<open>hlt\<close>); at other points a handler touches only the ring, the keyboard's modifiers, the tick counter and the
  ports of the keyboard and the interrupt controllers, and the code that reads the ring and the counter is
  treated in Preemption. What the kernel prints when \<^verbatim>\<open>panic\<close> is called inside
  the heap or the frame allocator is only the message in the outcome (Panic models the screen itself). Writes
  to the control registers are recorded as state. The number of lines entered, an \<^verbatim>\<open>int\<close> in the code, is a
  natural number. The build rules, the smoke test and the documents hold no kernel logic.
\<close>

section \<open>The kernel as a whole\<close>



end
